(* ===== verification/Prelude.thy ===== *)
theory Prelude
  imports Main "HOL-Library.Word" "HOL-Library.Monad_Syntax" "HOL-Library.Signed_Division"
begin

text \<open>
  What every component shares.

  \<^item> Undefined behaviour as a value: an operation of the source that may dereference \<open>NULL\<close> or a
    freed object, index outside an array, overflow a signed integer or fail an \<open>assert\<close> returns an
    \<open>option\<close>, with \<open>None\<close> for that outcome; \<open>do\<close> blocks sequence such operations.
  \<^item> \<open>require\<close> writes such a check, \<open>foldM\<close> is a \<open>for\<close> loop over a list of indices.
  \<^item> The conversions of C++ integers: \<open>to_s32\<close>, \<open>to_s64\<close> are the conversions to \<open>int\<close> and
    \<open>long long\<close> of the compilers the project targets (two's complement, the low bits are kept).
    Unsigned 64-bit values are \<open>64 word\<close>, signed values are \<open>int\<close> with their range checked where
    the code can leave it; \<open>smod\<close> and \<open>sdiv\<close> truncate towards zero as \<open>%\<close> and \<open>/\<close> do.
\<close>

section \<open>Names shared by the theories\<close>

type_synonym addr = nat
type_synonym ptr = "addr option"
type_synonym u64 = "64 word"
type_synonym u32 = "32 word"
type_synonym byte = "8 word"

named_theorems ub_simps \<open>equations that evaluate the checked operations\<close>

section \<open>Checked operations\<close>

definition require :: "bool \<Rightarrow> unit option" where
  "require b = (if b then Some () else None)"

lemma require_True [simp, ub_simps]: "require True = Some ()"
  by (simp add: require_def)

lemma require_False [simp, ub_simps]: "require False = None"
  by (simp add: require_def)

lemma require_eq_Some [simp]: "require b = Some u \<longleftrightarrow> b"
  by (simp add: require_def)

lemma require_eq_None [simp]: "require b = None \<longleftrightarrow> \<not> b"
  by (simp add: require_def)

lemma require_bind [simp, ub_simps]: "(require b \<bind> f) = (if b then f () else None)"
  by (simp add: require_def)

lemma bind_SomeE:
  assumes "(m \<bind> f) = Some y"
  obtains x where "m = Some x" "f x = Some y"
  using assms by (auto simp: bind_eq_Some_conv)

text \<open>A loop whose body may have undefined behaviour.\<close>

primrec foldM :: "('x \<Rightarrow> 's \<Rightarrow> 's option) \<Rightarrow> 'x list \<Rightarrow> 's \<Rightarrow> 's option" where
  "foldM f [] s = Some s"
| "foldM f (x # xs) s = (f x s \<bind> foldM f xs)"

lemma foldM_append: "foldM f (xs @ ys) s = (foldM f xs s \<bind> foldM f ys)"
proof (induction xs arbitrary: s)
  case Nil
  then show ?case by simp
next
  case (Cons x xs)
  then show ?case by (cases "f x s") simp_all
qed

lemma foldM_map: "foldM f (map g xs) s = foldM (\<lambda>x. f (g x)) xs s"
proof (induction xs arbitrary: s)
  case Nil
  then show ?case by simp
next
  case (Cons x xs)
  then show ?case by (cases "f (g x) s") simp_all
qed

lemma foldM_cong:
  assumes "\<And>x t. x \<in> set xs \<Longrightarrow> f x t = g x t"
  shows "foldM f xs s = foldM g xs s"
  using assms
proof (induction xs arbitrary: s)
  case Nil
  then show ?case by simp
next
  case (Cons x xs)
  then show ?case by (cases "g x s") simp_all
qed

lemma foldM_invariant:
  assumes "foldM f xs s = Some s'" and "I s"
    and "\<And>x t t'. x \<in> set xs \<Longrightarrow> I t \<Longrightarrow> f x t = Some t' \<Longrightarrow> I t'"
  shows "I s'"
  using assms
proof (induction xs arbitrary: s)
  case Nil
  then show ?case by simp
next
  case (Cons x xs)
  from Cons.prems(1) obtain t where t: "f x s = Some t" "foldM f xs t = Some s'"
    by (auto simp: bind_eq_Some_conv)
  have "I t"
    using Cons.prems(2) Cons.prems(3) [OF _ _ t(1)] by simp
  then show ?case
    using Cons.prems(3) by (intro Cons.IH [OF t(2)]) auto
qed

section \<open>C++ integers\<close>

definition to_s32 :: "int \<Rightarrow> int" where
  "to_s32 x = signed_take_bit 31 x"

definition to_s64 :: "int \<Rightarrow> int" where
  "to_s64 x = signed_take_bit 63 x"

definition in_s32 :: "int \<Rightarrow> bool" where
  "in_s32 x \<longleftrightarrow> - (2 ^ 31) \<le> x \<and> x < 2 ^ 31"

definition in_s64 :: "int \<Rightarrow> bool" where
  "in_s64 x \<longleftrightarrow> - (2 ^ 63) \<le> x \<and> x < 2 ^ 63"

lemma to_s32_id: "in_s32 x \<Longrightarrow> to_s32 x = x"
  by (simp add: to_s32_def in_s32_def signed_take_bit_int_eq_self)

lemma to_s64_id: "in_s64 x \<Longrightarrow> to_s64 x = x"
  by (simp add: to_s64_def in_s64_def signed_take_bit_int_eq_self)

lemma to_s32_wrap:
  assumes "2 ^ 31 \<le> x" "x < 2 ^ 32"
  shows "to_s32 x = x - 2 ^ 32"
proof -
  have "signed_take_bit 31 x = signed_take_bit 31 (x - 2 ^ 32)"
    by (simp add: signed_take_bit_eq_iff_take_bit_eq take_bit_eq_mod mod_eq_dvd_iff)
  also have "\<dots> = x - 2 ^ 32"
    using assms by (intro signed_take_bit_int_eq_self) auto
  finally show ?thesis
    by (simp add: to_s32_def)
qed

lemma uint_diff_le:
  fixes a b :: u64
  assumes "a \<le> b"
  shows "uint (b - a) = uint b - uint a"
  using assms by (simp add: uint_sub_lem word_le_def)

lemma smod_nonneg_eq_mod:
  fixes a b :: int
  assumes "0 \<le> a" "0 < b"
  shows "a smod b = a mod b"
  using assms by (cases "a = 0") (simp_all add: signed_modulo_int_def signed_divide_int_def)

section \<open>Lists stored in buckets by key\<close>

text \<open>\<open>B 0, B 1, \<dots>\<close> hold elements whose key is the number of their bucket.\<close>

lemma buckets_filter_less:
  fixes key :: "'a \<Rightarrow> int"
  assumes "\<And>d x. d < n \<Longrightarrow> x \<in> set (B d) \<Longrightarrow> key x = s + int d"
  shows "filter (\<lambda>x. key x < s + int k) (concat (map B [0..<n])) = concat (map B [0..<min k n])"
  using assms
proof (induction n)
  case 0
  then show ?case by simp
next
  case (Suc n)
  then have IH: "filter (\<lambda>x. key x < s + int k) (concat (map B [0..<n])) = concat (map B [0..<min k n])"
    by simp
  have "key x = s + int n" if "x \<in> set (B n)" for x
    using Suc.prems that by simp
  then have "filter (\<lambda>x. key x < s + int k) (B n) = (if n < k then B n else [])"
    by (auto simp: filter_empty_conv intro!: filter_True)
  with IH show ?case
    by (cases "n < k") (auto simp: min_def not_less le_Suc_eq)
qed

lemma buckets_filter_ge:
  fixes key :: "'a \<Rightarrow> int"
  assumes "\<And>d x. d < n \<Longrightarrow> x \<in> set (B d) \<Longrightarrow> key x = s + int d"
  shows "filter (\<lambda>x. \<not> key x < s + int k) (concat (map B [0..<n])) = concat (map B [k..<n])"
  using assms
proof (induction n)
  case 0
  then show ?case by simp
next
  case (Suc n)
  then have IH: "filter (\<lambda>x. \<not> key x < s + int k) (concat (map B [0..<n])) = concat (map B [k..<n])"
    by simp
  have "key x = s + int n" if "x \<in> set (B n)" for x
    using Suc.prems that by simp
  then have "filter (\<lambda>x. \<not> key x < s + int k) (B n) = (if n < k then [] else B n)"
    by (auto simp: filter_empty_conv intro!: filter_True)
  with IH show ?case
    by (cases "n < k") auto
qed

lemma buckets_sorted:
  fixes key :: "'a \<Rightarrow> int"
  assumes "\<And>d x. d < n \<Longrightarrow> x \<in> set (B d) \<Longrightarrow> key x = s + int d"
  shows "sorted (map key (concat (map B [0..<n])))"
  using assms
proof (induction n)
  case 0
  then show ?case by simp
next
  case (Suc n)
  have IH: "sorted (map key (concat (map B [0..<n])))"
    using Suc.prems by (intro Suc.IH) simp
  have "map key (B n) = replicate (length (B n)) (s + int n)"
    using Suc.prems by (simp add: list_eq_iff_nth_eq)
  then have "sorted (map key (B n))"
    by (simp add: sorted_wrt_iff_nth_less)
  moreover have "key x \<le> key y" if "x \<in> set (concat (map B [0..<n]))" "y \<in> set (B n)" for x y
  proof -
    from that(1) obtain d where "d < n" "x \<in> set (B d)" by auto
    with that(2) show ?thesis using Suc.prems [of d x] Suc.prems [of n y] by simp
  qed
  ultimately show ?case
    using IH by (simp add: sorted_append)
qed

section \<open>Invariants of step relations\<close>

text \<open>A predicate that every step keeps holds in every state that is reached from one where it holds.\<close>

locale preserved =
  fixes step :: "'s \<Rightarrow> 's \<Rightarrow> bool" and inv :: "'s \<Rightarrow> bool"
  assumes keeps: "step s t \<Longrightarrow> inv s \<Longrightarrow> inv t"
begin

lemma reached: "step\<^sup>*\<^sup>* s t \<Longrightarrow> inv s \<Longrightarrow> inv t"
  by (induction rule: rtranclp_induct) (auto intro: keeps)

end

end
