(* ===== verification/Links.thy ===== *)
theory Links
  imports Prelude
begin

text \<open>
  The intrusive doubly linked lists of \<open>src/libco/co_routine.cpp\<close>: the function templates
  \<open>RemoveFromLink\<close>, \<open>AddTail\<close>, \<open>PopHead\<close> and \<open>Join\<close>.
\<close>

section \<open>Nodes, list headers and the heap that holds them\<close>

text \<open>
  The templates are instantiated at \<open>stTimeoutItem_t\<close>/\<open>stTimeoutItemLink_t\<close> and at
  \<open>stCoCondItem_t\<close>/\<open>stCoCond_t\<close>. They use three fields of a node and the two fields of a header, so
  a node is an extensible record: the two instances extend \<open>lnode\<close> by their own fields.
\<close>

record lnode =
  pPrev :: ptr
  pNext :: ptr
  pLink :: ptr

record llink =
  head :: ptr
  tail :: ptr

record 'z lmem =
  nodes :: "addr \<rightharpoonup> 'z lnode_scheme"
  links :: "addr \<rightharpoonup> llink"

definition set_node ::
  "('z lnode_scheme \<Rightarrow> 'z lnode_scheme) \<Rightarrow> addr \<Rightarrow> 'z lmem \<Rightarrow> 'z lmem option" where
  "set_node f p m = (case nodes m p of None \<Rightarrow> None
     | Some n \<Rightarrow> Some (m\<lparr>nodes := (nodes m)(p \<mapsto> f n)\<rparr>))"

definition set_link :: "(llink \<Rightarrow> llink) \<Rightarrow> addr \<Rightarrow> 'z lmem \<Rightarrow> 'z lmem option" where
  "set_link f p m = (case links m p of None \<Rightarrow> None
     | Some l \<Rightarrow> Some (m\<lparr>links := (links m)(p \<mapsto> f l)\<rparr>))"

section \<open>The four templates\<close>

definition RemoveFromLink :: "addr \<Rightarrow> 'z lmem \<Rightarrow> 'z lmem option" where
  "RemoveFromLink ap m = do {
     n \<leftarrow> nodes m ap;
     (case pLink n of
        None \<Rightarrow> Some m
      | Some lst \<Rightarrow> do {
          l \<leftarrow> links m lst;
          require (head l \<noteq> None \<and> tail l \<noteq> None);
          m1 \<leftarrow> (if Some ap = head l
                then do {
                  m0 \<leftarrow> set_link (head_update (\<lambda>_. pNext n)) lst m;
                  (case pNext n of None \<Rightarrow> Some m0
                   | Some h \<Rightarrow> set_node (pPrev_update (\<lambda>_. None)) h m0) }
                else (case pPrev n of None \<Rightarrow> Some m
                   | Some p \<Rightarrow> set_node (pNext_update (\<lambda>_. pNext n)) p m));
          n1 \<leftarrow> nodes m1 ap;
          l1 \<leftarrow> links m1 lst;
          m2 \<leftarrow> (if Some ap = tail l1
                then do {
                  m0 \<leftarrow> set_link (tail_update (\<lambda>_. pPrev n1)) lst m1;
                  (case pPrev n1 of None \<Rightarrow> Some m0
                   | Some t \<Rightarrow> set_node (pNext_update (\<lambda>_. None)) t m0) }
                else do {
                  q \<leftarrow> pNext n1;
                  set_node (pPrev_update (\<lambda>_. pPrev n1)) q m1 });
          set_node (\<lambda>n. n\<lparr>pPrev := None, pNext := None, pLink := None\<rparr>) ap m2 }) }"

definition AddTail :: "addr \<Rightarrow> addr \<Rightarrow> 'z lmem \<Rightarrow> 'z lmem option" where
  "AddTail apLink ap m = do {
     n \<leftarrow> nodes m ap;
     if pLink n \<noteq> None then Some m
     else do {
       l \<leftarrow> links m apLink;
       m1 \<leftarrow> (case tail l of
              Some t \<Rightarrow> do {
                m0 \<leftarrow> set_node (pNext_update (\<lambda>_. Some ap)) t m;
                m0 \<leftarrow> set_node (\<lambda>n. n\<lparr>pNext := None, pPrev := Some t\<rparr>) ap m0;
                set_link (tail_update (\<lambda>_. Some ap)) apLink m0 }
            | None \<Rightarrow> do {
                m0 \<leftarrow> set_link (\<lambda>l. l\<lparr>head := Some ap, tail := Some ap\<rparr>) apLink m;
                set_node (\<lambda>n. n\<lparr>pNext := None, pPrev := None\<rparr>) ap m0 });
       set_node (pLink_update (\<lambda>_. Some apLink)) ap m1 } }"

definition PopHead :: "addr \<Rightarrow> 'z lmem \<Rightarrow> 'z lmem option" where
  "PopHead apLink m = do {
     l \<leftarrow> links m apLink;
     (case head l of
        None \<Rightarrow> Some m
      | Some lp \<Rightarrow> do {
          n \<leftarrow> nodes m lp;
          m1 \<leftarrow> (if head l = tail l
                then set_link (\<lambda>l. l\<lparr>head := None, tail := None\<rparr>) apLink m
                else set_link (head_update (\<lambda>_. pNext n)) apLink m);
          m2 \<leftarrow> set_node (\<lambda>n. n\<lparr>pPrev := None, pNext := None, pLink := None\<rparr>) lp m1;
          l2 \<leftarrow> links m2 apLink;
          (case head l2 of None \<Rightarrow> Some m2
           | Some h \<Rightarrow> set_node (pPrev_update (\<lambda>_. None)) h m2) }) }"

text \<open>
  The \<open>while\<close> loop of \<open>Join\<close> walks the \<open>pNext\<close> chain and sets \<open>pLink\<close>. On a cyclic chain it would
  not return: \<open>relink\<close> is a partial function whose value there is \<open>None\<close>.
\<close>

partial_function (option) relink :: "addr \<Rightarrow> ptr \<Rightarrow> 'z lmem \<Rightarrow> 'z lmem option" where
  "relink apLink lp m = (case lp of
       None \<Rightarrow> Some m
     | Some p \<Rightarrow> do {
         m1 \<leftarrow> set_node (pLink_update (\<lambda>_. Some apLink)) p m;
         n \<leftarrow> nodes m1 p;
         relink apLink (pNext n) m1 })"

definition Join :: "addr \<Rightarrow> addr \<Rightarrow> 'z lmem \<Rightarrow> 'z lmem option" where
  "Join apLink apOther m = do {
     o0 \<leftarrow> links m apOther;
     (case head o0 of
        None \<Rightarrow> Some m
      | Some lp \<Rightarrow> do {
          m1 \<leftarrow> relink apLink (head o0) m;
          l \<leftarrow> links m1 apLink;
          ot \<leftarrow> links m1 apOther;
          m2 \<leftarrow> (case tail l of
                 Some t \<Rightarrow> do {
                   m0 \<leftarrow> set_node (pNext_update (\<lambda>_. Some lp)) t m1;
                   m0 \<leftarrow> set_node (pPrev_update (\<lambda>_. Some t)) lp m0;
                   set_link (tail_update (\<lambda>_. tail ot)) apLink m0 }
               | None \<Rightarrow> set_link (\<lambda>l. l\<lparr>head := head ot, tail := tail ot\<rparr>) apLink m1);
          set_link (\<lambda>l. l\<lparr>head := None, tail := None\<rparr>) apOther m2 }) }"

section \<open>The abstraction: which list each header holds\<close>

definition fst_or :: "addr list \<Rightarrow> ptr \<Rightarrow> ptr" where
  "fst_or xs d = (case xs of [] \<Rightarrow> d | x # _ \<Rightarrow> Some x)"

definition last_or :: "ptr \<Rightarrow> addr list \<Rightarrow> ptr" where
  "last_or d xs = (if xs = [] then d else Some (last xs))"

lemma fst_or_simps [simp]:
  "fst_or [] d = d" "fst_or (x # xs) d = Some x" "fst_or (xs @ ys) d = fst_or xs (fst_or ys d)"
  by (simp_all add: fst_or_def split: list.splits)

lemma last_or_simps [simp]:
  "last_or d [] = d" "last_or d (x # xs) = last_or (Some x) xs"
  "last_or d (xs @ ys) = last_or (last_or d xs) ys"
  by (simp_all add: last_or_def)

lemma last_or_Some_eq: "last_or (Some x) xs = Some y \<longleftrightarrow> last (x # xs) = y"
  by (simp add: last_or_def)

lemma last_or_Some_neq_None [simp]: "last_or (Some x) xs \<noteq> None"
  by (simp add: last_or_def)

text \<open>A segment of a list: the chain of nodes between a previous and a next pointer.\<close>

fun dseg :: "(addr \<rightharpoonup> 'z lnode_scheme) \<Rightarrow> addr \<Rightarrow> ptr \<Rightarrow> addr list \<Rightarrow> ptr \<Rightarrow> bool" where
  "dseg h lk pr [] nx \<longleftrightarrow> True"
| "dseg h lk pr (x # xs) nx \<longleftrightarrow>
     (\<exists>n. h x = Some n \<and> pPrev n = pr \<and> pNext n = fst_or xs nx \<and> pLink n = Some lk) \<and>
     dseg h lk (Some x) xs nx"

lemma dseg_append [simp]:
  "dseg h lk pr (xs @ ys) nx \<longleftrightarrow>
     dseg h lk pr xs (fst_or ys nx) \<and> dseg h lk (last_or pr xs) ys nx"
  by (induction xs arbitrary: pr) auto

lemma dseg_cong:
  "(\<And>x. x \<in> set xs \<Longrightarrow> h' x = h x) \<Longrightarrow> dseg h' lk pr xs nx = dseg h lk pr xs nx"
  by (induction xs arbitrary: pr) auto

lemma dseg_upd_notin [simp]:
  "p \<notin> set xs \<Longrightarrow> dseg (h(p \<mapsto> v)) lk pr xs nx = dseg h lk pr xs nx"
  by (rule dseg_cong) auto

lemma dseg_pLink: "dseg h lk pr xs nx \<Longrightarrow> x \<in> set xs \<Longrightarrow> \<exists>n. h x = Some n \<and> pLink n = Some lk"
  by (induction xs arbitrary: pr) auto

definition list_ok :: "'z lmem \<Rightarrow> addr \<Rightarrow> addr list \<Rightarrow> bool" where
  "list_ok m lk xs \<longleftrightarrow>
     (\<exists>l. links m lk = Some l \<and> head l = fst_or xs None \<and> tail l = last_or None xs) \<and>
     dseg (nodes m) lk None xs None \<and> distinct xs"

text \<open>
  \<open>repr m A\<close>: every header \<open>lk\<close> of \<open>m\<close> heads a well-formed list, which is \<open>A lk\<close>, and a node whose
  \<open>pLink\<close> is set is in the list it names.
\<close>

definition repr :: "'z lmem \<Rightarrow> (addr \<Rightarrow> addr list) \<Rightarrow> bool" where
  "repr m A \<longleftrightarrow>
     (\<forall>lk. links m lk \<noteq> None \<longrightarrow> list_ok m lk (A lk)) \<and>
     (\<forall>lk. links m lk = None \<longrightarrow> A lk = []) \<and>
     (\<forall>x n lk. nodes m x = Some n \<longrightarrow> pLink n = Some lk \<longrightarrow> x \<in> set (A lk))"

definition same_data :: "'z lmem \<Rightarrow> 'z lmem \<Rightarrow> bool" where
  "same_data m m' \<longleftrightarrow> dom (links m') = dom (links m) \<and>
     (\<forall>y. map_option lnode.more (nodes m' y) = map_option lnode.more (nodes m y))"

definition linked :: "(addr \<Rightarrow> addr list) \<Rightarrow> addr \<Rightarrow> bool" where
  "linked A x \<longleftrightarrow> (\<exists>lk. x \<in> set (A lk))"

lemma same_data_refl [simp, intro]: "same_data m m"
  by (simp add: same_data_def)

lemma same_data_trans [trans]: "same_data a b \<Longrightarrow> same_data b c \<Longrightarrow> same_data a c"
  by (simp add: same_data_def)

lemma same_data_links: "same_data m m' \<Longrightarrow> links m' lk = None \<longleftrightarrow> links m lk = None"
  unfolding same_data_def by (metis domIff)

lemma same_data_nodes: "same_data m m' \<Longrightarrow> nodes m' x = None \<longleftrightarrow> nodes m x = None"
  unfolding same_data_def by (metis map_option_is_None)

lemma repr_list_ok: "repr m A \<Longrightarrow> links m lk = Some l \<Longrightarrow> list_ok m lk (A lk)"
  by (auto simp: repr_def)

lemma repr_None: "repr m A \<Longrightarrow> links m lk = None \<Longrightarrow> A lk = []"
  by (auto simp: repr_def)

lemma repr_link_defined: "repr m A \<Longrightarrow> x \<in> set (A lk) \<Longrightarrow> \<exists>l. links m lk = Some l"
  by (cases "links m lk") (auto dest: repr_None)

lemma repr_pLink:
  assumes "repr m A" "x \<in> set (A lk)"
  shows "\<exists>n. nodes m x = Some n \<and> pLink n = Some lk"
proof -
  obtain l where "links m lk = Some l"
    using repr_link_defined [OF assms] by blast
  then have "dseg (nodes m) lk None (A lk) None"
    using repr_list_ok [OF assms(1)] by (simp add: list_ok_def)
  then show ?thesis
    using assms(2) by (rule dseg_pLink)
qed

lemma repr_disjoint: "repr m A \<Longrightarrow> x \<in> set (A lk) \<Longrightarrow> x \<in> set (A lk') \<Longrightarrow> lk = lk'"
  by (metis option.inject repr_pLink)

lemma repr_distinct: "repr m A \<Longrightarrow> distinct (A lk)"
  by (cases "links m lk") (auto simp: repr_def list_ok_def)

lemma repr_unlinked: "repr m A \<Longrightarrow> nodes m x = Some n \<Longrightarrow> pLink n = None \<longleftrightarrow> \<not> linked A x"
proof
  assume "repr m A" "nodes m x = Some n" "pLink n = None"
  then show "\<not> linked A x"
    unfolding linked_def by (metis option.distinct(1) option.inject repr_pLink)
next
  assume "repr m A" "nodes m x = Some n" "\<not> linked A x"
  then show "pLink n = None"
    unfolding linked_def repr_def by (cases "pLink n") blast+
qed

text \<open>
  How an operation that rewrites the lists of some headers \<open>L\<close> re-establishes \<open>repr\<close>.
\<close>

lemma repr_update:
  assumes "repr m A"
    and other_links: "\<And>lk. lk \<notin> L \<Longrightarrow> links m' lk = links m lk \<and> A' lk = A lk"
    and changed: "\<And>lk. lk \<in> L \<Longrightarrow> list_ok m' lk (A' lk)"
    and other_nodes: "\<And>y. (\<forall>lk\<in>L. y \<notin> set (A lk) \<and> y \<notin> set (A' lk)) \<Longrightarrow> nodes m' y = nodes m y"
    and added: "\<And>y lk. lk \<in> L \<Longrightarrow> y \<in> set (A' lk) \<Longrightarrow>
       (\<exists>lk\<in>L. y \<in> set (A lk)) \<or> (\<exists>n. nodes m y = Some n \<and> pLink n = None)"
    and removed: "\<And>y lk. lk \<in> L \<Longrightarrow> y \<in> set (A lk) \<Longrightarrow> \<forall>lk\<in>L. y \<notin> set (A' lk) \<Longrightarrow>
       \<exists>n. nodes m' y = Some n \<and> pLink n = None"
  shows "repr m' A'"
proof -
  have outside: "nodes m' y = nodes m y" if "lk \<notin> L" "y \<in> set (A lk)" for lk y
  proof -
    from repr_pLink [OF assms(1) that(2)] obtain n where n: "nodes m y = Some n" "pLink n = Some lk"
      by blast
    have no: "y \<notin> set (A k)" if "k \<in> L" for k
      using repr_disjoint [OF assms(1) \<open>y \<in> set (A lk)\<close>] \<open>lk \<notin> L\<close> that by blast
    then have "\<forall>k\<in>L. y \<notin> set (A k) \<and> y \<notin> set (A' k)"
      using added n by (metis option.distinct(1) option.inject)
    then show ?thesis
      by (rule other_nodes)
  qed
  have ok: "list_ok m' lk (A' lk)" if "links m' lk \<noteq> None" for lk
  proof (cases "lk \<in> L")
    case True
    then show ?thesis by (rule changed)
  next
    case False
    then have eqs: "links m' lk = links m lk" "A' lk = A lk"
      using other_links by auto
    with that have "list_ok m lk (A lk)"
      using assms(1) by (auto simp: repr_def)
    then show ?thesis
      using eqs outside [OF False] dseg_cong [of "A lk" "nodes m'" "nodes m"]
      by (auto simp: list_ok_def)
  qed
  have empty: "A' lk = []" if "links m' lk = None" for lk
    using that other_links changed assms(1) unfolding repr_def list_ok_def
    by (metis option.distinct(1))
  have pback: "y \<in> set (A' lk)" if n: "nodes m' y = Some n" "pLink n = Some lk" for y n lk
  proof (cases "\<exists>k\<in>L. y \<in> set (A k) \<or> y \<in> set (A' k)")
    case True
    then obtain k where k: "k \<in> L" "y \<in> set (A k) \<or> y \<in> set (A' k)" by blast
    with removed n obtain k' where k': "k' \<in> L" "y \<in> set (A' k')"
      by (metis option.distinct(1) option.inject)
    then have "pLink n = Some k'"
      using changed [of k'] n dseg_pLink unfolding list_ok_def by (metis option.inject)
    with n k' show ?thesis by simp
  next
    case False
    then have same: "nodes m' y = nodes m y"
      using other_nodes by blast
    with n have "y \<in> set (A lk)"
      using assms(1) by (auto simp: repr_def)
    then show ?thesis
      using False other_links by (cases "lk \<in> L") auto
  qed
  show ?thesis
    unfolding repr_def using ok empty pback by blast
qed

section \<open>Each template implements its list operation\<close>

lemma lnode_more_id [simp]:
  "lnode.more (n\<lparr>pPrev := a\<rparr>) = lnode.more n" "lnode.more (n\<lparr>pNext := a\<rparr>) = lnode.more n"
  "lnode.more (n\<lparr>pLink := a\<rparr>) = lnode.more n"
  by (cases n; simp)+

lemma AddTail_repr:
  assumes R: "repr m A" and x: "nodes m x = Some n" and l: "links m lk = Some l"
  shows "\<exists>m'. AddTail lk x m = Some m' \<and>
           repr m' (if linked A x then A else A(lk := A lk @ [x])) \<and> same_data m m'"
proof (cases "linked A x")
  case True
  then have "pLink n \<noteq> None"
    using repr_unlinked [OF R x] by blast
  with True x R show ?thesis
    by (simp add: AddTail_def)
next
  case False
  then have un: "pLink n = None" and notin: "x \<notin> set (A k)" for k
    using repr_unlinked [OF R x] by (auto simp: linked_def)
  have ok: "list_ok m lk (A lk)"
    using repr_list_ok [OF R l] .
  show ?thesis
  proof (cases "A lk" rule: rev_cases)
    case Nil
    with ok l have t: "tail l = None" by (simp add: list_ok_def)
    let ?m = "m\<lparr>nodes := (nodes m)(x \<mapsto> n\<lparr>pNext := None, pPrev := None, pLink := Some lk\<rparr>),
               links := (links m)(lk \<mapsto> l\<lparr>head := Some x, tail := Some x\<rparr>)\<rparr>"
    have "AddTail lk x m = Some ?m"
      using x l un t by (simp add: AddTail_def set_node_def set_link_def)
    moreover have "repr ?m (A(lk := A lk @ [x]))"
      using un x Nil by (intro repr_update [OF R, of "{lk}"]) (auto simp: list_ok_def)
    moreover have "same_data m ?m"
      using x l by (auto simp: same_data_def)
    ultimately show ?thesis using False by auto
  next
    case (snoc ys t)
    with ok l have t: "tail l = Some t" "head l = fst_or ys (Some t)" by (auto simp: list_ok_def)
    from ok snoc obtain nt where nt: "nodes m t = Some nt" "pPrev nt = last_or None ys"
      "pNext nt = None" "pLink nt = Some lk" by (auto simp: list_ok_def)
    have "x \<noteq> t" using notin [of lk] snoc by auto
    let ?m = "m\<lparr>nodes := (nodes m)(t \<mapsto> nt\<lparr>pNext := Some x\<rparr>, x \<mapsto> n\<lparr>pNext := None, pPrev := Some t, pLink := Some lk\<rparr>),
               links := (links m)(lk \<mapsto> l\<lparr>tail := Some x\<rparr>)\<rparr>"
    have "AddTail lk x m = Some ?m"
      using x l un t nt \<open>x \<noteq> t\<close> by (simp add: AddTail_def set_node_def set_link_def)
    moreover have "repr ?m (A(lk := A lk @ [x]))"
      using un x snoc t nt ok notin [of lk] by (intro repr_update [OF R, of "{lk}"]) (auto simp: list_ok_def)
    moreover have "same_data m ?m"
      using x l nt by (auto simp: same_data_def)
    ultimately show ?thesis using False by auto
  qed
qed

lemma PopHead_repr:
  assumes R: "repr m A" and l: "links m lk = Some l"
  shows "\<exists>m'. PopHead lk m = Some m' \<and> repr m' (A(lk := tl (A lk))) \<and> same_data m m'"
proof -
  have ok: "list_ok m lk (A lk)"
    using repr_list_ok [OF R l] .
  show ?thesis
  proof (cases "A lk")
    case Nil
    with ok l have "head l = None" by (simp add: list_ok_def)
    then have "PopHead lk m = Some m" using l by (simp add: PopHead_def)
    moreover have "A(lk := tl (A lk)) = A" using Nil by auto
    ultimately show ?thesis using R by simp
  next
    case (Cons x xs)
    with ok l have hd: "head l = Some x" "tail l = last_or (Some x) xs" by (auto simp: list_ok_def)
    from ok Cons obtain n where n: "nodes m x = Some n" "pNext n = fst_or xs None"
      by (auto simp: list_ok_def)
    have d: "distinct (x # xs)" using ok Cons by (simp add: list_ok_def)
    show ?thesis
    proof (cases xs)
      case Nil
      let ?m = "m\<lparr>nodes := (nodes m)(x \<mapsto> n\<lparr>pPrev := None, pNext := None, pLink := None\<rparr>),
               links := (links m)(lk \<mapsto> l\<lparr>head := None, tail := None\<rparr>)\<rparr>"
      have "PopHead lk m = Some ?m"
        using n l hd Nil by (simp add: PopHead_def set_node_def set_link_def)
      moreover have "repr ?m (A(lk := tl (A lk)))"
        using Cons Nil n by (intro repr_update [OF R, of "{lk}"]) (auto simp: list_ok_def)
      moreover have "same_data m ?m"
        using l n by (auto simp: same_data_def)
      ultimately show ?thesis by blast
    next
      case (Cons h ys)
      from ok \<open>A lk = x # xs\<close> Cons obtain nh where h: "nodes m h = Some nh"
        "pNext nh = fst_or ys None" "pLink nh = Some lk"
        by (auto simp: list_ok_def)
      have neq: "x \<noteq> last (h # ys)" "x \<noteq> h" using d Cons by auto
      let ?m = "m\<lparr>nodes := (nodes m)(x \<mapsto> n\<lparr>pPrev := None, pNext := None, pLink := None\<rparr>,
                   h \<mapsto> nh\<lparr>pPrev := None\<rparr>),
               links := (links m)(lk \<mapsto> l\<lparr>head := Some h\<rparr>)\<rparr>"
      have "PopHead lk m = Some ?m"
        using n l hd Cons h neq by (simp add: PopHead_def set_node_def set_link_def last_or_def)
      moreover have "repr ?m (A(lk := tl (A lk)))"
        using \<open>A lk = x # xs\<close> Cons n ok hd h by (intro repr_update [OF R, of "{lk}"]) (auto simp: list_ok_def)
      moreover have "same_data m ?m"
        using l n h by (auto simp: same_data_def)
      ultimately show ?thesis by blast
    qed
  qed
qed

text \<open>\<open>RemoveFromLink\<close>, by the position of the node in its list.\<close>

lemma RemoveFromLink_single:
  assumes R: "repr m A" and A: "A lk = [x]"
  shows "\<exists>m'. RemoveFromLink x m = Some m' \<and> repr m' (A(lk := [])) \<and> same_data m m'"
proof -
  obtain l where l: "links m lk = Some l" using repr_link_defined [OF R, of x lk] A by auto
  from repr_list_ok [OF R l] A l obtain n where n: "nodes m x = Some n" "pPrev n = None"
    "pNext n = None" "pLink n = Some lk" and hd: "head l = Some x" "tail l = Some x"
    by (auto simp: list_ok_def)
  let ?m = "m\<lparr>nodes := (nodes m)(x \<mapsto> n\<lparr>pPrev := None, pNext := None, pLink := None\<rparr>),
             links := (links m)(lk \<mapsto> l\<lparr>head := None, tail := None\<rparr>)\<rparr>"
  have "RemoveFromLink x m = Some ?m"
    using n l hd by (simp add: RemoveFromLink_def set_node_def set_link_def)
  moreover have "repr ?m (A(lk := []))"
    using A n by (intro repr_update [OF R, of "{lk}"]) (auto simp: list_ok_def)
  moreover have "same_data m ?m" using l n by (auto simp: same_data_def)
  ultimately show ?thesis by blast
qed

lemma RemoveFromLink_first:
  assumes R: "repr m A" and A: "A lk = x # q # qs"
  shows "\<exists>m'. RemoveFromLink x m = Some m' \<and> repr m' (A(lk := q # qs)) \<and> same_data m m'"
proof -
  obtain l where l: "links m lk = Some l" using repr_link_defined [OF R, of x lk] A by auto
  note ok = repr_list_ok [OF R l]
  from ok A l obtain n nq where n: "nodes m x = Some n" "pPrev n = None" "pNext n = Some q"
      "pLink n = Some lk" and q: "nodes m q = Some nq" "pNext nq = fst_or qs None" "pLink nq = Some lk"
    and hd: "head l = Some x" "tail l = last_or (Some q) qs" and d: "distinct (x # q # qs)"
    by (auto simp: list_ok_def)
  have neq: "x \<noteq> q" "q \<noteq> x" "last_or (Some q) qs \<noteq> Some x" using d by (auto simp: last_or_def)
  let ?m = "m\<lparr>nodes := (nodes m)(q \<mapsto> nq\<lparr>pPrev := None\<rparr>,
                 x \<mapsto> n\<lparr>pPrev := None, pNext := None, pLink := None\<rparr>),
             links := (links m)(lk \<mapsto> l\<lparr>head := Some q\<rparr>)\<rparr>"
  have "RemoveFromLink x m = Some ?m"
    using n l hd q neq neq [symmetric] by (simp add: RemoveFromLink_def set_node_def set_link_def)
  moreover have "repr ?m (A(lk := q # qs))"
    using A n q ok l hd d by (intro repr_update [OF R, of "{lk}"]) (auto simp: list_ok_def)
  moreover have "same_data m ?m" using l n q by (auto simp: same_data_def)
  ultimately show ?thesis by blast
qed

lemma RemoveFromLink_last:
  assumes R: "repr m A" and A: "A lk = ps @ [p, x]"
  shows "\<exists>m'. RemoveFromLink x m = Some m' \<and> repr m' (A(lk := ps @ [p])) \<and> same_data m m'"
proof -
  obtain l where l: "links m lk = Some l" using repr_link_defined [OF R, of x lk] A by auto
  note ok = repr_list_ok [OF R l]
  from ok A l obtain n np where n: "nodes m x = Some n" "pPrev n = Some p" "pNext n = None"
      "pLink n = Some lk" and p: "nodes m p = Some np" "pPrev np = last_or None ps" "pLink np = Some lk"
    and hd: "head l = fst_or ps (Some p)" "tail l = Some x" and d: "distinct (ps @ [p, x])"
    by (auto simp: list_ok_def)
  have neq: "x \<noteq> p" "p \<noteq> x" "fst_or ps (Some p) \<noteq> Some x" "fst_or ps (Some p) \<noteq> None"
    using d by (auto simp: fst_or_def split: list.splits)
  let ?m = "m\<lparr>nodes := (nodes m)(p \<mapsto> np\<lparr>pNext := None\<rparr>,
                 x \<mapsto> n\<lparr>pPrev := None, pNext := None, pLink := None\<rparr>),
             links := (links m)(lk \<mapsto> l\<lparr>tail := Some p\<rparr>)\<rparr>"
  have "RemoveFromLink x m = Some ?m"
    using n l hd p neq neq [symmetric] by (simp add: RemoveFromLink_def set_node_def set_link_def)
  moreover have "repr ?m (A(lk := ps @ [p]))"
    using A n p ok l hd d by (intro repr_update [OF R, of "{lk}"]) (auto simp: list_ok_def)
  moreover have "same_data m ?m" using l n p by (auto simp: same_data_def)
  ultimately show ?thesis by blast
qed

lemma RemoveFromLink_mid:
  assumes R: "repr m A" and A: "A lk = ps @ p # x # q # qs"
  shows "\<exists>m'. RemoveFromLink x m = Some m' \<and> repr m' (A(lk := ps @ p # q # qs)) \<and> same_data m m'"
proof -
  obtain l where l: "links m lk = Some l" using repr_link_defined [OF R, of x lk] A by auto
  note ok = repr_list_ok [OF R l]
  from ok A l obtain n np nq where n: "nodes m x = Some n" "pPrev n = Some p" "pNext n = Some q"
      "pLink n = Some lk" and p: "nodes m p = Some np" "pPrev np = last_or None ps" "pLink np = Some lk"
    and q: "nodes m q = Some nq" "pNext nq = fst_or qs None" "pLink nq = Some lk"
    and hd: "head l = fst_or ps (Some p)" "tail l = last_or (Some q) qs"
    and d: "distinct (ps @ p # x # q # qs)"
    by (auto simp: list_ok_def)
  have neq: "x \<noteq> p" "p \<noteq> x" "x \<noteq> q" "q \<noteq> x" "p \<noteq> q" "q \<noteq> p" "fst_or ps (Some p) \<noteq> Some x"
    "fst_or ps (Some p) \<noteq> None" "last_or (Some q) qs \<noteq> Some x"
    using d by (auto simp: fst_or_def last_or_def split: list.splits)
  let ?m = "m\<lparr>nodes := (nodes m)(p \<mapsto> np\<lparr>pNext := Some q\<rparr>, q \<mapsto> nq\<lparr>pPrev := Some p\<rparr>,
                 x \<mapsto> n\<lparr>pPrev := None, pNext := None, pLink := None\<rparr>)\<rparr>"
  have "RemoveFromLink x m = Some ?m"
    using n l hd p q neq neq [symmetric] by (simp add: RemoveFromLink_def set_node_def set_link_def)
  moreover have "repr ?m (A(lk := ps @ p # q # qs))"
    using A n p q ok l hd d by (intro repr_update [OF R, of "{lk}"]) (auto simp: list_ok_def)
  moreover have "same_data m ?m" using n p q by (auto simp: same_data_def)
  ultimately show ?thesis by blast
qed

lemma RemoveFromLink_repr:
  assumes R: "repr m A" and x: "nodes m x = Some n"
  shows "\<exists>m'. RemoveFromLink x m = Some m' \<and> repr m' (\<lambda>lk. remove1 x (A lk)) \<and> same_data m m'"
proof (cases "linked A x")
  case False
  then have "pLink n = None" "(\<lambda>lk. remove1 x (A lk)) = A"
    using repr_unlinked [OF R x] by (auto simp: linked_def remove1_idem)
  with R x show ?thesis by (simp add: RemoveFromLink_def)
next
  case True
  then obtain lk where "x \<in> set (A lk)" by (auto simp: linked_def)
  then obtain ps qs where A: "A lk = ps @ x # qs" by (meson split_list)
  have "x \<notin> set ps" using repr_distinct [OF R, of lk] A by simp
  then have eq: "(\<lambda>lk. remove1 x (A lk)) = A(lk := ps @ qs)"
    using repr_disjoint [OF R, of x lk] A
    by (auto simp: fun_eq_iff remove1_append) (metis remove1_idem)
  show ?thesis
    unfolding eq using A R
    by (cases ps rule: rev_cases; cases qs)
      (auto dest: RemoveFromLink_single RemoveFromLink_first RemoveFromLink_last RemoveFromLink_mid)
qed

subsection \<open>Join\<close>

definition relinked :: "addr \<Rightarrow> addr list \<Rightarrow> (addr \<rightharpoonup> 'z lnode_scheme) \<Rightarrow> (addr \<rightharpoonup> 'z lnode_scheme)" where
  "relinked lk xs h = (\<lambda>y. if y \<in> set xs then map_option (pLink_update (\<lambda>_. Some lk)) (h y) else h y)"

lemma dseg_relinked:
  "dseg h k pr xs nx \<Longrightarrow> set xs \<subseteq> set ys \<Longrightarrow> dseg (relinked lk ys h) lk pr xs nx"
  by (induction xs arbitrary: pr) (auto simp: relinked_def)

lemma relink_dseg:
  "dseg (nodes m) k pr xs None \<Longrightarrow> distinct xs \<Longrightarrow>
     relink lk (fst_or xs None) m = Some (m\<lparr>nodes := relinked lk xs (nodes m)\<rparr>)"
proof (induction xs arbitrary: m pr)
  case Nil
  then show ?case by (simp add: relink.simps relinked_def)
next
  case (Cons x xs)
  from Cons.prems obtain n where n: "nodes m x = Some n" "pNext n = fst_or xs None" by auto
  let ?m = "m\<lparr>nodes := (nodes m)(x \<mapsto> n\<lparr>pLink := Some lk\<rparr>)\<rparr>"
  have "relink lk (fst_or xs None) ?m = Some (?m\<lparr>nodes := relinked lk xs (nodes ?m)\<rparr>)"
    using Cons.prems by (intro Cons.IH [of _ "Some x"]) (simp_all del: fun_upd_apply)
  moreover have "relinked lk xs (nodes ?m) = relinked lk (x # xs) (nodes m)"
    using Cons.prems(2) n by (auto simp: relinked_def)
  moreover have "relink lk (Some x) m = relink lk (fst_or xs None) ?m"
    using n by (subst relink.simps) (simp add: set_node_def)
  ultimately show ?case by simp
qed

lemma same_data_relinked: "same_data m (m\<lparr>nodes := relinked lk xs (nodes m)\<rparr>)"
  by (auto simp: same_data_def relinked_def option.map_comp comp_def)

lemma Join_repr:
  assumes R: "repr m A" and l: "links m lk = Some l" and ot: "links m ot = Some lo" and "lk \<noteq> ot"
  shows "\<exists>m'. Join lk ot m = Some m' \<and> repr m' (A(lk := A lk @ A ot, ot := [])) \<and> same_data m m'"
proof (cases "A ot")
  case Nil
  then have "head lo = None" "A(lk := A lk @ A ot, ot := []) = A"
    using repr_list_ok [OF R ot] ot by (auto simp: list_ok_def)
  with R ot show ?thesis by (simp add: Join_def)
next
  case (Cons y ys)
  note okl = repr_list_ok [OF R l] and oko = repr_list_ok [OF R ot]
  let ?h = "relinked lk (A ot) (nodes m)"
  from oko ot Cons obtain ny where o: "head lo = Some y" "tail lo = last_or (Some y) ys"
    "nodes m y = Some ny" "pNext ny = fst_or ys None" "pPrev ny = None"
    by (auto simp: list_ok_def)
  have y: "?h y = Some (ny\<lparr>pLink := Some lk\<rparr>)" using o Cons by (simp add: relinked_def)
  have rel: "relink lk (Some y) m = Some (m\<lparr>nodes := ?h\<rparr>)"
    using relink_dseg [of m ot None "A ot" lk] oko Cons by (simp add: list_ok_def)
  have seg: "dseg ?h lk None (A ot) None" "dseg ?h lk (Some y) ys None"
    using oko o y Cons dseg_relinked [of "nodes m" ot "Some y" ys None "A ot" lk]
    by (auto simp: list_ok_def)
  have disj: "set (A lk) \<inter> set (A ot) = {}"
    using repr_disjoint [OF R] \<open>lk \<noteq> ot\<close> by blast
  have out: "dseg ?h lk pr xs nx = dseg (nodes m) lk pr xs nx" if "set xs \<subseteq> set (A lk)" for pr xs nx
    using that disj by (intro dseg_cong) (auto simp: relinked_def)
  show ?thesis
  proof (cases "A lk" rule: rev_cases)
    case Nil
    let ?m = "m\<lparr>nodes := ?h, links := (links m)(lk \<mapsto> l\<lparr>head := head lo, tail := tail lo\<rparr>,
                 ot \<mapsto> lo\<lparr>head := None, tail := None\<rparr>)\<rparr>"
    have "tail l = None" using okl l Nil by (auto simp: list_ok_def)
    then have "Join lk ot m = Some ?m"
      using l ot rel o \<open>lk \<noteq> ot\<close> by (auto simp: Join_def set_node_def set_link_def)
    moreover have "repr ?m (A(lk := A lk @ A ot, ot := []))"
      using Nil Cons o seg oko \<open>lk \<noteq> ot\<close>
      by (intro repr_update [OF R, of "{lk, ot}"]) (auto simp: list_ok_def relinked_def)
    moreover have "same_data m ?m"
      using same_data_relinked [of m lk "A ot"] l ot by (auto simp: same_data_def)
    ultimately show ?thesis by blast
  next
    case (snoc zs t)
    then obtain nt where t: "tail l = Some t" "head l = fst_or zs (Some t)" "nodes m t = Some nt"
      "pNext nt = None" "pPrev nt = last_or None zs" "pLink nt = Some lk"
      using okl l by (auto simp: list_ok_def)
    have neq: "t \<noteq> y" "?h t = Some nt" "t \<notin> set ys" using disj snoc Cons t by (auto simp: relinked_def)
    let ?m = "m\<lparr>nodes := ?h(t \<mapsto> nt\<lparr>pNext := Some y\<rparr>, y \<mapsto> ny\<lparr>pLink := Some lk, pPrev := Some t\<rparr>),
                links := (links m)(lk \<mapsto> l\<lparr>tail := tail lo\<rparr>, ot \<mapsto> lo\<lparr>head := None, tail := None\<rparr>)\<rparr>"
    have "Join lk ot m = Some ?m"
      using l ot rel o t y neq \<open>lk \<noteq> ot\<close> by (auto simp: Join_def set_node_def set_link_def)
    moreover have "repr ?m (A(lk := A lk @ A ot, ot := []))"
      using snoc Cons o seg okl oko disj t neq \<open>lk \<noteq> ot\<close> out [of zs]
      by (intro repr_update [OF R, of "{lk, ot}"]) (auto simp: list_ok_def relinked_def)
    moreover have "same_data m ?m"
      using same_data_relinked [of m lk "A ot"] l ot y neq t o by (auto simp: same_data_def)
    ultimately show ?thesis by blast
  qed
qed

section \<open>The interface the timer, the event loop and the condition variables use\<close>

text \<open>
  The clients of the templates rely on the laws below and not on pointers: \<open>rep m A\<close> relates a heap
  to the lists its headers hold, \<open>same m m'\<close> says that only link fields differ.
\<close>

locale intrusive_lists =
  fixes rep :: "'m \<Rightarrow> (addr \<Rightarrow> addr list) \<Rightarrow> bool"
    and same :: "'m \<Rightarrow> 'm \<Rightarrow> bool"
    and isnode :: "'m \<Rightarrow> addr \<Rightarrow> bool"
    and islink :: "'m \<Rightarrow> addr \<Rightarrow> bool"
    and add :: "addr \<Rightarrow> addr \<Rightarrow> 'm \<Rightarrow> 'm option"
    and rem :: "addr \<Rightarrow> 'm \<Rightarrow> 'm option"
    and pop :: "addr \<Rightarrow> 'm \<Rightarrow> 'm option"
    and join :: "addr \<Rightarrow> addr \<Rightarrow> 'm \<Rightarrow> 'm option"
  assumes same_refl: "same m m"
    and same_trans: "same a b \<Longrightarrow> same b c \<Longrightarrow> same a c"
    and same_isnode: "same m m' \<Longrightarrow> isnode m' x = isnode m x"
    and same_islink: "same m m' \<Longrightarrow> islink m' lk = islink m lk"
    and rep_disjoint: "rep m A \<Longrightarrow> x \<in> set (A lk) \<Longrightarrow> x \<in> set (A lk') \<Longrightarrow> lk = lk'"
    and rep_distinct: "rep m A \<Longrightarrow> distinct (A lk)"
    and rep_isnode: "rep m A \<Longrightarrow> x \<in> set (A lk) \<Longrightarrow> isnode m x"
    and add_law: "rep m A \<Longrightarrow> isnode m x \<Longrightarrow> islink m lk \<Longrightarrow>
      \<exists>m'. add lk x m = Some m' \<and> rep m' (if linked A x then A else A(lk := A lk @ [x])) \<and> same m m'"
    and rem_law: "rep m A \<Longrightarrow> isnode m x \<Longrightarrow>
      \<exists>m'. rem x m = Some m' \<and> rep m' (\<lambda>lk. remove1 x (A lk)) \<and> same m m'"
    and pop_law: "rep m A \<Longrightarrow> islink m lk \<Longrightarrow>
      \<exists>m'. pop lk m = Some m' \<and> rep m' (A(lk := tl (A lk))) \<and> same m m'"
    and join_law: "rep m A \<Longrightarrow> islink m lk \<Longrightarrow> islink m ot \<Longrightarrow> lk \<noteq> ot \<Longrightarrow>
      \<exists>m'. join lk ot m = Some m' \<and> rep m' (A(lk := A lk @ A ot, ot := [])) \<and> same m m'"
begin

text \<open>A loop that joins several lists into one, in order.\<close>

lemma join_many:
  assumes "rep m A" "islink m lk" "\<forall>k\<in>set ks. islink m k \<and> k \<noteq> lk" "distinct ks"
  shows "\<exists>m'. foldM (join lk) ks m = Some m' \<and> same m m' \<and>
     rep m' (\<lambda>k. if k = lk then A lk @ concat (map A ks) else if k \<in> set ks then [] else A k)"
  using assms
proof (induction ks arbitrary: m A)
  case Nil
  moreover have "(\<lambda>k. if k = lk then A lk @ concat (map A []) else if k \<in> set [] then [] else A k) = A"
    by auto
  ultimately show ?case by (simp only: foldM.simps) (simp add: same_refl)
next
  case (Cons k ks)
  let ?A = "A(lk := A lk @ A k, k := [])"
  obtain m1 where m1: "join lk k m = Some m1" "rep m1 ?A" "same m m1"
    using join_law Cons.prems by fastforce
  obtain m' where m': "foldM (join lk) ks m1 = Some m'" "same m1 m'"
    "rep m' (\<lambda>j. if j = lk then ?A lk @ concat (map ?A ks) else if j \<in> set ks then [] else ?A j)"
    using Cons.IH [OF m1(2)] Cons.prems same_islink [OF m1(3)] by auto
  have "map ?A ks = map A ks"
    using Cons.prems by auto
  moreover have "?A lk = A lk @ A k"
    using Cons.prems by simp
  ultimately have "(\<lambda>j. if j = lk then ?A lk @ concat (map ?A ks) else if j \<in> set ks then [] else ?A j) =
      (\<lambda>j. if j = lk then A lk @ concat (map A (k # ks)) else if j \<in> set (k # ks) then [] else A j)"
    using Cons.prems by (auto simp: fun_eq_iff)
  with m1 m' show ?case
    by (auto intro: same_trans)
qed

text \<open>Taking a node out of its list, if any, and queueing it at the end of another.\<close>

lemma requeue:
  assumes "rep m A" "isnode m x" "islink m lk"
  shows "\<exists>m1 m2. rem x m = Some m1 \<and> add lk x m1 = Some m2 \<and> same m m2 \<and>
     rep m2 (\<lambda>k. if k = lk then remove1 x (A lk) @ [x] else remove1 x (A k))"
proof -
  obtain m1 where m1: "rem x m = Some m1" "rep m1 (\<lambda>k. remove1 x (A k))" "same m m1"
    using rem_law [OF assms(1,2)] by blast
  have "\<not> linked (\<lambda>k. remove1 x (A k)) x"
    using rep_distinct [OF assms(1)] by (auto simp: linked_def)
  moreover have "isnode m1 x" "islink m1 lk"
    using assms same_isnode [OF m1(3)] same_islink [OF m1(3)] by simp_all
  ultimately obtain m2 where m2: "add lk x m1 = Some m2" "same m1 m2"
    "rep m2 ((\<lambda>k. remove1 x (A k))(lk := remove1 x (A lk) @ [x]))"
    using add_law [OF m1(2), of x lk] by auto
  have "(\<lambda>k. remove1 x (A k))(lk := remove1 x (A lk) @ [x]) =
      (\<lambda>k. if k = lk then remove1 x (A lk) @ [x] else remove1 x (A k))"
    by auto
  with m1(1) m2(1,3) same_trans [OF m1(3) m2(2)] show ?thesis
    by auto
qed

end

definition is_node :: "'z lmem \<Rightarrow> addr \<Rightarrow> bool" where
  "is_node m x \<longleftrightarrow> nodes m x \<noteq> None"

definition is_link :: "'z lmem \<Rightarrow> addr \<Rightarrow> bool" where
  "is_link m lk \<longleftrightarrow> links m lk \<noteq> None"

interpretation lists: intrusive_lists
  "repr :: 'z lmem \<Rightarrow> (addr \<Rightarrow> addr list) \<Rightarrow> bool" same_data is_node is_link
  AddTail RemoveFromLink PopHead Join
proof (unfold_locales, goal_cases)
  case 1
  show ?case by simp
next
  case 2
  then show ?case by (rule same_data_trans)
next
  case 3
  then show ?case by (simp add: is_node_def same_data_nodes)
next
  case 4
  then show ?case by (simp add: is_link_def same_data_links)
next
  case 5
  then show ?case by (rule repr_disjoint)
next
  case 6
  then show ?case by (rule repr_distinct)
next
  case 7
  then show ?case using repr_pLink by (fastforce simp: is_node_def)
next
  case (8 m A x lk)
  then show ?case using AddTail_repr [of m A x _ lk] by (force simp: is_node_def is_link_def)
next
  case (9 m A x)
  then show ?case using RemoveFromLink_repr [of m A x] by (force simp: is_node_def)
next
  case (10 m A lk)
  then show ?case using PopHead_repr [of m A lk] by (force simp: is_link_def)
next
  case (11 m A lk ot)
  then show ?case using Join_repr [of m A lk _ ot] by (force simp: is_link_def)
qed

section \<open>Sequences of list operations\<close>

datatype list_op = OpAddTail addr addr | OpRemove addr | OpPopHead addr | OpJoin addr addr

fun exec_op :: "list_op \<Rightarrow> 'z lmem \<Rightarrow> 'z lmem option" where
  "exec_op (OpAddTail lk x) m = AddTail lk x m"
| "exec_op (OpRemove x) m = RemoveFromLink x m"
| "exec_op (OpPopHead lk) m = PopHead lk m"
| "exec_op (OpJoin lk ot) m = Join lk ot m"

text \<open>The abstract specification: each operation on the lists themselves.\<close>

fun spec_op :: "list_op \<Rightarrow> (addr \<Rightarrow> addr list) \<Rightarrow> (addr \<Rightarrow> addr list)" where
  "spec_op (OpAddTail lk x) A = (if linked A x then A else A(lk := A lk @ [x]))"
| "spec_op (OpRemove x) A = (\<lambda>lk. remove1 x (A lk))"
| "spec_op (OpPopHead lk) A = A(lk := tl (A lk))"
| "spec_op (OpJoin lk ot) A = A(lk := A lk @ A ot, ot := [])"

fun op_valid :: "'z lmem \<Rightarrow> list_op \<Rightarrow> bool" where
  "op_valid m (OpAddTail lk x) \<longleftrightarrow> is_link m lk \<and> is_node m x"
| "op_valid m (OpRemove x) \<longleftrightarrow> is_node m x"
| "op_valid m (OpPopHead lk) \<longleftrightarrow> is_link m lk"
| "op_valid m (OpJoin lk ot) \<longleftrightarrow> is_link m lk \<and> is_link m ot \<and> lk \<noteq> ot"

lemma op_valid_same: "same_data m m' \<Longrightarrow> op_valid m' p = op_valid m p"
  by (cases p) (auto simp: lists.same_isnode lists.same_islink)

lemma exec_op_repr:
  assumes "repr m A" "op_valid m p"
  shows "\<exists>m'. exec_op p m = Some m' \<and> repr m' (spec_op p A) \<and> same_data m m'"
proof (cases p)
  case (OpAddTail lk x)
  with assms show ?thesis using lists.add_law [of m A x lk] by simp
next
  case (OpRemove x)
  with assms show ?thesis using lists.rem_law [of m A x] by simp
next
  case (OpPopHead lk)
  with assms show ?thesis using lists.pop_law [of m A lk] by simp
next
  case (OpJoin lk ot)
  with assms show ?thesis using lists.join_law [of m A lk ot] by simp
qed

lemma exec_ops_repr:
  "repr m A \<Longrightarrow> \<forall>p\<in>set ps. op_valid m p \<Longrightarrow>
     \<exists>m'. foldM exec_op ps m = Some m' \<and> repr m' (fold spec_op ps A) \<and> same_data m m'"
proof (induction ps arbitrary: m A)
  case Nil
  then show ?case by simp
next
  case (Cons p ps)
  then obtain m1 where m1: "exec_op p m = Some m1" "repr m1 (spec_op p A)" "same_data m m1"
    using exec_op_repr [of m A p] by auto
  with Cons.prems have "\<forall>p\<in>set ps. op_valid m1 p"
    by (simp add: op_valid_same)
  then obtain m' where "foldM exec_op ps m1 = Some m'" "repr m' (fold spec_op ps (spec_op p A))"
    "same_data m1 m'"
    using Cons.IH [OF m1(2)] by blast
  with m1 show ?case
    by (auto intro: same_data_trans)
qed

text \<open>
  C8: any sequence of calls of \<open>AddTail\<close>, \<open>RemoveFromLink\<close>, \<open>PopHead\<close> and \<open>Join\<close> on allocated nodes
  and headers (never joining a list with itself) dereferences no null or freed pointer, fails no
  \<open>assert\<close>, terminates, leaves the payload of every node unchanged, and leaves in each header exactly
  the list the abstract operations (append, \<open>remove1\<close>, \<open>tl\<close>, concatenation) compute.
\<close>

theorem link_templates_refine_lists:
  assumes "repr m A" "\<forall>p\<in>set ps. op_valid m p"
  shows "\<exists>m'. foldM exec_op ps m = Some m' \<and> repr m' (fold spec_op ps A) \<and> same_data m m'"
  using assms by (rule exec_ops_repr)

definition demo_heap :: "unit lmem" where
  "demo_heap = \<lparr>nodes = (\<lambda>x. if x < 10 then Some \<lparr>pPrev = None, pNext = None, pLink = None\<rparr> else None),
     links = (\<lambda>k. if k < 3 then Some \<lparr>head = None, tail = None\<rparr> else None)\<rparr>"

lemma demo_heap_repr: "repr demo_heap (\<lambda>_. [])"
  by (auto simp: repr_def list_ok_def demo_heap_def split: if_splits)

theorem link_templates_refine_lists_witness:
  "\<exists>m'. foldM exec_op [OpAddTail 0 5, OpAddTail 1 6, OpAddTail 1 7, OpJoin 0 1, OpRemove 6, OpPopHead 0]
       demo_heap = Some m' \<and>
     repr m' (fold spec_op [OpAddTail 0 5, OpAddTail 1 6, OpAddTail 1 7, OpJoin 0 1, OpRemove 6, OpPopHead 0]
       (\<lambda>_. [])) \<and> same_data demo_heap m'"
  by (rule link_templates_refine_lists [OF demo_heap_repr])
    (simp add: demo_heap_def is_node_def is_link_def)

end
