(* ===== verification/Timeout.thy ===== *)
theory Timeout
  imports Links
begin

text \<open>
  The timing wheel of \<open>src/libco/co_routine.cpp\<close>: \<open>stTimeoutItem_t\<close>, \<open>stTimeout_t\<close>, \<open>GetTickMS\<close>,
  \<open>AllocTimeout\<close>, \<open>FreeTimeout\<close>, \<open>AddTimeout\<close> and \<open>TakeAllTimeout\<close>. The wheel is shown to be a stable
  priority queue: its abstract value \<open>pending\<close> lists the waiting items by expiry time.
\<close>

section \<open>Items and the wheel\<close>

text \<open>The callbacks an item can carry; \<open>NULL\<close> is the first constructor of each type.\<close>

datatype prepare_pfn = NoPrepare | OnPollPrepare

datatype process_pfn = NoProcess | OnPollProcess | OnCoroutineProcess | OnSignalProcess

record stTimeoutItem_t = lnode +
  ullExpireTime :: u64
  pfnPrepare :: prepare_pfn
  pfnProcess :: process_pfn
  pArg :: ptr
  bTimeout :: bool

type_synonym tmem = "unit stTimeoutItem_t_ext lmem"

record stTimeout_t =
  pItems :: addr
  iItemSize :: int
  ullStart :: u64
  llStartIdx :: int

text \<open>\<open>gettimeofday\<close> supplies seconds and microseconds; the arithmetic is in \<open>unsigned long long\<close>.\<close>

definition GetTickMS :: "int \<Rightarrow> int \<Rightarrow> u64" where
  "GetTickMS tv_sec tv_usec = (let u = word_of_int tv_sec; u = u * 1000
     in u + word_of_int (tv_usec sdiv 1000))"

text \<open>\<open>base\<close> is the block \<open>calloc\<close> returned for the array of list headers.\<close>

definition AllocTimeout :: "int \<Rightarrow> u64 \<Rightarrow> addr \<Rightarrow> tmem \<Rightarrow> (stTimeout_t \<times> tmem) option" where
  "AllocTimeout iSize tick base m = do {
     require (0 \<le> iSize);
     Some (\<lparr>pItems = base, iItemSize = iSize, ullStart = tick, llStartIdx = 0\<rparr>,
       m\<lparr>links := (\<lambda>a. if base \<le> a \<and> a < base + nat iSize then Some \<lparr>head = None, tail = None\<rparr>
                         else links m a)\<rparr>) }"

definition FreeTimeout :: "stTimeout_t \<Rightarrow> tmem \<Rightarrow> tmem" where
  "FreeTimeout t m = m\<lparr>links := (\<lambda>a. if pItems t \<le> a \<and> a < pItems t + nat (iItemSize t) then None
                                     else links m a)\<rparr>"

text \<open>The address of \<open>pItems[idx]\<close>, inside the array only.\<close>

definition slot :: "stTimeout_t \<Rightarrow> int \<Rightarrow> addr option" where
  "slot t idx = (if 0 \<le> idx \<and> idx < iItemSize t then Some (pItems t + nat idx) else None)"

definition wheel_start :: "stTimeout_t \<Rightarrow> u64 \<Rightarrow> stTimeout_t" where
  "wheel_start t allNow = (if ullStart t = 0 then t\<lparr>ullStart := allNow, llStartIdx := 0\<rparr> else t)"

text \<open>The error results of \<open>AddTimeout\<close> are the \<open>__LINE__\<close> of the return statement.\<close>

definition AddTimeout ::
  "stTimeout_t \<Rightarrow> addr \<Rightarrow> u64 \<Rightarrow> tmem \<Rightarrow> (int \<times> stTimeout_t \<times> tmem) option" where
  "AddTimeout apTimeout apItem allNow m = (
     let t = wheel_start apTimeout allNow in
     if allNow < ullStart t then Some (459, t, m)
     else do {
       n \<leftarrow> nodes m apItem;
       if ullExpireTime n < allNow then Some (467, t, m)
       else let diff = to_s32 (uint (ullExpireTime n - ullStart t)) in
         if diff \<ge> iItemSize t then Some (478, t, m)
         else do {
           require (iItemSize t \<noteq> 0);
           require (in_s64 (llStartIdx t + diff));
           lk \<leftarrow> slot t ((llStartIdx t + diff) smod iItemSize t);
           m' \<leftarrow> AddTail lk apItem m;
           Some (0, t, m') } })"

definition take_slot :: "stTimeout_t \<Rightarrow> addr \<Rightarrow> nat \<Rightarrow> tmem \<Rightarrow> tmem option" where
  "take_slot t apResult i m = do {
     require (iItemSize t \<noteq> 0);
     require (in_s64 (llStartIdx t + int i));
     lk \<leftarrow> slot t (to_s32 ((llStartIdx t + int i) smod iItemSize t));
     Join apResult lk m }"

definition TakeAllTimeout ::
  "stTimeout_t \<Rightarrow> u64 \<Rightarrow> addr \<Rightarrow> tmem \<Rightarrow> (stTimeout_t \<times> tmem) option" where
  "TakeAllTimeout apTimeout allNow apResult m = (
     let t = wheel_start apTimeout allNow in
     if allNow < ullStart t then Some (t, m)
     else
       let cnt = to_s32 (uint (allNow - ullStart t + 1));
           cnt = (if cnt > iItemSize t then iItemSize t else cnt) in
       if cnt < 0 then Some (t, m)
       else do {
         m' \<leftarrow> foldM (take_slot t apResult) [0..<nat cnt] m;
         require (in_s64 (llStartIdx t + (cnt - 1)));
         Some (t\<lparr>ullStart := allNow, llStartIdx := llStartIdx t + (cnt - 1)\<rparr>, m') })"

section \<open>The wheel as a list of pending items\<close>

definition is_slot :: "stTimeout_t \<Rightarrow> addr \<Rightarrow> bool" where
  "is_slot t lk \<longleftrightarrow> pItems t \<le> lk \<and> lk < pItems t + nat (iItemSize t)"

text \<open>The header of the items that expire \<open>d\<close> milliseconds after \<open>ullStart\<close>.\<close>

definition slot_at :: "stTimeout_t \<Rightarrow> int \<Rightarrow> addr" where
  "slot_at t d = pItems t + nat ((llStartIdx t + d) mod iItemSize t)"

definition expire_of :: "tmem \<Rightarrow> addr \<Rightarrow> int" where
  "expire_of m x = (case nodes m x of None \<Rightarrow> 0 | Some n \<Rightarrow> uint (ullExpireTime n))"

definition pending :: "stTimeout_t \<Rightarrow> (addr \<Rightarrow> addr list) \<Rightarrow> addr list" where
  "pending t A = concat (map (\<lambda>d. A (slot_at t (int d))) [0..<nat (iItemSize t)])"

definition wheel_inv :: "stTimeout_t \<Rightarrow> tmem \<Rightarrow> (addr \<Rightarrow> addr list) \<Rightarrow> bool" where
  "wheel_inv t m A \<longleftrightarrow> repr m A \<and> 0 < iItemSize t \<and> iItemSize t \<le> 2 ^ 30 \<and>
     0 \<le> llStartIdx t \<and> llStartIdx t \<le> uint (ullStart t) \<and>
     (\<forall>lk. is_slot t lk \<longrightarrow> is_link m lk) \<and>
     (\<forall>d < nat (iItemSize t). \<forall>x \<in> set (A (slot_at t (int d))).
        expire_of m x = uint (ullStart t) + int d) \<and>
     (ullStart t = 0 \<longrightarrow> (\<forall>lk. is_slot t lk \<longrightarrow> A lk = []))"

lemma wheel_invD:
  assumes "wheel_inv t m A"
  shows "repr m A" "0 < iItemSize t" "iItemSize t \<le> 2 ^ 30" "0 \<le> llStartIdx t"
    "llStartIdx t \<le> uint (ullStart t)" "is_slot t lk \<Longrightarrow> is_link m lk"
    "d < nat (iItemSize t) \<Longrightarrow> x \<in> set (A (slot_at t (int d))) \<Longrightarrow>
       expire_of m x = uint (ullStart t) + int d"
    "ullStart t = 0 \<Longrightarrow> is_slot t lk \<Longrightarrow> A lk = []"
  using assms by (auto simp: wheel_inv_def)

lemma wheel_start_simps [simp]:
  "pItems (wheel_start t now) = pItems t" "iItemSize (wheel_start t now) = iItemSize t"
  "ullStart (wheel_start t now) = (if ullStart t = 0 then now else ullStart t)"
  "is_slot (wheel_start t now) = is_slot t"
  by (auto simp: wheel_start_def is_slot_def fun_eq_iff)

lemma is_slot_at: "0 < iItemSize t \<Longrightarrow> is_slot t (slot_at t d)"
  by (simp add: is_slot_def slot_at_def nat_less_iff)

lemma slot_smod:
  assumes "0 < iItemSize t" "0 \<le> llStartIdx t" "0 \<le> d"
  shows "slot t ((llStartIdx t + d) smod iItemSize t) = Some (slot_at t d)"
  using assms by (simp add: slot_def slot_at_def smod_nonneg_eq_mod)

lemma slot_at_eq_iff:
  assumes "0 \<le> d" "d < iItemSize t" "0 \<le> e" "e < iItemSize t"
  shows "slot_at t d = slot_at t e \<longleftrightarrow> d = e"
proof
  assume "slot_at t d = slot_at t e"
  then have "nat ((llStartIdx t + d) mod iItemSize t) = nat ((llStartIdx t + e) mod iItemSize t)"
    by (simp add: slot_at_def)
  then have "(llStartIdx t + d) mod iItemSize t = (llStartIdx t + e) mod iItemSize t"
    using assms by (simp add: eq_nat_nat_iff)
  then have "d mod iItemSize t = e mod iItemSize t"
    by (metis add_diff_cancel_left' mod_diff_left_eq)
  with assms show "d = e" by simp
qed simp

text \<open>Every header of the array is the one at some distance from the start.\<close>

lemma slot_at_surj:
  assumes "0 < iItemSize t" "is_slot t lk"
  shows "\<exists>d < nat (iItemSize t). lk = slot_at t (int d)"
proof -
  let ?k = "int (lk - pItems t)"
  let ?d = "(?k - llStartIdx t) mod iItemSize t"
  have k: "0 \<le> ?k" "?k < iItemSize t" using assms by (auto simp: is_slot_def)
  have "(llStartIdx t + ?d) mod iItemSize t = ?k mod iItemSize t"
    by (simp add: mod_simps)
  also have "\<dots> = ?k" using k by simp
  finally have "slot_at t ?d = lk" using assms by (simp add: slot_at_def is_slot_def del: of_nat_diff)
  moreover have "0 \<le> ?d" "?d < iItemSize t" using assms by auto
  ultimately show ?thesis by (intro exI [of _ "nat ?d"]) (auto simp: nat_less_iff)
qed

lemma item_more_eq:
  fixes a b :: stTimeoutItem_t
  assumes "lnode.more a = lnode.more b"
  shows "ullExpireTime a = ullExpireTime b" "pfnPrepare a = pfnPrepare b"
    "pfnProcess a = pfnProcess b" "pArg a = pArg b" "bTimeout a = bTimeout b"
  using assms by (cases a; cases b; simp)+

lemma expire_of_same:
  assumes "same_data m m'"
  shows "expire_of m' x = expire_of m x"
proof -
  have "map_option lnode.more (nodes m' x) = map_option lnode.more (nodes m x)"
    using assms by (simp add: same_data_def)
  then show ?thesis
    by (cases "nodes m x"; cases "nodes m' x") (auto simp: expire_of_def dest: item_more_eq)
qed

lemma wheel_start_inv:
  assumes "wheel_inv t m A"
  shows "wheel_inv (wheel_start t now) m A" "pending (wheel_start t now) A = pending t A"
proof -
  have "pending t' A = []" if "ullStart t = 0" "iItemSize t' = iItemSize t" "pItems t' = pItems t" for t'
    using that wheel_invD(2) [OF assms] wheel_invD(8) [OF assms] is_slot_at [of t']
    by (auto simp: pending_def is_slot_def)
  then show "pending (wheel_start t now) A = pending t A"
    by (cases "ullStart t = 0") (simp_all, simp add: wheel_start_def)
  show "wheel_inv (wheel_start t now) m A"
  proof (cases "ullStart t = 0")
    case True
    let ?t = "t\<lparr>ullStart := now, llStartIdx := 0\<rparr>"
    have "A (slot_at ?t d) = []" for d
      using wheel_invD(2,8) [OF assms] True is_slot_at [of ?t d] by (auto simp: is_slot_def)
    with True assms show ?thesis
      by (auto simp: wheel_inv_def wheel_start_def is_slot_def)
  next
    case False
    with assms show ?thesis by (simp add: wheel_start_def)
  qed
qed

lemma set_pending:
  assumes "wheel_inv t m A"
  shows "x \<in> set (pending t A) \<longleftrightarrow> (\<exists>lk. is_slot t lk \<and> x \<in> set (A lk))"
proof
  assume "x \<in> set (pending t A)"
  then obtain d where "x \<in> set (A (slot_at t (int d)))"
    by (auto simp: pending_def)
  with is_slot_at [OF wheel_invD(2) [OF assms]] show "\<exists>lk. is_slot t lk \<and> x \<in> set (A lk)"
    by blast
next
  assume "\<exists>lk. is_slot t lk \<and> x \<in> set (A lk)"
  then obtain lk where lk: "is_slot t lk" "x \<in> set (A lk)" by blast
  with slot_at_surj [OF wheel_invD(2) [OF assms]] obtain d
    where "d < nat (iItemSize t)" "lk = slot_at t (int d)" by blast
  with lk show "x \<in> set (pending t A)"
    by (auto simp: pending_def)
qed

lemma pending_sorted: "wheel_inv t m A \<Longrightarrow> sorted (map (expire_of m) (pending t A))"
  unfolding pending_def by (rule buckets_sorted [of _ _ _ "uint (ullStart t)"]) (rule wheel_invD(7))

lemma pending_filter:
  assumes "wheel_inv t m A"
  shows "filter (\<lambda>x. expire_of m x < uint (ullStart t) + int k) (pending t A) =
      concat (map (\<lambda>d. A (slot_at t (int d))) [0..<min k (nat (iItemSize t))])"
    "filter (\<lambda>x. \<not> expire_of m x < uint (ullStart t) + int k) (pending t A) =
      concat (map (\<lambda>d. A (slot_at t (int d))) [k..<nat (iItemSize t)])"
  unfolding pending_def
  by (rule buckets_filter_less buckets_filter_ge; rule wheel_invD(7) [OF assms]; assumption)+

section \<open>AddTimeout\<close>

lemma pending_upd:
  assumes "wheel_inv t m A" "0 \<le> d" "d < iItemSize t"
  shows "pending t (A(slot_at t d := A (slot_at t d) @ [x])) =
     filter (\<lambda>y. expire_of m y \<le> uint (ullStart t) + d) (pending t A) @ x #
     filter (\<lambda>y. \<not> expire_of m y \<le> uint (ullStart t) + d) (pending t A)"
proof -
  let ?k = "nat d" and ?n = "nat (iItemSize t)" and ?B = "\<lambda>d. A (slot_at t (int d))"
  let ?A = "A(slot_at t d := A (slot_at t d) @ [x])"
  have kn: "?k < ?n" using assms by (simp add: nat_less_iff)
  have B: "?A (slot_at t (int e)) = (if e = ?k then ?B e @ [x] else ?B e)" if "e < ?n" for e
    using slot_at_eq_iff [of "int e" t d] assms that by (auto simp: nat_less_iff)
  have parts: "map (\<lambda>e. ?A (slot_at t (int e))) [0..<?k] = map ?B [0..<?k]"
    "map (\<lambda>e. ?A (slot_at t (int e))) [Suc ?k..<?n] = map ?B [Suc ?k..<?n]"
    "?A (slot_at t (int ?k)) = ?B ?k @ [x]"
    using B kn by (auto simp del: fun_upd_apply int_nat_eq)
  have split: "[0..<?n] = [0..<?k] @ ?k # [Suc ?k..<?n]"
    using kn upt_add_eq_append [of 0 ?k "?n - ?k"] upt_conv_Cons [OF kn]
    by (simp only: add_0 le_add_diff_inverse less_imp_le)
  have "pending t ?A = concat (map ?B [0..<?k]) @ (?B ?k @ [x]) @ concat (map ?B [Suc ?k..<?n])"
    unfolding pending_def split
    by (simp only: map_append list.map parts concat_append concat.simps append_assoc append_Cons append_Nil)
  also have "concat (map ?B [0..<?k]) @ (?B ?k @ [x]) @ concat (map ?B [Suc ?k..<?n]) =
      concat (map ?B [0..<min (Suc ?k) ?n]) @ x # concat (map ?B [Suc ?k..<?n])"
    using kn by (simp only: min_absorb1 Suc_leI) simp
  also have "\<dots> = filter (\<lambda>y. expire_of m y < uint (ullStart t) + int (Suc ?k)) (pending t A) @ x #
      filter (\<lambda>y. \<not> expire_of m y < uint (ullStart t) + int (Suc ?k)) (pending t A)"
    using pending_filter [OF assms(1), of "Suc ?k"] by simp
  also have "(\<lambda>y. expire_of m y < uint (ullStart t) + int (Suc ?k)) =
      (\<lambda>y. expire_of m y \<le> uint (ullStart t) + d)"
    using assms(2) by auto
  finally show ?thesis .
qed

lemma AddTimeout_success:
  assumes inv: "wheel_inv t m A" and n: "nodes m x = Some n" and "\<not> linked A x"
    and "now \<noteq> 0" "ullStart t \<le> now" "now \<le> ullExpireTime n"
    and "uint (ullExpireTime n) - uint (ullStart (wheel_start t now)) < iItemSize t"
    and "uint (ullExpireTime n) < 2 ^ 62"
  shows "\<exists>t' m' A' lk. AddTimeout t x now m = Some (0, t', m') \<and> wheel_inv t' m' A' \<and>
     t' = wheel_start t now \<and> same_data m m' \<and> is_slot t lk \<and> A' = A(lk := A lk @ [x]) \<and>
     pending t' A' = filter (\<lambda>y. expire_of m y \<le> expire_of m x) (pending t A) @ x #
       filter (\<lambda>y. \<not> expire_of m y \<le> expire_of m x) (pending t A)"
proof -
  let ?t = "wheel_start t now" and ?e = "ullExpireTime n"
  let ?d = "uint ?e - uint (ullStart ?t)"
  let ?lk = "slot_at ?t ?d"
  note inv' = wheel_start_inv(1) [OF inv, of now] and pend = wheel_start_inv(2) [OF inv, of now]
  note D = wheel_invD [OF inv']
  have start: "ullStart ?t \<le> now" using assms by simp
  then have "ullStart ?t \<le> ?e" using assms(6) by (rule order_trans)
  then have d: "uint (?e - ullStart ?t) = ?d" "0 \<le> ?d"
    by (simp_all add: uint_diff_le word_le_def)
  have dlt: "?d < iItemSize ?t" using assms by simp
  have s32: "to_s32 ?d = ?d" using d dlt D(3) by (intro to_s32_id) (simp add: in_s32_def)
  have s64: "in_s64 (llStartIdx ?t + ?d)"
    using D(2-5) d dlt assms(8) by (simp add: in_s64_def)
  have lk: "is_link m ?lk" by (rule D(6)) (rule is_slot_at [OF D(2)])
  obtain m' where m': "AddTail ?lk x m = Some m'" "repr m' (A(?lk := A ?lk @ [x]))" "same_data m m'"
    using lists.add_law [OF D(1), of x ?lk] n lk assms(3) by (auto simp: is_node_def)
  have "\<not> now < ullStart ?t" "\<not> ?e < now" using start assms(6) by (simp_all add: not_less)
  then have add: "AddTimeout t x now m = Some (0, ?t, m')"
    using m'(1) n s64 d s32 dlt D(2) slot_smod [OF D(2,4) d(2)]
    by (simp add: AddTimeout_def Let_def del: wheel_start_simps)
  have x: "expire_of m x = uint (ullStart ?t) + ?d" using n by (simp add: expire_of_def)
  have "wheel_inv ?t m' (A(?lk := A ?lk @ [x]))"
    unfolding wheel_inv_def
  proof (intro conjI allI impI ballI)
    fix e y assume e: "e < nat (iItemSize ?t)" "y \<in> set ((A(?lk := A ?lk @ [x])) (slot_at ?t (int e)))"
    show "expire_of m' y = uint (ullStart ?t) + int e"
    proof (cases "y \<in> set (A (slot_at ?t (int e)))")
      case True
      then show ?thesis using D(7) [OF e(1)] expire_of_same [OF m'(3)] by simp
    next
      case False
      with e have "y = x" "slot_at ?t (int e) = ?lk" by (auto split: if_splits)
      then show ?thesis using slot_at_eq_iff [of "int e" ?t ?d] e(1) d dlt x expire_of_same [OF m'(3)]
        by (simp add: zless_nat_eq_int_zless)
    qed
  next
    fix lk assume "ullStart ?t = 0"
    then show "(A(?lk := A ?lk @ [x])) lk = []" using assms(4) by (simp split: if_splits)
  qed (use D m' lists.same_islink [OF m'(3)] in auto)
  moreover have "pending ?t (A(?lk := A ?lk @ [x])) =
      filter (\<lambda>y. expire_of m y \<le> expire_of m x) (pending t A) @ x #
      filter (\<lambda>y. \<not> expire_of m y \<le> expire_of m x) (pending t A)"
    using pending_upd [OF inv' d(2) dlt, of x] pend x by simp
  moreover have "is_slot t ?lk" using is_slot_at [OF D(2)] by simp
  ultimately show ?thesis using add m'(3) by metis
qed

lemma AddTimeout_error:
  assumes inv: "wheel_inv t m A" and n: "nodes m x = Some n"
    and range: "uint (ullExpireTime n) - uint (ullStart (wheel_start t now)) < 2 ^ 31"
  shows "now < ullStart t \<Longrightarrow> AddTimeout t x now m = Some (459, wheel_start t now, m)"
    and "ullStart t \<le> now \<Longrightarrow> ullExpireTime n < now \<Longrightarrow>
       AddTimeout t x now m = Some (467, wheel_start t now, m)"
    and "ullStart t \<le> now \<Longrightarrow> now \<le> ullExpireTime n \<Longrightarrow>
       uint (ullExpireTime n) - uint (ullStart (wheel_start t now)) \<ge> iItemSize t \<Longrightarrow>
       AddTimeout t x now m = Some (478, wheel_start t now, m)"
proof -
  let ?t = "wheel_start t now"
  assume "now < ullStart t"
  then show "AddTimeout t x now m = Some (459, ?t, m)"
    by (auto simp: AddTimeout_def Let_def)
next
  let ?t = "wheel_start t now"
  assume "ullStart t \<le> now" "ullExpireTime n < now"
  then show "AddTimeout t x now m = Some (467, ?t, m)"
    using n by (auto simp: AddTimeout_def Let_def)
next
  let ?t = "wheel_start t now"
  assume a: "ullStart t \<le> now" "now \<le> ullExpireTime n"
    "uint (ullExpireTime n) - uint (ullStart ?t) \<ge> iItemSize t"
  have start: "ullStart ?t \<le> now" using a by simp
  then have "ullStart ?t \<le> ullExpireTime n" using a(2) by (rule order_trans)
  then have d: "uint (ullExpireTime n - ullStart ?t) = uint (ullExpireTime n) - uint (ullStart ?t)"
    by (rule uint_diff_le)
  have "to_s32 (uint (ullExpireTime n) - uint (ullStart ?t)) =
      uint (ullExpireTime n) - uint (ullStart ?t)"
    using range wheel_invD(2) [OF inv] a(3) by (intro to_s32_id) (simp add: in_s32_def)
  then show "AddTimeout t x now m = Some (478, ?t, m)"
    using n a start d by (simp add: AddTimeout_def Let_def not_less [symmetric] del: wheel_start_simps(3))
qed

section \<open>TakeAllTimeout\<close>

lemma take_slots:
  assumes inv: "wheel_inv t m A" and r: "is_link m r" "\<not> is_slot t r" and k: "k \<le> nat (iItemSize t)"
    and big: "llStartIdx t < 2 ^ 62"
  shows "\<exists>m'. foldM (take_slot t r) [0..<k] m = Some m' \<and> same_data m m' \<and>
     repr m' (\<lambda>j. if j = r then A r @ concat (map (\<lambda>d. A (slot_at t (int d))) [0..<k])
       else if j \<in> (\<lambda>d. slot_at t (int d)) ` {0..<k} then [] else A j)"
proof -
  note D = wheel_invD [OF inv]
  let ?s = "\<lambda>d. slot_at t (int d)"
  have step: "take_slot t r d m = Join r (?s d) m" if "d < k" for d m
  proof -
    have "in_s64 (llStartIdx t + int d)" "in_s32 ((llStartIdx t + int d) smod iItemSize t)"
      using that k D(2-4) big by (auto simp: in_s64_def in_s32_def smod_nonneg_eq_mod nat_less_iff
          intro: order_trans [OF _ pos_mod_sign] less_trans [OF pos_mod_bound])
    then show ?thesis
      using slot_smod [OF D(2,4), of "int d"] D(2) by (simp add: take_slot_def to_s32_id)
  qed
  have "foldM (take_slot t r) [0..<k] m = foldM (Join r) (map ?s [0..<k]) m"
    unfolding foldM_map by (rule foldM_cong) (simp add: step)
  moreover have "distinct (map ?s [0..<k])"
    using slot_at_eq_iff [of _ t] k by (auto simp: distinct_map inj_on_def nat_less_iff)
  moreover have "\<forall>j\<in>set (map ?s [0..<k]). is_link m j \<and> j \<noteq> r"
    using D(6) is_slot_at [OF D(2)] r(2) by auto
  ultimately show ?thesis
    using lists.join_many [OF D(1) r(1), of "map ?s [0..<k]"]
    unfolding map_map comp_def set_map set_upt by simp
qed

text \<open>The number of slots to empty: one per millisecond since the start, that of \<open>now\<close> included.\<close>

lemma take_count:
  fixes now start :: u64
  assumes "start \<le> now" "uint now - uint start < 2 ^ 31 - 1"
  shows "to_s32 (uint (now - start + 1)) = uint now - uint start + 1"
proof -
  have d: "uint (now - start) = uint now - uint start" "0 \<le> uint now - uint start"
    using assms(1) by (simp_all add: uint_diff_le word_le_def)
  then have "uint (now - start + 1) = uint now - uint start + 1"
    using assms(2) by (subst uint_plus_simple) (auto simp: word_le_def uint_word_ariths)
  then show ?thesis
    using assms d by (simp add: to_s32_id in_s32_def)
qed

text \<open>The slots after \<open>k\<close> of them were emptied and the start moved to the last of these.\<close>

lemma pending_taken:
  assumes inv: "wheel_inv t m A" and k: "0 < k" "k \<le> nat (iItemSize t)"
    and B: "\<And>d. d < nat (iItemSize t) \<Longrightarrow> B (slot_at t (int d)) = (if d < k then [] else A (slot_at t (int d)))"
    and t': "t' = t\<lparr>ullStart := s, llStartIdx := llStartIdx t + (int k - 1)\<rparr>"
  shows "d < nat (iItemSize t) \<Longrightarrow> B (slot_at t' (int d)) =
      (if 0 < d \<and> d + k \<le> nat (iItemSize t) then A (slot_at t (int (d + (k - 1)))) else [])"
    and "pending t' B = concat (map (\<lambda>d. A (slot_at t (int d))) [k..<nat (iItemSize t)])"
proof -
  let ?n = "nat (iItemSize t)"
  have D: "0 < iItemSize t" using wheel_invD(2) [OF inv] .
  have slot': "slot_at t' (int d) = slot_at t (int (d + (k - 1)))" for d
    using k(1) t' by (simp add: slot_at_def of_nat_diff algebra_simps)
  have wrap: "B (slot_at t (int e)) = []" if "?n \<le> e" "e < ?n + (k - 1)" for e
  proof -
    have "slot_at t (int e) = slot_at t (int (e - ?n))"
      using that D by (simp add: slot_at_def of_nat_diff algebra_simps)
    moreover have "e - ?n < k" "e - ?n < ?n" using that k by auto
    ultimately show ?thesis using B [of "e - ?n"] by simp
  qed
  show slots: "B (slot_at t' (int d)) =
      (if 0 < d \<and> d + k \<le> ?n then A (slot_at t (int (d + (k - 1)))) else [])" if "d < ?n" for d
    using that k wrap [of "d + (k - 1)"] B [of "d + (k - 1)"] unfolding slot' by auto
  have "[0..<?n] = 0 # [Suc 0..<?n]" using D by (simp add: upt_conv_Cons)
  also have "[Suc 0..<?n] = [Suc 0..<Suc (?n - k)] @ [Suc (?n - k)..<?n]"
    using k upt_add_eq_append [of "Suc 0" "Suc (?n - k)" "k - 1"] by simp
  finally have split: "[0..<?n] = 0 # [Suc 0..<Suc (?n - k)] @ [Suc (?n - k)..<?n]" .
  have front: "map (\<lambda>d. B (slot_at t' (int d))) [Suc 0..<Suc (?n - k)] =
      map (\<lambda>d. A (slot_at t (int (d + (k - 1))))) [Suc 0..<Suc (?n - k)]"
  proof (rule map_cong [OF refl])
    fix d assume "d \<in> set [Suc 0..<Suc (?n - k)]"
    then have "d < ?n" "0 < d" "d + k \<le> ?n" using k by auto
    then show "B (slot_at t' (int d)) = A (slot_at t (int (d + (k - 1))))"
      using slots [of d] by simp
  qed
  have rest: "map (\<lambda>d. B (slot_at t' (int d))) [Suc (?n - k)..<?n] = map (\<lambda>_. []) [Suc (?n - k)..<?n]"
  proof (rule map_cong [OF refl])
    fix d assume "d \<in> set [Suc (?n - k)..<?n]"
    then have "d < ?n" "\<not> d + k \<le> ?n" using k by auto
    then show "B (slot_at t' (int d)) = []" using slots [of d] by simp
  qed
  have shift: "[k..<?n] = map (\<lambda>d. d + (k - 1)) [Suc 0..<Suc (?n - k)]"
    by (rule nth_equalityI) (use k in \<open>auto simp del: upt_Suc\<close>)
  have "pending t' B = concat (map (\<lambda>d. B (slot_at t' (int d))) [0..<?n])"
    using t' by (simp add: pending_def)
  also have "\<dots> = concat (map (\<lambda>d. A (slot_at t (int (d + (k - 1))))) [Suc 0..<Suc (?n - k)])"
    unfolding split list.map map_append front rest using slots [of 0] D
    by (simp del: upt_Suc of_nat_add add: concat_eq_Nil_conv)
  finally show "pending t' B = concat (map (\<lambda>d. A (slot_at t (int d))) [k..<?n])"
    unfolding shift map_map comp_def .
qed

lemma TakeAllTimeout_started:
  assumes inv: "wheel_inv t m A" and r: "is_link m r" "\<not> is_slot t r"
    and t: "wheel_start t now = t" and now: "ullStart t \<le> now"
      "uint now - uint (ullStart t) < 2 ^ 31 - 1" "uint now < 2 ^ 62"
  shows "\<exists>t' m' B. TakeAllTimeout t now r m = Some (t', m') \<and> wheel_inv t' m' B \<and> same_data m m' \<and>
     ullStart t' = now \<and> pItems t' = pItems t \<and> iItemSize t' = iItemSize t \<and>
     B r = A r @ filter (\<lambda>x. expire_of m x \<le> uint now) (pending t A) \<and>
     pending t' B = filter (\<lambda>x. \<not> expire_of m x \<le> uint now) (pending t A) \<and>
     (\<forall>lk. lk \<noteq> r \<longrightarrow> \<not> is_slot t lk \<longrightarrow> B lk = A lk)"
proof -
  note D = wheel_invD [OF inv]
  let ?n = "nat (iItemSize t)" and ?a = "uint now - uint (ullStart t)"
    and ?s = "\<lambda>d. slot_at t (int d)"
  define k where "k = min (Suc (nat ?a)) ?n"
  let ?t' = "t\<lparr>ullStart := now, llStartIdx := llStartIdx t + (int k - 1)\<rparr>"
  have a: "0 \<le> ?a" using now(1) by (simp add: word_le_def)
  have k: "0 < k" "k \<le> ?n" "int k = (if ?a + 1 > iItemSize t then iItemSize t else ?a + 1)"
    using a D(2) by (auto simp: min_def nat_less_iff k_def)
  have big: "llStartIdx t < 2 ^ 62" using D(5) now(1,3) by (simp add: word_le_def)
  define B where "B = (\<lambda>j. if j = r then A r @ concat (map (\<lambda>d. A (?s d)) [0..<k])
       else if j \<in> ?s ` {0..<k} then [] else A j)"
  obtain m' where m': "foldM (take_slot t r) [0..<k] m = Some m'" "same_data m m'" "repr m' B"
    using take_slots [OF inv r k(2) big] unfolding B_def by blast
  have "in_s64 (llStartIdx t + (int k - 1))"
    using k D(2-4) big by (auto simp: in_s64_def nat_less_iff le_nat_iff)
  moreover have "\<not> now < ullStart t" using now(1) by simp
  ultimately have take: "TakeAllTimeout t now r m = Some (?t', m')"
    unfolding TakeAllTimeout_def Let_def t take_count [OF now(1,2)] k(3) [symmetric]
    using m'(1) by simp
  have keep: "B (?s d) = (if d < k then [] else A (?s d))" if "d < ?n" for d
  proof -
    have "d = e" if "e < k" "?s d = ?s e" for e
      using slot_at_eq_iff [of "int d" t "int e"] that \<open>d < ?n\<close> k(2)
      by (simp add: zless_nat_eq_int_zless)
    then have "?s d \<in> ?s ` {0..<k} \<longleftrightarrow> d < k" by auto
    then show ?thesis using r(2) is_slot_at [OF D(2), of "int d"] by (auto simp: B_def)
  qed
  note slots = pending_taken [OF inv k(1,2) keep refl, where s = now]
  have le: "(\<lambda>x. expire_of m x < uint (ullStart t) + int (Suc (nat ?a))) = (\<lambda>x. expire_of m x \<le> uint now)"
    using a by auto
  have "min (Suc (nat ?a)) ?n = k" by (simp add: k_def)
  then have early: "concat (map (\<lambda>d. A (?s d)) [0..<k]) = filter (\<lambda>x. expire_of m x \<le> uint now) (pending t A)"
    using pending_filter(1) [OF inv, of "Suc (nat ?a)"] unfolding le by simp
  have "[Suc (nat ?a)..<?n] = [k..<?n]" by (simp add: k_def min_def)
  then have late: "concat (map (\<lambda>d. A (?s d)) [k..<?n]) = filter (\<lambda>x. \<not> expire_of m x \<le> uint now) (pending t A)"
    using pending_filter(2) [OF inv, of "Suc (nat ?a)"] unfolding fun_cong [OF le] by simp
  have "wheel_inv ?t' m' B"
    unfolding wheel_inv_def
  proof (intro conjI allI impI ballI)
    show "repr m' B" by (rule m')
    show "llStartIdx ?t' \<le> uint (ullStart ?t')" using D(5) k by auto
    fix lk assume "is_slot ?t' lk"
    then show "is_link m' lk" using D(6) lists.same_islink [OF m'(2)] by (simp add: is_slot_def)
  next
    fix d x assume d: "d < nat (iItemSize ?t')" "x \<in> set (B (slot_at ?t' (int d)))"
    then have x: "0 < d" "d + k \<le> ?n" "x \<in> set (A (?s (d + (k - 1))))"
      using slots(1) [of d] by (auto split: if_splits)
    then have "expire_of m x = uint (ullStart t) + int (d + (k - 1))" using k(1) by (intro D(7)) auto
    moreover have "int k = ?a + 1" using x(1,2) k(3) by (auto split: if_splits)
    ultimately show "expire_of m' x = uint (ullStart ?t') + int d"
      using expire_of_same [OF m'(2)] k(1) by (simp add: of_nat_diff)
  next
    fix lk assume z: "ullStart ?t' = 0" "is_slot ?t' lk"
    then have "ullStart t = 0" using now(1) by (simp add: word_le_0_iff)
    then show "B lk = []" using D(8) [of lk] z r(2) by (auto simp: B_def is_slot_def)
  qed (use D k in auto)
  moreover have "\<forall>lk. lk \<noteq> r \<longrightarrow> \<not> is_slot t lk \<longrightarrow> B lk = A lk"
    using is_slot_at [OF D(2)] by (auto simp: B_def)
  moreover have "B r = A r @ filter (\<lambda>x. expire_of m x \<le> uint now) (pending t A)"
    using early by (simp add: B_def)
  ultimately show ?thesis using take m'(2) slots(2) late by auto
qed

lemma TakeAllTimeout_spec:
  assumes inv: "wheel_inv t m A" and r: "is_link m r" "\<not> is_slot t r"
    and now: "ullStart t \<le> now" "ullStart t = 0 \<or> uint now - uint (ullStart t) < 2 ^ 31 - 1"
      "uint now < 2 ^ 62"
  shows "\<exists>t' m' B. TakeAllTimeout t now r m = Some (t', m') \<and> wheel_inv t' m' B \<and> same_data m m' \<and>
     ullStart t' = now \<and> pItems t' = pItems t \<and> iItemSize t' = iItemSize t \<and>
     B r = A r @ filter (\<lambda>x. expire_of m x \<le> uint now) (pending t A) \<and>
     pending t' B = filter (\<lambda>x. \<not> expire_of m x \<le> uint now) (pending t A) \<and>
     (\<forall>lk. lk \<noteq> r \<longrightarrow> \<not> is_slot t lk \<longrightarrow> B lk = A lk)"
proof -
  let ?t = "wheel_start t now"
  have idem: "wheel_start ?t now = ?t" by (auto simp: wheel_start_def)
  then have "TakeAllTimeout t now r m = TakeAllTimeout ?t now r m"
    by (simp add: TakeAllTimeout_def Let_def)
  moreover have "\<not> is_slot ?t r" "ullStart ?t \<le> now" "uint now - uint (ullStart ?t) < 2 ^ 31 - 1"
    using r now by auto
  ultimately show ?thesis
    using TakeAllTimeout_started [OF wheel_start_inv(1) [OF inv] r(1) _ idem] now(3)
      wheel_start_inv(2) [OF inv, of now] by simp
qed

section \<open>Cancelling, allocating, and the limits of the clock arithmetic\<close>

lemma pending_distinct:
  assumes inv: "wheel_inv t m A"
  shows "distinct (pending t A)"
proof -
  note D = wheel_invD [OF inv]
  have "distinct (concat (map (\<lambda>d. A (slot_at t (int d))) [0..<k]))" if "k \<le> nat (iItemSize t)" for k
    using that
  proof (induction k)
    case (Suc k)
    have "set (A (slot_at t (int d))) \<inter> set (A (slot_at t (int k))) = {}" if "d < k" for d
      using repr_disjoint [OF D(1), of _ "slot_at t (int d)" "slot_at t (int k)"] that Suc.prems
        slot_at_eq_iff [of "int d" t "int k"] by (auto simp: zless_nat_eq_int_zless)
    then have "\<forall>d\<in>{0..<k}. set (A (slot_at t (int d))) \<inter> set (A (slot_at t (int k))) = {}"
      by simp
    then have "(\<Union>d\<in>{0..<k}. set (A (slot_at t (int d)))) \<inter> set (A (slot_at t (int k))) = {}"
      by blast
    with Suc repr_distinct [OF D(1)] show ?case by simp
  qed simp
  then show ?thesis by (simp add: pending_def)
qed

lemma wheel_remove:
  assumes inv: "wheel_inv t m A" and "nodes m x \<noteq> None"
  shows "\<exists>m'. RemoveFromLink x m = Some m' \<and> wheel_inv t m' (\<lambda>lk. remove1 x (A lk)) \<and> same_data m m' \<and>
     pending t (\<lambda>lk. remove1 x (A lk)) = remove1 x (pending t A)"
proof -
  note D = wheel_invD [OF inv]
  obtain m' where m': "RemoveFromLink x m = Some m'" "repr m' (\<lambda>lk. remove1 x (A lk))" "same_data m m'"
    using lists.rem_law [OF D(1)] assms(2) by (auto simp: is_node_def)
  have "wheel_inv t m' (\<lambda>lk. remove1 x (A lk))"
    using inv m' expire_of_same [OF m'(3)] lists.same_islink [OF m'(3)] notin_set_remove1
    unfolding wheel_inv_def by fastforce
  moreover have "remove1 x (pending t A) = filter ((\<noteq>) x) (pending t A)"
    by (rule distinct_remove1_removeAll [OF pending_distinct [OF inv], unfolded removeAll_filter_not_eq])
  moreover have "remove1 x (A lk) = filter ((\<noteq>) x) (A lk)" for lk
    by (rule distinct_remove1_removeAll [OF repr_distinct [OF D(1)], unfolded removeAll_filter_not_eq])
  ultimately show ?thesis using m' by (simp add: pending_def filter_concat comp_def)
qed

lemma AllocTimeout_wheel:
  assumes "repr m A" "0 < n" "n \<le> 2 ^ 30" "\<And>a. base \<le> a \<Longrightarrow> a < base + nat n \<Longrightarrow> links m a = None"
  shows "\<exists>t m'. AllocTimeout n tick base m = Some (t, m') \<and> wheel_inv t m' A \<and> pending t A = [] \<and>
    iItemSize t = n \<and> ullStart t = tick"
proof -
  let ?t = "\<lparr>pItems = base, iItemSize = n, ullStart = tick, llStartIdx = 0\<rparr>"
  let ?m = "m\<lparr>links := (\<lambda>a. if base \<le> a \<and> a < base + nat n then Some \<lparr>head = None, tail = None\<rparr>
                         else links m a)\<rparr>"
  have empty: "A lk = []" if "is_slot ?t lk" for lk
    using that assms(4) repr_None [OF assms(1)] by (simp add: is_slot_def)
  have slots: "is_slot ?t (slot_at ?t d)" for d using assms(2) by (simp add: is_slot_at)
  have "repr ?m A"
    using assms(1) empty by (auto simp: repr_def list_ok_def is_slot_def)
  then have "wheel_inv ?t ?m A"
    using assms(2,3) empty slots by (auto simp: wheel_inv_def is_slot_def is_link_def)
  moreover have "pending ?t A = []" using empty slots by (simp add: pending_def)
  moreover have "AllocTimeout n tick base m = Some (?t, ?m)"
    using assms(2) by (simp add: AllocTimeout_def)
  ultimately show ?thesis by force
qed

subsection \<open>The properties of the wheel\<close>

definition demo_item :: "ptr \<Rightarrow> u64 \<Rightarrow> stTimeoutItem_t" where
  "demo_item lk e = \<lparr>pPrev = None, pNext = None, pLink = lk, ullExpireTime = e,
     pfnPrepare = NoPrepare, pfnProcess = OnSignalProcess, pArg = None, bTimeout = False\<rparr>"

definition demo_wheel :: stTimeout_t where
  "demo_wheel = \<lparr>pItems = 100, iItemSize = 4, ullStart = 1000, llStartIdx = 3\<rparr>"

definition demo_tmem :: tmem where
  "demo_tmem = \<lparr>nodes = [5 \<mapsto> demo_item (Some 101) 1002, 6 \<mapsto> demo_item (Some 103) 1000, 7 \<mapsto> demo_item None 1001],
     links = (\<lambda>a. if a = 101 then Some \<lparr>head = Some 5, tail = Some 5\<rparr>
       else if a = 103 then Some \<lparr>head = Some 6, tail = Some 6\<rparr>
       else if a \<in> {0, 100, 102} then Some \<lparr>head = None, tail = None\<rparr> else None)\<rparr>"

definition demo_lists :: "addr \<Rightarrow> addr list" where
  "demo_lists = (\<lambda>a. if a = 101 then [5] else if a = 103 then [6] else [])"

lemma demo_wheel_inv: "wheel_inv demo_wheel demo_tmem demo_lists"
proof -
  have "repr demo_tmem demo_lists"
    by (auto simp: repr_def list_ok_def demo_tmem_def demo_lists_def demo_item_def split: if_splits)
  moreover have "\<forall>d < nat (iItemSize demo_wheel). \<forall>x \<in> set (demo_lists (slot_at demo_wheel (int d))).
        expire_of demo_tmem x = uint (ullStart demo_wheel) + int d"
  proof (intro allI impI ballI)
    fix d x assume "d < nat (iItemSize demo_wheel)" "x \<in> set (demo_lists (slot_at demo_wheel (int d)))"
    moreover from this(1) have "d = 0 \<or> d = 1 \<or> d = 2 \<or> d = 3"
      by (auto simp: demo_wheel_def)
    ultimately show "expire_of demo_tmem x = uint (ullStart demo_wheel) + int d"
      by (elim disjE) (simp_all add: demo_wheel_def demo_lists_def slot_at_def expire_of_def
          demo_tmem_def demo_item_def)
  qed
  moreover have "is_link demo_tmem lk" if "is_slot demo_wheel lk" for lk
  proof -
    have "lk = 100 \<or> lk = 101 \<or> lk = 102 \<or> lk = 103"
      using that by (auto simp: is_slot_def demo_wheel_def)
    then show ?thesis by (auto simp: is_link_def demo_tmem_def)
  qed
  ultimately show ?thesis by (simp add: wheel_inv_def demo_wheel_def)
qed

text \<open>
  C10: scheduling. On a well-formed wheel, \<open>AddTimeout\<close> of an unlinked item whose expiry time is not
  before \<open>now\<close> and less than \<open>iItemSize\<close> milliseconds after the start of the wheel returns 0 and
  inserts the item into the pending items by expiry time, after those that expire at the same
  millisecond; nothing else changes and the wheel stays well-formed.
\<close>

theorem AddTimeout_inserts_by_expiry:
  assumes "wheel_inv t m A" "nodes m x = Some n" "\<not> linked A x"
    and "now \<noteq> 0" "ullStart t \<le> now" "now \<le> ullExpireTime n"
    and "uint (ullExpireTime n) - uint (ullStart (wheel_start t now)) < iItemSize t"
    and "uint (ullExpireTime n) < 2 ^ 62"
  shows "\<exists>t' m' A' lk. AddTimeout t x now m = Some (0, t', m') \<and> wheel_inv t' m' A' \<and>
     t' = wheel_start t now \<and> same_data m m' \<and> is_slot t lk \<and> A' = A(lk := A lk @ [x]) \<and>
     pending t' A' = filter (\<lambda>y. expire_of m y \<le> expire_of m x) (pending t A) @ x #
       filter (\<lambda>y. \<not> expire_of m y \<le> expire_of m x) (pending t A)"
  using assms by (rule AddTimeout_success)

theorem AddTimeout_inserts_by_expiry_witness:
  "\<exists>t' m' A' lk. AddTimeout demo_wheel 7 1000 demo_tmem = Some (0, t', m') \<and> wheel_inv t' m' A' \<and>
     t' = wheel_start demo_wheel 1000 \<and> same_data demo_tmem m' \<and> is_slot demo_wheel lk \<and>
     A' = demo_lists(lk := demo_lists lk @ [7]) \<and>
     pending t' A' = filter (\<lambda>y. expire_of demo_tmem y \<le> expire_of demo_tmem 7) (pending demo_wheel demo_lists) @ 7 #
       filter (\<lambda>y. \<not> expire_of demo_tmem y \<le> expire_of demo_tmem 7) (pending demo_wheel demo_lists)"
  by (rule AddTimeout_inserts_by_expiry [OF demo_wheel_inv, of 7 "demo_item None 1001"])
    (simp_all add: demo_tmem_def demo_wheel_def demo_item_def linked_def demo_lists_def wheel_start_def
      word_le_nat_alt)

text \<open>
  C9: firing. As long as the clock has not stood more than 2^31 - 2 milliseconds ahead of the wheel,
  \<open>TakeAllTimeout\<close> appends to the result list exactly the pending items whose expiry time is not
  after \<open>now\<close>, in the order of their expiry times, keeps exactly the others pending, and leaves a
  well-formed wheel that starts at \<open>now\<close>: no timer is lost and none fires early.
\<close>

theorem TakeAllTimeout_fires_exactly_due:
  assumes "wheel_inv t m A" "is_link m r" "\<not> is_slot t r"
    and "ullStart t \<le> now" "ullStart t = 0 \<or> uint now - uint (ullStart t) < 2 ^ 31 - 1"
    and "uint now < 2 ^ 62"
  shows "\<exists>t' m' B. TakeAllTimeout t now r m = Some (t', m') \<and> wheel_inv t' m' B \<and> same_data m m' \<and>
     ullStart t' = now \<and> pItems t' = pItems t \<and> iItemSize t' = iItemSize t \<and>
     B r = A r @ filter (\<lambda>x. expire_of m x \<le> uint now) (pending t A) \<and>
     sorted (map (expire_of m) (filter (\<lambda>x. expire_of m x \<le> uint now) (pending t A))) \<and>
     pending t' B = filter (\<lambda>x. \<not> expire_of m x \<le> uint now) (pending t A) \<and>
     (\<forall>lk. lk \<noteq> r \<longrightarrow> \<not> is_slot t lk \<longrightarrow> B lk = A lk)"
  using TakeAllTimeout_spec [OF assms] sorted_filter [OF pending_sorted [OF assms(1)]] by blast

theorem TakeAllTimeout_fires_exactly_due_witness:
  "\<exists>t' m' B. TakeAllTimeout demo_wheel 1001 0 demo_tmem = Some (t', m') \<and> wheel_inv t' m' B \<and>
     same_data demo_tmem m' \<and>
     ullStart t' = 1001 \<and> pItems t' = pItems demo_wheel \<and> iItemSize t' = iItemSize demo_wheel \<and>
     B 0 = demo_lists 0 @ filter (\<lambda>x. expire_of demo_tmem x \<le> uint (1001::u64)) (pending demo_wheel demo_lists) \<and>
     sorted (map (expire_of demo_tmem)
       (filter (\<lambda>x. expire_of demo_tmem x \<le> uint (1001::u64)) (pending demo_wheel demo_lists))) \<and>
     pending t' B = filter (\<lambda>x. \<not> expire_of demo_tmem x \<le> uint (1001::u64)) (pending demo_wheel demo_lists) \<and>
     (\<forall>lk. lk \<noteq> 0 \<longrightarrow> \<not> is_slot demo_wheel lk \<longrightarrow> B lk = demo_lists lk)"
  by (rule TakeAllTimeout_fires_exactly_due [OF demo_wheel_inv])
    (simp_all add: demo_tmem_def demo_wheel_def is_link_def is_slot_def word_le_nat_alt)

text \<open>
  refusals. \<open>AddTimeout\<close> returns the line of its first failing check: 459 when the clock went back
  behind the start, 467 when the item has already expired, 478 when it expires \<open>iItemSize\<close> or more
  milliseconds after the start; in each case no list and no item is touched.
\<close>

theorem AddTimeout_refuses:
  assumes "wheel_inv t m A" "nodes m x = Some n"
    and "uint (ullExpireTime n) - uint (ullStart (wheel_start t now)) < 2 ^ 31"
    and "now < ullStart t \<or> ullExpireTime n < now \<or>
         iItemSize t \<le> uint (ullExpireTime n) - uint (ullStart (wheel_start t now))"
  shows "AddTimeout t x now m =
     Some (if now < ullStart t then 459 else if ullExpireTime n < now then 467 else 478, wheel_start t now, m)"
  using assms(4) AddTimeout_error [OF assms(1-3)] by (auto simp: not_less)

theorem AddTimeout_refuses_witness:
  "AddTimeout demo_wheel 7 1002 demo_tmem =
     Some (if 1002 < ullStart demo_wheel then 459 else if (1001::u64) < 1002 then 467 else 478,
       wheel_start demo_wheel 1002, demo_tmem)"
  using AddTimeout_refuses [OF demo_wheel_inv, of 7 "demo_item None 1001" 1002]
  by (simp add: demo_tmem_def demo_wheel_def demo_item_def wheel_start_def)

text \<open>
  a stalled wheel. \<open>cnt\<close> is an \<open>int\<close>, so when the loop has not run for between 2^31 - 1 and
  2^32 - 2 milliseconds (24.8 to 49.7 days) \<open>TakeAllTimeout\<close> returns without firing anything and
  without advancing the wheel, whatever is pending.
\<close>

theorem TakeAllTimeout_stalls:
  assumes "ullStart t \<noteq> 0" "ullStart t \<le> now" "0 < iItemSize t"
    and "2 ^ 31 - 1 \<le> uint now - uint (ullStart t)" "uint now - uint (ullStart t) < 2 ^ 32 - 1"
  shows "TakeAllTimeout t now r m = Some (t, m)"
proof -
  have "uint (now - ullStart t) = uint now - uint (ullStart t)"
    using assms(2) by (rule uint_diff_le)
  then have "uint (now - ullStart t + 1) = uint now - uint (ullStart t) + 1"
    using assms(5) by (simp add: uint_word_ariths)
  then have "to_s32 (uint (now - ullStart t + 1)) = uint now - uint (ullStart t) + 1 - 2 ^ 32"
    using assms by (simp add: to_s32_wrap)
  then show ?thesis
    using assms by (simp add: TakeAllTimeout_def Let_def wheel_start_def)
qed

theorem TakeAllTimeout_stalls_witness:
  "TakeAllTimeout demo_wheel 2147484647 0 demo_tmem = Some (demo_wheel, demo_tmem)"
  by (rule TakeAllTimeout_stalls) (simp_all add: demo_wheel_def word_le_nat_alt)

text \<open>
  an unchecked timeout. \<open>diff\<close> is an \<open>int\<close> too: an expiry time 2^31 or more milliseconds after the
  start passes the check \<open>diff >= iItemSize\<close> as a negative number, and unless the sum with the
  start index happens to be a multiple of the size the index is negative and the item is linked into a
  header outside the array (undefined behaviour). \<open>co_cond_timedwait\<close> bounds its argument nowhere.
\<close>

theorem AddTimeout_negative_index:
  assumes "nodes m x = Some n" "ullStart t \<noteq> 0" "ullStart t \<le> now" "now \<le> ullExpireTime n"
    and "0 < iItemSize t" "0 \<le> llStartIdx t"
    and "2 ^ 31 \<le> uint (ullExpireTime n) - uint (ullStart t)"
    and "uint (ullExpireTime n) - uint (ullStart t) + llStartIdx t < 2 ^ 32"
    and "\<not> iItemSize t dvd (llStartIdx t + (uint (ullExpireTime n) - uint (ullStart t)) - 2 ^ 32)"
  shows "AddTimeout t x now m = None"
proof -
  let ?i = "llStartIdx t + (uint (ullExpireTime n) - uint (ullStart t)) - 2 ^ 32"
  have "uint (ullExpireTime n - ullStart t) = uint (ullExpireTime n) - uint (ullStart t)"
    using assms(3,4) by (intro uint_diff_le) (rule order_trans)
  then have d: "to_s32 (uint (ullExpireTime n - ullStart t)) = ?i - llStartIdx t"
    using assms by (simp add: to_s32_wrap)
  have "?i < 0" using assms by simp
  have neg: "?i smod iItemSize t = - ((- ?i) mod iItemSize t)"
    using \<open>?i < 0\<close> assms(5) by (simp add: signed_modulo_int_def signed_divide_int_def minus_mod_int_eq)
  have "\<not> iItemSize t dvd - ?i"
    using assms(9) dvd_minus_iff [of "iItemSize t" ?i] by blast
  then have "(- ?i) mod iItemSize t \<noteq> 0"
    using dvd_eq_mod_eq_0 by blast
  then have "(- ?i) mod iItemSize t > 0"
    using pos_mod_sign [OF assms(5), of "- ?i"] by linarith
  with neg have none: "slot t (?i smod iItemSize t) = None"
    by (simp add: slot_def)
  have sum: "llStartIdx t + to_s32 (uint (ullExpireTime n - ullStart t)) = ?i"
    and small: "\<not> to_s32 (uint (ullExpireTime n - ullStart t)) \<ge> iItemSize t"
    using d assms(5,6) \<open>?i < 0\<close> by linarith+
  from none have "slot t ((llStartIdx t + to_s32 (uint (ullExpireTime n - ullStart t))) smod iItemSize t) = None"
    by (simp only: sum)
  with small show ?thesis
    using assms(1-5) by (simp add: AddTimeout_def Let_def wheel_start_def not_less)
qed

theorem AddTimeout_negative_index_witness:
  "AddTimeout demo_wheel 8 1001
     (demo_tmem\<lparr>nodes := (nodes demo_tmem)(8 \<mapsto> demo_item None (1001 + 2147483647))\<rparr>) = None"
  by (rule AddTimeout_negative_index [of _ 8 "demo_item None (1001 + 2147483647)"])
    (simp_all add: demo_wheel_def demo_item_def word_le_nat_alt)

end
