(* ===== verification/PollEvents.thy ===== *)
theory PollEvents
  imports Prelude
begin

unbundle bit_operations_syntax

text \<open>
  The translation between \<open>poll\<close> and \<open>epoll\<close> event masks of \<open>src/libco/co_routine.cpp\<close>. The event
  bits are those of the Linux headers; \<open>short\<close> is \<open>16 word\<close> and \<open>uint32_t\<close> is \<open>32 word\<close>.
\<close>

abbreviation "POLLIN \<equiv> (0x001 :: 16 word)"
abbreviation "POLLPRI \<equiv> (0x002 :: 16 word)"
abbreviation "POLLOUT \<equiv> (0x004 :: 16 word)"
abbreviation "POLLERR \<equiv> (0x008 :: 16 word)"
abbreviation "POLLHUP \<equiv> (0x010 :: 16 word)"
abbreviation "POLLRDNORM \<equiv> (0x040 :: 16 word)"
abbreviation "POLLWRNORM \<equiv> (0x100 :: 16 word)"

abbreviation "EPOLLIN \<equiv> (0x001 :: u32)"
abbreviation "EPOLLOUT \<equiv> (0x004 :: u32)"
abbreviation "EPOLLERR \<equiv> (0x008 :: u32)"
abbreviation "EPOLLHUP \<equiv> (0x010 :: u32)"
abbreviation "EPOLLRDNORM \<equiv> (0x040 :: u32)"
abbreviation "EPOLLWRNORM \<equiv> (0x100 :: u32)"

definition PollEvent2Epoll :: "16 word \<Rightarrow> u32" where
  "PollEvent2Epoll events = (let
     e = 0;
     e = (if events AND POLLIN \<noteq> 0 then e OR EPOLLIN else e);
     e = (if events AND POLLOUT \<noteq> 0 then e OR EPOLLOUT else e);
     e = (if events AND POLLHUP \<noteq> 0 then e OR EPOLLHUP else e);
     e = (if events AND POLLERR \<noteq> 0 then e OR EPOLLERR else e);
     e = (if events AND POLLRDNORM \<noteq> 0 then e OR EPOLLRDNORM else e);
     e = (if events AND POLLWRNORM \<noteq> 0 then e OR EPOLLWRNORM else e)
     in e)"

definition EpollEvent2Poll :: "u32 \<Rightarrow> 16 word" where
  "EpollEvent2Poll events = (let
     e = 0;
     e = (if events AND EPOLLIN \<noteq> 0 then e OR POLLIN else e);
     e = (if events AND EPOLLOUT \<noteq> 0 then e OR POLLOUT else e);
     e = (if events AND EPOLLHUP \<noteq> 0 then e OR POLLHUP else e);
     e = (if events AND EPOLLERR \<noteq> 0 then e OR POLLERR else e);
     e = (if events AND EPOLLRDNORM \<noteq> 0 then e OR POLLRDNORM else e);
     e = (if events AND EPOLLWRNORM \<noteq> 0 then e OR POLLWRNORM else e)
     in e)"

text \<open>The bits both functions translate.\<close>

definition poll_mask :: "16 word" where
  "poll_mask = POLLIN OR POLLOUT OR POLLHUP OR POLLERR OR POLLRDNORM OR POLLWRNORM"

lemma bit_and_single:
  fixes w :: "'a::len word"
  shows "w AND (push_bit n 1) \<noteq> 0 \<longleftrightarrow> n < LENGTH('a) \<and> bit w n"
proof
  assume "w AND push_bit n 1 \<noteq> 0"
  then obtain k where "bit (w AND push_bit n 1) k" by (auto simp: bit_eq_iff)
  then show "n < LENGTH('a) \<and> bit w n" by (auto simp: bit_simps)
next
  assume "n < LENGTH('a) \<and> bit w n"
  then have "bit (w AND push_bit n 1) n" by (auto simp: bit_simps)
  then show "w AND push_bit n 1 \<noteq> 0" by auto
qed

lemma poll_bits:
  "(w :: 16 word) AND 0x001 \<noteq> 0 \<longleftrightarrow> bit w 0" "w AND 0x004 \<noteq> 0 \<longleftrightarrow> bit w 2"
  "w AND 0x008 \<noteq> 0 \<longleftrightarrow> bit w 3" "w AND 0x010 \<noteq> 0 \<longleftrightarrow> bit w 4"
  "w AND 0x040 \<noteq> 0 \<longleftrightarrow> bit w 6" "w AND 0x100 \<noteq> 0 \<longleftrightarrow> bit w 8"
  using bit_and_single [of w 0] bit_and_single [of w 2] bit_and_single [of w 3]
    bit_and_single [of w 4] bit_and_single [of w 6] bit_and_single [of w 8]
  by simp_all

lemma epoll_bits:
  "(w :: u32) AND 0x001 \<noteq> 0 \<longleftrightarrow> bit w 0" "w AND 0x004 \<noteq> 0 \<longleftrightarrow> bit w 2"
  "w AND 0x008 \<noteq> 0 \<longleftrightarrow> bit w 3" "w AND 0x010 \<noteq> 0 \<longleftrightarrow> bit w 4"
  "w AND 0x040 \<noteq> 0 \<longleftrightarrow> bit w 6" "w AND 0x100 \<noteq> 0 \<longleftrightarrow> bit w 8"
  using bit_and_single [of w 0] bit_and_single [of w 2] bit_and_single [of w 3]
    bit_and_single [of w 4] bit_and_single [of w 6] bit_and_single [of w 8]
  by simp_all

definition mask_bits :: "nat set" where
  "mask_bits = {0, 2, 3, 4, 6, 8}"

lemma bit_push_1:
  "bit (push_bit k 1 :: 'a::len word) n \<longleftrightarrow> n = k \<and> n < LENGTH('a)"
  by (auto simp: bit_simps)

lemma bit_event_consts:
  "bit (0x001 :: 'a::len word) n \<longleftrightarrow> n = 0 \<and> n < LENGTH('a)"
  "bit (0x004 :: 'a word) n \<longleftrightarrow> n = 2 \<and> n < LENGTH('a)"
  "bit (0x008 :: 'a word) n \<longleftrightarrow> n = 3 \<and> n < LENGTH('a)"
  "bit (0x010 :: 'a word) n \<longleftrightarrow> n = 4 \<and> n < LENGTH('a)"
  "bit (0x040 :: 'a word) n \<longleftrightarrow> n = 6 \<and> n < LENGTH('a)"
  "bit (0x100 :: 'a word) n \<longleftrightarrow> n = 8 \<and> n < LENGTH('a)"
  using bit_push_1 [of 0 n] bit_push_1 [of 2 n] bit_push_1 [of 3 n]
    bit_push_1 [of 4 n] bit_push_1 [of 6 n] bit_push_1 [of 8 n]
  by (simp_all add: push_bit_eq_mult)

definition or_when :: "bool \<Rightarrow> 'a::len word \<Rightarrow> 'a word \<Rightarrow> 'a word" where
  "or_when c x e = (if c then e OR x else e)"

lemma bit_or_when: "bit (or_when c x e) n \<longleftrightarrow> bit e n \<or> c \<and> bit x n"
  by (simp add: or_when_def bit_or_iff)

lemma PollEvent2Epoll_or_when:
  "PollEvent2Epoll e = or_when (e AND POLLWRNORM \<noteq> 0) EPOLLWRNORM
     (or_when (e AND POLLRDNORM \<noteq> 0) EPOLLRDNORM (or_when (e AND POLLERR \<noteq> 0) EPOLLERR
     (or_when (e AND POLLHUP \<noteq> 0) EPOLLHUP (or_when (e AND POLLOUT \<noteq> 0) EPOLLOUT
     (or_when (e AND POLLIN \<noteq> 0) EPOLLIN 0)))))"
  unfolding PollEvent2Epoll_def Let_def or_when_def ..

lemma EpollEvent2Poll_or_when:
  "EpollEvent2Poll e = or_when (e AND EPOLLWRNORM \<noteq> 0) POLLWRNORM
     (or_when (e AND EPOLLRDNORM \<noteq> 0) POLLRDNORM (or_when (e AND EPOLLERR \<noteq> 0) POLLERR
     (or_when (e AND EPOLLHUP \<noteq> 0) POLLHUP (or_when (e AND EPOLLOUT \<noteq> 0) POLLOUT
     (or_when (e AND EPOLLIN \<noteq> 0) POLLIN 0)))))"
  unfolding EpollEvent2Poll_def Let_def or_when_def ..

lemma bit_PollEvent2Epoll: "bit (PollEvent2Epoll e) n \<longleftrightarrow> n \<in> mask_bits \<and> bit e n"
  unfolding PollEvent2Epoll_or_when bit_or_when poll_bits bit_event_consts mask_bits_def
  by (simp only: bit_0_eq bot_apply bot_bool_def simp_thms insert_iff empty_iff)
    (intro iffI; elim disjE conjE; hypsubst; simp)

lemma bit_EpollEvent2Poll: "bit (EpollEvent2Poll e) n \<longleftrightarrow> n \<in> mask_bits \<and> bit e n"
  unfolding EpollEvent2Poll_or_when bit_or_when epoll_bits bit_event_consts mask_bits_def
  by (simp only: bit_0_eq bot_apply bot_bool_def simp_thms insert_iff empty_iff)
    (intro iffI; elim disjE conjE; hypsubst; simp)

lemma bit_poll_mask: "bit poll_mask n \<longleftrightarrow> n \<in> mask_bits"
  unfolding poll_mask_def bit_or_iff bit_event_consts mask_bits_def by auto

text \<open>
  C34: translating an event mask to \<open>epoll\<close> and back keeps exactly the six bits both sides know
  (\<open>POLLIN\<close>, \<open>POLLOUT\<close>, \<open>POLLHUP\<close>, \<open>POLLERR\<close>, \<open>POLLRDNORM\<close>, \<open>POLLWRNORM\<close>): none of these is lost or
  confused with another, and all others, \<open>POLLPRI\<close> included, are dropped; the translation the other way
  round does the same to an \<open>epoll\<close> mask.
\<close>

theorem poll_epoll_roundtrip:
  "EpollEvent2Poll (PollEvent2Epoll e) = e AND poll_mask \<and>
   PollEvent2Epoll (EpollEvent2Poll f) = f AND ucast poll_mask"
proof
  show "EpollEvent2Poll (PollEvent2Epoll e) = e AND poll_mask"
    by (rule bit_word_eqI) (auto simp: bit_EpollEvent2Poll bit_PollEvent2Epoll bit_and_iff bit_poll_mask)
  show "PollEvent2Epoll (EpollEvent2Poll f) = f AND ucast poll_mask"
    by (rule bit_word_eqI)
      (auto simp: bit_EpollEvent2Poll bit_PollEvent2Epoll bit_and_iff bit_poll_mask bit_ucast_iff
        mask_bits_def)
qed

end
