(* ===== verification/Context.thy ===== *)
theory Context
  imports Prelude
begin

unbundle bit_operations_syntax

text \<open>
  Machine contexts: \<open>coctx_t\<close>, \<open>coctx_init\<close> and \<open>coctx_make\<close> of \<open>src/libco/coctx.cpp\<close> and
  \<open>src/libco_l/coctx.cc\<close> for x86-64, and the instructions of the two \<open>coctx_swap.S\<close>, run by a small
  interpreter. Memory is read and written in aligned cells of eight bytes, which is all the routines do;
  an unaligned access is \<open>None\<close>.
\<close>

section \<open>Contexts\<close>

record coctx_t =
  regs :: "u64 list"
  ss_size :: u64
  ss_sp :: u64

definition kRDI :: nat where "kRDI = 7"
definition kRSI :: nat where "kRSI = 8"
definition kRETAddr :: nat where "kRETAddr = 9"
definition kRSP :: nat where "kRSP = 13"

lemmas k_defs = kRDI_def kRSI_def kRETAddr_def kRSP_def

definition coctx_init :: coctx_t where
  "coctx_init = \<lparr>regs = replicate 14 0, ss_size = 0, ss_sp = 0\<rparr>"

definition coctx_make :: "coctx_t \<Rightarrow> u64 \<Rightarrow> u64 \<Rightarrow> u64 \<Rightarrow> coctx_t" where
  "coctx_make ctx pfn s s1 = (let
     sp = ss_sp ctx + ss_size ctx;
     sp = sp AND (- 16);
     r = replicate 14 0;
     r = r[kRSP := sp - 8];
     r = r[kRETAddr := pfn];
     r = r[kRDI := s];
     r = r[kRSI := s1]
     in ctx\<lparr>regs := r\<rparr>)"

text \<open>\<open>src/libco_l/coctx.cc\<close>: also stores the entry point at the top of the stack.\<close>

definition l_coctx_make ::
  "coctx_t \<Rightarrow> u64 \<Rightarrow> u64 \<Rightarrow> u64 \<Rightarrow> (u64 \<Rightarrow> u64) \<Rightarrow> coctx_t \<times> (u64 \<Rightarrow> u64)" where
  "l_coctx_make ctx pfn s1 s2 mem = (let
     sp = ss_sp ctx + ss_size ctx - 8;
     sp = sp AND (- 16);
     r = replicate 14 0;
     mem = mem(sp := pfn);
     r = r[kRSP := sp];
     r = r[kRETAddr := pfn];
     r = r[kRDI := s1];
     r = r[kRSI := s2]
     in (ctx\<lparr>regs := r\<rparr>, mem))"

section \<open>The instructions of coctx\_swap\<close>

datatype reg = RAX | RBX | RCX | RDX | RSI | RDI | RBP | RSP | R8 | R9 | R12 | R13 | R14 | R15

record cpu =
  rg :: "reg \<Rightarrow> u64"
  rip :: u64
  ram :: "u64 \<Rightarrow> u64"

datatype instr =
    Leaq u64 reg reg \<comment> \<open>\<open>leaq d(s), r\<close>\<close>
  | Pushq reg
  | PushqMem u64 reg \<comment> \<open>\<open>pushq d(s)\<close>\<close>
  | Popq reg
  | Movq reg reg
  | MovqLoad u64 reg reg \<comment> \<open>\<open>movq d(s), r\<close>\<close>
  | MovqStore reg u64 reg \<comment> \<open>\<open>movq r, d(s)\<close>\<close>
  | Xorl reg \<comment> \<open>\<open>xorl r, r\<close>: a write of the low half clears the high half too\<close>
  | Xorq reg
  | Ret

definition aligned :: "u64 \<Rightarrow> bool" where
  "aligned a \<longleftrightarrow> uint a mod 8 = 0"

definition load :: "u64 \<Rightarrow> cpu \<Rightarrow> u64 option" where
  "load a c = (if aligned a then Some (ram c a) else None)"

definition store :: "u64 \<Rightarrow> u64 \<Rightarrow> cpu \<Rightarrow> cpu option" where
  "store a v c = (if aligned a then Some (c\<lparr>ram := (ram c)(a := v)\<rparr>) else None)"

definition set_reg :: "reg \<Rightarrow> u64 \<Rightarrow> cpu \<Rightarrow> cpu" where
  "set_reg r v c = c\<lparr>rg := (rg c)(r := v)\<rparr>"

definition push :: "u64 \<Rightarrow> cpu \<Rightarrow> cpu option" where
  "push v c = do {
     c \<leftarrow> store (rg c RSP - 8) v c;
     Some (set_reg RSP (rg c RSP - 8) c) }"

fun step :: "instr \<Rightarrow> cpu \<Rightarrow> cpu option" where
  "step (Leaq d s r) c = Some (set_reg r (rg c s + d) c)"
| "step (Pushq r) c = push (rg c r) c"
| "step (PushqMem d s) c = do { v \<leftarrow> load (rg c s + d) c; push v c }"
| "step (Popq r) c = do {
     v \<leftarrow> load (rg c RSP) c;
     Some (set_reg r v (set_reg RSP (rg c RSP + 8) c)) }"
| "step (Movq s r) c = Some (set_reg r (rg c s) c)"
| "step (MovqLoad d s r) c = do { v \<leftarrow> load (rg c s + d) c; Some (set_reg r v c) }"
| "step (MovqStore r d s) c = store (rg c s + d) (rg c r) c"
| "step (Xorl r) c = Some (set_reg r 0 c)"
| "step (Xorq r) c = Some (set_reg r 0 c)"
| "step Ret c = do {
     v \<leftarrow> load (rg c RSP) c;
     Some (set_reg RSP (rg c RSP + 8) (c\<lparr>rip := v\<rparr>)) }"

text \<open>\<open>src/libco/coctx_swap.S\<close>, the x86-64 branch.\<close>

definition coctx_swap_save :: "instr list" where
  "coctx_swap_save =
    [Leaq 8 RSP RAX, Leaq 112 RDI RSP,
     Pushq RAX, Pushq RBX, Pushq RCX, Pushq RDX, PushqMem (- 8) RAX,
     Pushq RSI, Pushq RDI, Pushq RBP, Pushq R8, Pushq R9,
     Pushq R12, Pushq R13, Pushq R14, Pushq R15]"

definition coctx_swap_restore :: "instr list" where
  "coctx_swap_restore =
    [Movq RSI RSP,
     Popq R15, Popq R14, Popq R13, Popq R12, Popq R9, Popq R8, Popq RBP, Popq RDI, Popq RSI,
     Popq RAX, Popq RDX, Popq RCX, Popq RBX, Popq RSP,
     Pushq RAX, Xorl RAX, Ret]"

definition coctx_swap :: "cpu \<Rightarrow> cpu option" where
  "coctx_swap c = (foldM step coctx_swap_save c \<bind> foldM step coctx_swap_restore)"

text \<open>\<open>src/libco_l/coctx_swap.S\<close>, the x86-64 branch.\<close>

definition l_coctx_swap_code :: "instr list" where
  "l_coctx_swap_code =
    [Leaq 0 RSP RAX,
     MovqStore RAX 104 RDI, MovqStore RAX 96 RDI, MovqStore RAX 88 RDI, MovqStore RAX 80 RDI,
     MovqLoad 0 RAX RAX,
     MovqStore RAX 72 RDI, MovqStore RSI 64 RDI, MovqStore RDI 56 RDI, MovqStore RBP 48 RDI,
     MovqStore R8 40 RDI, MovqStore R9 32 RDI, MovqStore R12 24 RDI, MovqStore R13 16 RDI,
     MovqStore R14 8 RDI,
     Movq R15 RDI,
     Xorq RAX,
     MovqLoad 48 RSI RBP, MovqLoad 104 RSI RSP, MovqLoad 0 RSI R15, MovqLoad 8 RSI R14,
     MovqLoad 16 RSI R13, MovqLoad 24 RSI R12, MovqLoad 32 RSI R9, MovqLoad 40 RSI R8,
     MovqLoad 56 RSI RDI, MovqLoad 80 RSI RDX, MovqLoad 88 RSI RCX, MovqLoad 96 RSI RBX,
     Leaq 8 RSP RSP,
     PushqMem 72 RSI,
     MovqLoad 64 RSI RSI,
     Ret]"

definition l_coctx_swap :: "cpu \<Rightarrow> cpu option" where
  "l_coctx_swap c = foldM step l_coctx_swap_code c"

section \<open>What the save and restore sequences do\<close>

lemma aligned_add: "aligned a \<Longrightarrow> aligned b \<Longrightarrow> aligned (a + b)"
  by (simp add: aligned_def uint_word_ariths mod_mod_cancel dvd_eq_mod_eq_0 [symmetric])

lemma aligned_diff: "aligned a \<Longrightarrow> aligned b \<Longrightarrow> aligned (a - b)"
  by (simp add: aligned_def uint_word_ariths mod_mod_cancel dvd_eq_mod_eq_0 [symmetric])

lemma aligned_numeral [simp]: "aligned (numeral n) \<longleftrightarrow> uint (numeral n :: u64) mod 8 = 0"
  by (simp add: aligned_def)

text \<open>Memory after a context is saved at \<open>p\<close>, in the layout documented in \<open>coctx.cpp\<close>.\<close>

definition saved_ram :: "cpu \<Rightarrow> u64 \<Rightarrow> (u64 \<Rightarrow> u64)" where
  "saved_ram c p = (ram c)(p + 104 := rg c RSP + 8, p + 96 := rg c RBX, p + 88 := rg c RCX,
     p + 80 := rg c RDX, p + 72 := ram c (rg c RSP), p + 64 := rg c RSI, p + 56 := rg c RDI,
     p + 48 := rg c RBP, p + 40 := rg c R8, p + 32 := rg c R9, p + 24 := rg c R12,
     p + 16 := rg c R13, p + 8 := rg c R14, p := rg c R15)"

text \<open>The processor after the context at \<open>p\<close> is loaded: it returns into that context.\<close>

definition loaded :: "cpu \<Rightarrow> u64 \<Rightarrow> cpu" where
  "loaded c p = c\<lparr>rg := (rg c)(R15 := ram c p, R14 := ram c (p + 8), R13 := ram c (p + 16),
       R12 := ram c (p + 24), R9 := ram c (p + 32), R8 := ram c (p + 40), RBP := ram c (p + 48),
       RDI := ram c (p + 56), RSI := ram c (p + 64), RDX := ram c (p + 80), RCX := ram c (p + 88),
       RBX := ram c (p + 96), RSP := ram c (p + 104), RAX := 0),
     rip := ram c (p + 72), ram := (ram c)(ram c (p + 104) - 8 := ram c (p + 72))\<rparr>"

lemma aligned_slots:
  assumes "aligned p"
  shows "aligned (p + 8)" "aligned (p + 16)" "aligned (p + 24)" "aligned (p + 32)" "aligned (p + 40)"
    "aligned (p + 48)" "aligned (p + 56)" "aligned (p + 64)" "aligned (p + 72)" "aligned (p + 80)"
    "aligned (p + 88)" "aligned (p + 96)" "aligned (p + 104)" "aligned (p + 112)" "aligned (p - 8)"
  using assms by (simp_all add: aligned_add aligned_diff)

lemmas run_defs = push_def store_def load_def set_reg_def

lemma swap_save:
  assumes "aligned (rg c RDI)" "aligned (rg c RSP)"
    and "\<forall>k\<in>{80, 88, 96, 104}. rg c RSP \<noteq> rg c RDI + k"
  shows "foldM step coctx_swap_save c =
    Some (c\<lparr>rg := (rg c)(RAX := rg c RSP + 8, RSP := rg c RDI), ram := saved_ram c (rg c RDI)\<rparr>)"
  using assms(2,3) aligned_slots [OF assms(1)] assms(1)
  by (simp add: coctx_swap_save_def run_defs saved_ram_def add.commute [of "rg c RDI"])

lemma swap_restore:
  assumes "aligned (rg c RSI)" "aligned (ram c (rg c RSI + 104))"
  shows "foldM step coctx_swap_restore c = Some (loaded c (rg c RSI))"
  using aligned_slots [OF assms(1)] aligned_slots(15) [OF assms(2)] assms
  by (simp add: coctx_swap_restore_def run_defs loaded_def add.commute [of "rg c RSI"] fun_upd_twist)

text \<open>The fourteen cells of the context at \<open>p\<close>, and the registers in the order of \<open>regs[]\<close>.\<close>

definition ctx_at :: "(u64 \<Rightarrow> u64) \<Rightarrow> u64 \<Rightarrow> u64 list" where
  "ctx_at r p = [r p, r (p + 8), r (p + 16), r (p + 24), r (p + 32), r (p + 40), r (p + 48),
     r (p + 56), r (p + 64), r (p + 72), r (p + 80), r (p + 88), r (p + 96), r (p + 104)]"

definition ctx_area :: "u64 \<Rightarrow> u64 list" where
  "ctx_area p = ctx_at (\<lambda>a. a) p"

text \<open>The registers with which a call of \<open>coctx_swap\<close> must return: the return address is at the top
  of the stack, and returning pops it.\<close>

definition call_ctx :: "cpu \<Rightarrow> u64 list" where
  "call_ctx c = [rg c R15, rg c R14, rg c R13, rg c R12, rg c R9, rg c R8, rg c RBP, rg c RDI, rg c RSI,
     ram c (rg c RSP), rg c RDX, rg c RCX, rg c RBX, rg c RSP + 8]"

definition running_ctx :: "cpu \<Rightarrow> u64 list" where
  "running_ctx c = [rg c R15, rg c R14, rg c R13, rg c R12, rg c R9, rg c R8, rg c RBP, rg c RDI, rg c RSI,
     rip c, rg c RDX, rg c RCX, rg c RBX, rg c RSP]"

definition swap_ok :: "cpu \<Rightarrow> bool" where
  "swap_ok c \<longleftrightarrow> aligned (rg c RDI) \<and> aligned (rg c RSI) \<and> aligned (rg c RSP) \<and>
     rg c RSP \<notin> set (ctx_area (rg c RDI)) \<and>
     set (ctx_area (rg c RDI)) \<inter> set (ctx_area (rg c RSI)) = {} \<and>
     aligned (ram c (rg c RSI + 104)) \<and>
     ram c (rg c RSI + 104) - 8 \<notin> set (ctx_area (rg c RDI)) \<union> set (ctx_area (rg c RSI))"

lemma ctx_at_cong: "(\<And>a. a \<in> set (ctx_area p) \<Longrightarrow> r a = r' a) \<Longrightarrow> ctx_at r p = ctx_at r' p"
  by (simp add: ctx_at_def ctx_area_def)

lemma saved_ram_outside: "a \<notin> set (ctx_area p) \<Longrightarrow> saved_ram c p a = ram c a"
  by (simp add: saved_ram_def ctx_area_def ctx_at_def)

lemma ctx_at_saved: "ctx_at (saved_ram c p) p = call_ctx c"
  by (simp add: saved_ram_def ctx_at_def call_ctx_def)

lemma running_loaded: "running_ctx (loaded c q) = ctx_at (ram c) q"
  by (simp add: running_ctx_def loaded_def ctx_at_def)

lemma coctx_swap_loaded:
  assumes "swap_ok c"
  shows "coctx_swap c = Some (loaded (c\<lparr>rg := (rg c)(RAX := rg c RSP + 8, RSP := rg c RDI),
     ram := saved_ram c (rg c RDI)\<rparr>) (rg c RSI))"
proof -
  have "\<forall>k\<in>{80, 88, 96, 104}. rg c RSP \<noteq> rg c RDI + k"
    using assms by (simp add: swap_ok_def ctx_area_def ctx_at_def)
  then have "foldM step coctx_swap_save c =
      Some (c\<lparr>rg := (rg c)(RAX := rg c RSP + 8, RSP := rg c RDI), ram := saved_ram c (rg c RDI)\<rparr>)" (is "_ = Some ?c")
    using assms by (intro swap_save) (simp_all add: swap_ok_def)
  moreover have "rg c RSI + 104 \<in> set (ctx_area (rg c RSI))"
    by (simp add: ctx_area_def ctx_at_def)
  then have "saved_ram c (rg c RDI) (rg c RSI + 104) = ram c (rg c RSI + 104)"
    using assms by (intro saved_ram_outside) (auto simp: swap_ok_def)
  then have "foldM step coctx_swap_restore ?c = Some (loaded ?c (rg ?c RSI))"
    using assms by (intro swap_restore) (simp_all add: swap_ok_def)
  ultimately show ?thesis by (simp add: coctx_swap_def)
qed

lemma coctx_swap_effect:
  assumes "swap_ok c"
  shows "\<exists>c'. coctx_swap c = Some c' \<and> ctx_at (ram c') (rg c RDI) = call_ctx c \<and>
     running_ctx c' = ctx_at (ram c) (rg c RSI) \<and> rg c' RAX = 0 \<and>
     (\<forall>a. a \<notin> set (ctx_area (rg c RDI)) \<longrightarrow> a \<noteq> ram c (rg c RSI + 104) - 8 \<longrightarrow> ram c' a = ram c a)"
proof -
  let ?s = "saved_ram c (rg c RDI)"
  let ?c = "c\<lparr>rg := (rg c)(RAX := rg c RSP + 8, RSP := rg c RDI), ram := ?s\<rparr>"
  let ?top = "ram c (rg c RSI + 104) - 8"
  have q: "?s a = ram c a" if "a \<in> set (ctx_area (rg c RSI))" for a
    using assms that by (intro saved_ram_outside) (auto simp: swap_ok_def)
  have top: "?s (rg c RSI + 104) - 8 = ?top"
    by (subst q) (simp_all add: ctx_area_def ctx_at_def)
  have "ctx_at (ram (loaded ?c (rg c RSI))) (rg c RDI) = ctx_at ?s (rg c RDI)"
    using assms top by (intro ctx_at_cong) (auto simp: loaded_def swap_ok_def)
  moreover have "running_ctx (loaded ?c (rg c RSI)) = ctx_at (ram c) (rg c RSI)"
    unfolding running_loaded using q by (intro ctx_at_cong) simp
  moreover have "rg (loaded ?c (rg c RSI)) RAX = 0" by (simp add: loaded_def)
  moreover have "ram (loaded ?c (rg c RSI)) a = ram c a"
    if "a \<notin> set (ctx_area (rg c RDI))" "a \<noteq> ?top" for a
    using that top saved_ram_outside [of a "rg c RDI" c] by (simp add: loaded_def)
  ultimately show ?thesis
    using coctx_swap_loaded [OF assms] ctx_at_saved by auto
qed

text \<open>The stack pointer \<open>coctx_make\<close> computes.\<close>

lemma and_minus_16:
  fixes x :: u64
  shows "uint (x AND - 16) = uint x - uint x mod 16"
proof -
  have m: "- 16 = (NOT (mask 4) :: u64)" by (simp add: mask_eq_exp_minus_1 not_eq_complement)
  have "x AND - 16 = push_bit 4 (drop_bit 4 x)"
    unfolding m by (rule bit_eqI) (auto simp: bit_simps)
  moreover have "push_bit 4 (drop_bit 4 x) = x - take_bit 4 x"
    using bits_ident [of 4 x] by (simp add: eq_diff_eq)
  moreover have "take_bit 4 x \<le> x" unfolding word_le_def unsigned_take_bit_eq take_bit_eq_mod by (simp add: zmod_le_nonneg_dividend uint_mod)
  ultimately show ?thesis by (simp add: uint_diff_le take_bit_eq_mod uint_mod)
qed

lemma coctx_make_sp:
  assumes "24 \<le> sz" "uint sp + uint sz < 2 ^ 64"
  defines "r \<equiv> ((sp + sz) AND - 16) - (8 :: u64)"
  shows "uint (r + 8) mod 16 = 0" "uint sp + uint sz - 24 < uint r" "uint r + 8 \<le> uint sp + uint sz"
proof -
  have s: "uint (sp + sz) = uint sp + uint sz"
    using assms(2) by (simp add: uint_word_ariths)
  let ?a = "(sp + sz) AND - 16"
  have a: "uint ?a = uint sp + uint sz - (uint sp + uint sz) mod 16"
    using and_minus_16 [of "sp + sz"] s by simp
  have 24: "24 \<le> uint sz" using assms(1) by (simp add: word_le_def)
  have "0 \<le> uint sp" and uint_8: "uint (8 :: u64) = 8" by simp_all
  have lt: "(uint sp + uint sz) mod 16 < 16" "0 \<le> (uint sp + uint sz) mod 16" by simp_all
  have "8 \<le> ?a" using 24 \<open>0 \<le> uint sp\<close> lt(1)
    unfolding word_le_def a uint_8 by linarith
  then have r: "uint r = uint ?a - 8" unfolding r_def by (simp add: uint_diff_le)
  have "r + 8 = ?a" by (simp add: r_def)
  then show "uint (r + 8) mod 16 = 0" unfolding \<open>r + 8 = ?a\<close> a by (simp add: mod_diff_eq) 
  show "uint sp + uint sz - 24 < uint r" "uint r + 8 \<le> uint sp + uint sz"
    unfolding r a using lt by auto
qed

lemma coctx_make_regs:
  "regs (coctx_make ctx pfn s s1) =
     [0, 0, 0, 0, 0, 0, 0, s, s1, pfn, 0, 0, 0, ((ss_sp ctx + ss_size ctx) AND - 16) - 8]"
  by (simp add: coctx_make_def k_defs Let_def numeral_eq_Suc)

section \<open>Properties\<close>

text \<open>A processor for the witnesses: contexts at 1000 and 2000, stacks at 8000 and 9000.\<close>

definition demo_cpu :: cpu where
  "demo_cpu = \<lparr>rg = (\<lambda>_. 5)(RDI := 1000, RSI := 2000, RSP := 8000, RBX := 77), rip = 1,
     ram = (\<lambda>_. 0)(8000 := 4242, 2104 := 9000, 2072 := 555)\<rparr>"

definition demo_back :: cpu where
  "demo_back = (the (coctx_swap demo_cpu))\<lparr>rg := (\<lambda>_. 6)(RDI := 2000, RSI := 1000, RSP := 9000)\<rparr>"

text \<open>
  C16: \<open>coctx_swap\<close> (x86-64) suspends and resumes. If a call at \<open>c\<close> saves into the context at
  \<open>p\<close>, and any later execution that leaves the fourteen cells of that context alone calls
  \<open>coctx_swap\<close> with it as the second argument, then the first call returns: to its own return
  address, with the return address popped, with the value 0, and with every register of the context
  (\<open>r15, r14, r13, r12, r9, r8, rbp, rdi, rsi, rdx, rcx, rbx\<close>) as it was; no memory is changed but the
  context of the second caller and the slot below the resumed stack top.
\<close>
theorem coctx_swap_round_trip:
  assumes "swap_ok c" "coctx_swap c = Some c1"
    and "ctx_at (ram c2) (rg c RDI) = ctx_at (ram c1) (rg c RDI)"
    and "swap_ok c2" "rg c2 RSI = rg c RDI"
  shows "\<exists>c3. coctx_swap c2 = Some c3 \<and> running_ctx c3 = call_ctx c \<and> rg c3 RAX = 0 \<and>
     ctx_at (ram c3) (rg c2 RDI) = call_ctx c2 \<and>
     (\<forall>a. a \<notin> set (ctx_area (rg c2 RDI)) \<and> a \<noteq> rg c RSP \<longrightarrow> ram c3 a = ram c2 a)"
proof -
  have saved: "ctx_at (ram c2) (rg c RDI) = call_ctx c"
    using coctx_swap_effect [OF assms(1)] assms(2,3) by auto
  then have "ram c2 (rg c RDI + 104) - 8 = rg c RSP"
    by (simp add: ctx_at_def call_ctx_def)
  with saved show ?thesis
    using coctx_swap_effect [OF assms(4)] assms(5) by auto
qed

text \<open>
  C17: a context prepared by \<open>coctx_make\<close> enters its function. Swapping to it jumps to \<open>pfn\<close> with the
  arguments \<open>s\<close> and \<open>s1\<close> in \<open>rdi\<close> and \<open>rsi\<close> and the other context registers 0, on a stack pointer that
  lies within the top 24 bytes of the stack and is aligned as the System V ABI wants it at a function
  entry (\<open>rsp + 8\<close> is a multiple of 16), for every stack of at least 24 bytes.
\<close>
theorem coctx_make_enters_pfn:
  assumes "swap_ok c" "ctx_at (ram c) (rg c RSI) = regs (coctx_make ctx pfn s s1)"
    and "24 \<le> ss_size ctx" "uint (ss_sp ctx) + uint (ss_size ctx) < 2 ^ 64"
  shows "\<exists>c'. coctx_swap c = Some c' \<and> rip c' = pfn \<and> rg c' RDI = s \<and> rg c' RSI = s1 \<and>
     rg c' RBX = 0 \<and> rg c' RBP = 0 \<and> rg c' R12 = 0 \<and> rg c' R13 = 0 \<and> rg c' R14 = 0 \<and> rg c' R15 = 0 \<and>
     uint (rg c' RSP + 8) mod 16 = 0 \<and>
     uint (ss_sp ctx) + uint (ss_size ctx) - 24 < uint (rg c' RSP) \<and>
     uint (rg c' RSP) + 8 \<le> uint (ss_sp ctx) + uint (ss_size ctx)"
proof -
  obtain c' where c': "coctx_swap c = Some c'" "running_ctx c' = ctx_at (ram c) (rg c RSI)"
    using coctx_swap_effect [OF assms(1)] by auto
  then show ?thesis
    using coctx_make_sp [OF assms(3,4)] assms(2)
    by (simp add: coctx_make_regs running_ctx_def)
qed

definition demo_new :: coctx_t where
  "demo_new = coctx_make (coctx_init\<lparr>ss_sp := 16000, ss_size := 4096\<rparr>) 555 66 77"

definition demo_enter :: cpu where
  "demo_enter = \<lparr>rg = (\<lambda>_. 5)(RDI := 1000, RSI := 2000, RSP := 8000), rip = 1,
     ram = (\<lambda>a. if 2000 \<le> a \<and> a \<le> 2104 then regs demo_new ! (unat (a - 2000) div 8) else 0)\<rparr>"

lemmas swap_eval = swap_ok_def ctx_area_def ctx_at_def

lemma coctx_swap_round_trip_witness:
  "\<exists>c3. coctx_swap demo_back = Some c3 \<and> running_ctx c3 = call_ctx demo_cpu"
proof -
  have ok: "swap_ok demo_cpu"
    by (simp add: swap_eval demo_cpu_def)
  have bk: "demo_back = (loaded (demo_cpu\<lparr>rg := (rg demo_cpu)(RAX := 8008, RSP := 1000),
      ram := saved_ram demo_cpu 1000\<rparr>) 2000)\<lparr>rg := (\<lambda>_. 6)(RDI := 2000, RSI := 1000, RSP := 9000)\<rparr>"
    using coctx_swap_loaded [OF ok] by (simp add: demo_back_def) (simp add: demo_cpu_def)
  have ok2: "swap_ok demo_back"
    by (simp add: bk swap_eval loaded_def saved_ram_def) (simp add: demo_cpu_def)
  show ?thesis
    using coctx_swap_round_trip [OF ok, of "the (coctx_swap demo_cpu)" demo_back] ok2
      coctx_swap_loaded [OF ok]
    by (auto simp: demo_back_def demo_cpu_def)
qed

lemma coctx_make_enters_pfn_witness:
  "\<exists>c'. coctx_swap demo_enter = Some c' \<and> rip c' = 555 \<and> rg c' RDI = 66 \<and> rg c' RSI = 77"
proof -
  have regs: "regs demo_new = [0, 0, 0, 0, 0, 0, 0, 66, 77, 555, 0, 0, 0, 20088]"
    by (simp add: demo_new_def coctx_make_regs coctx_init_def)
  have "swap_ok demo_enter"
    by (simp add: swap_eval demo_enter_def regs)
  moreover have "ctx_at (ram demo_enter) (rg demo_enter RSI) = regs demo_new"
    by (simp add: demo_enter_def ctx_at_def regs)
  ultimately show ?thesis
    using coctx_make_enters_pfn [of demo_enter "coctx_init\<lparr>ss_sp := 16000, ss_size := 4096\<rparr>" 555 66 77]
    by (auto simp: demo_new_def)
qed

text \<open>The swap of \<open>src/libco_l\<close>: the registers it stores, and its round trip.\<close>

definition l_swap_ok :: "cpu \<Rightarrow> bool" where
  "l_swap_ok c \<longleftrightarrow> aligned (rg c RDI) \<and> aligned (rg c RSI) \<and> aligned (rg c RSP) \<and>
     rg c RSP \<notin> set (ctx_area (rg c RDI)) \<and>
     set (ctx_area (rg c RDI)) \<inter> set (ctx_area (rg c RSI)) = {} \<and>
     aligned (ram c (rg c RSI + 104)) \<and>
     ram c (rg c RSI + 104) \<notin> set (ctx_area (rg c RDI)) \<union> set (ctx_area (rg c RSI))"

definition l_saved :: "cpu \<Rightarrow> cpu" where
  "l_saved c = (let p = rg c RDI in c\<lparr>rg := (rg c)(RAX := 0, RDI := rg c R15), ram := (ram c)(
     p + 104 := rg c RSP, p + 96 := rg c RSP, p + 88 := rg c RSP,
     p + 80 := rg c RSP, p + 72 := ram c (rg c RSP), p + 64 := rg c RSI, p + 56 := rg c RDI,
     p + 48 := rg c RBP, p + 40 := rg c R8, p + 32 := rg c R9, p + 24 := rg c R12,
     p + 16 := rg c R13, p + 8 := rg c R14)\<rparr>)"

lemma l_swap_split:
  "l_coctx_swap c = (foldM step (take 17 l_coctx_swap_code) c \<bind> foldM step (drop 17 l_coctx_swap_code))"
  by (simp add: l_coctx_swap_def flip: foldM_append)

lemma l_swap_save:
  assumes "l_swap_ok c"
  shows "foldM step (take 17 l_coctx_swap_code) c = Some (l_saved c)"
proof -
  have "rg c RSP \<noteq> rg c RDI + 80" "rg c RSP \<noteq> rg c RDI + 88" "rg c RSP \<noteq> rg c RDI + 96"
    "rg c RSP \<noteq> rg c RDI + 104" and al: "aligned (rg c RDI)" "aligned (rg c RSP)"
    using assms by (simp_all add: l_swap_ok_def ctx_area_def ctx_at_def)
  then show ?thesis
    using aligned_slots [OF al(1)]
    by (simp add: l_coctx_swap_code_def run_defs l_saved_def Let_def fun_upd_twist)
qed

lemma l_swap_restore:
  assumes "aligned (rg c RSI)" "aligned (ram c (rg c RSI + 104))"
    and "ram c (rg c RSI + 104) \<notin> set (ctx_area (rg c RSI))"
  shows "\<exists>c'. foldM step (drop 17 l_coctx_swap_code) c = Some c' \<and> rg c' RAX = rg c RAX \<and>
    running_ctx c' = (ctx_at (ram c) (rg c RSI))[13 := ram c (rg c RSI + 104) + 8] \<and>
    ram c' = (ram c)(ram c (rg c RSI + 104) := ram c (rg c RSI + 72))"
  using aligned_slots [OF assms(1)] aligned_slots(1) [OF assms(2)] assms
  by (simp add: l_coctx_swap_code_def run_defs running_ctx_def ctx_at_def ctx_area_def) metis

lemma l_saved_outside: "a \<notin> set (ctx_area (rg c RDI)) \<Longrightarrow> ram (l_saved c) a = ram c a"
  by (simp add: l_saved_def ctx_area_def ctx_at_def Let_def)

text \<open>What \<open>src/libco_l\<close> leaves in a saved context: cell 0 is never written, and the cells of \<open>rdx\<close>,
  \<open>rcx\<close> and \<open>rbx\<close> get the stack pointer.\<close>

definition l_call_ctx :: "cpu \<Rightarrow> u64 list" where
  "l_call_ctx c = [ram c (rg c RDI), rg c R14, rg c R13, rg c R12, rg c R9, rg c R8, rg c RBP, rg c RDI,
     rg c RSI, ram c (rg c RSP), rg c RSP, rg c RSP, rg c RSP, rg c RSP]"

lemma l_swap_effect:
  assumes "l_swap_ok c"
  shows "\<exists>c'. l_coctx_swap c = Some c' \<and> ctx_at (ram c') (rg c RDI) = l_call_ctx c \<and>
     running_ctx c' = (ctx_at (ram c) (rg c RSI))[13 := ram c (rg c RSI + 104) + 8] \<and> rg c' RAX = 0"
proof -
  let ?s = "l_saved c"
  have q: "ram ?s a = ram c a" if "a \<in> set (ctx_area (rg c RSI))" for a
    using assms that by (intro l_saved_outside) (auto simp: l_swap_ok_def)
  have top: "ram ?s (rg c RSI + 104) = ram c (rg c RSI + 104)"
    by (subst q) (simp_all add: ctx_area_def ctx_at_def)
  have rsi: "rg ?s RSI = rg c RSI" and rax: "rg ?s RAX = 0"
    by (simp_all add: l_saved_def Let_def)
  obtain c' where c': "foldM step (drop 17 l_coctx_swap_code) ?s = Some c'" "rg c' RAX = rg ?s RAX"
    "running_ctx c' = (ctx_at (ram ?s) (rg c RSI))[13 := ram ?s (rg c RSI + 104) + 8]"
    "ram c' = (ram ?s)(ram ?s (rg c RSI + 104) := ram ?s (rg c RSI + 72))"
    using l_swap_restore [of ?s] assms unfolding rsi top by (auto simp: l_swap_ok_def)
  have "ctx_at (ram c') (rg c RDI) = ctx_at (ram ?s) (rg c RDI)"
    using assms unfolding c'(4) top by (intro ctx_at_cong) (auto simp: l_swap_ok_def)
  also have "\<dots> = l_call_ctx c"
    by (simp add: l_saved_def Let_def ctx_at_def l_call_ctx_def)
  finally have 1: "ctx_at (ram c') (rg c RDI) = l_call_ctx c" .
  have "ctx_at (ram ?s) (rg c RSI) = ctx_at (ram c) (rg c RSI)"
    using q by (intro ctx_at_cong) simp
  then show ?thesis
    using l_swap_save [OF assms] c'(1-3) 1 top rax by (simp add: l_swap_split)
qed

definition l_demo_cpu :: cpu where
  "l_demo_cpu = \<lparr>rg = (\<lambda>_. 5)(RDI := 1000, RSI := 2000, RSP := 8000, RBX := 77, R15 := 88), rip = 1,
     ram = (\<lambda>_. 0)(8000 := 4242, 2104 := 9000, 2072 := 555)\<rparr>"

definition l_demo_back :: cpu where
  "l_demo_back = (the (l_coctx_swap l_demo_cpu))\<lparr>rg := (\<lambda>_. 6)(RDI := 2000, RSI := 1000, RSP := 9600)\<rparr>"

text \<open>
  C36: the \<open>coctx_swap\<close> of \<open>src/libco_l\<close> does not restore the callee-saved registers \<open>rbx\<close> and \<open>r15\<close>.
  After the same round trip as for the other library, control is back at the return address with the stack pointer
  and \<open>rbp, r12, r13, r14\<close> of the suspended call, but \<open>rbx\<close> holds the suspended stack pointer (as do
  \<open>rcx\<close> and \<open>rdx\<close>) and \<open>r15\<close> whatever the first cell of the context held before the call.
\<close>
theorem l_coctx_swap_loses_registers:
  assumes "l_swap_ok c" "l_coctx_swap c = Some c1"
    and "ctx_at (ram c2) (rg c RDI) = ctx_at (ram c1) (rg c RDI)"
    and "l_swap_ok c2" "rg c2 RSI = rg c RDI"
  shows "\<exists>c3. l_coctx_swap c2 = Some c3 \<and> rg c3 RAX = 0 \<and>
     rip c3 = ram c (rg c RSP) \<and> rg c3 RSP = rg c RSP + 8 \<and> rg c3 RBP = rg c RBP \<and>
     rg c3 R12 = rg c R12 \<and> rg c3 R13 = rg c R13 \<and> rg c3 R14 = rg c R14 \<and>
     rg c3 RBX = rg c RSP \<and> rg c3 RCX = rg c RSP \<and> rg c3 RDX = rg c RSP \<and>
     rg c3 R15 = ram c (rg c RDI)"
proof -
  have saved: "ctx_at (ram c2) (rg c RDI) = l_call_ctx c"
    using l_swap_effect [OF assms(1)] assms(2,3) by auto
  then have "ram c2 (rg c RDI + 104) = rg c RSP"
    by (simp add: ctx_at_def l_call_ctx_def)
  with saved obtain c3 where "l_coctx_swap c2 = Some c3" "rg c3 RAX = 0"
    "running_ctx c3 = (l_call_ctx c)[13 := rg c RSP + 8]"
    using l_swap_effect [OF assms(4)] assms(5) by auto
  then show ?thesis
    by (simp add: running_ctx_def l_call_ctx_def)
qed

lemma l_coctx_swap_loses_registers_witness:
  "\<exists>c3. l_coctx_swap l_demo_back = Some c3 \<and> rg l_demo_cpu RBX = 77 \<and> rg c3 RBX = 8000 \<and>
     rg l_demo_cpu R15 = 88 \<and> rg c3 R15 = 0"
proof -
  have ok: "l_swap_ok l_demo_cpu"
    by (simp add: l_swap_ok_def ctx_area_def ctx_at_def l_demo_cpu_def)
  obtain c1 where c1: "l_coctx_swap l_demo_cpu = Some c1" "ctx_at (ram c1) 1000 = l_call_ctx l_demo_cpu"
    using l_swap_effect [OF ok] by (auto simp: l_demo_cpu_def)
  have "ram c1 1104 = 8000"
    using c1(2) by (simp add: ctx_at_def l_call_ctx_def) (simp add: l_demo_cpu_def)
  then have ok2: "l_swap_ok l_demo_back"
    by (simp add: l_swap_ok_def ctx_area_def ctx_at_def l_demo_back_def c1(1))
  have "ram l_demo_back = ram c1" "rg l_demo_back RSI = 1000" "rg l_demo_cpu RDI = 1000"
    by (simp_all add: l_demo_back_def c1(1)) (simp add: l_demo_cpu_def)
  then have "\<exists>c3. l_coctx_swap l_demo_back = Some c3 \<and> rg c3 RBX = rg l_demo_cpu RSP \<and>
      rg c3 R15 = ram l_demo_cpu (rg l_demo_cpu RDI)"
    using l_coctx_swap_loses_registers [OF ok c1(1) _ ok2] by auto
  moreover have "rg l_demo_cpu RSP = 8000" "rg l_demo_cpu RBX = 77" "rg l_demo_cpu R15 = 88"
    "ram l_demo_cpu (rg l_demo_cpu RDI) = 0"
    by (simp_all add: l_demo_cpu_def)
  ultimately show ?thesis
    by auto
qed

end
