(* ===== verification/Coroutine.thy ===== *)
theory Coroutine
  imports Context Timeout
begin

text \<open>
  Coroutines, their stacks and the per-thread environment of \<open>src/libco/co_routine.cpp\<close> (with the
  structures of \<open>co_routine_inner.h\<close>): allocation, creation, \<open>co_resume\<close>, \<open>co_yield\<close>, \<open>co_swap\<close> and
  the copying of shared stacks. The state of the process is one record \<open>world\<close> that every operation
  passes on. Objects live at addresses handed out by \<open>malloc\<close>, which are never used twice; the run
  stacks are bytes of the flat memory \<open>mem\<close>. An access through \<open>NULL\<close>, to a freed object or outside an
  array is \<open>None\<close>.
\<close>

section \<open>Structures\<close>

record stStackMem_t =
  occupy_co :: ptr
  stack_size :: int
  stack_bp :: addr
  stack_buffer :: addr

record stShareStack_t =
  alloc_idx :: u32
  share_stack_size :: int
  share_count :: int
  stack_array :: "addr list"

record stCoRoutineAttr_t =
  attr_stack_size :: int
  attr_share_stack :: ptr

record stCoRoutine_t =
  co_env :: addr
  co_pfn :: ptr
  co_arg :: u64
  co_ctx :: coctx_t
  cStart :: bool
  cEnd :: bool
  cIsMain :: bool
  cEnableSysHook :: bool
  cIsShareStack :: bool
  pvEnv :: ptr
  stack_mem :: ptr
  stack_sp :: addr
  save_size :: u32
  save_buffer :: ptr
  aSpec :: "u64 list"

record stCoRoutineEnv_t =
  pCallStack :: "ptr list"
  iCallStackSize :: int
  pEpoll :: ptr
  env_pending_co :: ptr
  env_occupy_co :: ptr

record stCoEpoll_t =
  iEpollFd :: int
  pTimeout :: addr
  pstTimeoutList :: addr
  pstActiveList :: addr
  epoll_result :: bool

text \<open>
  The process: the objects by address, the save buffers, the bytes of the run stacks, the wheel and its
  items, the array of environments, the identifier of the running thread and the registers of its
  processor in the order of \<open>coctx_t::regs\<close> (what \<open>coctx_swap\<close> does to them is theorem
  \<open>coctx_swap_round_trip\<close> of \<open>Context\<close>).
\<close>

record world =
  cos :: "addr \<rightharpoonup> stCoRoutine_t"
  stacks :: "addr \<rightharpoonup> stStackMem_t"
  shares :: "addr \<rightharpoonup> stShareStack_t"
  envs :: "addr \<rightharpoonup> stCoRoutineEnv_t"
  epolls :: "addr \<rightharpoonup> stCoEpoll_t"
  timeouts :: "addr \<rightharpoonup> stTimeout_t"
  tm :: tmem
  bufs :: "addr \<rightharpoonup> byte list"
  mem :: "addr \<Rightarrow> byte"
  brk :: addr
  g_arrCoEnvPerThread :: "int \<Rightarrow> ptr"
  tid :: int
  cpu_regs :: "u64 list"

definition malloc :: "nat \<Rightarrow> world \<Rightarrow> addr \<times> world" where
  "malloc n w = (brk w, w\<lparr>brk := brk w + max 1 n\<rparr>)"

definition set_co :: "(stCoRoutine_t \<Rightarrow> stCoRoutine_t) \<Rightarrow> addr \<Rightarrow> world \<Rightarrow> world option" where
  "set_co f p w = map_option (\<lambda>c. w\<lparr>cos := (cos w)(p \<mapsto> f c)\<rparr>) (cos w p)"

definition set_stack :: "(stStackMem_t \<Rightarrow> stStackMem_t) \<Rightarrow> addr \<Rightarrow> world \<Rightarrow> world option" where
  "set_stack f p w = map_option (\<lambda>s. w\<lparr>stacks := (stacks w)(p \<mapsto> f s)\<rparr>) (stacks w p)"

definition set_env :: "(stCoRoutineEnv_t \<Rightarrow> stCoRoutineEnv_t) \<Rightarrow> addr \<Rightarrow> world \<Rightarrow> world option" where
  "set_env f p w = map_option (\<lambda>e. w\<lparr>envs := (envs w)(p \<mapsto> f e)\<rparr>) (envs w p)"

section \<open>Stacks\<close>

definition co_alloc_stackmem :: "u32 \<Rightarrow> world \<Rightarrow> addr \<times> world" where
  "co_alloc_stackmem sz w = (let
     (p, w) = malloc 1 w;
     (b, w) = malloc (unat sz) w
     in (p, w\<lparr>stacks := (stacks w)(p \<mapsto>
          \<lparr>occupy_co = None, stack_size = to_s32 (uint sz), stack_bp = b + unat sz, stack_buffer = b\<rparr>)\<rparr>))"

primrec alloc_stacks :: "nat \<Rightarrow> u32 \<Rightarrow> world \<Rightarrow> addr list \<times> world" where
  "alloc_stacks 0 sz w = ([], w)"
| "alloc_stacks (Suc n) sz w = (let
     (ps, w) = alloc_stacks n sz w;
     (p, w) = co_alloc_stackmem sz w
     in (ps @ [p], w))"

definition co_alloc_sharestack :: "int \<Rightarrow> int \<Rightarrow> world \<Rightarrow> addr \<times> world" where
  "co_alloc_sharestack cnt sz w = (let
     (s, w) = malloc 1 w;
     (ps, w) = alloc_stacks (nat cnt) (word_of_int sz) w
     in (s, w\<lparr>shares := (shares w)(s \<mapsto>
          \<lparr>alloc_idx = 0, share_stack_size = sz, share_count = cnt, stack_array = ps\<rparr>)\<rparr>))"

text \<open>\<open>alloc_idx % count\<close> is computed in \<open>unsigned int\<close>.\<close>

definition co_get_stackmem :: "ptr \<Rightarrow> world \<Rightarrow> (ptr \<times> world) option" where
  "co_get_stackmem share_stack w = (case share_stack of
     None \<Rightarrow> Some (None, w)
   | Some p \<Rightarrow> do {
       s \<leftarrow> shares w p;
       require (word_of_int (share_count s) \<noteq> (0 :: u32));
       let idx = to_s32 (uint (alloc_idx s mod word_of_int (share_count s)));
       require (0 \<le> idx \<and> idx < int (length (stack_array s)));
       Some (Some (stack_array s ! nat idx),
         w\<lparr>shares := (shares w)(p \<mapsto> s\<lparr>alloc_idx := alloc_idx s + 1\<rparr>)\<rparr>) })"

section \<open>Creating and freeing coroutines\<close>

definition default_attr :: stCoRoutineAttr_t where
  "default_attr = \<lparr>attr_stack_size = 128 * 1024, attr_share_stack = None\<rparr>"

text \<open>The clamping and rounding of \<open>at.stack_size\<close>.\<close>

definition normal_stack_size :: "int \<Rightarrow> int" where
  "normal_stack_size sz = (let
     sz = (if sz \<le> 0 then 128 * 1024
           else if sz > 1024 * 1024 * 8 then 1024 * 1024 * 8 else sz)
     in if sz AND 0xFFF \<noteq> 0 then (sz AND NOT 0xFFF) + 0x1000 else sz)"

definition co_create_env ::
  "addr \<Rightarrow> stCoRoutineAttr_t option \<Rightarrow> ptr \<Rightarrow> u64 \<Rightarrow> world \<Rightarrow> (addr \<times> world) option" where
  "co_create_env env attr pfn arg w = (let
     at = (case attr of None \<Rightarrow> default_attr | Some a \<Rightarrow> a);
     at = at\<lparr>attr_stack_size := normal_stack_size (attr_stack_size at)\<rparr>;
     (lp, w) = malloc 1 w
     in do {
       (sm, sz, w) \<leftarrow> (case attr_share_stack at of
          Some p \<Rightarrow> do {
            (sm, w) \<leftarrow> co_get_stackmem (Some p) w;
            s \<leftarrow> shares w p;
            Some (sm, share_stack_size s, w) }
        | None \<Rightarrow> (let (q, w) = co_alloc_stackmem (word_of_int (attr_stack_size at)) w
            in Some (Some q, attr_stack_size at, w)));
       q \<leftarrow> sm;
       s \<leftarrow> stacks w q;
       Some (lp, w\<lparr>cos := (cos w)(lp \<mapsto>
         \<lparr>co_env = env, co_pfn = pfn, co_arg = arg,
          co_ctx = coctx_init\<lparr>ss_sp := of_nat (stack_buffer s), ss_size := word_of_int sz\<rparr>,
          cStart = False, cEnd = False, cIsMain = False, cEnableSysHook = False,
          cIsShareStack = (attr_share_stack at \<noteq> None), pvEnv = None, stack_mem = sm, stack_sp = 0,
          save_size = 0, save_buffer = None, aSpec = replicate 1024 0\<rparr>)\<rparr>) })"

definition co_free :: "addr \<Rightarrow> world \<Rightarrow> world option" where
  "co_free co w = do {
     c \<leftarrow> cos w co;
     w \<leftarrow> (if \<not> cIsShareStack c then do {
            q \<leftarrow> stack_mem c;
            s \<leftarrow> stacks w q;
            Some (w\<lparr>stacks := (stacks w)(q := None)\<rparr>) }
          else Some w);
     Some (w\<lparr>cos := (cos w)(co := None)\<rparr>) }"

definition co_release :: "addr \<Rightarrow> world \<Rightarrow> world option" where
  "co_release co w = co_free co w"

section \<open>The environment of a thread\<close>

definition co_get_curr_thread_env :: "world \<Rightarrow> ptr option" where
  "co_get_curr_thread_env w = (if 0 \<le> tid w \<and> tid w < 204800
     then Some (g_arrCoEnvPerThread w (tid w)) else None)"

text \<open>\<open>pCallStack[i]\<close>, inside the array only.\<close>

definition call_at :: "stCoRoutineEnv_t \<Rightarrow> int \<Rightarrow> ptr option" where
  "call_at e i = (if 0 \<le> i \<and> i < int (length (pCallStack e)) then Some (pCallStack e ! nat i) else None)"

definition GetCurrCo :: "addr \<Rightarrow> world \<Rightarrow> ptr option" where
  "GetCurrCo env w = do { e \<leftarrow> envs w env; call_at e (iCallStackSize e - 1) }"

definition GetCurrThreadCo :: "world \<Rightarrow> ptr option" where
  "GetCurrThreadCo w = do {
     e \<leftarrow> co_get_curr_thread_env w;
     (case e of None \<Rightarrow> Some None | Some env \<Rightarrow> GetCurrCo env w) }"

definition co_self :: "world \<Rightarrow> ptr option" where
  "co_self w = GetCurrThreadCo w"

definition push_call :: "addr \<Rightarrow> stCoRoutineEnv_t \<Rightarrow> stCoRoutineEnv_t option" where
  "push_call co e = (if 0 \<le> iCallStackSize e \<and> iCallStackSize e < int (length (pCallStack e))
     then Some (e\<lparr>pCallStack := (pCallStack e)[nat (iCallStackSize e) := Some co],
                  iCallStackSize := iCallStackSize e + 1\<rparr>)
     else None)"

definition SetEpoll :: "addr \<Rightarrow> ptr \<Rightarrow> world \<Rightarrow> world option" where
  "SetEpoll env ev w = set_env (pEpoll_update (\<lambda>_. ev)) env w"

text \<open>\<open>efd\<close> is what \<open>co_epoll_create\<close> returns, \<open>tick\<close> the time \<open>AllocTimeout\<close> reads.\<close>

definition AllocEpoll :: "int \<Rightarrow> u64 \<Rightarrow> world \<Rightarrow> (addr \<times> world) option" where
  "AllocEpoll efd tick w = (let
     (ctx, w) = malloc 1 w;
     (t, w) = malloc 1 w;
     (base, w) = malloc 60000 w
     in do {
       (tw, m) \<leftarrow> AllocTimeout (60 * 1000) tick base (tm w);
       let (al, w) = malloc 1 w;
       let (tl, w) = malloc 1 w;
       let m = m\<lparr>links := (links m)(al \<mapsto> \<lparr>head = None, tail = None\<rparr>, tl \<mapsto> \<lparr>head = None, tail = None\<rparr>)\<rparr>;
       Some (ctx, w\<lparr>tm := m, timeouts := (timeouts w)(t \<mapsto> tw),
         epolls := (epolls w)(ctx \<mapsto> \<lparr>iEpollFd = efd, pTimeout = t, pstTimeoutList = tl,
           pstActiveList = al, epoll_result = False\<rparr>)\<rparr>) })"

definition FreeEpoll :: "ptr \<Rightarrow> world \<Rightarrow> world option" where
  "FreeEpoll ctx w = (case ctx of
     None \<Rightarrow> Some w
   | Some p \<Rightarrow> do {
       c \<leftarrow> epolls w p;
       t \<leftarrow> timeouts w (pTimeout c);
       let m = FreeTimeout t (tm w);
       Some (w\<lparr>epolls := (epolls w)(p := None), timeouts := (timeouts w)(pTimeout c := None),
         tm := m\<lparr>links := (links m)(pstActiveList c := None, pstTimeoutList c := None)\<rparr>\<rparr>) })"

definition co_init_curr_thread_env :: "int \<Rightarrow> u64 \<Rightarrow> world \<Rightarrow> world option" where
  "co_init_curr_thread_env efd tick w = do {
     require (0 \<le> tid w \<and> tid w < 204800);
     let (env, w) = malloc 1 w;
     let w = w\<lparr>g_arrCoEnvPerThread := (g_arrCoEnvPerThread w)(tid w := Some env),
       envs := (envs w)(env \<mapsto> \<lparr>pCallStack = replicate 128 None, iCallStackSize = 0, pEpoll = None,
         env_pending_co = None, env_occupy_co = None\<rparr>)\<rparr>;
     (self, w) \<leftarrow> co_create_env env None None 0 w;
     w \<leftarrow> set_co (\<lambda>c. c\<lparr>cIsMain := True, co_ctx := coctx_init\<rparr>) self w;
     e \<leftarrow> envs w env;
     e \<leftarrow> push_call self (e\<lparr>env_pending_co := None, env_occupy_co := None\<rparr>);
     let w = w\<lparr>envs := (envs w)(env \<mapsto> e)\<rparr>;
     (ev, w) \<leftarrow> AllocEpoll efd tick w;
     SetEpoll env (Some ev) w }"

definition co_create ::
  "int \<Rightarrow> u64 \<Rightarrow> stCoRoutineAttr_t option \<Rightarrow> ptr \<Rightarrow> u64 \<Rightarrow> world \<Rightarrow> (addr \<times> world) option" where
  "co_create efd tick attr pfn arg w = do {
     e \<leftarrow> co_get_curr_thread_env w;
     w \<leftarrow> (case e of None \<Rightarrow> co_init_curr_thread_env efd tick w | Some _ \<Rightarrow> Some w);
     e \<leftarrow> co_get_curr_thread_env w;
     env \<leftarrow> e;
     co_create_env env attr pfn arg w }"

definition co_get_epoll_ct :: "int \<Rightarrow> u64 \<Rightarrow> world \<Rightarrow> (ptr \<times> world) option" where
  "co_get_epoll_ct efd tick w = do {
     e \<leftarrow> co_get_curr_thread_env w;
     w \<leftarrow> (case e of None \<Rightarrow> co_init_curr_thread_env efd tick w | Some _ \<Rightarrow> Some w);
     e \<leftarrow> co_get_curr_thread_env w;
     env \<leftarrow> e;
     en \<leftarrow> envs w env;
     Some (pEpoll en, w) }"

section \<open>Switching\<close>

text \<open>
  The call that switches: the address of the local \<open>c\<close> of \<open>co_swap\<close> and the register context
  \<open>coctx_swap\<close> saves (\<open>call_ctx\<close> of \<open>Context\<close>).
\<close>

record frame =
  c_addr :: addr
  call_regs :: "u64 list"

definition save_stack_buffer :: "addr \<Rightarrow> world \<Rightarrow> world option" where
  "save_stack_buffer oc w = do {
     c \<leftarrow> cos w oc;
     q \<leftarrow> stack_mem c;
     s \<leftarrow> stacks w q;
     let len = to_s32 (int (stack_bp s) - int (stack_sp c));
     w \<leftarrow> (case save_buffer c of
        None \<Rightarrow> Some w
      | Some b \<Rightarrow> do { _ \<leftarrow> bufs w b; Some (w\<lparr>bufs := (bufs w)(b := None)\<rparr>) });
     require (0 \<le> len);
     let (b, w) = malloc (nat len) w;
     let w = w\<lparr>bufs := (bufs w)(b \<mapsto> map (mem w) [stack_sp c ..< stack_sp c + nat len])\<rparr>;
     set_co (\<lambda>c. c\<lparr>save_buffer := Some b, save_size := word_of_int len\<rparr>) oc w }"

text \<open>\<open>co_swap\<close> down to the call of \<open>coctx_swap\<close>, and that call.\<close>

definition co_swap_out :: "frame \<Rightarrow> addr \<Rightarrow> addr \<Rightarrow> world \<Rightarrow> world option" where
  "co_swap_out fr cur pending_co w = do {
     e \<leftarrow> co_get_curr_thread_env w;
     env \<leftarrow> e;
     w \<leftarrow> set_co (\<lambda>c. c\<lparr>stack_sp := c_addr fr\<rparr>) cur w;
     p \<leftarrow> cos w pending_co;
     w \<leftarrow> (if \<not> cIsShareStack p
       then set_env (\<lambda>e. e\<lparr>env_pending_co := None, env_occupy_co := None\<rparr>) env w
       else do {
         q \<leftarrow> stack_mem p;
         s \<leftarrow> stacks w q;
         w \<leftarrow> set_stack (\<lambda>s. s\<lparr>occupy_co := Some pending_co\<rparr>) q w;
         w \<leftarrow> set_env (\<lambda>e. e\<lparr>env_pending_co := Some pending_co, env_occupy_co := occupy_co s\<rparr>) env w;
         (case occupy_co s of
            None \<Rightarrow> Some w
          | Some oc \<Rightarrow> if oc \<noteq> pending_co then save_stack_buffer oc w else Some w) });
     w \<leftarrow> set_co (\<lambda>c. c\<lparr>co_ctx := (co_ctx c)\<lparr>regs := call_regs fr\<rparr>\<rparr>) cur w;
     p \<leftarrow> cos w pending_co;
     Some (w\<lparr>cpu_regs := regs (co_ctx p)\<rparr>) }"

text \<open>\<open>memcpy\<close> of bytes to an address.\<close>

definition copy_in :: "addr \<Rightarrow> byte list \<Rightarrow> (addr \<Rightarrow> byte) \<Rightarrow> addr \<Rightarrow> byte" where
  "copy_in p bs m = (\<lambda>a. if p \<le> a \<and> a < p + length bs then bs ! (a - p) else m a)"

text \<open>The rest of \<open>co_swap\<close>, which runs when the context saved there is loaded again.\<close>

definition co_swap_in :: "world \<Rightarrow> world option" where
  "co_swap_in w = do {
     e \<leftarrow> co_get_curr_thread_env w;
     env \<leftarrow> e;
     e \<leftarrow> envs w env;
     (case (env_occupy_co e, env_pending_co e) of
        (Some oc, Some p) \<Rightarrow>
          if oc \<noteq> p then do {
            c \<leftarrow> cos w p;
            (case save_buffer c of
               None \<Rightarrow> Some w
             | Some b \<Rightarrow> if 0 < save_size c then do {
                   bs \<leftarrow> bufs w b;
                   require (unat (save_size c) \<le> length bs);
                   Some (w\<lparr>mem := copy_in (stack_sp c) (take (unat (save_size c)) bs) (mem w)\<rparr>) }
                 else Some w) }
          else Some w
      | _ \<Rightarrow> Some w) }"

text \<open>
  \<open>CoRoutineFunc_addr\<close> stands for the address of \<open>CoRoutineFunc\<close>, where a new coroutine starts.
  A coroutine that has ended was suspended in the last call of \<open>CoRoutineFunc\<close>: resuming it runs the
  rest of \<open>co_swap\<close> and then returns from \<open>CoRoutineFunc\<close>, to an address nobody wrote.
\<close>

definition CoRoutineFunc_addr :: u64 where
  "CoRoutineFunc_addr = 0x401000"

definition resume_point :: "bool \<Rightarrow> addr \<Rightarrow> world \<Rightarrow> world option" where
  "resume_point started co w = (if \<not> started then Some w
     else do { w \<leftarrow> co_swap_in w; c \<leftarrow> cos w co; require (\<not> cEnd c); Some w })"

definition co_resume :: "frame \<Rightarrow> addr \<Rightarrow> world \<Rightarrow> world option" where
  "co_resume fr co w = do {
     c \<leftarrow> cos w co;
     e \<leftarrow> envs w (co_env c);
     lpCurr \<leftarrow> call_at e (iCallStackSize e - 1);
     w \<leftarrow> (if \<not> cStart c
            then set_co (\<lambda>c. c\<lparr>co_ctx := coctx_make (co_ctx c) CoRoutineFunc_addr (of_nat co) 0,
                              cStart := True\<rparr>) co w
            else Some w);
     e \<leftarrow> push_call co e;
     let w = w\<lparr>envs := (envs w)(co_env c \<mapsto> e)\<rparr>;
     cur \<leftarrow> lpCurr;
     w \<leftarrow> co_swap_out fr cur co w;
     resume_point (cStart c) co w }"

definition co_yield_env :: "frame \<Rightarrow> addr \<Rightarrow> world \<Rightarrow> world option" where
  "co_yield_env fr env w = do {
     e \<leftarrow> envs w env;
     prev \<leftarrow> call_at e (iCallStackSize e - 2);
     cur \<leftarrow> call_at e (iCallStackSize e - 1);
     w \<leftarrow> set_env (iCallStackSize_update (\<lambda>n. n - 1)) env w;
     cur \<leftarrow> cur;
     prev \<leftarrow> prev;
     w \<leftarrow> co_swap_out fr cur prev w;
     resume_point True prev w }"

definition co_yield_ct :: "frame \<Rightarrow> world \<Rightarrow> world option" where
  "co_yield_ct fr w = do { e \<leftarrow> co_get_curr_thread_env w; env \<leftarrow> e; co_yield_env fr env w }"

definition co_yield :: "frame \<Rightarrow> addr \<Rightarrow> world \<Rightarrow> world option" where
  "co_yield fr co w = do { c \<leftarrow> cos w co; co_yield_env fr (co_env c) w }"

text \<open>\<open>CoRoutineFunc\<close> after \<open>co->pfn(co->arg)\<close> has returned.\<close>

definition CoRoutineFunc_end :: "frame \<Rightarrow> addr \<Rightarrow> world \<Rightarrow> world option" where
  "CoRoutineFunc_end fr co w = do {
     w \<leftarrow> set_co (cEnd_update (\<lambda>_. True)) co w;
     c \<leftarrow> cos w co;
     co_yield_env fr (co_env c) w }"

section \<open>Coroutine-local settings\<close>

text \<open>\<open>ps\<close> are the values \<open>pthread_getspecific\<close> keeps for the thread.\<close>

definition co_getspecific :: "nat \<Rightarrow> (nat \<Rightarrow> u64) \<Rightarrow> world \<Rightarrow> u64 option" where
  "co_getspecific key ps w = do {
     p \<leftarrow> GetCurrThreadCo w;
     (case p of None \<Rightarrow> Some (ps key)
      | Some co \<Rightarrow> do {
          c \<leftarrow> cos w co;
          if cIsMain c then Some (ps key)
          else do { require (key < 1024 \<and> key < length (aSpec c)); Some (aSpec c ! key) } }) }"

definition co_setspecific ::
  "nat \<Rightarrow> u64 \<Rightarrow> (nat \<Rightarrow> u64) \<Rightarrow> world \<Rightarrow> (int \<times> (nat \<Rightarrow> u64) \<times> world) option" where
  "co_setspecific key v ps w = do {
     p \<leftarrow> GetCurrThreadCo w;
     (case p of None \<Rightarrow> Some (0, ps(key := v), w)
      | Some co \<Rightarrow> do {
          c \<leftarrow> cos w co;
          if cIsMain c then Some (0, ps(key := v), w)
          else do {
            require (key < 1024 \<and> key < length (aSpec c));
            w \<leftarrow> set_co (\<lambda>c. c\<lparr>aSpec := (aSpec c)[key := v]\<rparr>) co w;
            Some (0, ps, w) } }) }"

definition co_disable_hook_sys :: "world \<Rightarrow> world option" where
  "co_disable_hook_sys w = do {
     p \<leftarrow> GetCurrThreadCo w;
     (case p of None \<Rightarrow> Some w
      | Some co \<Rightarrow> set_co (cEnableSysHook_update (\<lambda>_. False)) co w) }"

definition co_enable_hook_sys :: "world \<Rightarrow> world option" where
  "co_enable_hook_sys w = do {
     p \<leftarrow> GetCurrThreadCo w;
     (case p of None \<Rightarrow> Some w
      | Some co \<Rightarrow> set_co (cEnableSysHook_update (\<lambda>_. True)) co w) }"

definition co_is_enable_sys_hook :: "world \<Rightarrow> bool option" where
  "co_is_enable_sys_hook w = do {
     p \<leftarrow> GetCurrThreadCo w;
     (case p of None \<Rightarrow> Some False
      | Some co \<Rightarrow> map_option cEnableSysHook (cos w co)) }"

end
