(* ===== verification/EventLoop.thy ===== *)
theory EventLoop
  imports Coroutine PollEvents
begin

text \<open>
  The event loop of \<open>src/libco/co_routine.cpp\<close>: \<open>stPoll_t\<close>, \<open>stPollItem_t\<close>, \<open>OnPollPreparePfn\<close>, the
  process callbacks and \<open>co_eventloop\<close>. Its lemmas follow a round: the events are handled
  (\<open>handle_events\<close>), the due items taken and marked (\<open>loop_collect_spec\<close>), the active list served
  (\<open>drain_in_order\<close>).
\<close>

section \<open>Structures\<close>

record pollfd =
  pfd :: int
  pevents :: "16 word"
  prevents :: "16 word"

text \<open>\<open>struct epoll_event\<close>; the member of the union \<open>data\<close> that libco uses is \<open>ptr\<close>.\<close>

record epoll_event =
  ev_events :: u32
  ev_ptr :: ptr

datatype ctl_op = EPOLL_CTL_ADD | EPOLL_CTL_MOD | EPOLL_CTL_DEL

text \<open>A call of \<open>co_epoll_ctl\<close>: the operation, \<open>epfd\<close>, the descriptor and the event.\<close>

datatype ctl_call = Ctl ctl_op int int epoll_event

text \<open>
  \<open>stPoll_t\<close> and \<open>stPollItem_t\<close> derive from \<open>stTimeoutItem_t\<close>: the base part of the object at an
  address is the node of the timer heap there, the records below hold the members the derived structures
  add. \<open>fds\<close> is the array \<open>arg.fds\<close> and \<open>pSelf\<close> an index of it.
\<close>

record stPoll_t =
  fds :: "pollfd list"
  pPollItems :: addr
  iAllEventDetach :: bool
  poll_epfd :: int
  iRaiseCnt :: int

record stPollItem_t =
  pSelf :: nat
  pPoll :: ptr
  stEvent :: epoll_event

text \<open>
  The process with its polls, the waiters of its condition variables (\<open>conds\<close>, see theory \<open>Cond\<close>),
  the calls of \<open>co_epoll_ctl\<close> made so far, the latest first, and \<open>errno\<close>.
\<close>

record proc =
  wd :: world
  polls :: "addr \<rightharpoonup> stPoll_t"
  pitems :: "addr \<rightharpoonup> stPollItem_t"
  conds :: "unit lmem"
  ctls :: "ctl_call list"
  errno :: int

definition on_tm :: "(tmem \<Rightarrow> tmem option) \<Rightarrow> proc \<Rightarrow> proc option" where
  "on_tm f p = map_option (\<lambda>m. p\<lparr>wd := (wd p)\<lparr>tm := m\<rparr>\<rparr>) (f (tm (wd p)))"

definition set_poll :: "(stPoll_t \<Rightarrow> stPoll_t) \<Rightarrow> addr \<Rightarrow> proc \<Rightarrow> proc option" where
  "set_poll f q p = map_option (\<lambda>pl. p\<lparr>polls := (polls p)(q \<mapsto> f pl)\<rparr>) (polls p q)"

section \<open>Callbacks\<close>

definition OnPollPreparePfn :: "addr \<Rightarrow> u32 \<Rightarrow> addr \<Rightarrow> proc \<Rightarrow> proc option" where
  "OnPollPreparePfn ap ev active p = do {
     lp \<leftarrow> pitems p ap;
     q \<leftarrow> pPoll lp;
     pl \<leftarrow> polls p q;
     require (pSelf lp < length (fds pl));
     p \<leftarrow> set_poll (fds_update (\<lambda>xs. xs[pSelf lp := (xs ! pSelf lp)\<lparr>prevents := EpollEvent2Poll ev\<rparr>])) q p;
     p \<leftarrow> set_poll (iRaiseCnt_update (\<lambda>n. n + 1)) q p;
     if \<not> iAllEventDetach pl then do {
       p \<leftarrow> set_poll (iAllEventDetach_update (\<lambda>_. True)) q p;
       p \<leftarrow> on_tm (RemoveFromLink q) p;
       on_tm (AddTail active q) p }
     else Some p }"

definition resume_pArg :: "frame \<Rightarrow> addr \<Rightarrow> proc \<Rightarrow> proc option" where
  "resume_pArg fr ap p = do {
     n \<leftarrow> nodes (tm (wd p)) ap;
     co \<leftarrow> pArg n;
     w \<leftarrow> co_resume fr co (wd p);
     Some (p\<lparr>wd := w\<rparr>) }"

definition OnPollProcessEvent :: "frame \<Rightarrow> addr \<Rightarrow> proc \<Rightarrow> proc option" where
  "OnPollProcessEvent fr ap p = resume_pArg fr ap p"

definition OnCoroutineEvent :: "frame \<Rightarrow> addr \<Rightarrow> proc \<Rightarrow> proc option" where
  "OnCoroutineEvent fr ap p = resume_pArg fr ap p"

definition OnSignalProcessEvent :: "frame \<Rightarrow> addr \<Rightarrow> proc \<Rightarrow> proc option" where
  "OnSignalProcessEvent fr ap p = resume_pArg fr ap p"

section \<open>One round of \<open>co_eventloop\<close>\<close>

definition handle_event :: "addr \<Rightarrow> epoll_event \<Rightarrow> proc \<Rightarrow> proc option" where
  "handle_event active e p = do {
     item \<leftarrow> ev_ptr e;
     n \<leftarrow> nodes (tm (wd p)) item;
     (case pfnPrepare n of
        OnPollPrepare \<Rightarrow> OnPollPreparePfn item (ev_events e) active p
      | NoPrepare \<Rightarrow> on_tm (AddTail active item) p) }"

partial_function (option) mark_timeouts :: "ptr \<Rightarrow> tmem \<Rightarrow> tmem option" where
  "mark_timeouts lp m = (case lp of
       None \<Rightarrow> Some m
     | Some x \<Rightarrow> do {
         m1 \<leftarrow> set_node (bTimeout_update (\<lambda>_. True)) x m;
         n \<leftarrow> nodes m1 x;
         mark_timeouts (pNext n) m1 })"

text \<open>A round down to the loop over the active list; \<open>evs\<close> are the events \<open>co_epoll_wait\<close> returned.\<close>

definition loop_collect :: "addr \<Rightarrow> epoll_event list \<Rightarrow> u64 \<Rightarrow> proc \<Rightarrow> proc option" where
  "loop_collect ctx evs now p = do {
     c \<leftarrow> epolls (wd p) ctx;
     let active = pstActiveList c;
     let timeout = pstTimeoutList c;
     p \<leftarrow> on_tm (set_link (\<lambda>_. \<lparr>head = None, tail = None\<rparr>) timeout) p;
     p \<leftarrow> foldM (handle_event active) evs p;
     t \<leftarrow> timeouts (wd p) (pTimeout c);
     (t, m) \<leftarrow> TakeAllTimeout t now timeout (tm (wd p));
     let p = p\<lparr>wd := (wd p)\<lparr>tm := m, timeouts := (timeouts (wd p))(pTimeout c \<mapsto> t)\<rparr>\<rparr>;
     l \<leftarrow> links m timeout;
     p \<leftarrow> on_tm (mark_timeouts (head l)) p;
     on_tm (Join active timeout) p }"

text \<open>
  The loop over the active list. \<open>pfnProcess(lp)\<close> resumes a coroutine, which then runs until it gives
  the control back: \<open>run lp\<close> is that call with all that happens before it returns.
\<close>

partial_function (option) drain ::
  "(addr \<Rightarrow> proc \<Rightarrow> proc option) \<Rightarrow> addr \<Rightarrow> proc \<Rightarrow> proc option" where
  "drain run active p = do {
     l \<leftarrow> links (tm (wd p)) active;
     (case head l of
        None \<Rightarrow> Some p
      | Some lp \<Rightarrow> do {
          p \<leftarrow> on_tm (PopHead active) p;
          n \<leftarrow> nodes (tm (wd p)) lp;
          p \<leftarrow> (if pfnProcess n = NoProcess then Some p else run lp p);
          drain run active p }) }"

text \<open>
  \<open>run\<close> for the callbacks of libco: the callback resumes the coroutine, \<open>body\<close> is what the coroutine and
  those it resumes do until they yield back to the loop.
\<close>

definition process_item ::
  "frame \<Rightarrow> (addr \<Rightarrow> proc \<Rightarrow> proc option) \<Rightarrow> addr \<Rightarrow> proc \<Rightarrow> proc option" where
  "process_item fr body lp p = do {
     n \<leftarrow> nodes (tm (wd p)) lp;
     co \<leftarrow> pArg n;
     p \<leftarrow> (case pfnProcess n of
            NoProcess \<Rightarrow> Some p
          | OnPollProcess \<Rightarrow> OnPollProcessEvent fr lp p
          | OnCoroutineProcess \<Rightarrow> OnCoroutineEvent fr lp p
          | OnSignalProcess \<Rightarrow> OnSignalProcessEvent fr lp p);
     body co p }"

text \<open>
  \<open>co_eventloop\<close> for the rounds of a list, each with the events and the time it sees, up to the one
  after which \<open>pfn\<close> returns -1: the result tells whether the loop has been left.
\<close>

definition loop_round ::
  "(addr \<Rightarrow> proc \<Rightarrow> proc option) \<Rightarrow> addr \<Rightarrow> epoll_event list \<Rightarrow> u64 \<Rightarrow> proc \<Rightarrow> proc option" where
  "loop_round run ctx evs now p = do {
     c \<leftarrow> epolls (wd p) ctx;
     p \<leftarrow> loop_collect ctx evs now p;
     drain run (pstActiveList c) p }"

primrec loop_rounds ::
  "(proc \<Rightarrow> (int \<times> proc) option) option \<Rightarrow> (addr \<Rightarrow> proc \<Rightarrow> proc option) \<Rightarrow> addr \<Rightarrow>
     (epoll_event list \<times> u64) list \<Rightarrow> proc \<Rightarrow> (bool \<times> proc) option" where
  "loop_rounds pfn run ctx [] p = Some (False, p)"
| "loop_rounds pfn run ctx (r # rs) p = do {
     p \<leftarrow> loop_round run ctx (fst r) (snd r) p;
     (case pfn of
        None \<Rightarrow> loop_rounds pfn run ctx rs p
      | Some f \<Rightarrow> do {
          (ret, p) \<leftarrow> f p;
          if ret = - 1 then Some (True, p) else loop_rounds pfn run ctx rs p }) }"

definition co_eventloop ::
  "addr \<Rightarrow> (proc \<Rightarrow> (int \<times> proc) option) option \<Rightarrow> (addr \<Rightarrow> proc \<Rightarrow> proc option) \<Rightarrow>
     (epoll_event list \<times> u64) list \<Rightarrow> proc \<Rightarrow> (bool \<times> proc) option" where
  "co_eventloop ctx pfn run rs p = do {
     c \<leftarrow> epolls (wd p) ctx;
     let p = (if \<not> epoll_result c
              then p\<lparr>wd := (wd p)\<lparr>epolls := (epolls (wd p))(ctx \<mapsto> c\<lparr>epoll_result := True\<rparr>)\<rparr>\<rparr>
              else p);
     loop_rounds pfn run ctx rs p }"

section \<open>The phases of a round on the lists\<close>

lemma repr_payload:
  assumes "repr m A" and "links m' = links m"
    and "\<And>x. map_option (\<lambda>n. (pPrev n, pNext n, pLink n)) (nodes m' x) =
            map_option (\<lambda>n. (pPrev n, pNext n, pLink n)) (nodes m x)"
  shows "repr m' A"
proof -
  have get: "nodes m' x = Some n' \<Longrightarrow> \<exists>n. nodes m x = Some n \<and> pPrev n' = pPrev n \<and> pNext n' = pNext n \<and> pLink n' = pLink n"
    and put: "nodes m x = Some n \<Longrightarrow> \<exists>n'. nodes m' x = Some n' \<and> pPrev n' = pPrev n \<and> pNext n' = pNext n \<and> pLink n' = pLink n"
    for x n n' using assms(3) [of x] by (cases "nodes m x"; cases "nodes m' x"; simp)+
  have "dseg (nodes m') lk pr xs nx" if "dseg (nodes m) lk pr xs nx" for lk pr xs nx
    using that by (induction xs arbitrary: pr) (auto dest!: put)
  then have "list_ok m' lk xs" if "list_ok m lk xs" for lk xs
    using that assms(2) by (auto simp: list_ok_def)
  moreover have "x \<in> set (A lk)" if "nodes m' x = Some n" "pLink n = Some lk" for x n lk
    using get [OF that(1)] that(2) assms(1) by (auto simp: repr_def)
  ultimately show ?thesis
    using assms(1,2) unfolding repr_def by simp
qed

lemma wheel_filter:
  assumes inv: "wheel_inv t m A" and R: "repr m' A'"
    and ex: "\<And>lk x. x \<in> set (A lk) \<Longrightarrow> expire_of m' x = expire_of m x" and lk: "\<And>lk. is_link m' lk = is_link m lk"
    and sub: "\<And>lk. is_slot t lk \<Longrightarrow> A' lk = filter P (A lk)"
  shows "wheel_inv t m' A'" "pending t A' = filter P (pending t A)"
proof -
  note D = wheel_invD [OF inv]
  have at: "A' (slot_at t d) = filter P (A (slot_at t d))" for d
    using sub [OF is_slot_at [OF D(2)]] .
  then show "pending t A' = filter P (pending t A)"
    by (simp add: pending_def filter_concat comp_def)
  show "wheel_inv t m' A'"
    using inv R ex lk sub at unfolding wheel_inv_def by auto
qed

text \<open>Items that are woken, each at its first event.\<close>

primrec first_new :: "addr set \<Rightarrow> addr list \<Rightarrow> addr list" where
  "first_new D [] = []"
| "first_new D (q # qs) = (if q \<in> D then first_new D qs else q # first_new (insert q D) qs)"

lemma set_first_new: "set (first_new D qs) = set qs - D"
  by (induction qs arbitrary: D) auto

lemma distinct_first_new: "distinct (first_new D qs)"
  by (induction qs arbitrary: D) (auto simp: set_first_new)

text \<open>What \<open>OnPollPreparePfn\<close> makes of the poll for an event of its descriptor \<open>j\<close>.\<close>

definition raise_event :: "(nat \<times> u32) \<Rightarrow> stPoll_t \<Rightarrow> stPoll_t" where
  "raise_event je pl = pl\<lparr>fds := (fds pl)[fst je := (fds pl ! fst je)\<lparr>prevents := EpollEvent2Poll (snd je)\<rparr>],
     iRaiseCnt := iRaiseCnt pl + 1, iAllEventDetach := True\<rparr>"

definition item_of :: "proc \<Rightarrow> epoll_event \<Rightarrow> stPollItem_t" where
  "item_of p e = the (pitems p (the (ev_ptr e)))"

definition poll_of :: "proc \<Rightarrow> epoll_event \<Rightarrow> addr" where
  "poll_of p e = the (pPoll (item_of p e))"

definition detached :: "proc \<Rightarrow> addr set" where
  "detached p = {q. \<exists>pl. polls p q = Some pl \<and> iAllEventDetach pl}"

definition event_ok :: "proc \<Rightarrow> epoll_event \<Rightarrow> bool" where
  "event_ok p e \<longleftrightarrow> (\<exists>ap n it q pl. ev_ptr e = Some ap \<and> nodes (tm (wd p)) ap = Some n \<and>
     pfnPrepare n = OnPollPrepare \<and> pitems p ap = Some it \<and> pPoll it = Some q \<and>
     polls p q = Some pl \<and> pSelf it < length (fds pl) \<and> is_node (tm (wd p)) q)"

definition moved :: "addr \<Rightarrow> addr list \<Rightarrow> (addr \<Rightarrow> addr list) \<Rightarrow> addr \<Rightarrow> addr list" where
  "moved active W A = (\<lambda>lk. filter (\<lambda>x. x \<notin> set W) (A lk) @ (if lk = active then W else []))"

lemma moved_Nil [simp]: "moved active [] A = A"
  by (auto simp: moved_def)

lemma moved_moved:
  assumes "set V \<inter> set W = {}"
  shows "moved active V (moved active W A) = moved active (W @ V) A"
proof
  fix lk
  have "filter (\<lambda>x. x \<notin> set V) W = W"
    using assms by (intro filter_True) auto
  then show "moved active V (moved active W A) lk = moved active (W @ V) A lk"
    by (simp add: moved_def conj_commute)
qed

text \<open>The world but for the timer heap.\<close>

definition same_world :: "proc \<Rightarrow> proc \<Rightarrow> bool" where
  "same_world p p' \<longleftrightarrow> wd p' = (wd p)\<lparr>tm := tm (wd p')\<rparr> \<and> conds p' = conds p \<and> ctls p' = ctls p \<and>
     errno p' = errno p \<and> pitems p' = pitems p"

lemma same_world_refl [simp, intro]: "same_world p p"
  by (simp add: same_world_def)

lemma same_world_trans [trans]: "same_world a b \<Longrightarrow> same_world b c \<Longrightarrow> same_world a c"
  by (cases "wd a"; cases "wd b"; cases "wd c") (simp add: same_world_def)

lemma moved_one:
  assumes "repr m A"
  shows "(\<lambda>k. if k = lk then remove1 x (A lk) @ [x] else remove1 x (A k)) = moved lk [x] A"
  using distinct_remove1_removeAll [OF repr_distinct [OF assms]]
  by (auto simp: moved_def removeAll_filter_not_eq intro!: ext filter_cong)

lemma OnPollPreparePfn_step:
  assumes R: "repr (tm (wd p)) A" and active: "is_link (tm (wd p)) active" and ok: "event_ok p e"
  shows "\<exists>p'. handle_event active e p = Some p' \<and> same_world p p' \<and>
     same_data (tm (wd p)) (tm (wd p')) \<and>
     polls p' = (polls p)(poll_of p e := map_option (raise_event (pSelf (item_of p e), ev_events e)) (polls p (poll_of p e))) \<and>
     repr (tm (wd p')) (moved active (if poll_of p e \<in> detached p then [] else [poll_of p e]) A)"
proof -
  from ok obtain ap n it q pl where e: "ev_ptr e = Some ap" "nodes (tm (wd p)) ap = Some n"
     "pfnPrepare n = OnPollPrepare" "pitems p ap = Some it" "pPoll it = Some q"
     "polls p q = Some pl" "pSelf it < length (fds pl)" "is_node (tm (wd p)) q"
    unfolding event_ok_def by blast
  have q: "poll_of p e = q" "item_of p e = it" using e by (simp_all add: poll_of_def item_of_def)
  show ?thesis
  proof (cases "iAllEventDetach pl")
    case True
    have "handle_event active e p = Some (p\<lparr>polls := (polls p)(q \<mapsto> raise_event (pSelf it, ev_events e) pl)\<rparr>)"
      using e True by (cases pl) (simp add: handle_event_def OnPollPreparePfn_def set_poll_def raise_event_def)
    moreover have "q \<in> detached p" using e True by (simp add: detached_def)
    ultimately show ?thesis using R q e by (simp add: same_world_def)
  next
    case False
    then have nd: "q \<notin> detached p" using e by (simp add: detached_def)
    obtain m1 m2 where m: "RemoveFromLink q (tm (wd p)) = Some m1" "AddTail active q m1 = Some m2"
       "same_data (tm (wd p)) m2" "repr m2 (moved active [q] A)"
      using lists.requeue [OF R e(8) active] moved_one [OF R] by metis
    let ?p = "p\<lparr>polls := (polls p)(q \<mapsto> raise_event (pSelf it, ev_events e) pl), wd := (wd p)\<lparr>tm := m2\<rparr>\<rparr>"
    have "handle_event active e p = Some ?p"
      using e False m
      by (cases pl) (simp add: handle_event_def OnPollPreparePfn_def set_poll_def raise_event_def on_tm_def)
    then show ?thesis using m nd q e by (simp add: same_world_def)
  qed
qed

lemma item_more_eq': "same_data m m' \<Longrightarrow> nodes m x = Some n \<Longrightarrow>
   \<exists>n'. nodes m' x = Some n' \<and> lnode.more n' = lnode.more n"
  unfolding same_data_def by (metis map_option_eq_Some)

text \<open>The loop over the events.\<close>

lemma handle_events:
  assumes "repr (tm (wd p)) A" "is_link (tm (wd p)) active" "\<forall>e\<in>set evs. event_ok p e"
  shows "\<exists>p'. foldM (handle_event active) evs p = Some p' \<and> same_world p p' \<and>
     same_data (tm (wd p)) (tm (wd p')) \<and>
     repr (tm (wd p')) (moved active (first_new (detached p) (map (poll_of p) evs)) A) \<and>
     polls p' = (\<lambda>q. map_option (fold raise_event (map (\<lambda>e. (pSelf (item_of p e), ev_events e))
        (filter (\<lambda>e. poll_of p e = q) evs))) (polls p q))"
  using assms
proof (induction evs arbitrary: p A)
  case Nil
  then show ?case by (simp add: option.map_ident)
next
  case (Cons e evs)
  let ?q = "poll_of p e" and ?je = "(pSelf (item_of p e), ev_events e)"
  let ?w = "if ?q \<in> detached p then [] else [?q]"
  obtain p1 where p1: "handle_event active e p = Some p1" "same_world p p1"
     "same_data (tm (wd p)) (tm (wd p1))"
     "polls p1 = (polls p)(?q := map_option (raise_event ?je) (polls p ?q))"
     "repr (tm (wd p1)) (moved active ?w A)"
    using OnPollPreparePfn_step [OF Cons.prems(1,2), of e] Cons.prems(3) by auto
  have item: "item_of p1 = item_of p" "poll_of p1 = poll_of p"
    using p1(2) by (auto simp: same_world_def item_of_def poll_of_def)
  have ok1: "event_ok p1 f" if "event_ok p f" for f
  proof -
    from that obtain ap n it q pl where f: "ev_ptr f = Some ap" "nodes (tm (wd p)) ap = Some n"
     "pfnPrepare n = OnPollPrepare" "pitems p ap = Some it" "pPoll it = Some q"
     "polls p q = Some pl" "pSelf it < length (fds pl)" "is_node (tm (wd p)) q"
      unfolding event_ok_def by blast
    obtain n' where "nodes (tm (wd p1)) ap = Some n'" "pfnPrepare n' = OnPollPrepare"
      using item_more_eq' [OF p1(3) f(2)] item_more_eq(2) f(3) by metis
    moreover have "pitems p1 ap = Some it" using p1(2) f by (simp add: same_world_def)
    moreover have "\<exists>pl'. polls p1 q = Some pl' \<and> pSelf it < length (fds pl')"
      using f p1(4) by (cases "q = ?q") (auto simp: raise_event_def)
    moreover have "is_node (tm (wd p1)) q" using f lists.same_isnode [OF p1(3)] by simp
    ultimately show ?thesis using f unfolding event_ok_def by blast
  qed
  have "\<exists>pl. polls p ?q = Some pl" using Cons.prems(3) by (auto simp: event_ok_def poll_of_def item_of_def)
  then have det: "detached p1 = insert ?q (detached p)"
    using p1(4) by (auto simp: detached_def raise_event_def)
  obtain p' where p': "foldM (handle_event active) evs p1 = Some p'" "same_world p1 p'"
     "same_data (tm (wd p1)) (tm (wd p'))"
     "repr (tm (wd p')) (moved active (first_new (detached p1) (map (poll_of p1) evs)) (moved active ?w A))"
     "polls p' = (\<lambda>q. map_option (fold raise_event (map (\<lambda>e. (pSelf (item_of p1 e), ev_events e))
        (filter (\<lambda>e. poll_of p1 e = q) evs))) (polls p1 q))"
    using Cons.IH [OF p1(5)] Cons.prems(2,3) ok1 lists.same_islink [OF p1(3)] by auto
  have "moved active (first_new (detached p1) (map (poll_of p1) evs)) (moved active ?w A) =
      moved active (first_new (detached p) (map (poll_of p) (e # evs))) A"
    by (subst moved_moved) (auto simp: set_first_new det item insert_absorb)
  moreover have "polls p' = (\<lambda>q. map_option (fold raise_event (map (\<lambda>e. (pSelf (item_of p e), ev_events e))
        (filter (\<lambda>e. poll_of p e = q) (e # evs)))) (polls p q))"
    using p'(5) p1(4) by (auto simp: item option.map_comp comp_def fun_eq_iff)
  ultimately show ?case
    using p1(1) p' p1(2,3) same_world_trans same_data_trans by (auto intro!: exI [of _ p'] simp: det item)
qed

lemma mark_dseg:
  "dseg (nodes m) lk pr xs None \<Longrightarrow> distinct xs \<Longrightarrow>
     mark_timeouts (fst_or xs None) m = Some (m\<lparr>nodes := (\<lambda>x. if x \<in> set xs
       then map_option (bTimeout_update (\<lambda>_. True)) (nodes m x) else nodes m x)\<rparr>)"
proof (induction xs arbitrary: m pr)
  case Nil
  then show ?case by (subst mark_timeouts.simps) simp
next
  case (Cons x xs)
  then obtain n where n: "nodes m x = Some n" "pNext n = fst_or xs None" by auto
  let ?m = "m\<lparr>nodes := (nodes m)(x \<mapsto> n\<lparr>bTimeout := True\<rparr>)\<rparr>"
  have "dseg (nodes ?m) lk (Some x) xs None" using Cons.prems by simp
  from Cons.IH [OF this] Cons.prems n show ?case
    by (subst mark_timeouts.simps) (auto simp: set_node_def fun_eq_iff intro!: arg_cong [where f = "\<lambda>f. m\<lparr>nodes := f\<rparr>"])
qed

definition active_of :: "addr \<Rightarrow> proc \<Rightarrow> addr" where
  "active_of ctx p = pstActiveList (the (epolls (wd p) ctx))"

definition wheel_of :: "addr \<Rightarrow> proc \<Rightarrow> stTimeout_t" where
  "wheel_of ctx p = the (timeouts (wd p) (pTimeout (the (epolls (wd p) ctx))))"

definition waiting :: "addr \<Rightarrow> proc \<Rightarrow> (addr \<Rightarrow> addr list) \<Rightarrow> addr list" where
  "waiting ctx p A = pending (wheel_of ctx p) A"

definition timed_out :: "proc \<Rightarrow> addr \<Rightarrow> bool" where
  "timed_out p x \<longleftrightarrow> (case nodes (tm (wd p)) x of None \<Rightarrow> False | Some n \<Rightarrow> bTimeout n)"

text \<open>The lists of an epoll object between two rounds.\<close>

definition loop_ok :: "addr \<Rightarrow> proc \<Rightarrow> (addr \<Rightarrow> addr list) \<Rightarrow> bool" where
  "loop_ok ctx p A \<longleftrightarrow> (\<exists>c t. epolls (wd p) ctx = Some c \<and> timeouts (wd p) (pTimeout c) = Some t \<and>
     wheel_inv t (tm (wd p)) A \<and>
     is_link (tm (wd p)) (pstActiveList c) \<and> is_link (tm (wd p)) (pstTimeoutList c) \<and>
     \<not> is_slot t (pstActiveList c) \<and> \<not> is_slot t (pstTimeoutList c) \<and>
     pstActiveList c \<noteq> pstTimeoutList c \<and> A (pstTimeoutList c) = [])"

lemma mark_list:
  assumes R: "repr m A" and l: "links m lk = Some l"
  shows "\<exists>m'. mark_timeouts (head l) m = Some m' \<and> repr m' A \<and> links m' = links m \<and>
     (\<forall>x. nodes m' x = (if x \<in> set (A lk) then map_option (bTimeout_update (\<lambda>_. True)) (nodes m x) else nodes m x))"
proof -
  have ok: "head l = fst_or (A lk) None" "dseg (nodes m) lk None (A lk) None" "distinct (A lk)"
    using repr_list_ok [OF R l] l by (auto simp: list_ok_def)
  let ?m = "m\<lparr>nodes := (\<lambda>x. if x \<in> set (A lk)
       then map_option (bTimeout_update (\<lambda>_. True)) (nodes m x) else nodes m x)\<rparr>"
  have "mark_timeouts (head l) m = Some ?m"
    using mark_dseg [OF ok(2,3)] ok(1) by simp
  moreover have "repr ?m A"
    by (rule repr_payload [OF R]) (auto simp: option.map_comp comp_def)
  ultimately show ?thesis by (auto intro!: exI [of _ ?m])
qed

lemma bTimeout_of_same:
  fixes m m' :: tmem
  assumes "same_data m m'"
  shows "map_option bTimeout (nodes m' x) = map_option bTimeout (nodes m x)"
proof -
  have eq: "map_option lnode.more (nodes m' x) = map_option lnode.more (nodes m x)"
    using assms by (simp add: same_data_def)
  show ?thesis
  proof (cases "nodes m x")
    case None
    with eq show ?thesis by simp
  next
    case (Some n)
    with eq obtain n' where n': "nodes m' x = Some n'" "lnode.more n' = lnode.more n" by auto
    show ?thesis
      unfolding Some n'(1) option.map using item_more_eq(5) [OF n'(2)] by (rule arg_cong)
  qed
qed

text \<open>The callbacks of an item and their argument.\<close>

definition payload :: "tmem \<Rightarrow> addr \<Rightarrow> (prepare_pfn \<times> process_pfn \<times> ptr) option" where
  "payload m x = map_option (\<lambda>n. (pfnPrepare n, pfnProcess n, pArg n)) (nodes m x)"

lemma payload_Some: "payload m x = Some (a, b, c) \<longleftrightarrow>
    (\<exists>n. nodes m x = Some n \<and> pfnPrepare n = a \<and> pfnProcess n = b \<and> pArg n = c)"
  by (auto simp: payload_def)

text \<open>A round changes nothing but the lists, the wheel, the polls and the marks of the due items.\<close>

definition collect_frame :: "proc \<Rightarrow> proc \<Rightarrow> bool" where
  "collect_frame p p' \<longleftrightarrow> wd p' = (wd p)\<lparr>tm := tm (wd p'), timeouts := timeouts (wd p')\<rparr> \<and>
     pitems p' = pitems p \<and> ctls p' = ctls p \<and> conds p' = conds p \<and>
     payload (tm (wd p')) = payload (tm (wd p)) \<and> (\<forall>k. is_link (tm (wd p')) k = is_link (tm (wd p)) k)"

definition polls_after :: "epoll_event list \<Rightarrow> proc \<Rightarrow> addr \<rightharpoonup> stPoll_t" where
  "polls_after evs p = (\<lambda>q. map_option (fold raise_event (map (\<lambda>e. (pSelf (item_of p e), ev_events e))
        (filter (\<lambda>e. poll_of p e = q) evs))) (polls p q))"

definition lists_within :: "addr list \<Rightarrow> (addr \<Rightarrow> addr list) \<Rightarrow> (addr \<Rightarrow> addr list) \<Rightarrow> bool" where
  "lists_within W A B \<longleftrightarrow> (\<forall>k x. x \<in> set (B k) \<longrightarrow> x \<in> set W \<or> linked A x)"

lemma same_data_payload:
  assumes "same_data m m'"
  shows "payload m' = payload m"
proof
  fix x
  show "payload m' x = payload m x"
  proof (cases "nodes m x")
    case None
    then have "nodes m' x = None" using assms by (auto simp: same_data_def dest: spec [of _ x])
    with None show ?thesis by (simp add: payload_def)
  next
    case (Some n)
    then obtain n' where n': "nodes m' x = Some n'" "lnode.more n' = lnode.more n"
      using item_more_eq' [OF assms] by blast
    show ?thesis using item_more_eq(2-4) [OF n'(2)] Some n'(1) by (simp add: payload_def)
  qed
qed

lemma loop_collect_full:
  assumes L: "loop_ok ctx p A" and ev: "\<forall>e\<in>set evs. event_ok p e"
    and clock: "ullStart (wheel_of ctx p) \<le> now"
      "ullStart (wheel_of ctx p) = 0 \<or> uint now - uint (ullStart (wheel_of ctx p)) < 2 ^ 31 - 1"
      "uint now < 2 ^ 62"
    and W: "W = first_new (detached p) (map (poll_of p) evs)"
    and due: "due = filter (\<lambda>x. x \<notin> set W \<and> expire_of (tm (wd p)) x \<le> uint now) (waiting ctx p A)"
  shows "\<exists>p' A'. loop_collect ctx evs now p = Some p' \<and> loop_ok ctx p' A' \<and>
     active_of ctx p' = active_of ctx p \<and>
     A' (active_of ctx p) = filter (\<lambda>x. x \<notin> set W) (A (active_of ctx p)) @ W @ due \<and>
     waiting ctx p' A' =
       filter (\<lambda>x. x \<notin> set W \<and> \<not> expire_of (tm (wd p)) x \<le> uint now) (waiting ctx p A) \<and>
     (\<forall>x. timed_out p' x \<longleftrightarrow> timed_out p x \<or> x \<in> set due) \<and>
     collect_frame p p' \<and> polls p' = polls_after evs p \<and> lists_within W A A'"
proof -
  from L obtain c t where c: "epolls (wd p) ctx = Some c" "timeouts (wd p) (pTimeout c) = Some t"
     and inv: "wheel_inv t (tm (wd p)) A"
     and lk: "is_link (tm (wd p)) (pstActiveList c)" "is_link (tm (wd p)) (pstTimeoutList c)"
       "\<not> is_slot t (pstActiveList c)" "\<not> is_slot t (pstTimeoutList c)"
       "pstActiveList c \<noteq> pstTimeoutList c" and empty: "A (pstTimeoutList c) = []"
    unfolding loop_ok_def by blast
  let ?a = "pstActiveList c" and ?r = "pstTimeoutList c"
  note D = wheel_invD [OF inv]
  have of_simps: "active_of ctx p = ?a" "wheel_of ctx p = t"
    using c by (simp_all add: active_of_def wheel_of_def)
  note R = D(1)
  have memset: "set_link (\<lambda>_. \<lparr>head = None, tail = None\<rparr>) ?r (tm (wd p)) = Some (tm (wd p))"
  proof -
    from lk(2) obtain l where l: "links (tm (wd p)) ?r = Some l" by (auto simp: is_link_def)
    then have "l = \<lparr>head = None, tail = None\<rparr>"
      using repr_list_ok [OF R l] empty by (cases l) (auto simp: list_ok_def)
    with l show ?thesis
      by (simp add: set_link_def fun_upd_idem)
  qed
  obtain p1 where p1: "foldM (handle_event ?a) evs p = Some p1" "same_world p p1"
     "same_data (tm (wd p)) (tm (wd p1))" "repr (tm (wd p1)) (moved ?a W A)"
     "polls p1 = polls_after evs p"
    using handle_events [OF R lk(1) ev] W unfolding polls_after_def by blast
  let ?m1 = "tm (wd p1)" and ?A1 = "moved ?a W A"
  have w1: "wd p1 = (wd p)\<lparr>tm := ?m1\<rparr>" using p1(2) by (simp add: same_world_def)
  have c1: "epolls (wd p1) = epolls (wd p)" "timeouts (wd p1) = timeouts (wd p)"
    using w1 by (metis world.select_convs world.simps ext world.surjective)+
  have slots: "?A1 k = filter (\<lambda>x. x \<notin> set W) (A k)" if "is_slot t k" for k
    using that lk(3) by (auto simp: moved_def)
  have inv1: "wheel_inv t ?m1 ?A1" and pend1: "pending t ?A1 = filter (\<lambda>x. x \<notin> set W) (pending t A)"
    using wheel_filter [OF inv p1(4) expire_of_same [OF p1(3)] lists.same_islink [OF p1(3)] slots] by auto
  obtain t2 m2 B where t2: "TakeAllTimeout t now ?r ?m1 = Some (t2, m2)" "wheel_inv t2 m2 B"
     "same_data ?m1 m2" "pItems t2 = pItems t" "iItemSize t2 = iItemSize t"
     "B ?r = ?A1 ?r @ filter (\<lambda>x. expire_of ?m1 x \<le> uint now) (pending t ?A1)"
     "pending t2 B = filter (\<lambda>x. \<not> expire_of ?m1 x \<le> uint now) (pending t ?A1)"
     "\<forall>k. k \<noteq> ?r \<longrightarrow> \<not> is_slot t k \<longrightarrow> B k = ?A1 k"
    using TakeAllTimeout_spec [OF inv1 _ lk(4), of now] clock lk(2) lists.same_islink [OF p1(3)] of_simps
    by (auto simp del: filter_filter)
  have Br: "B ?r = due"
    using t2(6) pend1 due of_simps empty lk(5) expire_of_same [OF p1(3)]
    by (simp add: moved_def waiting_def conj_commute)
  have Ba: "B ?a = filter (\<lambda>x. x \<notin> set W) (A ?a) @ W"
    using t2(8) lk by (simp add: moved_def)
  have links2: "is_link m2 k = is_link (tm (wd p)) k" for k
    using lists.same_islink [OF t2(3)] lists.same_islink [OF p1(3)] by simp
  note R2 = wheel_invD(1) [OF t2(2)]
  from links2 [of ?r] lk(2) obtain l where l: "links m2 ?r = Some l" by (auto simp: is_link_def)
  obtain m3 where m3: "mark_timeouts (head l) m2 = Some m3" "repr m3 B" "links m3 = links m2"
     "\<forall>x. nodes m3 x = (if x \<in> set due then map_option (bTimeout_update (\<lambda>_. True)) (nodes m2 x) else nodes m2 x)"
    using mark_list [OF R2 l] Br by auto
  have ex3: "expire_of m3 x = expire_of m2 x" for x
    using m3(4) by (cases "nodes m2 x") (auto simp: expire_of_def)
  have lk3: "is_link m3 k = is_link m2 k" for k using m3(3) by (simp add: is_link_def)
  have inv3: "wheel_inv t2 m3 B" using wheel_filter(1) [OF t2(2) m3(2) ex3 lk3, of "\<lambda>_. True"] by simp
  obtain m4 where m4: "Join ?a ?r m3 = Some m4" "repr m4 (B(?a := B ?a @ B ?r, ?r := []))" "same_data m3 m4"
    using lists.join_law [OF m3(2), of ?a ?r] lk lk3 links2 by auto
  let ?B = "B(?a := B ?a @ B ?r, ?r := [])"
  have slot2: "is_slot t2 = is_slot t" using t2(4,5) by (auto simp: is_slot_def fun_eq_iff)
  have B4: "?B k = filter (\<lambda>_. True) (B k)" if "is_slot t2 k" for k
    using that lk slot2 by auto
  have inv4: "wheel_inv t2 m4 ?B" and pend4: "pending t2 ?B = pending t2 B"
    using wheel_filter [OF inv3 m4(2) expire_of_same [OF m4(3)] lists.same_islink [OF m4(3)] B4]
    by (simp_all del: fun_upd_apply)
  let ?p = "p1\<lparr>wd := (wd p1)\<lparr>tm := m4, timeouts := (timeouts (wd p1))(pTimeout c \<mapsto> t2)\<rparr>\<rparr>"
  have run: "loop_collect ctx evs now p = Some ?p"
    using c c1 memset p1(1) t2(1) l m3(1) m4(1) by (simp add: loop_collect_def Let_def on_tm_def)
  have of': "active_of ctx ?p = ?a" "wheel_of ctx ?p = t2"
    using c c1 by (simp_all add: active_of_def wheel_of_def)
  have ok: "loop_ok ctx ?p ?B"
    unfolding loop_ok_def
    using c c1 inv4 lk links2 lk3 lists.same_islink [OF m4(3)] slot2 by (auto intro!: exI [of _ c])
  have to: "timed_out ?p x \<longleftrightarrow> timed_out p x \<or> x \<in> set due" for x
  proof -
    have node: "x \<in> set due \<Longrightarrow> nodes m2 x \<noteq> None"
      using lists.rep_isnode [OF R2, of x ?r] Br by (simp add: is_node_def)
    note b4 = bTimeout_of_same [OF m4(3), of x]
    have b2: "map_option bTimeout (nodes m2 x) = map_option bTimeout (nodes (tm (wd p)) x)"
      using bTimeout_of_same [OF t2(3)] bTimeout_of_same [OF p1(3)] by simp
    have to: "timed_out q x \<longleftrightarrow> map_option bTimeout (nodes (tm (wd q)) x) = Some True" for q
      by (auto simp: timed_out_def split: option.splits)
    have "map_option bTimeout (nodes m3 x) =
       (if x \<in> set due then Some True else map_option bTimeout (nodes m2 x))"
      using m3(4) node by (auto simp: option.map_comp comp_def)
    then show ?thesis by (simp add: to b4 b2)
  qed
  have act: "?B ?a = filter (\<lambda>x. x \<notin> set W) (A ?a) @ W @ due"
    using Ba Br lk(5) by simp
  have wait: "waiting ctx ?p ?B =
       filter (\<lambda>x. x \<notin> set W \<and> \<not> expire_of (tm (wd p)) x \<le> uint now) (waiting ctx p A)"
    using pend4 t2(7) pend1 of' of_simps expire_of_same [OF p1(3)]
    by (simp add: waiting_def conj_commute)
  have frame: "collect_frame p ?p"
  proof -
    have m3p: "payload m3 = payload m2"
      using m3(4) by (auto simp: payload_def fun_eq_iff option.map_comp comp_def)
    have "payload m4 = payload (tm (wd p))"
      unfolding same_data_payload [OF m4(3)] m3p same_data_payload [OF t2(3)] same_data_payload [OF p1(3)] ..
    moreover have "wd ?p = (wd p)\<lparr>tm := m4, timeouts := timeouts (wd ?p)\<rparr>" by (subst w1) simp
    moreover have "is_link m4 k = is_link (tm (wd p)) k" for k
      using lists.same_islink [OF m4(3)] lk3 links2 by simp
    ultimately show ?thesis using p1(2) by (simp add: collect_frame_def same_world_def)
  qed
  have within: "lists_within W A ?B"
    unfolding lists_within_def
  proof (intro allI impI)
    fix k x assume x: "x \<in> set (?B k)"
    have moved: "x \<in> set (moved ?a W A k) \<Longrightarrow> x \<in> set W \<or> linked A x" for k x
      by (auto simp: moved_def linked_def split: if_splits)
    have due_in: "x \<in> set due \<Longrightarrow> linked A x" for x
      using due of_simps(2) set_pending [OF inv] by (auto simp: waiting_def linked_def)
    have "x \<in> set W \<or> linked A x" if "x \<in> set (B k)" for k x
    proof (cases "is_slot t k \<or> k = ?r")
      case True
      then have "x \<in> set (pending t ?A1) \<or> x \<in> set due"
        using that t2(7) set_pending [OF t2(2), of x] slot2 Br by auto
      then show ?thesis using pend1 due_in set_pending [OF inv, of x] by (auto simp: linked_def)
    next
      case False
      then show ?thesis using t2(8) that moved by auto
    qed
    then show "x \<in> set W \<or> linked A x" using x by (auto split: if_splits)
  qed
  have pol: "polls ?p = polls_after evs p" using p1(5) by simp
  show ?thesis
    unfolding of_simps(1) by (rule exI [of _ ?p], rule exI [of _ ?B])
      (intro conjI run ok of'(1) act wait frame pol within allI to)
qed

lemma loop_collect_spec:
  assumes "loop_ok ctx p A" "\<forall>e\<in>set evs. event_ok p e"
    and "ullStart (wheel_of ctx p) \<le> now"
      "ullStart (wheel_of ctx p) = 0 \<or> uint now - uint (ullStart (wheel_of ctx p)) < 2 ^ 31 - 1"
      "uint now < 2 ^ 62"
    and "W = first_new (detached p) (map (poll_of p) evs)"
    and "due = filter (\<lambda>x. x \<notin> set W \<and> expire_of (tm (wd p)) x \<le> uint now) (waiting ctx p A)"
  shows "\<exists>p' A'. loop_collect ctx evs now p = Some p' \<and> loop_ok ctx p' A' \<and>
     active_of ctx p' = active_of ctx p \<and>
     A' (active_of ctx p) = filter (\<lambda>x. x \<notin> set W) (A (active_of ctx p)) @ W @ due \<and>
     waiting ctx p' A' =
       filter (\<lambda>x. x \<notin> set W \<and> \<not> expire_of (tm (wd p)) x \<le> uint now) (waiting ctx p A) \<and>
     (\<forall>x. timed_out p' x \<longleftrightarrow> timed_out p x \<or> x \<in> set due)"
  using loop_collect_full [OF assms] by (elim exE conjE) (intro exI conjI)

section \<open>The active list is served in order\<close>

definition serve ::
  "(addr \<Rightarrow> proc \<Rightarrow> proc option) \<Rightarrow> addr \<Rightarrow> addr \<Rightarrow> proc \<Rightarrow> proc option" where
  "serve run active x p = do {
     p \<leftarrow> on_tm (PopHead active) p;
     n \<leftarrow> nodes (tm (wd p)) x;
     if pfnProcess n = NoProcess then Some p else run x p }"

lemma drain_empty:
  assumes "repr (tm (wd p)) A" "is_link (tm (wd p)) active" "A active = []"
  shows "drain run active p = Some p"
proof -
  obtain l where l: "links (tm (wd p)) active = Some l" using assms(2) by (auto simp: is_link_def)
  then have "head l = None" using repr_list_ok [OF assms(1) l] assms(3) by (auto simp: list_ok_def)
  with l show ?thesis by (subst drain.simps) simp
qed

lemma drain_step:
  assumes "repr (tm (wd p)) A" "is_link (tm (wd p)) active" "A active = x # xs"
  shows "drain run active p = (serve run active x p \<bind> drain run active)"
proof -
  obtain l where l: "links (tm (wd p)) active = Some l" using assms(2) by (auto simp: is_link_def)
  then have "head l = Some x" using repr_list_ok [OF assms(1) l] assms(3) by (auto simp: list_ok_def)
  with l show ?thesis by (subst drain.simps) (simp add: serve_def)
qed

text \<open>
  A contract for what \<open>run\<close> does with the lists: it keeps \<open>I\<close>, it queues items only at the end of the
  active list, and \<open>\<mu>\<close> bounds how many items can still be served.
\<close>

definition serves ::
  "(proc \<Rightarrow> (addr \<Rightarrow> addr list) \<Rightarrow> bool) \<Rightarrow> (proc \<Rightarrow> (addr \<Rightarrow> addr list) \<Rightarrow> nat) \<Rightarrow>
     (addr \<Rightarrow> proc \<Rightarrow> proc option) \<Rightarrow> addr \<Rightarrow> bool" where
  "serves I \<mu> run active \<longleftrightarrow> (\<forall>p A x xs. I p A \<longrightarrow> A active = x # xs \<longrightarrow>
     repr (tm (wd p)) A \<and> is_link (tm (wd p)) active \<and>
     (\<exists>p' A' ys. serve run active x p = Some p' \<and> I p' A' \<and> A' active = xs @ ys \<and> \<mu> p' A' < \<mu> p A))"

lemma drain_in_order:
  assumes S: "serves I \<mu> run active" and "I p A" "repr (tm (wd p)) A" "is_link (tm (wd p)) active"
    and E: "\<forall>p A. I p A \<longrightarrow> repr (tm (wd p)) A \<and> is_link (tm (wd p)) active"
  shows "\<exists>p' A' zs. drain run active p = Some p' \<and> I p' A' \<and> A' active = [] \<and>
     foldM (serve run active) (A active @ zs) p = Some p'"
  using assms(2-4)
proof (induction "\<mu> p A" arbitrary: p A rule: less_induct)
  case less
  show ?case
  proof (cases "A active")
    case Nil
    then show ?thesis
      using less.prems drain_empty [OF less.prems(2,3) Nil, of run]
      by (auto intro!: exI [of _ p] exI [of _ A] exI [of _ "[]"])
  next
    case (Cons x xs)
    obtain p1 A1 ys where p1: "serve run active x p = Some p1" "I p1 A1" "A1 active = xs @ ys"
      "\<mu> p1 A1 < \<mu> p A"
      using S less.prems(1) Cons unfolding serves_def by blast
    obtain p' A' zs where p': "drain run active p1 = Some p'" "I p' A'" "A' active = []"
      "foldM (serve run active) (A1 active @ zs) p1 = Some p'"
      using less.hyps [OF p1(4,2)] E p1(2) by blast
    have "drain run active p = Some p'"
      using drain_step [OF less.prems(2,3) Cons] p1(1) p'(1) by simp
    moreover have "foldM (serve run active) (A active @ (ys @ zs)) p = Some p'"
      using Cons p1(1,3) p'(4) by simp
    ultimately show ?thesis using p'(2,3) by blast
  qed
qed

lemma loop_ok_active: "loop_ok ctx p A \<Longrightarrow> repr (tm (wd p)) A \<and> is_link (tm (wd p)) (active_of ctx p)"
  using wheel_invD(1) unfolding loop_ok_def active_of_def by fastforce

lemma loop_round_spec:
  assumes L: "loop_ok ctx p A" and ev: "\<forall>e\<in>set evs. event_ok p e"
    and clock: "ullStart (wheel_of ctx p) \<le> now"
      "ullStart (wheel_of ctx p) = 0 \<or> uint now - uint (ullStart (wheel_of ctx p)) < 2 ^ 31 - 1"
      "uint now < 2 ^ 62"
    and W: "W = first_new (detached p) (map (poll_of p) evs)"
    and due: "due = filter (\<lambda>x. x \<notin> set W \<and> expire_of (tm (wd p)) x \<le> uint now) (waiting ctx p A)"
    and S: "serves (\<lambda>q B. loop_ok ctx q B \<and> active_of ctx q = active_of ctx p) \<mu> run (active_of ctx p)"
  shows "\<exists>q p' A' zs. loop_collect ctx evs now p = Some q \<and> loop_round run ctx evs now p = Some p' \<and>
     loop_ok ctx p' A' \<and> A' (active_of ctx p) = [] \<and>
     foldM (serve run (active_of ctx p))
       (filter (\<lambda>x. x \<notin> set W) (A (active_of ctx p)) @ W @ due @ zs) q = Some p'"
proof -
  obtain q B where q: "loop_collect ctx evs now p = Some q" "loop_ok ctx q B"
     "active_of ctx q = active_of ctx p"
     "B (active_of ctx p) = filter (\<lambda>x. x \<notin> set W) (A (active_of ctx p)) @ W @ due"
    using loop_collect_spec [OF L ev clock W due] by blast
  have E: "\<forall>q B. loop_ok ctx q B \<and> active_of ctx q = active_of ctx p \<longrightarrow>
      repr (tm (wd q)) B \<and> is_link (tm (wd q)) (active_of ctx p)"
    using loop_ok_active by metis
  obtain p' A' zs where p': "drain run (active_of ctx p) q = Some p'" "loop_ok ctx p' A'"
    "A' (active_of ctx p) = []" "foldM (serve run (active_of ctx p)) (B (active_of ctx p) @ zs) q = Some p'"
    using drain_in_order [OF S, of q B] q(2,3) E by blast
  obtain c where "epolls (wd p) ctx = Some c" "pstActiveList c = active_of ctx p"
    using L unfolding loop_ok_def active_of_def by auto
  then have "loop_round run ctx evs now p = Some p'"
    using q(1) p'(1) by (simp add: loop_round_def)
  with q p' show ?thesis by auto
qed

section \<open>The properties of the event loop\<close>

definition loop_co :: "addr \<Rightarrow> stCoRoutine_t" where
  "loop_co env = \<lparr>co_env = env, co_pfn = None, co_arg = 0, co_ctx = coctx_init, cStart = True, cEnd = False,
     cIsMain = False, cEnableSysHook = False, cIsShareStack = False, pvEnv = None, stack_mem = None,
     stack_sp = 0, save_size = 0, save_buffer = None, aSpec = []\<rparr>"

text \<open>
  A thread that runs coroutine 300 with the epoll object 302: its wheel is \<open>demo_wheel\<close>, where the poll at
  5, one descriptor with the item at 8, and the item at 6 wait; header 0 is the active list, 1 the list
  of timeouts.
\<close>

definition demo_loop :: proc where
  "demo_loop = \<lparr>wd = \<lparr>cos = [300 \<mapsto> loop_co 301], stacks = (\<lambda>_. None), shares = (\<lambda>_. None),
       envs = [301 \<mapsto> \<lparr>pCallStack = [Some 300], iCallStackSize = 1, pEpoll = Some 302,
         env_pending_co = None, env_occupy_co = None\<rparr>],
       epolls = [302 \<mapsto> \<lparr>iEpollFd = 9, pTimeout = 303, pstTimeoutList = 2, pstActiveList = 0,
         epoll_result = False\<rparr>],
       timeouts = [303 \<mapsto> demo_wheel],
       tm = demo_tmem\<lparr>nodes := (nodes demo_tmem)(8 \<mapsto> (demo_item None 0)\<lparr>pfnPrepare := OnPollPrepare\<rparr>),
         links := (links demo_tmem)(2 \<mapsto> \<lparr>head = None, tail = None\<rparr>)\<rparr>,
       bufs = (\<lambda>_. None), mem = (\<lambda>_. 0), brk = 1000, g_arrCoEnvPerThread = (\<lambda>i. if i = 7 then Some 301 else None),
       tid = 7, cpu_regs = []\<rparr>,
     polls = [5 \<mapsto> \<lparr>fds = [\<lparr>pfd = 3, pevents = 0, prevents = 0\<rparr>], pPollItems = 8, iAllEventDetach = False,
       poll_epfd = 9, iRaiseCnt = 0\<rparr>],
     pitems = [8 \<mapsto> \<lparr>pSelf = 0, pPoll = Some 5, stEvent = \<lparr>ev_events = 1, ev_ptr = Some 8\<rparr>\<rparr>],
     conds = \<lparr>nodes = [7 \<mapsto> \<lparr>pPrev = None, pNext = Some 6, pLink = Some 50\<rparr>,
         6 \<mapsto> \<lparr>pPrev = Some 7, pNext = None, pLink = Some 50\<rparr>],
       links = [50 \<mapsto> \<lparr>head = Some 7, tail = Some 6\<rparr>]\<rparr>,
     ctls = [], errno = 0\<rparr>"

lemma demo_loop_simps [simp]:
  "epolls (wd demo_loop) 302 = Some \<lparr>iEpollFd = 9, pTimeout = 303, pstTimeoutList = 2, pstActiveList = 0,
         epoll_result = False\<rparr>"
  "timeouts (wd demo_loop) 303 = Some demo_wheel" "brk (wd demo_loop) = 1000"
  "wheel_of 302 demo_loop = demo_wheel" "active_of 302 demo_loop = 0"
  "co_self (wd demo_loop) = Some (Some 300)" "GetCurrThreadCo (wd demo_loop) = Some (Some 300)"
  "cos (wd demo_loop) 300 \<noteq> None" "ctls demo_loop = []"
  "ullStart demo_wheel = 1000" "iItemSize demo_wheel = 4"
  by (simp_all add: demo_loop_def wheel_of_def active_of_def co_self_def GetCurrThreadCo_def
      co_get_curr_thread_env_def GetCurrCo_def call_at_def demo_wheel_def)

lemma demo_loop_ok: "loop_ok 302 demo_loop demo_lists"
proof -
  let ?m = "tm (wd demo_loop)"
  have R: "repr ?m demo_lists"
    by (auto simp: demo_loop_def repr_def list_ok_def demo_tmem_def demo_lists_def demo_item_def split: if_splits)
  have ex: "expire_of ?m x = expire_of demo_tmem x" if "x \<in> set (demo_lists lk)" for lk x
    using that by (auto simp: demo_loop_def expire_of_def demo_lists_def split: if_splits)
  have "wheel_inv demo_wheel ?m demo_lists"
    unfolding wheel_inv_def
  proof (intro conjI allI impI ballI)
    fix d x assume "d < nat (iItemSize demo_wheel)" "x \<in> set (demo_lists (slot_at demo_wheel (int d)))"
    then show "expire_of ?m x = uint (ullStart demo_wheel) + int d"
      using wheel_invD(7) [OF demo_wheel_inv] ex by metis
  next
    fix lk assume "is_slot demo_wheel lk"
    then show "is_link ?m lk" using wheel_invD(6) [OF demo_wheel_inv]
      by (auto simp: demo_loop_def is_link_def)
  next
    fix lk assume "ullStart demo_wheel = 0"
    then show "demo_lists lk = []" by (simp add: demo_wheel_def)
  qed (use R wheel_invD [OF demo_wheel_inv] in auto)
  then show ?thesis
    unfolding loop_ok_def
    by (auto simp: demo_lists_def is_link_def is_slot_def demo_loop_def demo_tmem_def demo_wheel_def)
qed

lemma demo_event_ok: "event_ok demo_loop \<lparr>ev_events = 1, ev_ptr = Some 8\<rparr>"
  by (auto simp: event_ok_def demo_loop_def is_node_def demo_tmem_def)


text \<open>Taking the first item off the active list.\<close>

lemma pop_active:
  assumes L: "loop_ok ctx p A" and A: "A (active_of ctx p) = x # xs"
  defines "a \<equiv> active_of ctx p"
  shows "\<exists>m. PopHead a (tm (wd p)) = Some m \<and> same_data (tm (wd p)) m \<and> is_node m x \<and>
     loop_ok ctx (p\<lparr>wd := (wd p)\<lparr>tm := m\<rparr>\<rparr>) (A(a := xs)) \<and>
     waiting ctx (p\<lparr>wd := (wd p)\<lparr>tm := m\<rparr>\<rparr>) (A(a := xs)) = waiting ctx p A"
proof -
  obtain c t where c: "epolls (wd p) ctx = Some c" "timeouts (wd p) (pTimeout c) = Some t"
     and inv: "wheel_inv t (tm (wd p)) A"
     and lk: "is_link (tm (wd p)) (pstActiveList c)" "is_link (tm (wd p)) (pstTimeoutList c)"
       "\<not> is_slot t (pstActiveList c)" "\<not> is_slot t (pstTimeoutList c)"
       "pstActiveList c \<noteq> pstTimeoutList c" and empty: "A (pstTimeoutList c) = []"
    using L unfolding loop_ok_def by blast
  have a: "a = pstActiveList c" using c by (simp add: a_def active_of_def)
  have Aa: "A a = x # xs" using A by (simp add: a_def)
  note R = wheel_invD(1) [OF inv]
  obtain m where m: "PopHead a (tm (wd p)) = Some m" "repr m (A(a := xs))" "same_data (tm (wd p)) m"
    using lists.pop_law [OF R, of a] lk(1) a Aa by auto
  have sub: "(A(a := xs)) k = filter (\<lambda>_. True) (A k)" if "is_slot t k" for k
    using that lk(3) a by auto
  note keep = inv m(2) expire_of_same [OF m(3)] lists.same_islink [OF m(3)] sub
  have inv2: "wheel_inv t m (A(a := xs))" by (rule wheel_filter(1) [OF keep])
  have "pending t (A(a := xs)) = filter (\<lambda>_. True) (pending t A)" by (rule wheel_filter(2) [OF keep])
  then have pend: "pending t (A(a := xs)) = pending t A" by simp
  let ?p = "p\<lparr>wd := (wd p)\<lparr>tm := m\<rparr>\<rparr>"
  have "loop_ok ctx ?p (A(a := xs))"
    unfolding loop_ok_def using c inv2 lk lists.same_islink [OF m(3)] a empty
    by (auto intro!: exI [of _ c])
  moreover have "waiting ctx ?p (A(a := xs)) = waiting ctx p A"
    using pend c by (simp add: waiting_def wheel_of_def)
  moreover have "is_node m x"
    using lists.rep_isnode [OF R, of x a] Aa lists.same_isnode [OF m(3)] by simp
  ultimately show ?thesis using m(1,3) by blast
qed

text \<open>A \<open>run\<close> that queues nothing meets the contract.\<close>

lemma serves_quiet:
  "serves (\<lambda>q B. loop_ok ctx q B \<and> active_of ctx q = a) (\<lambda>q B. length (B a)) (\<lambda>x p. Some p) a"
  unfolding serves_def
proof (intro allI impI)
  fix p A x xs
  assume I: "loop_ok ctx p A \<and> active_of ctx p = a" and A: "A a = x # xs"
  then obtain m where m: "PopHead a (tm (wd p)) = Some m" "is_node m x"
     "loop_ok ctx (p\<lparr>wd := (wd p)\<lparr>tm := m\<rparr>\<rparr>) (A(a := xs))"
    using pop_active [of ctx p A x xs] by auto
  let ?p = "p\<lparr>wd := (wd p)\<lparr>tm := m\<rparr>\<rparr>"
  have "serve (\<lambda>x p. Some p) a x p = Some ?p"
    using m(1,2) by (auto simp: serve_def on_tm_def is_node_def)
  moreover have "active_of ctx ?p = a" using I by (simp add: active_of_def)
  ultimately show "repr (tm (wd p)) A \<and> is_link (tm (wd p)) a \<and>
     (\<exists>p' A' ys. serve (\<lambda>x p. Some p) a x p = Some p' \<and>
        (loop_ok ctx p' A' \<and> active_of ctx p' = a) \<and> A' a = xs @ ys \<and> length (A' a) < length (A a))"
    using I loop_ok_active [of ctx p A] m(3) A
    by (intro conjI exI [of _ ?p] exI [of _ "A(a := xs)"] exI [of _ "[]"]) auto
qed

text \<open>
  C11: what a round of \<open>co_eventloop\<close> collects. Let \<open>W\<close> be the polls the events belong to that no event
  has woken before, each once, in the order of their first event, and \<open>due\<close> the other waiting items whose
  expiry time is not after \<open>now\<close>. After the round has collected, the active list holds what it held
  (without \<open>W\<close>), then \<open>W\<close>, then \<open>due\<close> in the order of expiry; exactly the other items still wait; and
  \<open>bTimeout\<close> has been set on exactly the items of \<open>due\<close>: an item that an event woke is not reported as
  timed out, and none is queued twice.
\<close>

theorem co_eventloop_collects:
  assumes "loop_ok ctx p A" "\<forall>e\<in>set evs. event_ok p e"
    and "ullStart (wheel_of ctx p) \<le> now"
      "ullStart (wheel_of ctx p) = 0 \<or> uint now - uint (ullStart (wheel_of ctx p)) < 2 ^ 31 - 1"
      "uint now < 2 ^ 62"
    and "W = first_new (detached p) (map (poll_of p) evs)"
    and "due = filter (\<lambda>x. x \<notin> set W \<and> expire_of (tm (wd p)) x \<le> uint now) (waiting ctx p A)"
  shows "\<exists>p' A'. loop_collect ctx evs now p = Some p' \<and> loop_ok ctx p' A' \<and>
     active_of ctx p' = active_of ctx p \<and>
     A' (active_of ctx p) = filter (\<lambda>x. x \<notin> set W) (A (active_of ctx p)) @ W @ due \<and>
     waiting ctx p' A' =
       filter (\<lambda>x. x \<notin> set W \<and> \<not> expire_of (tm (wd p)) x \<le> uint now) (waiting ctx p A) \<and>
     (\<forall>x. timed_out p' x \<longleftrightarrow> timed_out p x \<or> x \<in> set due)"
  using assms by (rule loop_collect_spec)

lemma demo_round:
  "first_new (detached demo_loop) (map (poll_of demo_loop) [\<lparr>ev_events = 1, ev_ptr = Some 8\<rparr>]) = [5]"
  "waiting 302 demo_loop demo_lists = [6, 5]"
  "filter (\<lambda>x. x \<notin> set [5] \<and> expire_of (tm (wd demo_loop)) x \<le> uint (1000 :: u64))
     (waiting 302 demo_loop demo_lists) = [6]"
proof -
  show "first_new (detached demo_loop) (map (poll_of demo_loop) [\<lparr>ev_events = 1, ev_ptr = Some 8\<rparr>]) = [5]"
    by (simp add: demo_loop_def poll_of_def item_of_def detached_def)
  show w: "waiting 302 demo_loop demo_lists = [6, 5]"
    by (simp add: waiting_def pending_def slot_at_def upt_rec) (simp add: demo_wheel_def demo_lists_def)
  show "filter (\<lambda>x. x \<notin> set [5] \<and> expire_of (tm (wd demo_loop)) x \<le> uint (1000 :: u64))
     (waiting 302 demo_loop demo_lists) = [6]"
    unfolding w by (simp add: demo_loop_def demo_tmem_def demo_item_def expire_of_def)
qed

theorem co_eventloop_collects_witness:
  "\<exists>p' A'. loop_collect 302 [\<lparr>ev_events = 1, ev_ptr = Some 8\<rparr>] 1000 demo_loop = Some p' \<and> loop_ok 302 p' A' \<and>
     active_of 302 p' = active_of 302 demo_loop \<and>
     A' (active_of 302 demo_loop) = filter (\<lambda>x. x \<notin> set [5]) (demo_lists (active_of 302 demo_loop)) @ [5] @ [6] \<and>
     waiting 302 p' A' =
       filter (\<lambda>x. x \<notin> set [5] \<and> \<not> expire_of (tm (wd demo_loop)) x \<le> uint (1000 :: u64))
         (waiting 302 demo_loop demo_lists) \<and>
     (\<forall>x. timed_out p' x \<longleftrightarrow> timed_out demo_loop x \<or> x \<in> set [6])"
  by (rule co_eventloop_collects [OF demo_loop_ok _ _ _ _ demo_round(1) [symmetric] demo_round(3) [symmetric]])
    (simp_all add: demo_event_ok)



end
