(* ===== verification/Poll.thy ===== *)
theory Poll
  imports EventLoop
begin

text \<open>
  \<open>co_poll_inner\<close> and \<open>co_poll\<close> of \<open>src/libco/co_routine.cpp\<close>. The call is modelled in two halves,
  \<open>co_poll_enter\<close> down to the \<open>co_yield_env\<close> that gives up the control and \<open>co_poll_leave\<close> from there on.
\<close>

section \<open>\<open>co_poll_inner\<close>\<close>

text \<open>
  \<open>ctl\<close> is the kernel: what \<open>co_epoll_ctl\<close> returns and the \<open>errno\<close> it sets, given the calls so far.
\<close>

type_synonym kernel_ctl = "ctl_call list \<Rightarrow> int \<times> int"

definition EPERM :: int where "EPERM = 1"
definition EINVAL :: int where "EINVAL = 22"

definition co_epoll_ctl_call :: "kernel_ctl \<Rightarrow> ctl_call \<Rightarrow> proc \<Rightarrow> int \<times> proc" where
  "co_epoll_ctl_call ctl c p = (let (ret, en) = ctl (c # ctls p)
     in (ret, p\<lparr>ctls := c # ctls p, errno := (if ret < 0 then en else errno p)\<rparr>))"

definition zero_item :: stTimeoutItem_t where
  "zero_item = \<lparr>pPrev = None, pNext = None, pLink = None, ullExpireTime = 0, pfnPrepare = NoPrepare,
     pfnProcess = NoProcess, pArg = None, bTimeout = False\<rparr>"

text \<open>
  The objects of a poll: \<open>malloc\<close> and \<open>memset\<close> of \<open>arg\<close> and of the items. When the items are the local
  array \<open>arr\<close>, its address is as fresh as one of \<open>malloc\<close>, and it dies when the function returns.
\<close>

definition new_poll :: "int \<Rightarrow> nat \<Rightarrow> proc \<Rightarrow> addr \<times> addr \<times> proc" where
  "new_poll epfd nfds p = (let
     (arg, w) = malloc 1 (wd p);
     (items, w) = malloc nfds w;
     m = tm w;
     m = m\<lparr>nodes := (\<lambda>a. if a = arg \<or> items \<le> a \<and> a < items + nfds then Some zero_item else nodes m a)\<rparr>
     in (arg, items, p\<lparr>wd := w\<lparr>tm := m\<rparr>,
       polls := (polls p)(arg \<mapsto> \<lparr>fds = replicate nfds \<lparr>pfd = 0, pevents = 0, prevents = 0\<rparr>,
         pPollItems = items, iAllEventDetach = False, poll_epfd = epfd, iRaiseCnt = 0\<rparr>),
       pitems := (\<lambda>a. if items \<le> a \<and> a < items + nfds
         then Some \<lparr>pSelf = 0, pPoll = None, stEvent = \<lparr>ev_events = 0, ev_ptr = None\<rparr>\<rparr>
         else pitems p a)\<rparr>))"

definition free_poll :: "addr \<Rightarrow> addr \<Rightarrow> nat \<Rightarrow> proc \<Rightarrow> proc" where
  "free_poll arg items nfds p = (let w = wd p; m = tm w;
     m = m\<lparr>nodes := (\<lambda>a. if a = arg \<or> items \<le> a \<and> a < items + nfds then None else nodes m a)\<rparr>
     in p\<lparr>wd := w\<lparr>tm := m\<rparr>, polls := (polls p)(arg := None),
       pitems := (\<lambda>a. if items \<le> a \<and> a < items + nfds then None else pitems p a)\<rparr>)"

text \<open>The loop that registers the descriptors: \<open>True\<close> when it falls back to \<open>pollfunc\<close>.\<close>

fun register_fds ::
  "kernel_ctl \<Rightarrow> bool \<Rightarrow> int \<Rightarrow> addr \<Rightarrow> addr \<Rightarrow> nat \<Rightarrow> nat \<Rightarrow> pollfd list \<Rightarrow> proc \<Rightarrow> (bool \<times> proc) option" where
  "register_fds ctl has_pollfunc epfd arg items nfds i [] p = Some (False, p)"
| "register_fds ctl has_pollfunc epfd arg items nfds i (f # fs) p = do {
     let ap = items + i;
     it \<leftarrow> pitems p ap;
     let it = it\<lparr>pSelf := i, pPoll := Some arg\<rparr>;
     p \<leftarrow> on_tm (set_node (pfnPrepare_update (\<lambda>_. OnPollPrepare)) ap) p;
     if - 1 < pfd f then do {
       let ev = \<lparr>ev_events = PollEvent2Epoll (pevents f), ev_ptr = Some ap\<rparr>;
       let p = p\<lparr>pitems := (pitems p)(ap \<mapsto> it\<lparr>stEvent := ev\<rparr>)\<rparr>;
       let (ret, p) = co_epoll_ctl_call ctl (Ctl EPOLL_CTL_ADD epfd (pfd f) ev) p;
       if ret < 0 \<and> errno p = EPERM \<and> nfds = 1 \<and> has_pollfunc then Some (True, p)
       else register_fds ctl has_pollfunc epfd arg items nfds (i + 1) fs p }
     else register_fds ctl has_pollfunc epfd arg items nfds (i + 1) fs
            (p\<lparr>pitems := (pitems p)(ap \<mapsto> it)\<rparr>) }"

text \<open>
  The call down to \<open>co_yield_env\<close>: it returns what \<open>pollfunc\<close> returns, or an error, or it gives up the
  control with the address of \<open>arg\<close> (which the frame keeps).
\<close>

datatype poll_outcome = PollFunc | PollReturn int | PollYield addr

definition eMaxTimeout :: int where "eMaxTimeout = 40 * 1000"

definition co_poll_enter ::
  "kernel_ctl \<Rightarrow> u64 \<Rightarrow> addr \<Rightarrow> pollfd list \<Rightarrow> int \<Rightarrow> bool \<Rightarrow> proc \<Rightarrow> (poll_outcome \<times> proc) option" where
  "co_poll_enter ctl now ctx ufds timeout has_pollfunc p = do {
     let timeout = (if timeout > eMaxTimeout then eMaxTimeout else timeout);
     c \<leftarrow> epolls (wd p) ctx;
     let epfd = iEpollFd c;
     let nfds = length ufds;
     self \<leftarrow> co_self (wd p);
     _ \<leftarrow> (if nfds < 2 then do { s \<leftarrow> self; _ \<leftarrow> cos (wd p) s; Some () } else Some ());
     let (arg, items, p) = new_poll epfd nfds p;
     e \<leftarrow> co_get_curr_thread_env (wd p);
     env \<leftarrow> e;
     cur \<leftarrow> GetCurrCo env (wd p);
     p \<leftarrow> on_tm (set_node (\<lambda>n. n\<lparr>pfnProcess := OnPollProcess, pArg := cur\<rparr>) arg) p;
     (fell_back, p) \<leftarrow> register_fds ctl has_pollfunc epfd arg items nfds 0 ufds p;
     if fell_back then Some (PollFunc, free_poll arg items nfds p)
     else do {
       p \<leftarrow> on_tm (set_node (ullExpireTime_update (\<lambda>_. now + word_of_int timeout)) arg) p;
       t \<leftarrow> timeouts (wd p) (pTimeout c);
       (ret, t, m) \<leftarrow> AddTimeout t arg now (tm (wd p));
       let p = p\<lparr>wd := (wd p)\<lparr>tm := m, timeouts := (timeouts (wd p))(pTimeout c \<mapsto> t)\<rparr>\<rparr>;
       if ret \<noteq> 0 then Some (PollReturn (- 1248), free_poll arg items nfds (p\<lparr>errno := EINVAL\<rparr>))
       else Some (PollYield arg, p) } }"

text \<open>The loop that removes the descriptors from the epoll instance and fills in \<open>revents\<close>.\<close>

fun unregister_fds ::
  "kernel_ctl \<Rightarrow> int \<Rightarrow> addr \<Rightarrow> nat \<Rightarrow> pollfd list \<Rightarrow> proc \<Rightarrow> (pollfd list \<times> proc) option" where
  "unregister_fds ctl epfd arg i [] p = Some ([], p)"
| "unregister_fds ctl epfd arg i (f # fs) p = do {
     pl \<leftarrow> polls p arg;
     p \<leftarrow> (if - 1 < pfd f then do {
            it \<leftarrow> pitems p (pPollItems pl + i);
            Some (snd (co_epoll_ctl_call ctl (Ctl EPOLL_CTL_DEL epfd (pfd f) (stEvent it)) p)) }
          else Some p);
     require (i < length (fds pl));
     (fs, p) \<leftarrow> unregister_fds ctl epfd arg (i + 1) fs p;
     Some (f\<lparr>prevents := prevents (fds pl ! i)\<rparr> # fs, p) }"

text \<open>The rest of the call, after the coroutine has been resumed: the result and the caller's array.\<close>

definition co_poll_leave ::
  "kernel_ctl \<Rightarrow> int \<Rightarrow> addr \<Rightarrow> pollfd list \<Rightarrow> proc \<Rightarrow> (int \<times> pollfd list \<times> proc) option" where
  "co_poll_leave ctl epfd arg ufds p = do {
     p \<leftarrow> on_tm (RemoveFromLink arg) p;
     (ufds, p) \<leftarrow> unregister_fds ctl epfd arg 0 ufds p;
     pl \<leftarrow> polls p arg;
     Some (iRaiseCnt pl, ufds, free_poll arg (pPollItems pl) (length ufds) p) }"

text \<open>
  The whole call: \<open>pollfunc\<close> is the fallback, \<open>others\<close> is what runs from \<open>co_yield_env\<close> until the
  coroutine is resumed.
\<close>

definition co_poll_inner ::
  "kernel_ctl \<Rightarrow> u64 \<Rightarrow> frame \<Rightarrow> (proc \<Rightarrow> proc option) \<Rightarrow> addr \<Rightarrow> pollfd list \<Rightarrow> int \<Rightarrow>
     (pollfd list \<Rightarrow> int \<Rightarrow> int \<times> pollfd list) option \<Rightarrow> proc \<Rightarrow> (int \<times> pollfd list \<times> proc) option" where
  "co_poll_inner ctl now fr others ctx ufds timeout pollfunc p = do {
     (r, p) \<leftarrow> co_poll_enter ctl now ctx ufds timeout (pollfunc \<noteq> None) p;
     (case r of
        PollFunc \<Rightarrow> do {
          f \<leftarrow> pollfunc;
          let (ret, ufds) = f ufds (if timeout > eMaxTimeout then eMaxTimeout else timeout);
          Some (ret, ufds, p) }
      | PollReturn ret \<Rightarrow> Some (ret, ufds, p)
      | PollYield arg \<Rightarrow> do {
          pl \<leftarrow> polls p arg;
          e \<leftarrow> co_get_curr_thread_env (wd p);
          env \<leftarrow> e;
          w \<leftarrow> co_yield_env fr env (wd p);
          p \<leftarrow> others (p\<lparr>wd := w\<rparr>);
          co_poll_leave ctl (poll_epfd pl) arg ufds p }) }"

definition co_poll ::
  "kernel_ctl \<Rightarrow> u64 \<Rightarrow> frame \<Rightarrow> (proc \<Rightarrow> proc option) \<Rightarrow> addr \<Rightarrow> pollfd list \<Rightarrow> int \<Rightarrow> proc \<Rightarrow>
     (int \<times> pollfd list \<times> proc) option" where
  "co_poll ctl now fr others ctx ufds timeout_ms p =
     co_poll_inner ctl now fr others ctx ufds timeout_ms None p"

section \<open>Allocating and freeing the objects of a poll\<close>

lemma repr_nodes_change:
  assumes "repr m A" and "links m' = links m"
    and keep: "\<And>lk x n. x \<in> set (A lk) \<Longrightarrow> nodes m x = Some n \<Longrightarrow>
      \<exists>n'. nodes m' x = Some n' \<and> pPrev n' = pPrev n \<and> pNext n' = pNext n \<and> pLink n' = pLink n"
    and only: "\<And>x n lk. nodes m' x = Some n \<Longrightarrow> pLink n = Some lk \<Longrightarrow> x \<in> set (A lk)"
  shows "repr m' A"
proof -
  have "dseg (nodes m') lk pr xs nx" if "dseg (nodes m) lk pr xs nx" "set xs \<subseteq> set (A lk)" for lk pr xs nx
    using that by (induction xs arbitrary: pr) (auto dest!: keep)
  then have "list_ok m' lk (A lk)" if "list_ok m lk (A lk)" for lk
    using that assms(2) by (auto simp: list_ok_def)
  then show ?thesis
    using assms(1,2) only unfolding repr_def by simp
qed

text \<open>Addresses at or above \<open>brk\<close> hold nothing yet.\<close>

definition fresh_above :: "proc \<Rightarrow> bool" where
  "fresh_above p \<longleftrightarrow> (\<forall>a \<ge> brk (wd p). nodes (tm (wd p)) a = None \<and> links (tm (wd p)) a = None \<and>
     polls p a = None \<and> pitems p a = None)"

text \<open>The calls the two loops over the descriptors make, and the state they leave.\<close>

fun add_calls :: "int \<Rightarrow> addr \<Rightarrow> nat \<Rightarrow> pollfd list \<Rightarrow> ctl_call list" where
  "add_calls epfd items i [] = []"
| "add_calls epfd items i (f # fs) = (if - 1 < pfd f
     then [Ctl EPOLL_CTL_ADD epfd (pfd f) \<lparr>ev_events = PollEvent2Epoll (pevents f), ev_ptr = Some (items + i)\<rparr>]
     else []) @ add_calls epfd items (i + 1) fs"

fun del_calls :: "int \<Rightarrow> (nat \<Rightarrow> epoll_event) \<Rightarrow> nat \<Rightarrow> pollfd list \<Rightarrow> ctl_call list" where
  "del_calls epfd ev i [] = []"
| "del_calls epfd ev i (f # fs) = (if - 1 < pfd f then [Ctl EPOLL_CTL_DEL epfd (pfd f) (ev i)] else []) @
     del_calls epfd ev (i + 1) fs"

definition registered_item :: "addr \<Rightarrow> addr \<Rightarrow> nat \<Rightarrow> pollfd \<Rightarrow> stPollItem_t \<Rightarrow> stPollItem_t" where
  "registered_item arg items i f it = it\<lparr>pSelf := i, pPoll := Some arg, stEvent :=
     (if - 1 < pfd f then \<lparr>ev_events = PollEvent2Epoll (pevents f), ev_ptr = Some (items + i)\<rparr> else stEvent it)\<rparr>"

lemma co_epoll_ctl_call_eq:
  "co_epoll_ctl_call ctl c p = (fst (ctl (c # ctls p)), p\<lparr>ctls := c # ctls p,
     errno := (if fst (ctl (c # ctls p)) < 0 then snd (ctl (c # ctls p)) else errno p)\<rparr>)"
  by (simp add: co_epoll_ctl_call_def Let_def split: prod.splits)

lemma register_fds_spec:
  assumes "\<not> (nfds = 1 \<and> hasf)"
    and "\<forall>j < length fs. pitems p (items + i + j) \<noteq> None \<and> nodes (tm (wd p)) (items + i + j) \<noteq> None"
  shows "\<exists>en. register_fds ctl hasf epfd arg items nfds i fs p = Some (False,
     p\<lparr>wd := (wd p)\<lparr>tm := (tm (wd p))\<lparr>nodes := (\<lambda>a. if items + i \<le> a \<and> a < items + i + length fs
             then map_option (pfnPrepare_update (\<lambda>_. OnPollPrepare)) (nodes (tm (wd p)) a)
             else nodes (tm (wd p)) a)\<rparr>\<rparr>,
       pitems := (\<lambda>a. if items + i \<le> a \<and> a < items + i + length fs
             then map_option (registered_item arg items (a - items) (fs ! (a - items - i))) (pitems p a)
             else pitems p a),
       ctls := rev (add_calls epfd items i fs) @ ctls p, errno := en\<rparr>)"
  using assms(2)
proof (induction fs arbitrary: i p)
  case Nil
  have none: "(\<lambda>a. if items + i \<le> a \<and> a < items + i + length [] then f a else g a) = g" for f g :: "addr \<Rightarrow> 'x"
    by (auto simp: fun_eq_iff)
  show ?case unfolding none by (rule exI [of _ "errno p"]) simp
next
  case (Cons f fs)
  let ?ap = "items + i"
  from Cons.prems obtain it n where it: "pitems p ?ap = Some it" "nodes (tm (wd p)) ?ap = Some n"
    by fastforce
  let ?ev = "\<lparr>ev_events = PollEvent2Epoll (pevents f), ev_ptr = Some ?ap\<rparr>"
  define p1 where "p1 = p\<lparr>wd := (wd p)\<lparr>tm := (tm (wd p))\<lparr>nodes := (nodes (tm (wd p)))(?ap \<mapsto> n\<lparr>pfnPrepare := OnPollPrepare\<rparr>)\<rparr>\<rparr>,
     pitems := (pitems p)(?ap \<mapsto> registered_item arg items i f it)\<rparr>"
  define p2 where "p2 = (if - 1 < pfd f then snd (co_epoll_ctl_call ctl (Ctl EPOLL_CTL_ADD epfd (pfd f) ?ev) p1) else p1)"
  have step: "register_fds ctl hasf epfd arg items nfds i (f # fs) p =
     register_fds ctl hasf epfd arg items nfds (i + 1) fs p2"
    using it assms(1)
    by (auto simp: p1_def p2_def registered_item_def on_tm_def set_node_def Let_def co_epoll_ctl_call_def split: prod.splits)
  obtain e2 where p2: "p2 = p1\<lparr>ctls := (if - 1 < pfd f then [Ctl EPOLL_CTL_ADD epfd (pfd f) ?ev] else []) @ ctls p1, errno := e2\<rparr>"
  proof (cases "- 1 < pfd f")
    case True
    with that show ?thesis by (simp add: p2_def co_epoll_ctl_call_eq)
  next
    case False
    with that [of "errno p1"] show ?thesis by (simp add: p2_def)
  qed
  have "\<forall>j < length fs. pitems p2 (items + (i + 1) + j) \<noteq> None \<and> nodes (tm (wd p2)) (items + (i + 1) + j) \<noteq> None"
    using Cons.prems [rule_format, of "Suc j" for j] by (auto simp: p2 p1_def)
  from Cons.IH [OF this] obtain en where IH: "register_fds ctl hasf epfd arg items nfds (i + 1) fs p2 = Some (False,
     p2\<lparr>wd := (wd p2)\<lparr>tm := (tm (wd p2))\<lparr>nodes := (\<lambda>a. if items + (i + 1) \<le> a \<and> a < items + (i + 1) + length fs
             then map_option (pfnPrepare_update (\<lambda>_. OnPollPrepare)) (nodes (tm (wd p2)) a)
             else nodes (tm (wd p2)) a)\<rparr>\<rparr>,
       pitems := (\<lambda>a. if items + (i + 1) \<le> a \<and> a < items + (i + 1) + length fs
             then map_option (registered_item arg items (a - items) (fs ! (a - items - (i + 1)))) (pitems p2 a)
             else pitems p2 a),
       ctls := rev (add_calls epfd items (i + 1) fs) @ ctls p2, errno := en\<rparr>)" by blast
  have nodes_eq: "(\<lambda>a. if items + (i + 1) \<le> a \<and> a < items + (i + 1) + length fs
             then map_option (pfnPrepare_update (\<lambda>_. OnPollPrepare)) (nodes (tm (wd p2)) a)
             else nodes (tm (wd p2)) a) =
      (\<lambda>a. if items + i \<le> a \<and> a < items + i + length (f # fs)
             then map_option (pfnPrepare_update (\<lambda>_. OnPollPrepare)) (nodes (tm (wd p)) a)
             else nodes (tm (wd p)) a)"
    using it by (auto simp: p2 p1_def fun_eq_iff)
  have pitems_eq: "(\<lambda>a. if items + (i + 1) \<le> a \<and> a < items + (i + 1) + length fs
             then map_option (registered_item arg items (a - items) (fs ! (a - items - (i + 1)))) (pitems p2 a)
             else pitems p2 a) =
      (\<lambda>a. if items + i \<le> a \<and> a < items + i + length (f # fs)
             then map_option (registered_item arg items (a - items) ((f # fs) ! (a - items - i))) (pitems p a)
             else pitems p a)"
    using it by (auto simp: p2 p1_def fun_eq_iff nth_Cons' not_le dest: le_less_Suc_eq [THEN iffD1, rotated])
  show ?case
    unfolding step IH nodes_eq pitems_eq by (rule exI [of _ en]) (simp add: p2 p1_def)
qed

lemma co_self_env:
  assumes "co_self w = Some (Some s)"
  obtains env where "co_get_curr_thread_env w = Some (Some env)" "GetCurrCo env w = Some (Some s)"
  using assms by (auto simp: co_self_def GetCurrThreadCo_def bind_eq_Some_conv split: option.splits)

lemma curr_env_tm [simp]: "co_get_curr_thread_env (w\<lparr>tm := m\<rparr>) = co_get_curr_thread_env w"
  "co_get_curr_thread_env (w\<lparr>brk := b\<rparr>) = co_get_curr_thread_env w"
  by (simp_all add: co_get_curr_thread_env_def)

lemma GetCurrCo_tm [simp]: "GetCurrCo env (w\<lparr>tm := m\<rparr>) = GetCurrCo env w"
  "GetCurrCo env (w\<lparr>brk := b\<rparr>) = GetCurrCo env w"
  by (simp_all add: GetCurrCo_def)

definition after_register :: "int \<Rightarrow> addr \<Rightarrow> addr \<Rightarrow> pollfd list \<Rightarrow> int \<Rightarrow> proc \<Rightarrow> proc" where
  "after_register epfd arg items fs en p =
     p\<lparr>wd := (wd p)\<lparr>tm := (tm (wd p))\<lparr>nodes := (\<lambda>a. if items \<le> a \<and> a < items + length fs
             then map_option (pfnPrepare_update (\<lambda>_. OnPollPrepare)) (nodes (tm (wd p)) a)
             else nodes (tm (wd p)) a)\<rparr>\<rparr>,
       pitems := (\<lambda>a. if items \<le> a \<and> a < items + length fs
             then map_option (registered_item arg items (a - items) (fs ! (a - items))) (pitems p a)
             else pitems p a),
       ctls := rev (add_calls epfd items 0 fs) @ ctls p, errno := en\<rparr>"

lemma register_fds_0:
  assumes "\<not> (nfds = 1 \<and> hasf)"
    and "\<forall>j < length fs. pitems p (items + j) \<noteq> None \<and> nodes (tm (wd p)) (items + j) \<noteq> None"
  obtains en where "register_fds ctl hasf epfd arg items nfds 0 fs p =
    Some (False, after_register epfd arg items fs en p)"
proof -
  have a0: "items + 0 = items" and m0: "a - items - 0 = a - items" for a by simp_all
  have "\<forall>j < length fs. pitems p (items + 0 + j) \<noteq> None \<and> nodes (tm (wd p)) (items + 0 + j) \<noteq> None"
    using assms(2) by simp
  from register_fds_spec [OF assms(1) this, of ctl epfd arg] show thesis
    unfolding a0 m0 after_register_def [symmetric] by (elim exE) (rule that)
qed

definition poll_arg :: "addr \<Rightarrow> u64 \<Rightarrow> stTimeoutItem_t" where
  "poll_arg s e = zero_item\<lparr>pfnProcess := OnPollProcess, pArg := Some s, ullExpireTime := e\<rparr>"

definition new_stPoll :: "int \<Rightarrow> nat \<Rightarrow> addr \<Rightarrow> stPoll_t" where
  "new_stPoll epfd n items = \<lparr>fds = replicate n \<lparr>pfd = 0, pevents = 0, prevents = 0\<rparr>,
         pPollItems = items, iAllEventDetach = False, poll_epfd = epfd, iRaiseCnt = 0\<rparr>"

text \<open>The process when \<open>co_poll_enter\<close> has registered the descriptors and calls \<open>AddTimeout\<close>.\<close>

definition poll_nodes :: "addr \<Rightarrow> nat \<Rightarrow> stTimeoutItem_t \<Rightarrow> tmem \<Rightarrow> tmem" where
  "poll_nodes arg n item m = m\<lparr>nodes := (\<lambda>a. if a = arg then Some item
     else if arg + 1 \<le> a \<and> a < arg + 1 + n then Some (zero_item\<lparr>pfnPrepare := OnPollPrepare\<rparr>)
     else nodes m a)\<rparr>"

definition poll_items_of :: "addr \<Rightarrow> pollfd list \<Rightarrow> (addr \<rightharpoonup> stPollItem_t) \<Rightarrow> addr \<rightharpoonup> stPollItem_t" where
  "poll_items_of arg ufds P = (\<lambda>a. if arg + 1 \<le> a \<and> a < arg + 1 + length ufds
     then Some (registered_item arg (arg + 1) (a - (arg + 1)) (ufds ! (a - (arg + 1)))
       \<lparr>pSelf = 0, pPoll = None, stEvent = \<lparr>ev_events = 0, ev_ptr = None\<rparr>\<rparr>)
     else P a)"

definition poll_registered :: "addr \<Rightarrow> int \<Rightarrow> pollfd list \<Rightarrow> stTimeoutItem_t \<Rightarrow> int \<Rightarrow> proc \<Rightarrow> proc" where
  "poll_registered arg epfd ufds item en p = p\<lparr>
     wd := (wd p)\<lparr>brk := brk (wd p) + 1 + max 1 (length ufds),
       tm := poll_nodes arg (length ufds) item (tm (wd p))\<rparr>,
     polls := (polls p)(arg \<mapsto> new_stPoll epfd (length ufds) (arg + 1)),
     pitems := poll_items_of arg ufds (pitems p),
     ctls := rev (add_calls epfd (arg + 1) 0 ufds) @ ctls p, errno := en\<rparr>"

definition clamp_timeout :: "int \<Rightarrow> int" where
  "clamp_timeout timeout = (if timeout > eMaxTimeout then eMaxTimeout else timeout)"

lemma co_poll_enter_registers:
  fixes now :: u64 and timeout :: int
  assumes c: "epolls (wd p) ctx = Some c" and self: "co_self (wd p) = Some (Some s)" "cos (wd p) s \<noteq> None"
    and nof: "\<not> (length ufds = 1 \<and> hasf)"
  defines "arg \<equiv> brk (wd p)" and "item \<equiv> poll_arg s (now + word_of_int (clamp_timeout timeout))"
  shows "\<exists>en. co_poll_enter ctl now ctx ufds timeout hasf p = (let
     q = poll_registered arg (iEpollFd c) ufds item en p in do {
       t \<leftarrow> timeouts (wd q) (pTimeout c);
       (ret, t, m) \<leftarrow> AddTimeout t arg now (tm (wd q));
       let q = q\<lparr>wd := (wd q)\<lparr>tm := m, timeouts := (timeouts (wd q))(pTimeout c \<mapsto> t)\<rparr>\<rparr>;
       if ret \<noteq> 0 then Some (PollReturn (- 1248), free_poll arg (arg + 1) (length ufds) (q\<lparr>errno := EINVAL\<rparr>))
       else Some (PollYield arg, q) })"
proof -
  obtain env where env: "co_get_curr_thread_env (wd p) = Some (Some env)" "GetCurrCo env (wd p) = Some (Some s)"
    using co_self_env [OF self(1)] .
  let ?n = "length ufds"
  define p0 where "p0 = p\<lparr>wd := (wd p)\<lparr>brk := brk (wd p) + 1 + max 1 ?n, tm := (tm (wd p))\<lparr>nodes := (\<lambda>a.
       if a = arg \<or> arg + 1 \<le> a \<and> a < arg + 1 + ?n then Some zero_item else nodes (tm (wd p)) a)\<rparr>\<rparr>,
       polls := (polls p)(arg \<mapsto> new_stPoll (iEpollFd c) ?n (arg + 1)),
       pitems := (\<lambda>a. if arg + 1 \<le> a \<and> a < arg + 1 + ?n
         then Some \<lparr>pSelf = 0, pPoll = None, stEvent = \<lparr>ev_events = 0, ev_ptr = None\<rparr>\<rparr>
         else pitems p a)\<rparr>"
  have new: "new_poll (iEpollFd c) ?n p = (arg, arg + 1, p0)"
    by (simp add: new_poll_def malloc_def Let_def p0_def arg_def new_stPoll_def cong: if_cong)
  let ?N1 = "(nodes (tm (wd p0)))(arg \<mapsto> zero_item\<lparr>pfnProcess := OnPollProcess, pArg := Some s\<rparr>)"
  define p1 where "p1 = p0\<lparr>wd := (wd p0)\<lparr>tm := (tm (wd p0))\<lparr>nodes := ?N1\<rparr>\<rparr>\<rparr>"
  have env0: "co_get_curr_thread_env (wd p0) = Some (Some env)" "GetCurrCo env (wd p0) = Some (Some s)"
    using env by (simp_all add: p0_def)
  have set1: "on_tm (set_node (\<lambda>n. n\<lparr>pfnProcess := OnPollProcess, pArg := Some s\<rparr>) arg) p0 = Some p1"
    by (simp add: on_tm_def set_node_def p1_def) (simp add: p0_def)
  have ok: "\<forall>j < ?n. pitems p1 (arg + 1 + j) \<noteq> None \<and> nodes (tm (wd p1)) (arg + 1 + j) \<noteq> None"
    by (simp add: p1_def p0_def)
  obtain en where reg: "register_fds ctl hasf (iEpollFd c) arg (arg + 1) ?n 0 ufds p1 =
     Some (False, after_register (iEpollFd c) arg (arg + 1) ufds en p1)"
    using register_fds_0 [OF nof ok] .
  let ?p2 = "after_register (iEpollFd c) arg (arg + 1) ufds en p1"
  let ?q = "poll_registered arg (iEpollFd c) ufds item en p"
  have n2: "nodes (tm (wd ?p2)) arg = Some (zero_item\<lparr>pfnProcess := OnPollProcess, pArg := Some s\<rparr>)"
    by (simp add: p1_def after_register_def)
  have set2: "on_tm (set_node (ullExpireTime_update (\<lambda>_. now + word_of_int (clamp_timeout timeout))) arg) ?p2 = Some ?q"
    unfolding on_tm_def set_node_def n2 option.case option.map
    by (rule arg_cong [where f = Some])
      (auto simp: after_register_def poll_registered_def p1_def p0_def poll_nodes_def item_def poll_arg_def
        poll_items_of_def fun_eq_iff intro!: proc.equality world.equality lmem.equality)
  show ?thesis
    using c self env0 new set1 reg set2
    by (intro exI [of _ en]) (auto simp: co_poll_enter_def clamp_timeout_def [symmetric] Let_def cong: if_cong)
qed

lemma poll_nodes_repr:
  assumes "repr m A" "\<forall>a\<ge>arg. nodes m a = None" "pLink item = None"
  shows "repr (poll_nodes arg n item m) A"
proof (rule repr_nodes_change [OF assms(1)])
  show "links (poll_nodes arg n item m) = links m" by (simp add: poll_nodes_def)
next
  fix lk x k assume x: "x \<in> set (A lk)" "nodes m x = Some k"
  then have "\<not> arg \<le> x" using assms(2) by fastforce
  with x show "\<exists>n'. nodes (poll_nodes arg n item m) x = Some n' \<and> pPrev n' = pPrev k \<and> pNext n' = pNext k \<and> pLink n' = pLink k"
    by (auto simp: poll_nodes_def)
next
  fix x k lk assume "nodes (poll_nodes arg n item m) x = Some k" "pLink k = Some lk"
  then have "nodes m x = Some k" "pLink k = Some lk"
    using assms(3) by (auto simp: poll_nodes_def zero_item_def split: if_splits)
  then show "x \<in> set (A lk)" using assms(1) by (auto simp: repr_def)
qed

lemma poll_nodes_wheel:
  assumes "wheel_inv t m A" "\<forall>a\<ge>arg. nodes m a = None" "pLink item = None"
  shows "wheel_inv t (poll_nodes arg n item m) A" "\<And>lk. arg \<notin> set (A lk)"
proof -
  note R = wheel_invD(1) [OF assms(1)]
  have low: "\<not> arg \<le> x" if "x \<in> set (A lk)" for lk x
    using lists.rep_isnode [OF R that] assms(2) by (auto simp: is_node_def)
  then show "\<And>lk. arg \<notin> set (A lk)" by blast
  have ex: "expire_of (poll_nodes arg n item m) x = expire_of m x" if "x \<in> set (A lk)" for lk x
    using low [OF that] by (auto simp: expire_of_def poll_nodes_def)
  have lk: "is_link (poll_nodes arg n item m) lk = is_link m lk" for lk
    by (simp add: is_link_def poll_nodes_def)
  show "wheel_inv t (poll_nodes arg n item m) A"
    using wheel_filter(1) [OF assms(1) poll_nodes_repr [OF R assms(2,3)] ex lk, where P = "\<lambda>_. True"] by simp
qed

lemma poll_nodes_expire:
  assumes "wheel_inv t m A" "\<forall>a\<ge>arg. nodes m a = None" "x \<in> set (pending t A)"
  shows "expire_of (poll_nodes arg n item m) x = expire_of m x"
proof -
  obtain k where "x \<in> set (A k)" using set_pending [OF assms(1), THEN iffD1, OF assms(3)] by (elim exE conjE)
  then have "nodes m x \<noteq> None"
    using lists.rep_isnode [OF wheel_invD(1) [OF assms(1)]] by (simp add: is_node_def)
  with assms(2) have "\<not> arg \<le> x" by metis
  then show ?thesis by (auto simp: expire_of_def poll_nodes_def)
qed

lemma poll_expire:
  assumes "0 \<le> timeout" "uint now < 2 ^ 62"
  shows "uint (now + word_of_int (clamp_timeout timeout) :: u64) = uint now + clamp_timeout timeout"
    "0 \<le> clamp_timeout timeout" "clamp_timeout timeout \<le> 40000"
proof -
  show b: "0 \<le> clamp_timeout timeout" "clamp_timeout timeout \<le> 40000"
    using assms by (auto simp: clamp_timeout_def eMaxTimeout_def)
  have "uint (word_of_int (clamp_timeout timeout) :: u64) = clamp_timeout timeout"
    using b by (simp add: uint_word_of_int)
  then show "uint (now + word_of_int (clamp_timeout timeout) :: u64) = uint now + clamp_timeout timeout"
    using assms b uint_ge_0 [of now] by (simp add: uint_word_ariths)
qed

text \<open>What a coroutine that waits in \<open>co_poll\<close> has set up.\<close>

definition poll_waits :: "addr \<Rightarrow> proc \<Rightarrow> addr \<Rightarrow> addr \<Rightarrow> pollfd list \<Rightarrow> bool" where
  "poll_waits ctx p s arg ufds \<longleftrightarrow>
     polls p arg = Some (new_stPoll (iEpollFd (the (epolls (wd p) ctx))) (length ufds) (arg + 1)) \<and>
     (\<exists>n. nodes (tm (wd p)) arg = Some n \<and> pfnProcess n = OnPollProcess \<and> pArg n = Some s \<and> \<not> bTimeout n) \<and>
     (\<forall>i < length ufds. \<exists>n. nodes (tm (wd p)) (arg + 1 + i) = Some n \<and> pfnPrepare n = OnPollPrepare \<and>
        pitems p (arg + 1 + i) = Some (registered_item arg (arg + 1) i (ufds ! i)
          \<lparr>pSelf = 0, pPoll = None, stEvent = \<lparr>ev_events = 0, ev_ptr = None\<rparr>\<rparr>))"

lemma poll_waits_event_ok:
  assumes "poll_waits ctx p s arg ufds" "i < length ufds" "ev_ptr e = Some (arg + 1 + i)"
  shows "event_ok p e" "poll_of p e = arg" "arg \<notin> detached p"
proof -
  obtain n it where "nodes (tm (wd p)) (arg + 1 + i) = Some n" "pfnPrepare n = OnPollPrepare"
        "pitems p (arg + 1 + i) = Some it" "pSelf it = i" "pPoll it = Some arg"
    using assms(1,2) that unfolding poll_waits_def by (fastforce simp: registered_item_def)
  then show "event_ok p e" "poll_of p e = arg" "arg \<notin> detached p"
    using assms unfolding event_ok_def poll_waits_def
    by (auto simp: poll_of_def item_of_def detached_def new_stPoll_def is_node_def)
qed

definition poll_payload :: "addr \<Rightarrow> addr \<Rightarrow> nat \<Rightarrow> (addr \<Rightarrow> (prepare_pfn \<times> process_pfn \<times> ptr) option) \<Rightarrow>
    addr \<Rightarrow> (prepare_pfn \<times> process_pfn \<times> ptr) option" where
  "poll_payload arg s n f = (\<lambda>a. if a = arg then Some (NoPrepare, OnPollProcess, Some s)
     else if arg + 1 \<le> a \<and> a < arg + 1 + n then Some (OnPollPrepare, NoProcess, None) else f a)"

lemma co_poll_enter_full:
  fixes now :: u64 and timeout :: int
  assumes L: "loop_ok ctx p A" and F: "fresh_above p"
    and self: "co_self (wd p) = Some (Some s)" "cos (wd p) s \<noteq> None"
    and nof: "\<not> (length ufds = 1 \<and> hasf)"
    and clock: "now \<noteq> 0" "ullStart (wheel_of ctx p) \<le> now" "uint now < 2 ^ 61" "0 \<le> timeout"
      "uint now + clamp_timeout timeout - uint (ullStart (wheel_start (wheel_of ctx p) now)) < iItemSize (wheel_of ctx p)"
  defines "arg \<equiv> brk (wd p)" and "due \<equiv> uint now + clamp_timeout timeout"
  shows "\<exists>p' A'. co_poll_enter ctl now ctx ufds timeout hasf p = Some (PollYield arg, p') \<and>
     loop_ok ctx p' A' \<and> poll_waits ctx p' s arg ufds \<and>
     ctls p' = rev (add_calls (iEpollFd (the (epolls (wd p) ctx))) (arg + 1) 0 ufds) @ ctls p \<and>
     expire_of (tm (wd p')) arg = due \<and>
     A' (active_of ctx p) = A (active_of ctx p) \<and>
     waiting ctx p' A' = filter (\<lambda>x. expire_of (tm (wd p)) x \<le> due) (waiting ctx p A) @ arg #
       filter (\<lambda>x. \<not> expire_of (tm (wd p)) x \<le> due) (waiting ctx p A) \<and>
     wd p' = (wd p)\<lparr>brk := brk (wd p) + 1 + max 1 (length ufds), tm := tm (wd p'), timeouts := timeouts (wd p')\<rparr> \<and>
     wheel_of ctx p' = wheel_start (wheel_of ctx p) now \<and> lists_within [arg] A A' \<and>
     (\<forall>x \<in> set (waiting ctx p A). expire_of (tm (wd p')) x = expire_of (tm (wd p)) x) \<and>
     polls p' = (polls p)(arg \<mapsto> new_stPoll (iEpollFd (the (epolls (wd p) ctx))) (length ufds) (arg + 1)) \<and>
     pitems p' = poll_items_of arg ufds (pitems p) \<and> conds p' = conds p \<and>
     payload (tm (wd p')) = poll_payload arg s (length ufds) (payload (tm (wd p))) \<and>
     (\<forall>k. is_link (tm (wd p')) k = is_link (tm (wd p)) k)"
proof -
  from L obtain c t where c: "epolls (wd p) ctx = Some c" "timeouts (wd p) (pTimeout c) = Some t"
     and inv: "wheel_inv t (tm (wd p)) A"
     and lk: "is_link (tm (wd p)) (pstActiveList c)" "is_link (tm (wd p)) (pstTimeoutList c)"
       "\<not> is_slot t (pstActiveList c)" "\<not> is_slot t (pstTimeoutList c)"
       "pstActiveList c \<noteq> pstTimeoutList c" and empty: "A (pstTimeoutList c) = []"
    unfolding loop_ok_def by blast
  have of_simps: "active_of ctx p = pstActiveList c" "wheel_of ctx p = t"
    using c by (simp_all add: active_of_def wheel_of_def)
  define item where "item = poll_arg s (now + word_of_int (clamp_timeout timeout))"
  let ?n = "length ufds" and ?m = "poll_nodes arg (length ufds) item (tm (wd p))"
  have above: "\<forall>a\<ge>arg. nodes (tm (wd p)) a = None"
    using F by (simp add: fresh_above_def arg_def)
  have un: "pLink item = None" by (simp add: item_def poll_arg_def zero_item_def)
  note inv' = poll_nodes_wheel(1) [OF inv above un, where n = ?n] and notin = poll_nodes_wheel(2) [OF inv above un]
  have exp: "uint (ullExpireTime item) = due" "0 \<le> clamp_timeout timeout"
    using poll_expire [of timeout now] clock by (simp_all add: item_def poll_arg_def due_def)
  have node: "nodes ?m arg = Some item" by (simp add: poll_nodes_def)
  have "now \<le> ullExpireTime item" using exp by (simp add: word_le_def due_def)
  moreover have "due < 2 ^ 62" using clock poll_expire(3) [of timeout now] by (simp add: due_def)
  ultimately obtain t' m' B lk1 where add: "AddTimeout t arg now ?m = Some (0, t', m')" "wheel_inv t' m' B"
     "t' = wheel_start t now" "same_data ?m m'" "is_slot t lk1" "B = A(lk1 := A lk1 @ [arg])"
     "pending t' B = filter (\<lambda>y. expire_of ?m y \<le> expire_of ?m arg) (pending t A) @ arg #
       filter (\<lambda>y. \<not> expire_of ?m y \<le> expire_of ?m arg) (pending t A)"
    using AddTimeout_success [OF inv' node, of now] notin clock exp of_simps
    unfolding linked_def by (metis due_def)
  obtain en where run: "co_poll_enter ctl now ctx ufds timeout hasf p = (let
     q = poll_registered arg (iEpollFd c) ufds item en p in do {
       t \<leftarrow> timeouts (wd q) (pTimeout c);
       (ret, t, m) \<leftarrow> AddTimeout t arg now (tm (wd q));
       let q = q\<lparr>wd := (wd q)\<lparr>tm := m, timeouts := (timeouts (wd q))(pTimeout c \<mapsto> t)\<rparr>\<rparr>;
       if ret \<noteq> 0 then Some (PollReturn (- 1248), free_poll arg (arg + 1) (length ufds) (q\<lparr>errno := EINVAL\<rparr>))
       else Some (PollYield arg, q) })"
    using co_poll_enter_registers [OF c(1) self nof, of ctl now timeout]
    unfolding arg_def [symmetric] item_def [symmetric] by blast
  let ?q = "poll_registered arg (iEpollFd c) ufds item en p"
  let ?p = "?q\<lparr>wd := (wd ?q)\<lparr>tm := m', timeouts := (timeouts (wd ?q))(pTimeout c \<mapsto> t')\<rparr>\<rparr>"
  have q: "timeouts (wd ?q) = timeouts (wd p)" "tm (wd ?q) = ?m" "epolls (wd ?q) = epolls (wd p)"
    "polls ?q arg = Some (new_stPoll (iEpollFd c) ?n (arg + 1))" "pitems ?q = poll_items_of arg ufds (pitems p)"
    "ctls ?q = rev (add_calls (iEpollFd c) (arg + 1) 0 ufds) @ ctls p"
    by (simp_all add: poll_registered_def)
  have res: "co_poll_enter ctl now ctx ufds timeout hasf p = Some (PollYield arg, ?p)"
    using run q c add(1) by (simp add: Let_def)
  have slot': "is_slot t' = is_slot t" using add(3) by simp
  have links: "is_link m' k = is_link (tm (wd p)) k" for k
    using lists.same_islink [OF add(4)] by (simp add: is_link_def poll_nodes_def)
  have B: "B (pstActiveList c) = A (pstActiveList c)" "B (pstTimeoutList c) = A (pstTimeoutList c)"
    using add(5,6) lk by auto
  have r1: "loop_ok ctx ?p B"
    unfolding loop_ok_def using c q add(2) links lk slot' B empty by (auto intro!: exI [of _ c])
  have r2: "poll_waits ctx ?p s arg ufds"
  proof -
    have "\<exists>n'. nodes m' a = Some n' \<and> lnode.more n' = lnode.more n" if "nodes ?m a = Some n" for a n
      using item_more_eq' [OF add(4) that] .
    note get = this
    obtain na where na: "nodes m' arg = Some na" "lnode.more na = lnode.more item"
      using get [OF node] by blast
    have items: "\<exists>ni. nodes m' (arg + 1 + i) = Some ni \<and> pfnPrepare ni = OnPollPrepare" if "i < ?n" for i
    proof -
      have "nodes ?m (arg + 1 + i) = Some (zero_item\<lparr>pfnPrepare := OnPollPrepare\<rparr>)"
        using that by (simp add: poll_nodes_def)
      from get [OF this] obtain ni where ni: "nodes m' (arg + 1 + i) = Some ni"
        "lnode.more ni = lnode.more (zero_item\<lparr>pfnPrepare := OnPollPrepare\<rparr>)" by blast
      with item_more_eq(2) [OF ni(2)] show ?thesis by simp
    qed
    have "pfnProcess na = OnPollProcess \<and> pArg na = Some s \<and> \<not> bTimeout na"
      using item_more_eq [OF na(2)] by (simp add: item_def poll_arg_def zero_item_def)
    then show ?thesis
      unfolding poll_waits_def using q c na(1) items
      by (auto simp: poll_items_of_def)
  qed
  have r3: "expire_of (tm (wd ?p)) arg = due"
    using expire_of_same [OF add(4)] node exp(1) by (simp add: expire_of_def)
  have r4: "waiting ctx ?p B = filter (\<lambda>x. expire_of (tm (wd p)) x \<le> due) (waiting ctx p A) @ arg #
       filter (\<lambda>x. \<not> expire_of (tm (wd p)) x \<le> due) (waiting ctx p A)"
  proof -
    have ea: "expire_of ?m arg = due" using node exp(1) by (simp add: expire_of_def)
    note ex = poll_nodes_expire [OF inv above, where n = ?n and item = item]
    have "wheel_of ctx ?p = t'" using c q by (simp add: wheel_of_def)
    then have "waiting ctx ?p B = pending t' B" "waiting ctx p A = pending t A"
      using of_simps by (simp_all add: waiting_def)
    moreover have "filter (\<lambda>y. expire_of ?m y \<le> due) (pending t A) = filter (\<lambda>x. expire_of (tm (wd p)) x \<le> due) (pending t A)"
      "filter (\<lambda>y. \<not> expire_of ?m y \<le> due) (pending t A) = filter (\<lambda>x. \<not> expire_of (tm (wd p)) x \<le> due) (pending t A)"
      using ex by (auto intro: filter_cong)
    ultimately show ?thesis using add(7) unfolding ea by simp
  qed
  have r5: "B (active_of ctx p) = A (active_of ctx p)" using B(1) of_simps by simp
  have r6: "ctls ?p = rev (add_calls (iEpollFd (the (epolls (wd p) ctx))) (arg + 1) 0 ufds) @ ctls p"
    using q c by simp
  have r7: "wd ?p = (wd p)\<lparr>brk := brk (wd p) + 1 + max 1 (length ufds), tm := tm (wd ?p), timeouts := timeouts (wd ?p)\<rparr>"
    by (simp add: poll_registered_def)
  have r8: "wheel_of ctx ?p = wheel_start (wheel_of ctx p) now"
    using c q add(3) of_simps(2) by (simp add: wheel_of_def)
  have r10: "\<forall>x \<in> set (waiting ctx p A). expire_of (tm (wd ?p)) x = expire_of (tm (wd p)) x"
    using expire_of_same [OF add(4)] poll_nodes_expire [OF inv above] of_simps(2) by (simp add: waiting_def)
  have r11: "polls ?p = (polls p)(arg \<mapsto> new_stPoll (iEpollFd (the (epolls (wd p) ctx))) (length ufds) (arg + 1))"
    and r12: "pitems ?p = poll_items_of arg ufds (pitems p)" and r13: "conds ?p = conds p"
    using c by (simp_all add: poll_registered_def)
  have r14: "payload (tm (wd ?p)) = poll_payload arg s (length ufds) (payload (tm (wd p)))"
    using same_data_payload [OF add(4)]
    by (auto simp: fun_eq_iff poll_payload_def payload_def poll_nodes_def item_def poll_arg_def zero_item_def)
  have r15: "\<forall>k. is_link (tm (wd ?p)) k = is_link (tm (wd p)) k" using links by simp
  have r9: "lists_within [arg] A B"
    using add(6) by (auto simp: lists_within_def linked_def split: if_splits)
  show ?thesis
    by (rule exI [of _ ?p], rule exI [of _ B]) (intro conjI res r1 r2 r6 r3 r5 r4 r7 r8 r9 r10 r11 r12 r13 r14 r15)
qed

lemma co_poll_enter_waits_lemma:
  fixes now :: u64 and timeout :: int
  assumes "loop_ok ctx p A" "fresh_above p"
    and "co_self (wd p) = Some (Some s)" "cos (wd p) s \<noteq> None"
    and "\<not> (length ufds = 1 \<and> hasf)"
    and "now \<noteq> 0" "ullStart (wheel_of ctx p) \<le> now" "uint now < 2 ^ 61" "0 \<le> timeout"
      "uint now + clamp_timeout timeout - uint (ullStart (wheel_start (wheel_of ctx p) now)) < iItemSize (wheel_of ctx p)"
  shows "\<exists>p' A'. co_poll_enter ctl now ctx ufds timeout hasf p = Some (PollYield (brk (wd p)), p') \<and>
     loop_ok ctx p' A' \<and> poll_waits ctx p' s (brk (wd p)) ufds \<and>
     ctls p' = rev (add_calls (iEpollFd (the (epolls (wd p) ctx))) (brk (wd p) + 1) 0 ufds) @ ctls p \<and>
     expire_of (tm (wd p')) (brk (wd p)) = uint now + clamp_timeout timeout \<and>
     A' (active_of ctx p) = A (active_of ctx p) \<and>
     waiting ctx p' A' = filter (\<lambda>x. expire_of (tm (wd p)) x \<le> uint now + clamp_timeout timeout) (waiting ctx p A) @
       brk (wd p) # filter (\<lambda>x. \<not> expire_of (tm (wd p)) x \<le> uint now + clamp_timeout timeout) (waiting ctx p A)"
  using co_poll_enter_full [OF assms, of ctl] by (elim exE conjE) (intro exI conjI)

lemma co_poll_enter_negative_lemma:
  fixes now :: u64 and timeout :: int
  assumes c: "epolls (wd p) ctx = Some c" "timeouts (wd p) (pTimeout c) = Some t"
    and self: "co_self (wd p) = Some (Some s)" "cos (wd p) s \<noteq> None"
    and nof: "\<not> (length ufds = 1 \<and> hasf)"
    and clock: "now \<noteq> 0" "ullStart t \<le> now" "timeout < 0" "- timeout \<le> uint now"
    and i: "i < length ufds"
  shows "\<exists>p'. co_poll_enter ctl now ctx ufds timeout hasf p = Some (PollReturn (- 1248), p') \<and>
     errno p' = EINVAL \<and>
     ctls p' = rev (add_calls (iEpollFd c) (brk (wd p) + 1) 0 ufds) @ ctls p \<and>
     handle_event active \<lparr>ev_events = e, ev_ptr = Some (brk (wd p) + 1 + i)\<rparr> p' = None"
proof -
  define arg where "arg = brk (wd p)"
  define item where "item = poll_arg s (now + word_of_int (clamp_timeout timeout))"
  have ct: "clamp_timeout timeout = timeout" using clock(3) by (simp add: clamp_timeout_def eMaxTimeout_def)
  have "uint (now + word_of_int timeout :: u64) = (uint now + timeout) mod 2 ^ 64"
    by (simp add: uint_word_ariths uint_word_of_int mod_simps)
  also have "\<dots> = uint now + timeout"
    using clock uint_lt2p [of now] by (intro mod_pos_pos_trivial) simp_all
  finally have "uint (ullExpireTime item) = uint now + timeout"
    by (simp add: item_def poll_arg_def ct)
  then have past: "ullExpireTime item < now" using clock(3) by (simp add: word_less_def)
  let ?n = "length ufds" and ?m = "poll_nodes arg (length ufds) item (tm (wd p))"
  have node: "nodes ?m arg = Some item" by (simp add: poll_nodes_def)
  obtain en where run: "co_poll_enter ctl now ctx ufds timeout hasf p = (let
     q = poll_registered arg (iEpollFd c) ufds item en p in do {
       t \<leftarrow> timeouts (wd q) (pTimeout c);
       (ret, t, m) \<leftarrow> AddTimeout t arg now (tm (wd q));
       let q = q\<lparr>wd := (wd q)\<lparr>tm := m, timeouts := (timeouts (wd q))(pTimeout c \<mapsto> t)\<rparr>\<rparr>;
       if ret \<noteq> 0 then Some (PollReturn (- 1248), free_poll arg (arg + 1) (length ufds) (q\<lparr>errno := EINVAL\<rparr>))
       else Some (PollYield arg, q) })"
    using co_poll_enter_registers [OF c(1) self nof, of ctl now timeout]
    unfolding arg_def [symmetric] item_def [symmetric] by blast
  let ?q = "poll_registered arg (iEpollFd c) ufds item en p"
  have q: "timeouts (wd ?q) = timeouts (wd p)" "tm (wd ?q) = ?m"
    "ctls ?q = rev (add_calls (iEpollFd c) (arg + 1) 0 ufds) @ ctls p"
    by (simp_all add: poll_registered_def)
  have add: "AddTimeout t arg now ?m = Some (467, wheel_start t now, ?m)"
    using node past clock(1,2) by (simp add: AddTimeout_def Let_def not_less)
  let ?q2 = "?q\<lparr>wd := (wd ?q)\<lparr>tm := ?m, timeouts := (timeouts (wd ?q))(pTimeout c \<mapsto> wheel_start t now)\<rparr>\<rparr>"
  let ?p = "free_poll arg (arg + 1) ?n (?q2\<lparr>errno := EINVAL\<rparr>)"
  have "co_poll_enter ctl now ctx ufds timeout hasf p = Some (PollReturn (- 1248), ?p)"
    using run q c add by (simp add: Let_def)
  moreover have "errno ?p = EINVAL" "ctls ?p = rev (add_calls (iEpollFd c) (arg + 1) 0 ufds) @ ctls p"
    using q by (simp_all add: free_poll_def Let_def)
  moreover have "nodes (tm (wd ?p)) (arg + 1 + i) = None"
    using i by (simp add: free_poll_def Let_def)
  then have "handle_event active \<lparr>ev_events = e, ev_ptr = Some (arg + 1 + i)\<rparr> ?p = None"
    by (simp add: handle_event_def)
  ultimately show ?thesis unfolding arg_def by blast
qed

subsection \<open>Leaving \<open>co_poll_inner\<close>\<close>

lemma unregister_fds_spec:
  assumes "polls p arg = Some pl" "i + length fs \<le> length (fds pl)"
    "\<forall>j. i \<le> j \<longrightarrow> j < i + length fs \<longrightarrow> pitems p (pPollItems pl + j) \<noteq> None"
  shows "\<exists>en. unregister_fds ctl epfd arg i fs p = Some
     (map (\<lambda>(f, g). f\<lparr>prevents := prevents g\<rparr>) (zip fs (drop i (fds pl))),
      p\<lparr>ctls := rev (del_calls epfd (\<lambda>j. stEvent (the (pitems p (pPollItems pl + j)))) i fs) @ ctls p,
        errno := en\<rparr>)"
  using assms
proof (induction fs arbitrary: i p)
  case Nil
  show ?case by (rule exI [of _ "errno p"]) simp
next
  case (Cons f fs)
  from Cons.prems(3) obtain it where it: "pitems p (pPollItems pl + i) = Some it" by fastforce
  define p1 where "p1 = (if - 1 < pfd f
    then snd (co_epoll_ctl_call ctl (Ctl EPOLL_CTL_DEL epfd (pfd f) (stEvent it)) p) else p)"
  obtain e1 where p1: "p1 = p\<lparr>ctls := (if - 1 < pfd f then [Ctl EPOLL_CTL_DEL epfd (pfd f) (stEvent it)] else []) @ ctls p,
      errno := e1\<rparr>"
  proof (cases "- 1 < pfd f")
    case True
    with that show ?thesis by (simp add: p1_def co_epoll_ctl_call_eq)
  next
    case False
    with that [of "errno p"] show ?thesis by (simp add: p1_def)
  qed
  have "polls p1 arg = Some pl" "(i + 1) + length fs \<le> length (fds pl)"
    "\<forall>j. i + 1 \<le> j \<longrightarrow> j < i + 1 + length fs \<longrightarrow> pitems p1 (pPollItems pl + j) \<noteq> None"
    using Cons.prems p1 by auto
  from Cons.IH [OF this] obtain en where IH: "unregister_fds ctl epfd arg (i + 1) fs p1 = Some
     (map (\<lambda>(f, g). f\<lparr>prevents := prevents g\<rparr>) (zip fs (drop (i + 1) (fds pl))),
      p1\<lparr>ctls := rev (del_calls epfd (\<lambda>j. stEvent (the (pitems p1 (pPollItems pl + j)))) (i + 1) fs) @ ctls p1,
        errno := en\<rparr>)" by blast
  have il: "i < length (fds pl)" using Cons.prems(2) by simp
  then have dr: "drop i (fds pl) = fds pl ! i # drop (i + 1) (fds pl)"
    by (simp add: Cons_nth_drop_Suc)
  have "unregister_fds ctl epfd arg i (f # fs) p = (case unregister_fds ctl epfd arg (i + 1) fs p1 of
      None \<Rightarrow> None | Some (fs, p) \<Rightarrow> Some (f\<lparr>prevents := prevents (fds pl ! i)\<rparr> # fs, p))"
    using Cons.prems(1) it il by (auto simp: p1_def split: option.splits)
  also have "\<dots> = Some (map (\<lambda>(f, g). f\<lparr>prevents := prevents g\<rparr>) (zip (f # fs) (drop i (fds pl))),
      p\<lparr>ctls := rev (del_calls epfd (\<lambda>j. stEvent (the (pitems p (pPollItems pl + j)))) i (f # fs)) @ ctls p,
        errno := en\<rparr>)"
    unfolding IH dr using it by (simp add: p1)
  finally show ?case by blast
qed

text \<open>What freeing the objects of a poll leaves of the others.\<close>

definition freed :: "addr \<Rightarrow> addr \<Rightarrow> nat \<Rightarrow> proc \<Rightarrow> proc \<Rightarrow> bool" where
  "freed arg items n p p' \<longleftrightarrow> polls p' = (polls p)(arg := None) \<and> conds p' = conds p \<and>
     pitems p' = (\<lambda>a. if items \<le> a \<and> a < items + n then None else pitems p a) \<and>
     payload (tm (wd p')) = (\<lambda>a. if a = arg \<or> items \<le> a \<and> a < items + n then None else payload (tm (wd p)) a) \<and>
     (\<forall>k. is_link (tm (wd p')) k = is_link (tm (wd p)) k)"

lemma co_poll_leave_spec:
  assumes L: "loop_ok ctx p A" and pl: "polls p arg = Some pl" "length (fds pl) = length ufds"
    and node: "is_node (tm (wd p)) arg"
    and items: "\<forall>j < length ufds. pitems p (pPollItems pl + j) \<noteq> None"
    and free: "\<forall>a lk. pPollItems pl \<le> a \<longrightarrow> a < pPollItems pl + length ufds \<longrightarrow> a \<notin> set (A lk)"
  shows "\<exists>p'. co_poll_leave ctl epfd arg ufds p =
       Some (iRaiseCnt pl, map (\<lambda>(f, g). f\<lparr>prevents := prevents g\<rparr>) (zip ufds (fds pl)), p') \<and>
     loop_ok ctx p' (\<lambda>lk. remove1 arg (A lk)) \<and> polls p' arg = None \<and>
     nodes (tm (wd p')) arg = None \<and>
     ctls p' = rev (del_calls epfd (\<lambda>j. stEvent (the (pitems p (pPollItems pl + j)))) 0 ufds) @ ctls p \<and>
     wd p' = (wd p)\<lparr>tm := tm (wd p')\<rparr> \<and> freed arg (pPollItems pl) (length ufds) p p'"
proof -
  from L obtain c t where c: "epolls (wd p) ctx = Some c" "timeouts (wd p) (pTimeout c) = Some t"
     and inv: "wheel_inv t (tm (wd p)) A"
     and lk: "is_link (tm (wd p)) (pstActiveList c)" "is_link (tm (wd p)) (pstTimeoutList c)"
       "\<not> is_slot t (pstActiveList c)" "\<not> is_slot t (pstTimeoutList c)"
       "pstActiveList c \<noteq> pstTimeoutList c" and empty: "A (pstTimeoutList c) = []"
    unfolding loop_ok_def by blast
  let ?n = "length ufds" and ?A = "\<lambda>lk. remove1 arg (A lk)"
  note R = wheel_invD(1) [OF inv]
  obtain m1 where m1: "RemoveFromLink arg (tm (wd p)) = Some m1" "wheel_inv t m1 ?A" "same_data (tm (wd p)) m1"
    using wheel_remove [OF inv] node by (auto simp: is_node_def)
  define p1 where "p1 = p\<lparr>wd := (wd p)\<lparr>tm := m1\<rparr>\<rparr>"
  have p1: "polls p1 arg = Some pl" "0 + ?n \<le> length (fds pl)"
    "\<forall>j. 0 \<le> j \<longrightarrow> j < 0 + ?n \<longrightarrow> pitems p1 (pPollItems pl + j) \<noteq> None"
    using pl items by (simp_all add: p1_def)
  obtain en where un: "unregister_fds ctl epfd arg 0 ufds p1 = Some
     (map (\<lambda>(f, g). f\<lparr>prevents := prevents g\<rparr>) (zip ufds (drop 0 (fds pl))),
      p1\<lparr>ctls := rev (del_calls epfd (\<lambda>j. stEvent (the (pitems p1 (pPollItems pl + j)))) 0 ufds) @ ctls p1,
        errno := en\<rparr>)"
    using unregister_fds_spec [OF p1, of ctl epfd] by blast
  let ?p2 = "p1\<lparr>ctls := rev (del_calls epfd (\<lambda>j. stEvent (the (pitems p1 (pPollItems pl + j)))) 0 ufds) @ ctls p1,
        errno := en\<rparr>"
  let ?p = "free_poll arg (pPollItems pl) ?n ?p2"
  have run: "co_poll_leave ctl epfd arg ufds p =
       Some (iRaiseCnt pl, map (\<lambda>(f, g). f\<lparr>prevents := prevents g\<rparr>) (zip ufds (fds pl)), ?p)"
    using m1(1) un pl by (simp add: co_poll_leave_def on_tm_def p1_def)
  let ?m = "tm (wd ?p)"
  have nodes: "nodes ?m a = (if a = arg \<or> pPollItems pl \<le> a \<and> a < pPollItems pl + ?n then None else nodes m1 a)" for a
    by (simp add: free_poll_def Let_def p1_def)
  have links: "links ?m = links m1" by (simp add: free_poll_def Let_def p1_def)
  note R1 = wheel_invD(1) [OF m1(2)]
  have out: "arg \<notin> set (?A lk)" for lk using repr_distinct [OF R] by simp
  have keep: "nodes ?m x = nodes m1 x" if "x \<in> set (?A lk)" for x lk
  proof -
    have "x \<noteq> arg" using out that by metis
    moreover have "x \<in> set (A lk)" using that by (meson notin_set_remove1)
    ultimately show ?thesis using free nodes by auto
  qed
  have Rm: "repr ?m ?A"
  proof (rule repr_nodes_change [OF R1 links])
    fix lk x n assume "x \<in> set (?A lk)" "nodes m1 x = Some n"
    then show "\<exists>n'. nodes ?m x = Some n' \<and> pPrev n' = pPrev n \<and> pNext n' = pNext n \<and> pLink n' = pLink n"
      using keep by auto
  next
    fix x n lk assume "nodes ?m x = Some n" "pLink n = Some lk"
    then show "x \<in> set (?A lk)"
      using nodes R1 unfolding repr_def by (metis option.distinct(1))
  qed
  have ex: "expire_of ?m x = expire_of m1 x" if "x \<in> set (?A lk)" for lk x
    using keep [OF that] by (simp add: expire_of_def)
  have lks: "is_link ?m k = is_link m1 k" for k using links by (simp add: is_link_def)
  have inv2: "wheel_inv t ?m ?A"
    using wheel_filter(1) [OF m1(2) Rm ex lks, where P = "\<lambda>_. True"] by simp
  have world: "epolls (wd ?p) = epolls (wd p)" "timeouts (wd ?p) = timeouts (wd p)"
    by (simp_all add: free_poll_def Let_def p1_def)
  have "loop_ok ctx ?p ?A"
    unfolding loop_ok_def using c world inv2 lk lks lists.same_islink [OF m1(3)] empty
    by (auto intro!: exI [of _ c])
  moreover have "polls ?p arg = None" "nodes ?m arg = None"
    using nodes by (simp_all add: free_poll_def Let_def)
  moreover have "ctls ?p = rev (del_calls epfd (\<lambda>j. stEvent (the (pitems p (pPollItems pl + j)))) 0 ufds) @ ctls p"
    by (simp add: free_poll_def Let_def p1_def)
  moreover have "wd ?p = (wd p)\<lparr>tm := tm (wd ?p)\<rparr>" by (simp add: free_poll_def Let_def p1_def)
  moreover have "freed arg (pPollItems pl) ?n p ?p"
  proof -
    have "payload ?m a = (if a = arg \<or> pPollItems pl \<le> a \<and> a < pPollItems pl + ?n then None else payload (tm (wd p)) a)" for a
      using nodes [of a] same_data_payload [OF m1(3)] by (simp add: payload_def fun_eq_iff)
    then have "payload ?m = (\<lambda>a. if a = arg \<or> pPollItems pl \<le> a \<and> a < pPollItems pl + ?n then None else payload (tm (wd p)) a)"
      by (simp add: fun_eq_iff)
    moreover have "polls ?p = (polls p)(arg := None)" "conds ?p = conds p"
      "pitems ?p = (\<lambda>a. if pPollItems pl \<le> a \<and> a < pPollItems pl + ?n then None else pitems p a)"
      by (simp_all add: free_poll_def Let_def p1_def cong: if_cong)
    ultimately show ?thesis using lks lists.same_islink [OF m1(3)] by (simp add: freed_def)
  qed
  ultimately show ?thesis using run by (intro exI [of _ ?p] conjI) simp_all
qed

text \<open>The \<open>EPOLL_CTL_DEL\<close> that undoes an \<open>EPOLL_CTL_ADD\<close>.\<close>

fun undo_ctl :: "ctl_call \<Rightarrow> ctl_call" where
  "undo_ctl (Ctl op epfd f ev) = Ctl EPOLL_CTL_DEL epfd f ev"

lemma del_undo_add:
  assumes "\<forall>j < length fs. ev (i + j) = \<lparr>ev_events = PollEvent2Epoll (pevents (fs ! j)), ev_ptr = Some (items + (i + j))\<rparr>
     \<or> \<not> - 1 < pfd (fs ! j)"
  shows "del_calls epfd ev i fs = map undo_ctl (add_calls epfd items i fs)"
  using assms
proof (induction fs arbitrary: i)
  case Nil
  show ?case by simp
next
  case (Cons f fs)
  have "\<forall>j < length fs. ev (i + 1 + j) = \<lparr>ev_events = PollEvent2Epoll (pevents (fs ! j)), ev_ptr = Some (items + (i + 1 + j))\<rparr>
     \<or> \<not> - 1 < pfd (fs ! j)"
    using Cons.prems by (metis (no_types, lifting) Suc_less_eq add.assoc length_Cons nth_Cons_Suc plus_1_eq_Suc)
  from Cons.IH [OF this] show ?case
    using Cons.prems [rule_format, of 0] by auto
qed


lemma co_poll_leave_lemma:
  assumes "loop_ok ctx p A" "polls p arg = Some pl" "length (fds pl) = length ufds"
    and "is_node (tm (wd p)) arg"
    and "\<forall>j < length ufds. pitems p (pPollItems pl + j) = Some (registered_item arg (pPollItems pl) j (ufds ! j)
       \<lparr>pSelf = 0, pPoll = None, stEvent = \<lparr>ev_events = 0, ev_ptr = None\<rparr>\<rparr>)"
    and "\<forall>a lk. pPollItems pl \<le> a \<longrightarrow> a < pPollItems pl + length ufds \<longrightarrow> a \<notin> set (A lk)"
  shows "\<exists>p'. co_poll_leave ctl epfd arg ufds p =
       Some (iRaiseCnt pl, map (\<lambda>(f, g). f\<lparr>prevents := prevents g\<rparr>) (zip ufds (fds pl)), p') \<and>
     loop_ok ctx p' (\<lambda>lk. remove1 arg (A lk)) \<and> polls p' arg = None \<and> nodes (tm (wd p')) arg = None \<and>
     ctls p' = rev (map undo_ctl (add_calls epfd (pPollItems pl) 0 ufds)) @ ctls p \<and>
     wd p' = (wd p)\<lparr>tm := tm (wd p')\<rparr> \<and> freed arg (pPollItems pl) (length ufds) p p'"
proof -
  have "\<forall>j < length ufds. pitems p (pPollItems pl + j) \<noteq> None" using assms(5) by simp
  moreover have "del_calls epfd (\<lambda>j. stEvent (the (pitems p (pPollItems pl + j)))) 0 ufds =
      map undo_ctl (add_calls epfd (pPollItems pl) 0 ufds)"
    by (rule del_undo_add) (use assms(5) in \<open>simp add: registered_item_def\<close>)
  ultimately show ?thesis
    using co_poll_leave_spec [OF assms(1-4) _ assms(6), of ctl epfd] by simp
qed

section \<open>The properties of \<open>co_poll\<close>\<close>

text \<open>
  C19: waiting. A call of \<open>co_poll_inner\<close> with a timeout that is not negative and fits the wheel, when it
  does not fall back to \<open>pollfunc\<close>, allocates its poll, registers every descriptor that is not negative
  with one \<open>EPOLL_CTL_ADD\<close> whose event carries the address of the descriptor's item, queues the poll among
  the waiting items by its expiry time \<open>now + min timeout 40000\<close>, and gives up the control with everything
  set up so that an event of any of its descriptors, or the expiry, resumes the calling coroutine.
\<close>

theorem co_poll_enter_waits:
  fixes now :: u64 and timeout :: int
  assumes "loop_ok ctx p A" "fresh_above p"
    and "co_self (wd p) = Some (Some s)" "cos (wd p) s \<noteq> None"
    and "\<not> (length ufds = 1 \<and> hasf)"
    and "now \<noteq> 0" "ullStart (wheel_of ctx p) \<le> now" "uint now < 2 ^ 61" "0 \<le> timeout"
      "uint now + clamp_timeout timeout - uint (ullStart (wheel_start (wheel_of ctx p) now)) < iItemSize (wheel_of ctx p)"
  shows "\<exists>p' A'. co_poll_enter ctl now ctx ufds timeout hasf p = Some (PollYield (brk (wd p)), p') \<and>
     loop_ok ctx p' A' \<and> poll_waits ctx p' s (brk (wd p)) ufds \<and>
     ctls p' = rev (add_calls (iEpollFd (the (epolls (wd p) ctx))) (brk (wd p) + 1) 0 ufds) @ ctls p \<and>
     expire_of (tm (wd p')) (brk (wd p)) = uint now + clamp_timeout timeout \<and>
     A' (active_of ctx p) = A (active_of ctx p) \<and>
     waiting ctx p' A' = filter (\<lambda>x. expire_of (tm (wd p)) x \<le> uint now + clamp_timeout timeout) (waiting ctx p A) @
       brk (wd p) # filter (\<lambda>x. \<not> expire_of (tm (wd p)) x \<le> uint now + clamp_timeout timeout) (waiting ctx p A)"
  using assms by (rule co_poll_enter_waits_lemma)

lemma demo_fresh: "fresh_above demo_loop"
  by (simp add: fresh_above_def demo_loop_def demo_tmem_def)

theorem co_poll_enter_waits_witness:
  "\<exists>p' A'. co_poll_enter (\<lambda>_. (0, 0)) 1000 302 [\<lparr>pfd = 4, pevents = 1, prevents = 0\<rparr>] 1 False demo_loop =
       Some (PollYield (brk (wd demo_loop)), p') \<and>
     loop_ok 302 p' A' \<and> poll_waits 302 p' 300 (brk (wd demo_loop)) [\<lparr>pfd = 4, pevents = 1, prevents = 0\<rparr>] \<and>
     ctls p' = rev (add_calls (iEpollFd (the (epolls (wd demo_loop) 302))) (brk (wd demo_loop) + 1) 0
       [\<lparr>pfd = 4, pevents = 1, prevents = 0\<rparr>]) @ ctls demo_loop \<and>
     expire_of (tm (wd p')) (brk (wd demo_loop)) = uint (1000 :: u64) + clamp_timeout 1 \<and>
     A' (active_of 302 demo_loop) = demo_lists (active_of 302 demo_loop) \<and>
     waiting 302 p' A' = filter (\<lambda>x. expire_of (tm (wd demo_loop)) x \<le> uint (1000 :: u64) + clamp_timeout 1)
         (waiting 302 demo_loop demo_lists) @ brk (wd demo_loop) #
       filter (\<lambda>x. \<not> expire_of (tm (wd demo_loop)) x \<le> uint (1000 :: u64) + clamp_timeout 1)
         (waiting 302 demo_loop demo_lists)"
  by (rule co_poll_enter_waits [OF demo_loop_ok demo_fresh])
    (simp_all add: clamp_timeout_def eMaxTimeout_def wheel_start_def)

text \<open>
  C18: leaving. When the coroutine runs again, \<open>co_poll_inner\<close> takes its poll off whatever list it is on,
  undoes every \<open>EPOLL_CTL_ADD\<close> it made by an \<open>EPOLL_CTL_DEL\<close> of the same descriptor and event, frees its
  objects, and returns the number of events raised with the \<open>revents\<close> of each descriptor; the lists stay
  well-formed.
\<close>

theorem co_poll_leave_undoes:
  assumes "loop_ok ctx p A" "polls p arg = Some pl" "length (fds pl) = length ufds"
    and "is_node (tm (wd p)) arg"
    and "\<forall>j < length ufds. pitems p (pPollItems pl + j) = Some (registered_item arg (pPollItems pl) j (ufds ! j)
       \<lparr>pSelf = 0, pPoll = None, stEvent = \<lparr>ev_events = 0, ev_ptr = None\<rparr>\<rparr>)"
    and "\<forall>a lk. pPollItems pl \<le> a \<longrightarrow> a < pPollItems pl + length ufds \<longrightarrow> a \<notin> set (A lk)"
  shows "\<exists>p'. co_poll_leave ctl epfd arg ufds p =
       Some (iRaiseCnt pl, map (\<lambda>(f, g). f\<lparr>prevents := prevents g\<rparr>) (zip ufds (fds pl)), p') \<and>
     loop_ok ctx p' (\<lambda>lk. remove1 arg (A lk)) \<and> polls p' arg = None \<and> nodes (tm (wd p')) arg = None \<and>
     ctls p' = rev (map undo_ctl (add_calls epfd (pPollItems pl) 0 ufds)) @ ctls p"
  using co_poll_leave_lemma [OF assms, of ctl epfd] by (elim exE conjE) (intro exI conjI)

theorem co_poll_leave_undoes_witness:
  "\<exists>p'. co_poll_leave (\<lambda>_. (0, 0)) 9 5 [\<lparr>pfd = 3, pevents = 1, prevents = 0\<rparr>] demo_loop =
       Some (iRaiseCnt (the (polls demo_loop 5)), map (\<lambda>(f, g). f\<lparr>prevents := prevents g\<rparr>)
         (zip [\<lparr>pfd = 3, pevents = 1, prevents = 0\<rparr>] (fds (the (polls demo_loop 5)))), p') \<and>
     loop_ok 302 p' (\<lambda>lk. remove1 5 (demo_lists lk)) \<and> polls p' 5 = None \<and> nodes (tm (wd p')) 5 = None \<and>
     ctls p' = rev (map undo_ctl (add_calls 9 (pPollItems (the (polls demo_loop 5))) 0
       [\<lparr>pfd = 3, pevents = 1, prevents = 0\<rparr>])) @ ctls demo_loop"
  by (rule co_poll_leave_undoes [OF demo_loop_ok])
    (auto simp: demo_loop_def is_node_def demo_tmem_def registered_item_def demo_lists_def
      PollEvent2Epoll_def)

text \<open>
  C37: a negative timeout, which \<open>poll\<close> documents as waiting for ever. \<open>AddTimeout\<close> refuses the item and
  the call returns \<open>-__LINE__\<close> with \<open>EINVAL\<close>. The descriptors registered before stay in the epoll instance
  with pointers to the freed items: as soon as one of them has an event, \<open>co_eventloop\<close> reads freed memory.
\<close>

theorem co_poll_negative_timeout_dangles:
  fixes now :: u64 and timeout :: int
  assumes "epolls (wd p) ctx = Some c" "timeouts (wd p) (pTimeout c) = Some t"
    and "co_self (wd p) = Some (Some s)" "cos (wd p) s \<noteq> None"
    and "\<not> (length ufds = 1 \<and> hasf)"
    and "now \<noteq> 0" "ullStart t \<le> now" "timeout < 0" "- timeout \<le> uint now"
    and "i < length ufds"
  shows "\<exists>p'. co_poll_enter ctl now ctx ufds timeout hasf p = Some (PollReturn (- 1248), p') \<and>
     errno p' = EINVAL \<and>
     ctls p' = rev (add_calls (iEpollFd c) (brk (wd p) + 1) 0 ufds) @ ctls p \<and>
     handle_event active \<lparr>ev_events = e, ev_ptr = Some (brk (wd p) + 1 + i)\<rparr> p' = None"
  using assms by (rule co_poll_enter_negative_lemma)

theorem co_poll_negative_timeout_dangles_witness:
  "\<exists>p'. co_poll_enter (\<lambda>_. (0, 0)) 1000 302 [\<lparr>pfd = 4, pevents = 1, prevents = 0\<rparr>] (- 1) False demo_loop =
       Some (PollReturn (- 1248), p') \<and> errno p' = EINVAL \<and>
     ctls p' = rev (add_calls 9 (brk (wd demo_loop) + 1) 0 [\<lparr>pfd = 4, pevents = 1, prevents = 0\<rparr>]) @ ctls demo_loop \<and>
     handle_event 0 \<lparr>ev_events = 1, ev_ptr = Some (brk (wd demo_loop) + 1 + 0)\<rparr> p' = None"
proof -
  let ?c = "\<lparr>iEpollFd = 9, pTimeout = 303, pstTimeoutList = 2, pstActiveList = 0, epoll_result = False\<rparr>"
  show ?thesis
    using co_poll_negative_timeout_dangles [of demo_loop 302 ?c demo_wheel 300
      "[\<lparr>pfd = 4, pevents = 1, prevents = 0\<rparr>]" False 1000 "- 1" 0 "\<lambda>_. (0, 0)" 0 1]
    by (simp del: add_calls.simps)
qed

end
