(* ===== verification/SharedStack.thy ===== *)
theory SharedStack
  imports Coroutine
begin

text \<open>
  The stacks of the coroutines of one thread: which coroutine has its bytes in place on the run stack,
  which in its save buffer, and the proof that a coroutine gets its stack back whatever runs in between.
\<close>


section \<open>The invariant of the stacks\<close>

definition stacks_ok :: "world \<Rightarrow> bool" where
  "stacks_ok w \<longleftrightarrow>
     (\<forall>q s. stacks w q = Some s \<longrightarrow> stack_buffer s \<le> stack_bp s \<and> stack_bp s < stack_buffer s + 2 ^ 31 \<and>
        stack_bp s \<le> brk w) \<and>
     (\<forall>q s q' s'. stacks w q = Some s \<longrightarrow> stacks w q' = Some s' \<longrightarrow> q \<noteq> q' \<longrightarrow>
        stack_bp s \<le> stack_buffer s' \<or> stack_bp s' \<le> stack_buffer s)"

text \<open>Every coroutine has a stack; a private stack has one user, a shared one only sharing users.\<close>

definition users_ok :: "world \<Rightarrow> bool" where
  "users_ok w \<longleftrightarrow>
     (\<forall>c r. cos w c = Some r \<longrightarrow> (\<exists>q s. stack_mem r = Some q \<and> stacks w q = Some s)) \<and>
     (\<forall>c r c' r'. cos w c = Some r \<longrightarrow> cos w c' = Some r' \<longrightarrow> stack_mem r = stack_mem r' \<longrightarrow>
        c \<noteq> c' \<longrightarrow> cIsShareStack r \<and> cIsShareStack r')"

text \<open>\<open>A\<close> are the coroutines that have started: the occupant of a stack is one of them.\<close>

definition shares_on :: "world \<Rightarrow> addr \<Rightarrow> addr \<Rightarrow> bool" where
  "shares_on w c q \<longleftrightarrow> (\<exists>r. cos w c = Some r \<and> cIsShareStack r \<and> stack_mem r = Some q)"

definition occupants_ok :: "addr set \<Rightarrow> world \<Rightarrow> bool" where
  "occupants_ok A w \<longleftrightarrow> (\<forall>q s. stacks w q = Some s \<longrightarrow>
     (case occupy_co s of None \<Rightarrow> (\<forall>c \<in> A. \<not> shares_on w c q) | Some oc \<Rightarrow> oc \<in> A \<and> shares_on w oc q))"

definition saved_ok :: "addr \<Rightarrow> world \<Rightarrow> bool" where
  "saved_ok c w \<longleftrightarrow> (\<exists>r q s b bs. cos w c = Some r \<and> stack_mem r = Some q \<and> stacks w q = Some s \<and>
     save_buffer r = Some b \<and> bufs w b = Some bs \<and> length bs = stack_bp s - stack_sp r \<and>
     unat (save_size r) = length bs)"

definition occupies :: "world \<Rightarrow> addr \<Rightarrow> bool" where
  "occupies w c \<longleftrightarrow> (\<exists>r q s. cos w c = Some r \<and> stack_mem r = Some q \<and> stacks w q = Some s \<and>
     occupy_co s = Some c)"

text \<open>A suspended coroutine has its stack in place or in its save buffer.\<close>

definition suspended_ok :: "addr \<Rightarrow> world \<Rightarrow> bool" where
  "suspended_ok c w \<longleftrightarrow> (\<exists>r q s. cos w c = Some r \<and> stack_mem r = Some q \<and> stacks w q = Some s \<and>
     (\<not> cIsMain r \<longrightarrow> stack_buffer s \<le> stack_sp r \<and> stack_sp r \<le> stack_bp s) \<and>
     (cIsShareStack r \<longrightarrow> occupies w c \<or> saved_ok c w))"

definition buffers_ok :: "world \<Rightarrow> bool" where
  "buffers_ok w \<longleftrightarrow>
     (\<forall>c r b. cos w c = Some r \<longrightarrow> save_buffer r = Some b \<longrightarrow> bufs w b \<noteq> None \<and> b < brk w) \<and>
     (\<forall>c r c' r' b. cos w c = Some r \<longrightarrow> cos w c' = Some r' \<longrightarrow>
        save_buffer r = Some b \<longrightarrow> save_buffer r' = Some b \<longrightarrow> c = c')"

definition main_ok :: "world \<Rightarrow> bool" where
  "main_ok w \<longleftrightarrow> (\<forall>c r. cos w c = Some r \<longrightarrow> cIsMain r \<longrightarrow> \<not> cIsShareStack r)"

text \<open>\<open>run\<close> is the running coroutine, \<open>S\<close> the suspended ones.\<close>

definition core_inv :: "ptr \<Rightarrow> addr set \<Rightarrow> world \<Rightarrow> bool" where
  "core_inv run S w \<longleftrightarrow> stacks_ok w \<and> users_ok w \<and> buffers_ok w \<and> main_ok w \<and>
     occupants_ok (S \<union> set_option run) w \<and> (\<forall>c \<in> S. suspended_ok c w) \<and>
     (\<forall>c. run = Some c \<longrightarrow> c \<notin> S \<and> (\<exists>r. cos w c = Some r \<and> (cIsShareStack r \<longrightarrow> occupies w c)))"

definition stack_bytes :: "world \<Rightarrow> addr \<Rightarrow> byte list" where
  "stack_bytes w c = (case cos w c of None \<Rightarrow> [] | Some r \<Rightarrow>
     (case stack_mem r of None \<Rightarrow> [] | Some q \<Rightarrow>
        (case stacks w q of None \<Rightarrow> [] | Some s \<Rightarrow> map (mem w) [stack_sp r ..< stack_bp s])))"

text \<open>The stack of a suspended coroutine, wherever it is kept.\<close>

definition saved_bytes :: "world \<Rightarrow> addr \<Rightarrow> byte list" where
  "saved_bytes w c = (case cos w c of None \<Rightarrow> [] | Some r \<Rightarrow>
     (case save_buffer r of None \<Rightarrow> [] | Some b \<Rightarrow> (case bufs w b of None \<Rightarrow> [] | Some bs \<Rightarrow> bs)))"

definition sharing :: "world \<Rightarrow> addr \<Rightarrow> bool" where
  "sharing w c \<longleftrightarrow> (\<exists>r. cos w c = Some r \<and> cIsShareStack r)"

definition content :: "world \<Rightarrow> addr \<Rightarrow> byte list" where
  "content w c = (if sharing w c \<and> \<not> occupies w c then saved_bytes w c else stack_bytes w c)"

lemmas inv_defs = stacks_ok_def users_ok_def occupants_ok_def buffers_ok_def main_ok_def

lemma core_invD:
  assumes "core_inv run S w"
  shows "stacks_ok w" "users_ok w" "buffers_ok w" "main_ok w" "occupants_ok (S \<union> set_option run) w"
    "c \<in> S \<Longrightarrow> suspended_ok c w" "run = Some c \<Longrightarrow> c \<notin> S"
    "run = Some c \<Longrightarrow> \<exists>r. cos w c = Some r \<and> (cIsShareStack r \<longrightarrow> occupies w c)"
  using assms by (auto simp: core_inv_def)

lemma users_okD:
  assumes "users_ok w" "cos w c = Some r"
  obtains q s where "stack_mem r = Some q" "stacks w q = Some s"
  using assms unfolding users_ok_def by blast

text \<open>Step 1: the running coroutine stores its stack pointer and stops running.\<close>

definition frame_ok :: "frame \<Rightarrow> addr \<Rightarrow> world \<Rightarrow> bool" where
  "frame_ok fr c w \<longleftrightarrow> (\<forall>r q s. cos w c = Some r \<longrightarrow> \<not> cIsMain r \<longrightarrow> stack_mem r = Some q \<longrightarrow>
     stacks w q = Some s \<longrightarrow> stack_buffer s \<le> c_addr fr \<and> c_addr fr \<le> stack_bp s)"

lemma core_stop:
  assumes inv: "core_inv (Some c) S w" and fr: "frame_ok fr c w"
    and w': "set_co (\<lambda>c. c\<lparr>stack_sp := c_addr fr\<rparr>) c w = Some w'"
  shows "core_inv None (insert c S) w'" "\<And>x. x \<in> S \<Longrightarrow> content w' x = content w x"
proof -
  note I = core_invD [OF inv]
  obtain r where r: "cos w c = Some r" "cIsShareStack r \<longrightarrow> occupies w c" using I(8) by auto
  have w': "w' = w\<lparr>cos := (cos w)(c \<mapsto> r\<lparr>stack_sp := c_addr fr\<rparr>)\<rparr>"
    using w' r by (simp add: set_co_def)
  have occ: "occupies w' x = occupies w x" for x
    using r by (auto simp: occupies_def w')
  have sus: "suspended_ok x w'" if "x \<in> S" for x
  proof -
    have "x \<noteq> c" using that I(7) by auto
    then have "saved_ok x w' = saved_ok x w" by (simp add: saved_ok_def w')
    with I(6) [OF that] \<open>x \<noteq> c\<close> show ?thesis
      unfolding suspended_ok_def occ by (simp add: w')
  qed
  have "suspended_ok c w'"
  proof -
    obtain q s where "stack_mem r = Some q" "stacks w q = Some s"
      using users_okD [OF I(2) r(1)] by blast
    then show ?thesis
      using r fr unfolding suspended_ok_def occ by (auto simp: w' frame_ok_def)
  qed
  moreover have "stacks_ok w'" using I(1) by (simp add: stacks_ok_def w')
  moreover have "users_ok w'" using I(2) r(1) by (auto simp: users_ok_def w')
  moreover have "buffers_ok w'" using I(3) r(1) unfolding buffers_ok_def w' by auto
  moreover have "main_ok w'" using I(4) r(1) by (auto simp: main_ok_def w')
  moreover have "shares_on w' x q = shares_on w x q" for x q
    using r(1) by (auto simp: shares_on_def w')
  then have "occupants_ok (insert c S) w'"
    using I(5) by (simp add: occupants_ok_def w' cong: option.case_cong)
  ultimately show "core_inv None (insert c S) w'"
    using sus by (auto simp: core_inv_def)
  show "content w' x = content w x" if "x \<in> S" for x
  proof -
    have "x \<noteq> c" using that I(7) by auto
    then have "saved_bytes w' x = saved_bytes w x" "sharing w' x = sharing w x"
      "stack_bytes w' x = stack_bytes w x"
      by (simp_all add: w' stack_bytes_def saved_bytes_def sharing_def cong: option.case_cong)
    then show ?thesis by (simp add: content_def occ)
  qed
qed

text \<open>Step 2: the occupant of a stack is copied out.\<close>

definition len_of :: "stStackMem_t \<Rightarrow> stCoRoutine_t \<Rightarrow> nat" where
  "len_of s r = stack_bp s - stack_sp r"

definition saved_world :: "addr \<Rightarrow> stCoRoutine_t \<Rightarrow> nat \<Rightarrow> world \<Rightarrow> world" where
  "saved_world c r n w = w\<lparr>
     bufs := (case save_buffer r of None \<Rightarrow> bufs w | Some b \<Rightarrow> (bufs w)(b := None))
       (brk w \<mapsto> map (mem w) [stack_sp r ..< stack_sp r + n]),
     brk := brk w + max 1 n,
     cos := (cos w)(c \<mapsto> r\<lparr>save_buffer := Some (brk w), save_size := word_of_nat n\<rparr>)\<rparr>"

lemma save_stack_buffer_eq:
  assumes "cos w c = Some r" "stack_mem r = Some q" "stacks w q = Some s"
    and "stack_sp r \<le> stack_bp s" "stack_bp s < stack_sp r + 2 ^ 31"
    and "\<And>b. save_buffer r = Some b \<Longrightarrow> bufs w b \<noteq> None"
  shows "save_stack_buffer c w = Some (saved_world c r (len_of s r) w)"
proof -
  have "int (stack_bp s) - int (stack_sp r) = int (len_of s r)"
    using assms(4) by (simp add: len_of_def)
  moreover have "to_s32 (int (len_of s r)) = int (len_of s r)"
    using assms(4,5) by (intro to_s32_id) (simp add: in_s32_def len_of_def)
  ultimately show ?thesis
    using assms by (cases "save_buffer r")
      (auto simp: save_stack_buffer_def malloc_def set_co_def saved_world_def)
qed

lemma users_ok_cong:
  assumes "users_ok w" "main_ok w"
    and co: "\<And>x rx. cos w' x = Some rx \<Longrightarrow> \<exists>r0. cos w x = Some r0 \<and> stack_mem r0 = stack_mem rx \<and>
      cIsShareStack r0 = cIsShareStack rx \<and> cIsMain r0 = cIsMain rx"
    and st: "\<And>q s. stacks w q = Some s \<Longrightarrow> stacks w' q \<noteq> None"
  shows "users_ok w'" "main_ok w'"
proof -
  show "main_ok w'"
    unfolding main_ok_def
  proof (intro allI impI)
    fix c r assume "cos w' c = Some r" "cIsMain r"
    with co [of c r] assms(2) show "\<not> cIsShareStack r" by (auto simp: main_ok_def)
  qed
  have "\<exists>q s. stack_mem r = Some q \<and> stacks w' q = Some s" if c: "cos w' c = Some r" for c r
  proof -
    obtain r0 where r0: "cos w c = Some r0" "stack_mem r0 = stack_mem r" using co [OF c] by blast
    obtain q s where "stack_mem r0 = Some q" "stacks w q = Some s"
      using users_okD [OF assms(1) r0(1)] by blast
    then show ?thesis using st [of q s] r0(2) by auto
  qed
  moreover have "cIsShareStack r \<and> cIsShareStack r'"
    if a: "cos w' c = Some r" "cos w' c' = Some r'" "stack_mem r = stack_mem r'" "c \<noteq> c'" for c r c' r'
  proof -
    obtain r0 where r0: "cos w c = Some r0" "stack_mem r0 = stack_mem r" "cIsShareStack r0 = cIsShareStack r"
      using co [OF a(1)] by blast
    obtain r1 where r1: "cos w c' = Some r1" "stack_mem r1 = stack_mem r'" "cIsShareStack r1 = cIsShareStack r'"
      using co [OF a(2)] by blast
    have "stack_mem r0 = stack_mem r1" using r0(2) r1(2) a(3) by simp
    then have "cIsShareStack r0 \<and> cIsShareStack r1"
      using assms(1) r0(1) r1(1) a(4) unfolding users_ok_def by blast
    then show ?thesis using r0(3) r1(3) by simp
  qed
  ultimately show "users_ok w'" unfolding users_ok_def by blast
qed

lemma core_save:
  assumes inv: "core_inv None T w" and c: "c \<in> T" "occupies w c"
    and r: "cos w c = Some r" "stack_mem r = Some q" "stacks w q = Some s" "cIsShareStack r"
  defines "w' \<equiv> saved_world c r (len_of s r) w"
  shows "save_stack_buffer c w = Some w'" "core_inv None T w'" "saved_ok c w'"
    "saved_bytes w' c = content w c" "\<And>x. x \<in> T \<Longrightarrow> content w' x = content w x"
    "\<And>x. x \<in> T \<Longrightarrow> x \<noteq> c \<Longrightarrow> saved_bytes w' x = saved_bytes w x"
proof -
  note I = core_invD [OF inv]
  have bp: "stack_buffer s \<le> stack_sp r" "stack_sp r \<le> stack_bp s" "stack_bp s < stack_buffer s + 2 ^ 31"
    using I(1,4) I(6) [OF c(1)] r by (auto simp: stacks_ok_def suspended_ok_def main_ok_def)
  show "save_stack_buffer c w = Some w'"
    unfolding w'_def using bp I(3) r by (intro save_stack_buffer_eq [OF r(1-3)]) (auto simp: buffers_ok_def)
  have [simp]: "stacks w' = stacks w" "mem w' = mem w" "brk w \<le> brk w'"
    by (simp_all add: w'_def saved_world_def)
  have other [simp]: "cos w' x = cos w x" if "x \<noteq> c" for x
    using that by (simp add: w'_def saved_world_def)
  have self: "cos w' c = Some (r\<lparr>save_buffer := Some (brk w), save_size := word_of_nat (len_of s r)\<rparr>)"
    by (simp add: w'_def saved_world_def)
  have old: "bufs w' b = bufs w b" if "x \<noteq> c" "cos w x = Some rx" "save_buffer rx = Some b" for x rx b
  proof -
    have "b < brk w" "\<And>b'. save_buffer r = Some b' \<Longrightarrow> b \<noteq> b'"
      using I(3) that r(1) unfolding buffers_ok_def by blast+
    then show ?thesis by (cases "save_buffer r") (auto simp: w'_def saved_world_def)
  qed
  have new: "bufs w' (brk w) = Some (stack_bytes w c)"
    using r bp by (simp add: w'_def saved_world_def stack_bytes_def len_of_def)
  have same: "occupies w' x = occupies w x" "shares_on w' x q' = shares_on w x q'" 
     "sharing w' x = sharing w x" "stack_bytes w' x = stack_bytes w x" for x q'
    using r(1) by (cases "x = c"; auto simp: occupies_def self shares_on_def sharing_def stack_bytes_def
        cong: option.case_cong)+
  have len: "length (stack_bytes w c) = len_of s r" "len_of s r < 2 ^ 32"
    using r bp by (simp_all add: stack_bytes_def len_of_def)
  show saved: "saved_ok c w'"
    using r new len self by (auto simp: saved_ok_def len_of_def unat_of_nat)
  show sb: "saved_bytes w' c = content w c"
    using c(2) new self by (simp add: saved_bytes_def content_def)
  show sb': "saved_bytes w' x = saved_bytes w x" if "x \<in> T" "x \<noteq> c" for x
    using that old [of x] by (auto simp: saved_bytes_def split: option.splits)
  show "content w' x = content w x" if "x \<in> T" for x
    using sb' [OF that] c(2) by (cases "x = c") (auto simp: content_def same)
  have "suspended_ok x w'" if x: "x \<in> T" for x
  proof (cases "x = c")
    case True
    then show ?thesis using I(6) [OF x] saved r self by (auto simp: suspended_ok_def)
  next
    case False
    then have "saved_ok x w \<Longrightarrow> saved_ok x w'"
      using old [of x] by (auto simp: saved_ok_def)
    then show ?thesis using I(6) [OF x] False by (auto simp: suspended_ok_def same)
  qed
  moreover have "stacks_ok w'" using I(1) unfolding stacks_ok_def
    by simp (meson \<open>brk w \<le> brk w'\<close> le_trans)
  moreover have "\<exists>r0. cos w x = Some r0 \<and> stack_mem r0 = stack_mem rx \<and>
      cIsShareStack r0 = cIsShareStack rx \<and> cIsMain r0 = cIsMain rx" if "cos w' x = Some rx" for x rx
    using that self r(1) by (cases "x = c") auto
  then have "users_ok w'" "main_ok w'"
    using users_ok_cong [OF I(2,4), of w'] by simp_all
  moreover have "buffers_ok w'"
  proof -
    have b: "bufs w' b \<noteq> None \<and> b < brk w'" if "cos w' x = Some rx" "save_buffer rx = Some b" for x rx b
    proof (cases "x = c")
      case True
      then have "rx = r\<lparr>save_buffer := Some (brk w), save_size := word_of_nat (len_of s r)\<rparr>"
        using that(1) self by simp
      then have "b = brk w" using that(2) by simp
      then show ?thesis using new by (simp add: w'_def saved_world_def)
    next
      case False
      then have "cos w x = Some rx" using that by simp
      then show ?thesis using old [OF False _ that(2)] I(3) that(2) \<open>brk w \<le> brk w'\<close>
        unfolding buffers_ok_def by (metis less_le_trans)
    qed
    have lt: "b < brk w" if "x \<noteq> c" "cos w' x = Some rx" "save_buffer rx = Some b" for x rx b
      using I(3) that unfolding buffers_ok_def by auto
    have "x = y" if "cos w' x = Some rx" "cos w' y = Some ry" "save_buffer rx = Some b" "save_buffer ry = Some b"
      for x rx y ry b
    proof (cases "x = c \<or> y = c")
      case True
      then show ?thesis using that self lt [of x rx b] lt [of y ry b] by (cases "x = c"; cases "y = c"; auto)
    next
      case False
      then show ?thesis using that I(3) unfolding buffers_ok_def by (metis other)
    qed
    with b show ?thesis unfolding buffers_ok_def by blast
  qed
  moreover have "occupants_ok T w'"
    using I(5) by (simp add: occupants_ok_def same cong: option.case_cong)
  ultimately show "core_inv None T w'"
    by (simp add: core_inv_def)
qed

lemma users_ok_sharing:
  assumes "users_ok w" "cos w c = Some r" "cos w c' = Some r'" "stack_mem r = stack_mem r'" "c \<noteq> c'"
  shows "cIsShareStack r \<and> cIsShareStack r'"
  using assms unfolding users_ok_def by blast

lemma saved_ok_mono:
  assumes "saved_ok x w" "cos w' x = cos w x" "bufs w' = bufs w"
    and bp: "\<And>q. map_option stack_bp (stacks w' q) = map_option stack_bp (stacks w q)"
  shows "saved_ok x w'"
proof -
  obtain r q s b bs where a: "cos w x = Some r" "stack_mem r = Some q" "stacks w q = Some s"
     "save_buffer r = Some b" "bufs w b = Some bs" "length bs = stack_bp s - stack_sp r"
     "unat (save_size r) = length bs"
    using assms(1) unfolding saved_ok_def by blast
  obtain s' where "stacks w' q = Some s'" "stack_bp s' = stack_bp s"
    using bp [of q] a(3) by (cases "stacks w' q") auto
  then show ?thesis
    using a assms(2,3) unfolding saved_ok_def by auto
qed

text \<open>Step 3: a coroutine takes a shared stack, whose occupant has been copied out.\<close>

lemma core_occupy:
  assumes inv: "core_inv None T w"
    and r: "cos w p = Some r" "cIsShareStack r" "stack_mem r = Some q" "stacks w q = Some s"
    and old: "\<And>oc. occupy_co s = Some oc \<Longrightarrow> oc \<noteq> p \<Longrightarrow> saved_ok oc w \<and> saved_bytes w oc = content w oc"
  defines "w' \<equiv> w\<lparr>stacks := (stacks w)(q \<mapsto> s\<lparr>occupy_co := Some p\<rparr>)\<rparr>"
  shows "core_inv (Some p) (T - {p}) w'" "\<And>x. x \<in> T \<Longrightarrow> x \<noteq> p \<Longrightarrow> content w' x = content w x"
    "saved_ok x w' = saved_ok x w" "saved_bytes w' x = saved_bytes w x" "stack_bytes w' x = stack_bytes w x"
proof -
  note I = core_invD [OF inv]
  have [simp]: "cos w' = cos w" "bufs w' = bufs w" "brk w' = brk w"
    by (simp_all add: w'_def)
  have st: "stacks w' q' = (if q' = q then Some (s\<lparr>occupy_co := Some p\<rparr>) else stacks w q')" for q'
    by (simp add: w'_def)
  have bp: "map_option stack_bp (stacks w' q') = map_option stack_bp (stacks w q')"
    "map_option stack_buffer (stacks w' q') = map_option stack_buffer (stacks w q')" for q'
    using r by (simp_all add: st)
  show sb: "stack_bytes w' x = stack_bytes w x" for x
    using r(4) by (auto simp: stack_bytes_def st w'_def split: option.splits)
  show saved: "saved_ok x w' = saved_ok x w" for x
    using saved_ok_mono [of x w w'] saved_ok_mono [of x w' w] bp(1) by auto
  show svb: "saved_bytes w' x = saved_bytes w x" for x
    by (simp add: saved_bytes_def cong: option.case_cong)
  have occ: "occupies w' x \<longleftrightarrow> (if qx = q then x = p else occupies w x)"
    if "cos w x = Some rx" "stack_mem rx = Some qx" for x rx qx
    using that r by (auto simp: occupies_def st)
  have sh: "shares_on w' = shares_on w" "sharing w' = sharing w"
    by (simp_all add: shares_on_def sharing_def fun_eq_iff)
  have self: "occupies w' p"
    using r by (auto simp: occupies_def st)
  have lost: "saved_ok x w \<and> saved_bytes w x = content w x"
    if "x \<in> T" "x \<noteq> p" "cos w x = Some rx" "cIsShareStack rx" "stack_mem rx = Some q" for x rx
  proof (cases "occupies w x")
    case True
    then have "occupy_co s = Some x" using that r by (auto simp: occupies_def)
    with old that show ?thesis by blast
  next
    case False
    then have "saved_ok x w" using I(6) [OF that(1)] that by (auto simp: suspended_ok_def)
    with False that show ?thesis by (simp add: content_def sharing_def)
  qed
  show cont: "content w' x = content w x" if x: "x \<in> T" "x \<noteq> p" for x
  proof -
    obtain rx qx sx where rx: "cos w x = Some rx" "stack_mem rx = Some qx" "stacks w qx = Some sx"
      using I(6) [OF x(1)] by (auto simp: suspended_ok_def)
    show ?thesis
    proof (cases "cIsShareStack rx \<and> qx = q")
      case True
      then have "\<not> occupies w' x" using x occ [OF rx(1,2)] by simp
      then show ?thesis
        using lost [OF x rx(1)] True rx by (simp add: content_def sh svb sharing_def)
    next
      case False
      then have "sharing w x \<Longrightarrow> occupies w' x = occupies w x"
        using rx occ [OF rx(1,2)] by (auto simp: sharing_def)
      then show ?thesis by (auto simp: content_def sh sb svb)
    qed
  qed
  have "suspended_ok x w'" if x: "x \<in> T - {p}" for x
  proof -
    obtain rx qx sx where rx: "cos w x = Some rx" "stack_mem rx = Some qx" "stacks w qx = Some sx"
      and pos: "\<not> cIsMain rx \<longrightarrow> stack_buffer sx \<le> stack_sp rx \<and> stack_sp rx \<le> stack_bp sx"
      and or: "cIsShareStack rx \<longrightarrow> occupies w x \<or> saved_ok x w"
      using I(6) [of x] x by (auto simp: suspended_ok_def)
    have "cIsShareStack rx \<longrightarrow> occupies w' x \<or> saved_ok x w'"
    proof (cases "qx = q")
      case True
      then show ?thesis using lost [of x rx] x rx by (simp add: saved)
    next
      case False
      then show ?thesis using or occ [OF rx(1,2)] by (auto simp: saved)
    qed
    then show ?thesis
      using rx pos r(4) by (auto simp: suspended_ok_def st)
  qed
  moreover have "stacks_ok w'"
    using I(1) r(4) unfolding stacks_ok_def by (auto simp: st)
  moreover have "users_ok w'" "main_ok w'"
    using users_ok_cong [OF I(2,4), of w'] by (auto simp: st)
  moreover have "buffers_ok w'"
    using I(3) by (simp add: buffers_ok_def)
  moreover have occ_T: "occupants_ok T w" using I(5) by simp
  have "occupants_ok (insert p (T - {p})) w'"
    unfolding occupants_ok_def
  proof (intro allI impI)
    fix q' s' assume s': "stacks w' q' = Some s'"
    show "case occupy_co s' of None \<Rightarrow> \<forall>c\<in>insert p (T - {p}). \<not> shares_on w' c q'
       | Some oc \<Rightarrow> oc \<in> insert p (T - {p}) \<and> shares_on w' oc q'"
    proof (cases "q' = q")
      case True
      then show ?thesis using s' r by (auto simp: st sh shares_on_def)
    next
      case False
      then have "stacks w q' = Some s'" "\<not> shares_on w p q'"
        using s' r by (auto simp: st shares_on_def)
      then have "case occupy_co s' of None \<Rightarrow> \<forall>c\<in>T. \<not> shares_on w c q'
          | Some oc \<Rightarrow> oc \<in> T \<and> shares_on w oc q'"
        using occ_T unfolding occupants_ok_def by blast
      with \<open>\<not> shares_on w p q'\<close> show ?thesis
        by (cases "occupy_co s'") (auto simp: sh)
    qed
  qed
  ultimately show "core_inv (Some p) (T - {p}) w'"
    using self r(1) by (simp add: core_inv_def)
qed

text \<open>Step 4: bytes are written that lie in no stack but the running coroutine's.\<close>

lemma core_write:
  assumes inv: "core_inv (Some p) S w"
    and m: "\<And>a q s. stacks w q = Some s \<Longrightarrow> stack_buffer s \<le> a \<Longrightarrow> a < stack_bp s \<Longrightarrow>
      (\<And>r. cos w p = Some r \<Longrightarrow> stack_mem r \<noteq> Some q) \<Longrightarrow> m a = mem w a"
  defines "w' \<equiv> w\<lparr>mem := m\<rparr>"
  shows "core_inv (Some p) S w'"
    "\<And>x r. x \<in> S \<Longrightarrow> cos w x = Some r \<Longrightarrow> \<not> cIsMain r \<Longrightarrow> content w' x = content w x"
proof -
  note I = core_invD [OF inv]
  have same: "occupies w' = occupies w" "shares_on w' = shares_on w" "saved_ok x w' = saved_ok x w"
    "saved_bytes w' = saved_bytes w" "sharing w' = sharing w" for x
    by (simp_all add: fun_eq_iff occupies_def shares_on_def saved_ok_def saved_bytes_def sharing_def w'_def
        cong: option.case_cong)
  show "core_inv (Some p) S w'"
  proof -
    have "stacks_ok w' = stacks_ok w" "users_ok w' = users_ok w" "buffers_ok w' = buffers_ok w"
      "main_ok w' = main_ok w"
      by (simp_all add: inv_defs w'_def)
    moreover have "occupants_ok A w' = occupants_ok A w" for A
      unfolding occupants_ok_def same by (simp add: w'_def)
    moreover have "suspended_ok x w' = suspended_ok x w" for x
      unfolding suspended_ok_def same by (simp add: w'_def)
    moreover have "cos w' = cos w" by (simp add: w'_def)
    ultimately show ?thesis using inv unfolding core_inv_def same by simp
  qed
  show "content w' x = content w x" if x: "x \<in> S" and rx: "cos w x = Some rx" "\<not> cIsMain rx" for x rx
  proof (cases "cIsShareStack rx \<and> \<not> occupies w x")
    case True
    then show ?thesis using rx by (simp add: content_def same sharing_def)
  next
    case False
    obtain q s where q: "stack_mem rx = Some q" "stacks w q = Some s" "stack_buffer s \<le> stack_sp rx"
      using I(6) [OF x] rx by (auto simp: suspended_ok_def)
    have "x \<noteq> p" using x I(7) by auto
    have "stack_mem r \<noteq> Some q" if "cos w p = Some r" for r
    proof
      assume "stack_mem r = Some q"
      then have "cIsShareStack rx \<and> cIsShareStack r"
        using users_ok_sharing [OF I(2) rx(1) that] q(1) \<open>x \<noteq> p\<close> by simp
      then have "occupies w x" "occupies w p" using False I(8) that by auto
      then show False using rx q that \<open>stack_mem r = Some q\<close> \<open>x \<noteq> p\<close> by (auto simp: occupies_def)
    qed
    then have "m a = mem w a" if "stack_sp rx \<le> a" "a < stack_bp s" for a
      using m [OF q(2)] q(3) that by simp
    then have "stack_bytes w' x = stack_bytes w x"
      using rx q by (simp add: stack_bytes_def w'_def)
    then show ?thesis using False rx by (auto simp: content_def same sharing_def)
  qed
qed

text \<open>Changes that do not concern the stacks.\<close>

definition same_stack :: "stCoRoutine_t \<Rightarrow> stCoRoutine_t \<Rightarrow> bool" where
  "same_stack r r' \<longleftrightarrow> stack_mem r' = stack_mem r \<and> cIsShareStack r' = cIsShareStack r \<and>
     cIsMain r' = cIsMain r \<and> stack_sp r' = stack_sp r \<and> save_buffer r' = save_buffer r \<and>
     save_size r' = save_size r"

definition same_stacks :: "world \<Rightarrow> world \<Rightarrow> bool" where
  "same_stacks w w' \<longleftrightarrow> stacks w' = stacks w \<and> bufs w' = bufs w \<and> brk w' = brk w \<and> mem w' = mem w \<and>
     (\<forall>x. rel_option same_stack (cos w x) (cos w' x))"

lemma same_stacks_co:
  assumes "same_stacks w w'"
  shows "cos w x = None \<and> cos w' x = None \<or>
    (\<exists>r r'. cos w x = Some r \<and> cos w' x = Some r' \<and> same_stack r r')"
  using assms unfolding same_stacks_def by (metis option.rel_cases)

lemma same_stacks_eqs:
  assumes "same_stacks w w'"
  shows "occupies w' x = occupies w x" "shares_on w' x q = shares_on w x q" "saved_ok x w' = saved_ok x w"
    "saved_bytes w' x = saved_bytes w x" "sharing w' x = sharing w x" "stack_bytes w' x = stack_bytes w x"
    "content w' x = content w x" "suspended_ok x w' = suspended_ok x w"
proof -
  note c = same_stacks_co [OF assms, of x]
  have f: "stacks w' = stacks w" "bufs w' = bufs w" "mem w' = mem w"
    using assms by (simp_all add: same_stacks_def)
  show 1: "occupies w' x = occupies w x" and 2: "shares_on w' x q = shares_on w x q"
    and 3: "saved_ok x w' = saved_ok x w" and 4: "saved_bytes w' x = saved_bytes w x"
    and 5: "sharing w' x = sharing w x" and 6: "stack_bytes w' x = stack_bytes w x"
    using c unfolding occupies_def shares_on_def saved_ok_def saved_bytes_def sharing_def stack_bytes_def f
    by (auto simp: same_stack_def cong: option.case_cong)
  show "content w' x = content w x" by (simp add: content_def 1 4 5 6)
  show "suspended_ok x w' = suspended_ok x w"
    using c unfolding suspended_ok_def 1 3 f by (auto simp: same_stack_def)
qed

lemma same_stacks_inv:
  assumes s: "same_stacks w w'" and inv: "core_inv run S w"
  shows "core_inv run S w'"
proof -
  note I = core_invD [OF inv]
  have f: "stacks w' = stacks w" "bufs w' = bufs w" "brk w' = brk w"
    using s by (simp_all add: same_stacks_def)
  have co: "\<exists>r0. cos w x = Some r0 \<and> same_stack r0 r" if "cos w' x = Some r" for x r
    using same_stacks_co [OF s, of x] that by auto
  have "users_ok w'" "main_ok w'"
    using users_ok_cong [OF I(2,4), of w'] co f by (fastforce simp: same_stack_def)+
  moreover have "buffers_ok w'"
  proof -
    have "bufs w' b \<noteq> None \<and> b < brk w'" if a: "cos w' c = Some r" "save_buffer r = Some b" for c r b
      using co [OF a(1)] a(2) I(3) unfolding buffers_ok_def f by (auto simp: same_stack_def)
    moreover have "c = c'" if a: "cos w' c = Some r" "cos w' c' = Some r'" "save_buffer r = Some b"
      "save_buffer r' = Some b" for c r c' r' b
    proof -
      obtain r0 r1 where "cos w c = Some r0" "save_buffer r0 = Some b" "cos w c' = Some r1" "save_buffer r1 = Some b"
        using co [OF a(1)] co [OF a(2)] a(3,4) by (auto simp: same_stack_def)
      then show ?thesis using I(3) unfolding buffers_ok_def by blast
    qed
    ultimately show ?thesis unfolding buffers_ok_def by blast
  qed
  moreover have "stacks_ok w'" using I(1) by (simp add: stacks_ok_def f)
  moreover have "occupants_ok (S \<union> set_option run) w'"
    using I(5) unfolding occupants_ok_def same_stacks_eqs [OF s] f .
  moreover have "\<exists>r. cos w' c = Some r \<and> (cIsShareStack r \<longrightarrow> occupies w' c)" if "run = Some c" for c
    using I(8) [OF that] same_stacks_co [OF s, of c] by (auto simp: same_stacks_eqs [OF s] same_stack_def)
  ultimately show ?thesis
    using I(6,7) by (auto simp: core_inv_def same_stacks_eqs [OF s])
qed

lemma same_stack_refl [simp]: "same_stack r r"
  by (simp add: same_stack_def)

lemma rel_same_stack_refl [simp]: "rel_option same_stack x x"
  by (cases x) simp_all

lemma same_stacksI:
  assumes "stacks w' = stacks w" "bufs w' = bufs w" "brk w' = brk w" "mem w' = mem w" "cos w' = cos w"
  shows "same_stacks w w'"
  using assms by (simp add: same_stacks_def)

lemma same_stacks_upd:
  assumes "cos w c = Some r" "same_stack r r'"
    and "stacks w' = stacks w" "bufs w' = bufs w" "brk w' = brk w" "mem w' = mem w" "cos w' = (cos w)(c \<mapsto> r')"
  shows "same_stacks w w'"
  using assms by (simp add: same_stacks_def)

section \<open>A whole switch\<close>

definition in_thread :: "addr \<Rightarrow> world \<Rightarrow> bool" where
  "in_thread env w \<longleftrightarrow> co_get_curr_thread_env w = Some (Some env) \<and> envs w env \<noteq> None"

lemma in_thread_cong:
  "tid w' = tid w \<Longrightarrow> g_arrCoEnvPerThread w' = g_arrCoEnvPerThread w \<Longrightarrow> envs w' env \<noteq> None \<Longrightarrow>
   in_thread env w \<Longrightarrow> in_thread env w'"
  by (auto simp: in_thread_def co_get_curr_thread_env_def split: if_splits)

text \<open>The stack of the caller as \<open>co_swap\<close> will save it: from the address of \<open>c\<close> up.\<close>

definition frame_bytes :: "frame \<Rightarrow> world \<Rightarrow> addr \<Rightarrow> byte list" where
  "frame_bytes fr w c = (case cos w c of None \<Rightarrow> [] | Some r \<Rightarrow>
     (case stack_mem r of None \<Rightarrow> [] | Some q \<Rightarrow>
        (case stacks w q of None \<Rightarrow> [] | Some s \<Rightarrow> map (mem w) [c_addr fr ..< stack_bp s])))"

lemma frame_bytes_stop:
  assumes inv: "core_inv (Some c) S w" and fr: "frame_ok fr c w"
    and w': "set_co (\<lambda>c. c\<lparr>stack_sp := c_addr fr\<rparr>) c w = Some w'"
  shows "content w' c = frame_bytes fr w c"
proof -
  obtain r where r: "cos w c = Some r" "cIsShareStack r \<longrightarrow> occupies w c"
    using core_invD(8) [OF inv] by auto
  then have "w' = w\<lparr>cos := (cos w)(c \<mapsto> r\<lparr>stack_sp := c_addr fr\<rparr>)\<rparr>"
    using w' by (simp add: set_co_def)
  with r show ?thesis
    by (auto simp: content_def frame_bytes_def stack_bytes_def sharing_def occupies_def
        split: option.splits)
qed

text \<open>What a switch leaves alone.\<close>

definition same_co :: "stCoRoutine_t \<Rightarrow> stCoRoutine_t \<Rightarrow> bool" where
  "same_co r r' \<longleftrightarrow> co_env r' = co_env r \<and> co_pfn r' = co_pfn r \<and> co_arg r' = co_arg r \<and>
     cStart r' = cStart r \<and> cEnd r' = cEnd r \<and> cIsMain r' = cIsMain r \<and>
     cEnableSysHook r' = cEnableSysHook r \<and> cIsShareStack r' = cIsShareStack r \<and>
     pvEnv r' = pvEnv r \<and> stack_mem r' = stack_mem r \<and> aSpec r' = aSpec r"

definition same_calls :: "stCoRoutineEnv_t \<Rightarrow> stCoRoutineEnv_t \<Rightarrow> bool" where
  "same_calls e e' \<longleftrightarrow> pCallStack e' = pCallStack e \<and> iCallStackSize e' = iCallStackSize e \<and> pEpoll e' = pEpoll e"

definition same_region :: "stStackMem_t \<Rightarrow> stStackMem_t \<Rightarrow> bool" where
  "same_region s s' \<longleftrightarrow> stack_buffer s' = stack_buffer s \<and> stack_bp s' = stack_bp s \<and> stack_size s' = stack_size s"

definition switch_frame :: "world \<Rightarrow> world \<Rightarrow> bool" where
  "switch_frame w w' \<longleftrightarrow> tid w' = tid w \<and> g_arrCoEnvPerThread w' = g_arrCoEnvPerThread w \<and>
     shares w' = shares w \<and> epolls w' = epolls w \<and> timeouts w' = timeouts w \<and> tm w' = tm w \<and>
     brk w \<le> brk w' \<and>
     (\<forall>x. rel_option same_co (cos w x) (cos w' x)) \<and>
     (\<forall>x. rel_option same_calls (envs w x) (envs w' x)) \<and>
     (\<forall>x. rel_option same_region (stacks w x) (stacks w' x))"

lemma same_refl [simp]: "same_co r r" "same_calls e e" "same_region s s"
  by (simp_all add: same_co_def same_calls_def same_region_def)

lemma rel_same_refl [simp]:
  "rel_option same_co x x" "rel_option same_calls y y" "rel_option same_region z z"
  by (simp_all add: option.rel_refl)

lemma switch_frame_refl [simp]: "switch_frame w w"
  by (simp add: switch_frame_def)

lemma rel_option_trans:
  assumes "rel_option R x y" "rel_option R y z" "\<And>a b c. R a b \<Longrightarrow> R b c \<Longrightarrow> R a c"
  shows "rel_option R x z"
  using assms by (cases x; cases y; cases z) auto

lemma switch_frame_trans:
  assumes "switch_frame w1 w2" "switch_frame w2 w3"
  shows "switch_frame w1 w3"
  using assms unfolding switch_frame_def
  by (auto intro: rel_option_trans [where R = same_co] rel_option_trans [where R = same_calls]
      rel_option_trans [where R = same_region] simp: same_co_def same_calls_def same_region_def)

lemma in_thread_frame:
  assumes "switch_frame w w'" "in_thread env w"
  shows "in_thread env w'"
proof -
  have "rel_option same_calls (envs w env) (envs w' env)" using assms(1) by (simp add: switch_frame_def)
  then have "envs w' env \<noteq> None" using assms(2) by (cases "envs w' env") (auto simp: in_thread_def)
  then show ?thesis using assms by (intro in_thread_cong [of w' w]) (simp_all add: switch_frame_def)
qed

lemma set_co_same:
  assumes "set_co f c w = Some w'" "\<And>r. same_co r (f r)"
  shows "switch_frame w w'"
proof -
  obtain r where "cos w c = Some r" "w' = w\<lparr>cos := (cos w)(c \<mapsto> f r)\<rparr>"
    using assms(1) by (auto simp: set_co_def)
  then show ?thesis using assms(2) by (auto simp: switch_frame_def)
qed

lemma saved_world_frame:
  assumes "cos w c = Some r"
  shows "switch_frame w (saved_world c r n w)"
  using assms by (auto simp: switch_frame_def saved_world_def same_co_def)

text \<open>The last assignments of the first half: the caller's context and the processor.\<close>

definition swap_tail :: "frame \<Rightarrow> addr \<Rightarrow> addr \<Rightarrow> world \<Rightarrow> world option" where
  "swap_tail fr c p w = do {
     w \<leftarrow> set_co (\<lambda>c. c\<lparr>co_ctx := (co_ctx c)\<lparr>regs := call_regs fr\<rparr>\<rparr>) c w;
     p \<leftarrow> cos w p;
     Some (w\<lparr>cpu_regs := regs (co_ctx p)\<rparr>) }"

lemma swap_tail_ok:
  assumes "cos w c = Some r" "cos w p = Some rp"
  obtains w' where "swap_tail fr c p w = Some w'" "same_stacks w w'" "switch_frame w w'" "envs w' = envs w"
    "c \<noteq> p \<longrightarrow> cos w' p = cos w p"
proof -
  let ?r = "r\<lparr>co_ctx := (co_ctx r)\<lparr>regs := call_regs fr\<rparr>\<rparr>"
  let ?g = "regs (co_ctx (if c = p then ?r else rp))"
  let ?w = "w\<lparr>cos := (cos w)(c \<mapsto> ?r), cpu_regs := ?g\<rparr>"
  have "swap_tail fr c p w = Some ?w"
    using assms by (auto simp: swap_tail_def set_co_def)
  moreover have "same_stacks w ?w"
    using assms by (intro same_stacks_upd [of w c r ?r]) (simp_all add: same_stack_def)
  moreover have "switch_frame w ?w"
    using assms by (auto simp: switch_frame_def same_co_def)
  ultimately show thesis using that by simp
qed

lemma co_swap_out_unfold:
  assumes "in_thread env w" "set_co (\<lambda>c. c\<lparr>stack_sp := c_addr fr\<rparr>) c w = Some w0" "cos w0 p = Some rp"
  shows "co_swap_out fr c p w =
    ((if \<not> cIsShareStack rp
      then set_env (\<lambda>e. e\<lparr>env_pending_co := None, env_occupy_co := None\<rparr>) env w0
      else do {
        q \<leftarrow> stack_mem rp;
        s \<leftarrow> stacks w0 q;
        w \<leftarrow> set_stack (\<lambda>s. s\<lparr>occupy_co := Some p\<rparr>) q w0;
        w \<leftarrow> set_env (\<lambda>e. e\<lparr>env_pending_co := Some p, env_occupy_co := occupy_co s\<rparr>) env w;
        (case occupy_co s of
           None \<Rightarrow> Some w
         | Some oc \<Rightarrow> if oc \<noteq> p then save_stack_buffer oc w else Some w) }) \<bind> swap_tail fr c p)"
  using assms by (simp add: co_swap_out_def in_thread_def swap_tail_def [abs_def] cong: option.case_cong)

text \<open>The result of a switch: the stacks are in order and \<open>co_swap_in\<close> will put back the target's.\<close>

definition switched :: "addr \<Rightarrow> frame \<Rightarrow> addr \<Rightarrow> addr \<Rightarrow> addr set \<Rightarrow> world \<Rightarrow> world \<Rightarrow> bool" where
  "switched env fr c p S w w1 \<longleftrightarrow> core_inv (Some p) (insert c S - {p}) w1 \<and> switch_frame w w1 \<and>
     (\<forall>x \<in> S - {p}. content w1 x = content w x) \<and> content w1 c = frame_bytes fr w c \<and>
     (p \<in> S \<longrightarrow> (\<exists>e r r1. envs w1 env = Some e \<and> cos w p = Some r \<and> cos w1 p = Some r1 \<and> stack_sp r1 = stack_sp r \<and>
       (if cIsShareStack r1 \<and> env_occupy_co e \<noteq> Some p
        then env_occupy_co e \<noteq> None \<and> env_pending_co e = Some p \<and> saved_ok p w1 \<and> saved_bytes w1 p = content w p
        else env_occupy_co e = env_pending_co e \<and> stack_bytes w1 p = content w p)))"

lemma occupants_ok_mono:
  assumes "occupants_ok A w" "A \<subseteq> B" "\<And>x q. x \<in> B \<Longrightarrow> x \<notin> A \<Longrightarrow> \<not> shares_on w x q"
  shows "occupants_ok B w"
  unfolding occupants_ok_def
proof (intro allI impI)
  fix q s assume "stacks w q = Some s"
  then have "case occupy_co s of None \<Rightarrow> \<forall>c\<in>A. \<not> shares_on w c q | Some oc \<Rightarrow> oc \<in> A \<and> shares_on w oc q"
    using assms(1) unfolding occupants_ok_def by blast
  with assms(2,3) show "case occupy_co s of None \<Rightarrow> \<forall>c\<in>B. \<not> shares_on w c q | Some oc \<Rightarrow> oc \<in> B \<and> shares_on w oc q"
    by (cases "occupy_co s") auto
qed

lemma core_start_private:
  assumes inv: "core_inv None T w" and p: "cos w p = Some rp" "\<not> cIsShareStack rp"
  shows "core_inv (Some p) (T - {p}) w"
proof -
  note I = core_invD [OF inv]
  have "occupants_ok (T - {p} \<union> set_option (Some p)) w"
    using I(5) p by (rule_tac occupants_ok_mono [of T]) (auto simp: shares_on_def)
  then show ?thesis using I p by (auto simp: core_inv_def)
qed

lemma swap_private:
  assumes inv: "core_inv (Some c) S w" and fr: "frame_ok fr c w" and env: "in_thread env w"
    and p: "cos w p = Some rp" "p \<noteq> c" "\<not> cIsShareStack rp"
  shows "\<exists>w1. co_swap_out fr c p w = Some w1 \<and> switched env fr c p S w w1"
proof -
  obtain rc where rc: "cos w c = Some rc" using core_invD(8) [OF inv] by auto
  define w0 where "w0 = w\<lparr>cos := (cos w)(c \<mapsto> rc\<lparr>stack_sp := c_addr fr\<rparr>)\<rparr>"
  have w0: "set_co (\<lambda>c. c\<lparr>stack_sp := c_addr fr\<rparr>) c w = Some w0"
    using rc by (simp add: w0_def set_co_def)
  note stop = core_stop [OF inv fr w0] frame_bytes_stop [OF inv fr w0]
  obtain e where e: "envs w env = Some e" using env by (auto simp: in_thread_def)
  let ?e = "e\<lparr>env_pending_co := None, env_occupy_co := None\<rparr>"
  let ?w = "w0\<lparr>envs := (envs w)(env \<mapsto> ?e)\<rparr>"
  have p0: "cos w0 p = Some rp" "cos ?w p = Some rp" "cos ?w c \<noteq> None" using p rc by (simp_all add: w0_def)
  then obtain w1 where w1: "swap_tail fr c p ?w = Some w1" "same_stacks ?w w1" "switch_frame ?w w1"
     "envs w1 = envs ?w" "cos w1 p = cos ?w p"
    using swap_tail_ok [of ?w c _ p] p(2) by (metis option.exhaust)
  have out: "co_swap_out fr c p w = Some w1"
    unfolding co_swap_out_unfold [OF env w0 p0(1)] using p(3) e w1(1) by (simp add: set_env_def w0_def)
  have "same_stacks w0 ?w" by (rule same_stacksI) simp_all
  then have eqs: "content w1 x = content w0 x" "stack_bytes w1 x = stack_bytes w0 x" for x
    using same_stacks_eqs [OF w1(2)] same_stacks_eqs [of w0 ?w] by simp_all
  have "core_inv (Some p) (insert c S - {p}) w0"
    by (rule core_start_private [OF stop(1) p0(1) p(3)])
  then have inv1: "core_inv (Some p) (insert c S - {p}) w1"
    using same_stacks_inv [OF \<open>same_stacks w0 ?w\<close>] same_stacks_inv [OF w1(2)] by blast
  have "switch_frame w w0" using set_co_same [OF w0] by (simp add: same_co_def)
  moreover have "switch_frame w0 ?w" using e by (auto simp: switch_frame_def same_calls_def w0_def)
  ultimately have fr1: "switch_frame w w1" using w1(3) switch_frame_trans by blast
  have "stack_bytes w0 p = content w p" if "p \<in> S"
    using stop(2) [OF that] p p0(1) by (auto simp: content_def sharing_def split: if_splits)
  with inv1 fr1 show ?thesis
    unfolding switched_def using out stop(2,3) p p0 w1(4,5) eqs by auto
qed

text \<open>Copying out the occupant does not depend on who is entered as the next one.\<close>

lemma save_after_occupy:
  assumes "cos w oc = Some r" "stack_mem r = Some q" "stacks w q = Some s"
    and "save_stack_buffer oc w = Some (saved_world oc r (len_of s r) w)"
    and "stack_sp r \<le> stack_bp s" "stack_bp s < stack_sp r + 2 ^ 31"
    and "\<And>b. save_buffer r = Some b \<Longrightarrow> bufs w b \<noteq> None"
  shows "save_stack_buffer oc (w\<lparr>stacks := (stacks w)(q \<mapsto> s\<lparr>occupy_co := p\<rparr>), envs := E\<rparr>) =
    Some ((saved_world oc r (len_of s r) w)\<lparr>stacks := (stacks w)(q \<mapsto> s\<lparr>occupy_co := p\<rparr>), envs := E\<rparr>)"
    (is "save_stack_buffer oc ?w = Some ?w'")
proof -
  have "save_stack_buffer oc ?w = Some (saved_world oc r (len_of (s\<lparr>occupy_co := p\<rparr>) r) ?w)"
    using assms by (intro save_stack_buffer_eq) auto
  also have "saved_world oc r (len_of (s\<lparr>occupy_co := p\<rparr>) r) ?w = ?w'"
    by (simp add: saved_world_def len_of_def cong: option.case_cong)
  finally show ?thesis .
qed

text \<open>The state before \<open>coctx_swap\<close> when \<open>p\<close> takes the shared stack \<open>q\<close>.\<close>

lemma evict:
  assumes inv: "core_inv None T w"
    and r: "cos w p = Some r" "cIsShareStack r" "stack_mem r = Some q" "stacks w q = Some s"
  obtains w' where
    "(case occupy_co s of None \<Rightarrow> Some (w\<lparr>stacks := (stacks w)(q \<mapsto> s\<lparr>occupy_co := Some p\<rparr>), envs := E\<rparr>)
       | Some oc \<Rightarrow> if oc \<noteq> p
           then save_stack_buffer oc (w\<lparr>stacks := (stacks w)(q \<mapsto> s\<lparr>occupy_co := Some p\<rparr>), envs := E\<rparr>)
           else Some (w\<lparr>stacks := (stacks w)(q \<mapsto> s\<lparr>occupy_co := Some p\<rparr>), envs := E\<rparr>)) = Some w'"
    "core_inv (Some p) (T - {p}) w'" "\<And>x. x \<in> T \<Longrightarrow> x \<noteq> p \<Longrightarrow> content w' x = content w x"
    "envs w' = E" "switch_frame w (w'\<lparr>envs := envs w\<rparr>)" "\<And>x. cos w' x = None \<longleftrightarrow> cos w x = None"
    "cos w' p = Some r" "p \<in> T \<Longrightarrow> occupy_co s = Some p \<Longrightarrow> stack_bytes w' p = content w p"
    "p \<in> T \<Longrightarrow> occupy_co s \<noteq> Some p \<Longrightarrow> occupy_co s \<noteq> None \<and> saved_ok p w' \<and> saved_bytes w' p = content w p"
proof -
  note I = core_invD [OF inv]
  have occ_T: "occupants_ok T w" using I(5) by simp
  have occ_p: "occupies w p \<longleftrightarrow> occupy_co s = Some p"
    using r by (auto simp: occupies_def)
  let ?o = "\<lambda>w. w\<lparr>stacks := (stacks w)(q \<mapsto> s\<lparr>occupy_co := Some p\<rparr>)\<rparr>"
  show thesis
  proof (cases "occupy_co s = None \<or> occupy_co s = Some p")
    case True
    note occ = core_occupy [OF inv r]
    have old: "\<And>oc. occupy_co s = Some oc \<Longrightarrow> oc \<noteq> p \<Longrightarrow> saved_ok oc w \<and> saved_bytes w oc = content w oc"
      using True by auto
    have ss: "same_stacks (?o w) ((?o w)\<lparr>envs := E\<rparr>)" by (rule same_stacksI) simp_all
    have "p \<notin> T" if "occupy_co s = None"
    proof
      assume "p \<in> T"
      moreover have "shares_on w p q" using r by (auto simp: shares_on_def)
      ultimately show False
        using occ_T r(4) that unfolding occupants_ok_def by fastforce
    qed
    moreover have "switch_frame w (((?o w)\<lparr>envs := E\<rparr>)\<lparr>envs := envs w\<rparr>)"
      using r by (auto simp: switch_frame_def same_region_def)
    moreover have "stack_bytes w p = content w p" if "occupy_co s = Some p"
      using that occ_p by (simp add: content_def)
    ultimately show thesis
      using True r(1) same_stacks_inv [OF ss occ(1) [OF old]] occ(2) [OF old] occ(5) [OF old]
      by (intro that [of "(?o w)\<lparr>envs := E\<rparr>"]) (auto simp: same_stacks_eqs [OF ss])
  next
    case False
    then obtain oc where oc: "occupy_co s = Some oc" "oc \<noteq> p" by auto
    then have "case Some oc of None \<Rightarrow> \<forall>c\<in>T. \<not> shares_on w c q | Some oc \<Rightarrow> oc \<in> T \<and> shares_on w oc q"
      using occ_T r(4) unfolding occupants_ok_def by metis
    then obtain ro where "oc \<in> T" and ro: "cos w oc = Some ro" "cIsShareStack ro" "stack_mem ro = Some q"
      by (auto simp: shares_on_def)
    have "occupies w oc" using ro r(4) oc by (auto simp: occupies_def)
    note sv = core_save [OF inv \<open>oc \<in> T\<close> this ro(1,3) r(4) ro(2)]
    let ?s = "saved_world oc ro (len_of s ro) w"
    have bp: "stack_buffer s \<le> stack_sp ro" "stack_sp ro \<le> stack_bp s" "stack_bp s < stack_sp ro + 2 ^ 31"
      using I(1,4) I(6) [OF \<open>oc \<in> T\<close>] ro r(4) by (fastforce simp: stacks_ok_def suspended_ok_def main_ok_def)+
    have "save_buffer ro = Some b \<Longrightarrow> bufs w b \<noteq> None" for b
      using I(3) ro(1) unfolding buffers_ok_def by blast
    note sa = save_after_occupy [OF ro(1,3) r(4) sv(1) bp(2,3) this]
    have ps: "cos ?s p = Some r" "stacks ?s q = Some s"
      using r oc(2) by (simp_all add: saved_world_def)
    note occ = core_occupy [OF sv(2) ps(1) r(2,3) ps(2)]
    have old: "saved_ok oc' ?s \<and> saved_bytes ?s oc' = content ?s oc'" if "occupy_co s = Some oc'" "oc' \<noteq> p" for oc'
      using that oc sv(3,4) sv(5) [OF \<open>oc \<in> T\<close>] by simp
    have ss: "same_stacks (?o ?s) ((?o ?s)\<lparr>envs := E\<rparr>)" by (rule same_stacksI) simp_all
    have st: "stacks ?s = stacks w" by (simp add: saved_world_def)
    have "saved_ok p ?s" "saved_bytes ?s p = content w p" if "p \<in> T"
    proof -
      have "\<not> occupies w p" using occ_p oc by simp
      then have "saved_ok p w" "saved_bytes w p = content w p"
        using I(6) [OF that] r by (auto simp: suspended_ok_def content_def sharing_def)
      moreover have "\<not> occupies ?s p" using occ_p oc ps r by (auto simp: occupies_def)
      then have "saved_ok p ?s"
        using core_invD(6) [OF sv(2) that] ps r by (auto simp: suspended_ok_def)
      ultimately show "saved_ok p ?s" "saved_bytes ?s p = content w p"
        using sv(6) [OF that] oc(2) by simp_all
    qed
    moreover have "switch_frame w (((?o ?s)\<lparr>envs := E\<rparr>)\<lparr>envs := envs w\<rparr>)"
    proof -
      have "switch_frame w ?s" by (rule saved_world_frame [OF ro(1)])
      moreover have "switch_frame ?s (((?o ?s)\<lparr>envs := E\<rparr>)\<lparr>envs := envs w\<rparr>)"
        using ps by (auto simp: switch_frame_def same_region_def saved_world_def)
      ultimately show ?thesis by (rule switch_frame_trans)
    qed
    moreover have "cos ((?o ?s)\<lparr>envs := E\<rparr>) x = None \<longleftrightarrow> cos w x = None" for x
      using ro(1) by (simp add: saved_world_def)
    moreover have "saved_ok p ((?o ?s)\<lparr>envs := E\<rparr>) = saved_ok p ?s"
      "saved_bytes ((?o ?s)\<lparr>envs := E\<rparr>) p = saved_bytes ?s p"
      unfolding same_stacks_eqs [OF ss] using occ(3,4) [OF old] by simp_all
    moreover have "content ((?o ?s)\<lparr>envs := E\<rparr>) x = content w x" if "x \<in> T" "x \<noteq> p" for x
      unfolding same_stacks_eqs [OF ss] using occ(2) [OF old that] sv(5) [OF that(1)] by simp
    ultimately show thesis
      using oc ps(1) sa same_stacks_inv [OF ss occ(1) [OF old]] st
      by (intro that [of "(?o ?s)\<lparr>envs := E\<rparr>"]) simp_all
  qed
qed

lemma swap_shared:
  assumes inv: "core_inv (Some c) S w" and fr: "frame_ok fr c w" and env: "in_thread env w"
    and p: "cos w p = Some rp" "p \<noteq> c" "cIsShareStack rp"
  shows "\<exists>w1. co_swap_out fr c p w = Some w1 \<and> switched env fr c p S w w1"
proof -
  obtain rc where rc: "cos w c = Some rc" using core_invD(8) [OF inv] by auto
  define w0 where "w0 = w\<lparr>cos := (cos w)(c \<mapsto> rc\<lparr>stack_sp := c_addr fr\<rparr>)\<rparr>"
  have w0: "set_co (\<lambda>c. c\<lparr>stack_sp := c_addr fr\<rparr>) c w = Some w0"
    using rc by (simp add: w0_def set_co_def)
  note stop = core_stop [OF inv fr w0] frame_bytes_stop [OF inv fr w0]
  obtain e where e: "envs w env = Some e" using env by (auto simp: in_thread_def)
  have p0: "cos w0 p = Some rp" using p by (simp add: w0_def)
  obtain q s where q: "stack_mem rp = Some q" "stacks w0 q = Some s"
    using users_okD [OF core_invD(2) [OF stop(1)] p0] .
  let ?e = "e\<lparr>env_pending_co := Some p, env_occupy_co := occupy_co s\<rparr>"
  let ?E = "(envs w)(env \<mapsto> ?e)"
  let ?w = "w0\<lparr>stacks := (stacks w0)(q \<mapsto> s\<lparr>occupy_co := Some p\<rparr>), envs := ?E\<rparr>"
  obtain w2 where w2: "(case occupy_co s of None \<Rightarrow> Some ?w
       | Some oc \<Rightarrow> if oc \<noteq> p then save_stack_buffer oc ?w else Some ?w) = Some w2"
    and inv2: "core_inv (Some p) (insert c S - {p}) w2"
    and c2: "\<And>x. x \<in> insert c S \<Longrightarrow> x \<noteq> p \<Longrightarrow> content w2 x = content w0 x"
    and f2: "envs w2 = ?E" "switch_frame w0 (w2\<lparr>envs := envs w0\<rparr>)" "\<And>x. cos w2 x = None \<longleftrightarrow> cos w0 x = None"
      "cos w2 p = Some rp"
    and b2: "p \<in> insert c S \<Longrightarrow> occupy_co s = Some p \<Longrightarrow> stack_bytes w2 p = content w0 p"
      "p \<in> insert c S \<Longrightarrow> occupy_co s \<noteq> Some p \<Longrightarrow>
         occupy_co s \<noteq> None \<and> saved_ok p w2 \<and> saved_bytes w2 p = content w0 p"
    using evict [OF stop(1) p0 p(3) q, of ?E] by blast
  obtain r2 where "cos w2 c = Some r2" using f2(3) [of c] rc by (auto simp: w0_def)
  then obtain w1 where w1: "swap_tail fr c p w2 = Some w1" "same_stacks w2 w1" "switch_frame w2 w1"
     "envs w1 = envs w2" "cos w1 p = cos w2 p"
    using swap_tail_ok [OF _ f2(4)] p(2) by metis
  have "envs w0 = envs w" by (simp add: w0_def)
  then have out: "co_swap_out fr c p w = Some w1"
    unfolding co_swap_out_unfold [OF env w0 p0]
    using p(3) q e w2 w1(1) by (simp add: set_env_def set_stack_def cong: option.case_cong)
  have "switch_frame w w0" using set_co_same [OF w0] by (simp add: same_co_def)
  moreover have "switch_frame (w2\<lparr>envs := envs w0\<rparr>) w2"
    using e f2(1) by (auto simp: switch_frame_def same_calls_def w0_def)
  ultimately have fr1: "switch_frame w w1" using w1(3) f2(2) switch_frame_trans by blast
  have "core_inv (Some p) (insert c S - {p}) w1" using same_stacks_inv [OF w1(2) inv2] .
  moreover have "content w1 x = content w x" if "x \<in> S - {p}" for x
    using that c2 [of x] stop(2) [of x] by (simp add: same_stacks_eqs [OF w1(2)])
  moreover have "content w1 c = frame_bytes fr w c"
    using c2 [of c] stop(3) p(2) by (simp add: same_stacks_eqs [OF w1(2)])
  moreover have "\<exists>e r r1. envs w1 env = Some e \<and> cos w p = Some r \<and> cos w1 p = Some r1 \<and> stack_sp r1 = stack_sp r \<and>
       (if cIsShareStack r1 \<and> env_occupy_co e \<noteq> Some p
        then env_occupy_co e \<noteq> None \<and> env_pending_co e = Some p \<and> saved_ok p w1 \<and> saved_bytes w1 p = content w p
        else env_occupy_co e = env_pending_co e \<and> stack_bytes w1 p = content w p)" if "p \<in> S"
    using that b2 p(1,3) f2(1,4) w1(4,5) stop(2) [OF that] by (simp add: same_stacks_eqs [OF w1(2)])
  ultimately show ?thesis
    unfolding switched_def using out fr1 by blast
qed

lemma copy_in_map:
  assumes "length bs = n"
  shows "map (copy_in p bs m) [p ..< p + n] = bs"
  using assms by (intro nth_equalityI) (simp_all add: copy_in_def)

text \<open>The second half of \<open>co_swap\<close>, in the coroutine that is resumed.\<close>

lemma swap_in:
  assumes inv: "core_inv (Some c) S w" and sw: "switched env fr c p S w w1" and env: "in_thread env w1" and p: "p \<in> S"
    and pr: "cos w p = Some r"
  shows "\<exists>w2. co_swap_in w1 = Some w2 \<and> core_inv (Some p) (insert c S - {p}) w2 \<and>
    stack_bytes w2 p = content w p \<and> switch_frame w w2 \<and> (\<exists>m. w2 = w1\<lparr>mem := m\<rparr>) \<and>
    (\<forall>x r. x \<in> insert c S - {p} \<longrightarrow> cos w x = Some r \<longrightarrow> \<not> cIsMain r \<longrightarrow> content w2 x = content w1 x)"
proof -
  obtain e r1 where e: "envs w1 env = Some e" and r1: "cos w1 p = Some r1" "stack_sp r1 = stack_sp r"
    and alt: "if cIsShareStack r1 \<and> env_occupy_co e \<noteq> Some p
        then env_occupy_co e \<noteq> None \<and> env_pending_co e = Some p \<and> saved_ok p w1 \<and> saved_bytes w1 p = content w p
        else env_occupy_co e = env_pending_co e \<and> stack_bytes w1 p = content w p"
    using sw p pr unfolding switched_def by auto
  have inv1: "core_inv (Some p) (insert c S - {p}) w1" and f1: "switch_frame w w1"
    using sw by (simp_all add: switched_def)
  show ?thesis
  proof (cases "cIsShareStack r1 \<and> env_occupy_co e \<noteq> Some p")
    case False
    then have "co_swap_in w1 = Some w1"
      using alt e env by (auto simp: co_swap_in_def in_thread_def split: option.splits)
    moreover have "\<exists>m. w1 = w1\<lparr>mem := m\<rparr>" by (rule exI [of _ "mem w1"]) simp
    ultimately show ?thesis using False alt inv1 f1 by (intro exI [of _ w1]) auto
  next
    case True
    then obtain oc q s b bs where oc: "env_occupy_co e = Some oc" "oc \<noteq> p" "env_pending_co e = Some p"
      and q: "stack_mem r1 = Some q" "stacks w1 q = Some s" "save_buffer r1 = Some b" "bufs w1 b = Some bs"
        "length bs = stack_bp s - stack_sp r1" "unat (save_size r1) = length bs"
      and bs: "saved_bytes w1 p = content w p"
      using alt r1(1) by (auto simp: saved_ok_def)
    have bs: "content w p = bs" using bs r1(1) q by (simp add: saved_bytes_def)
    have f: "rel_option same_co (cos w x) (cos w1 x)" "rel_option same_region (stacks w y) (stacks w1 y)" for x y
      using f1 by (simp_all add: switch_frame_def)
    obtain s0 where s0: "stacks w q = Some s0" "same_region s0 s"
      using f(2) [of q] q(2) by (cases "stacks w q") auto
    have "same_co r r1" using f(1) [of p] pr r1(1) by simp
    moreover from this have "\<not> cIsMain r"
      using True core_invD(4) [OF inv] pr by (auto simp: same_co_def main_ok_def)
    ultimately have sp: "stack_buffer s \<le> stack_sp r1" "stack_sp r1 \<le> stack_bp s"
      using core_invD(6) [OF inv p] pr s0 q(1) r1(2)
      by (auto simp: suspended_ok_def same_co_def same_region_def)
    define m where "m = copy_in (stack_sp r1) bs (mem w1)"
    have "co_swap_in w1 = Some (w1\<lparr>mem := (if 0 < save_size r1 then m else mem w1)\<rparr>)"
      using oc q e r1 env by (simp add: co_swap_in_def in_thread_def m_def)
    moreover have "(if 0 < save_size r1 then m else mem w1) = m"
    proof (cases "0 < save_size r1")
      case False
      then have "save_size r1 = 0" using word_neq_0_conv [of "save_size r1"] by blast
      then have "bs = []" using q(6) by simp
      then show ?thesis by (auto simp: m_def copy_in_def fun_eq_iff)
    qed simp
    ultimately have in1: "co_swap_in w1 = Some (w1\<lparr>mem := m\<rparr>)" by simp
    have other: "m a = mem w1 a"
      if "stacks w1 q' = Some s'" "stack_buffer s' \<le> a" "a < stack_bp s'"
        "\<And>r. cos w1 p = Some r \<Longrightarrow> stack_mem r \<noteq> Some q'" for a q' s'
    proof -
      have "q' \<noteq> q" using that(4) r1(1) q(1) by auto
      then have "stack_bp s \<le> stack_buffer s' \<or> stack_bp s' \<le> stack_buffer s"
        using core_invD(1) [OF inv1] q(2) that(1) unfolding stacks_ok_def by blast
      then show ?thesis using that(2,3) sp q(5) by (auto simp: m_def copy_in_def)
    qed
    have wr: "core_inv (Some p) (insert c S - {p}) (w1\<lparr>mem := m\<rparr>)"
      using other by (intro core_write(1) [OF inv1]) blast
    have wr2: "content (w1\<lparr>mem := m\<rparr>) x = content w1 x"
      if "x \<in> insert c S - {p}" "cos w1 x = Some r" "\<not> cIsMain r" for x r
      using other by (intro core_write(2) [OF inv1 _ that]) blast
    have "stack_bytes (w1\<lparr>mem := m\<rparr>) p = bs"
      using r1(1) q(1,2,5) sp copy_in_map [of bs "stack_bp s - stack_sp r1" "stack_sp r1" "mem w1"]
      by (simp add: stack_bytes_def m_def)
    moreover have "switch_frame w (w1\<lparr>mem := m\<rparr>)"
      using f1 by (simp add: switch_frame_def)
    moreover have "content (w1\<lparr>mem := m\<rparr>) x = content w1 x"
      if x: "x \<in> insert c S - {p}" "cos w x = Some rx" "\<not> cIsMain rx" for x rx
    proof -
      obtain rx1 where "cos w1 x = Some rx1" "\<not> cIsMain rx1"
        using f(1) [of x] x(2,3) by (cases "cos w1 x") (auto simp: same_co_def)
      then show ?thesis using wr2 x(1) by blast
    qed
    ultimately show ?thesis
      using in1 wr bs by (intro exI [of _ "w1\<lparr>mem := m\<rparr>"]) auto
  qed
qed

lemma do_switch:
  assumes inv: "core_inv (Some c) S w" and fr: "frame_ok fr c w" and env: "in_thread env w"
    and p: "cos w p = Some rp" "p \<noteq> c"
  obtains w1 w2 where "co_swap_out fr c p w = Some w1"
    "(if p \<in> S then co_swap_in w1 else Some w1) = Some w2"
    "core_inv (Some p) (insert c S - {p}) w2" "switch_frame w w2"
    "\<forall>x r. x \<in> S - {p} \<longrightarrow> cos w x = Some r \<longrightarrow> \<not> cIsMain r \<longrightarrow> content w2 x = content w x"
    "\<forall>r. cos w c = Some r \<longrightarrow> \<not> cIsMain r \<longrightarrow> content w2 c = frame_bytes fr w c"
    "p \<in> S \<longrightarrow> stack_bytes w2 p = content w p"
proof -
  obtain w1 where w1: "co_swap_out fr c p w = Some w1" "switched env fr c p S w w1"
    using swap_private [OF inv fr env p(1,2)] swap_shared [OF inv fr env p(1,2)] by blast
  show thesis
  proof (cases "p \<in> S")
    case False
    then show thesis using w1 by (intro that [of w1 w1]) (auto simp: switched_def)
  next
    case True
    have "in_thread env w1" using w1(2) env in_thread_frame by (auto simp: switched_def)
    from swap_in [OF inv w1(2) this True p(1)] obtain w2 where
      "co_swap_in w1 = Some w2" "core_inv (Some p) (insert c S - {p}) w2" "stack_bytes w2 p = content w p"
      "switch_frame w w2"
      "\<And>x r. x \<in> insert c S - {p} \<Longrightarrow> cos w x = Some r \<Longrightarrow> \<not> cIsMain r \<Longrightarrow> content w2 x = content w1 x"
      by blast
    then show thesis using w1 True p(2)
      by (intro that [of w1 w2]) (auto simp: switched_def)
  qed
qed

section \<open>The call stack of a thread\<close>

definition calls :: "stCoRoutineEnv_t \<Rightarrow> addr list" where
  "calls e = map the (take (nat (iCallStackSize e)) (pCallStack e))"

definition started :: "world \<Rightarrow> addr \<Rightarrow> bool" where
  "started w c \<longleftrightarrow> (\<exists>r. cos w c = Some r \<and> (cStart r \<or> cIsMain r))"

definition mains :: "world \<Rightarrow> addr \<Rightarrow> bool" where
  "mains w c \<longleftrightarrow> (\<exists>r. cos w c = Some r \<and> cIsMain r)"

definition calls_ok :: "world \<Rightarrow> stCoRoutineEnv_t \<Rightarrow> bool" where
  "calls_ok w e \<longleftrightarrow> length (pCallStack e) = 128 \<and> 1 \<le> iCallStackSize e \<and> iCallStackSize e \<le> 128 \<and>
     (\<forall>i < nat (iCallStackSize e). pCallStack e ! i \<noteq> None) \<and> distinct (calls e) \<and>
     (\<forall>c \<in> set (calls e). started w c \<and> (\<exists>r. cos w c = Some r \<and> \<not> cEnd r)) \<and>
     (\<forall>c. mains w c \<longrightarrow> c = hd (calls e))"

definition thread_calls :: "addr \<Rightarrow> world \<Rightarrow> addr list" where
  "thread_calls env w = (case envs w env of None \<Rightarrow> [] | Some e \<Rightarrow> calls e)"

definition running :: "addr \<Rightarrow> world \<Rightarrow> addr" where
  "running env w = last (thread_calls env w)"

definition suspended :: "addr \<Rightarrow> world \<Rightarrow> addr set" where
  "suspended env w = {c. started w c \<and> c \<noteq> running env w}"

lemma calls_length: "calls_ok w e \<Longrightarrow> length (calls e) = nat (iCallStackSize e)"
  by (auto simp: calls_ok_def calls_def min_def nat_le_iff)

lemma calls_nth:
  assumes "calls_ok w e" "i < nat (iCallStackSize e)"
  shows "pCallStack e ! i = Some (calls e ! i)"
  using assms by (auto simp: calls_ok_def calls_def)

lemma call_at_calls:
  assumes "calls_ok w e" "0 \<le> i" "i < iCallStackSize e"
  shows "call_at e i = Some (Some (calls e ! nat i))"
proof -
  have "nat i < nat (iCallStackSize e)" "i < int (length (pCallStack e))"
    using assms by (auto simp: calls_ok_def)
  then show ?thesis using calls_nth [OF assms(1)] assms(2) by (simp add: call_at_def)
qed

lemma call_at_last:
  assumes "calls_ok w e"
  shows "call_at e (iCallStackSize e - 1) = Some (Some (last (calls e)))"
proof -
  have n: "1 \<le> iCallStackSize e" using assms by (simp add: calls_ok_def)
  have "calls e \<noteq> []" using calls_length [OF assms] n by auto
  then have "last (calls e) = calls e ! nat (iCallStackSize e - 1)"
    using calls_length [OF assms] n by (simp add: last_conv_nth nat_diff_distrib)
  then show ?thesis using call_at_calls [OF assms, of "iCallStackSize e - 1"] n by simp
qed

lemma push_call_calls:
  assumes "calls_ok w e" "iCallStackSize e < 128"
  obtains e' where "push_call co e = Some e'" "calls e' = calls e @ [co]"
    "length (pCallStack e') = 128" "iCallStackSize e' = iCallStackSize e + 1"
    "\<forall>i < nat (iCallStackSize e'). pCallStack e' ! i \<noteq> None"
proof -
  let ?n = "nat (iCallStackSize e)"
  have n: "0 \<le> iCallStackSize e" "?n < 128" "length (pCallStack e) = 128"
    "\<forall>i < ?n. pCallStack e ! i \<noteq> None"
    using assms by (auto simp: calls_ok_def)
  let ?e = "e\<lparr>pCallStack := (pCallStack e)[?n := Some co], iCallStackSize := iCallStackSize e + 1\<rparr>"
  have "nat (iCallStackSize e + 1) = Suc ?n" using n(1) by simp
  then have "calls ?e = calls e @ [co]"
    using n by (simp add: calls_def take_Suc_conv_app_nth)
  moreover have "push_call co e = Some ?e" using n assms(2) by (simp add: push_call_def)
  moreover have "\<forall>i < nat (iCallStackSize ?e). pCallStack ?e ! i \<noteq> None"
    using n by (simp add: nth_list_update nat_add_distrib)
  ultimately show thesis using that n by simp
qed

lemma pop_call_calls:
  assumes "calls_ok w e"
  shows "calls (iCallStackSize_update (\<lambda>n. n - 1) e) = butlast (calls e)"
proof -
  have "nat (iCallStackSize e) \<le> 128" "length (pCallStack e) = 128" "1 \<le> iCallStackSize e"
    using assms by (auto simp: calls_ok_def)
  then show ?thesis
    by (simp add: calls_def butlast_take nat_diff_distrib flip: map_butlast)
qed

definition shares_ok :: "world \<Rightarrow> bool" where
  "shares_ok w \<longleftrightarrow> (\<forall>p sh. shares w p = Some sh \<longrightarrow>
     share_count sh = int (length (stack_array sh)) \<and> stack_array sh \<noteq> [] \<and>
     length (stack_array sh) < 2 ^ 31 \<and>
     (\<forall>q \<in> set (stack_array sh). stacks w q \<noteq> None \<and>
        (\<forall>c r. cos w c = Some r \<longrightarrow> stack_mem r = Some q \<longrightarrow> cIsShareStack r)))"

definition heap_ok :: "world \<Rightarrow> bool" where
  "heap_ok w \<longleftrightarrow> (\<forall>x. cos w x \<noteq> None \<or> stacks w x \<noteq> None \<or> shares w x \<noteq> None \<longrightarrow> x < brk w)"

definition thread_inv :: "addr \<Rightarrow> world \<Rightarrow> bool" where
  "thread_inv env w \<longleftrightarrow> in_thread env w \<and> (\<exists>e. envs w env = Some e \<and> calls_ok w e) \<and>
     core_inv (Some (running env w)) (suspended env w) w \<and>
     (\<forall>c r. cos w c = Some r \<longrightarrow> co_env r = env) \<and> shares_ok w \<and> heap_ok w"

lemma thread_invD:
  assumes "thread_inv env w"
  obtains e where "envs w env = Some e" "calls_ok w e" "thread_calls env w = calls e"
    "in_thread env w" "core_inv (Some (running env w)) (suspended env w) w"
    "\<forall>c r. cos w c = Some r \<longrightarrow> co_env r = env" "shares_ok w" "heap_ok w"
  using assms by (auto simp: thread_inv_def thread_calls_def)

lemma frame_co:
  assumes "switch_frame w w'"
  shows "cos w x = None \<and> cos w' x = None \<or>
    (\<exists>r r'. cos w x = Some r \<and> cos w' x = Some r' \<and> same_co r r')"
proof -
  have "rel_option same_co (cos w x) (cos w' x)" using assms by (simp add: switch_frame_def)
  then show ?thesis by cases auto
qed

lemma frame_stack:
  assumes "switch_frame w w'"
  shows "stacks w x = None \<and> stacks w' x = None \<or>
    (\<exists>r r'. stacks w x = Some r \<and> stacks w' x = Some r' \<and> same_region r r')"
proof -
  have "rel_option same_region (stacks w x) (stacks w' x)" using assms by (simp add: switch_frame_def)
  then show ?thesis by cases auto
qed

lemma started_frame:
  assumes "switch_frame w w'"
  shows "started w' x = started w x"
    "(\<exists>r. cos w' x = Some r \<and> \<not> cEnd r) = (\<exists>r. cos w x = Some r \<and> \<not> cEnd r)"
    "mains w' x = mains w x"
  using frame_co [OF assms, of x] by (auto simp: started_def same_co_def mains_def)

lemma calls_frame:
  assumes f: "switch_frame w w'" and e: "envs w env = Some e"
  obtains e' where "envs w' env = Some e'" "calls_ok w' e' = calls_ok w e" "calls e' = calls e"
    "thread_calls env w' = calls e"
proof -
  have "rel_option same_calls (envs w env) (envs w' env)" using f by (simp add: switch_frame_def)
  then obtain e' where e': "envs w' env = Some e'" "same_calls e e'"
    using e by (cases "envs w' env") auto
  then have "calls e' = calls e" by (simp add: calls_def same_calls_def)
  moreover have "calls_ok w' e' = calls_ok w e"
    using e'(2) \<open>calls e' = calls e\<close> unfolding calls_ok_def started_frame [OF f] by (simp add: same_calls_def)
  ultimately show thesis using that e'(1) by (simp add: thread_calls_def)
qed

lemma shares_ok_cong:
  assumes "shares_ok w" "shares w' = shares w" "\<And>q. stacks w q \<noteq> None \<Longrightarrow> stacks w' q \<noteq> None"
    and co: "\<And>x r'. cos w' x = Some r' \<Longrightarrow> \<exists>r. cos w x = Some r \<and> stack_mem r' = stack_mem r \<and>
      cIsShareStack r' = cIsShareStack r"
  shows "shares_ok w'"
  unfolding shares_ok_def
proof (intro allI impI)
  fix p sh assume p: "shares w' p = Some sh"
  have old: "share_count sh = int (length (stack_array sh)) \<and> stack_array sh \<noteq> [] \<and>
       length (stack_array sh) < 2 ^ 31 \<and>
       (\<forall>q \<in> set (stack_array sh). stacks w q \<noteq> None \<and>
        (\<forall>c r. cos w c = Some r \<longrightarrow> stack_mem r = Some q \<longrightarrow> cIsShareStack r))"
    using assms(1) p unfolding shares_ok_def assms(2) by blast
  moreover have "cIsShareStack r'"
    if a: "q \<in> set (stack_array sh)" "cos w' c = Some r'" "stack_mem r' = Some q" for q c r'
    using co [OF a(2)] a(1,3) old by auto
  ultimately show "share_count sh = int (length (stack_array sh)) \<and> stack_array sh \<noteq> [] \<and>
       length (stack_array sh) < 2 ^ 31 \<and>
       (\<forall>q \<in> set (stack_array sh). stacks w' q \<noteq> None \<and>
        (\<forall>c r. cos w' c = Some r \<longrightarrow> stack_mem r = Some q \<longrightarrow> cIsShareStack r))"
    using assms(3) by blast
qed

lemma heap_frame:
  assumes f: "switch_frame w w'"
  shows "shares_ok w \<Longrightarrow> shares_ok w'" "heap_ok w \<Longrightarrow> heap_ok w'"
    "\<forall>c r. cos w c = Some r \<longrightarrow> co_env r = env \<Longrightarrow> \<forall>c r. cos w' c = Some r \<longrightarrow> co_env r = env"
proof -
  have sh: "shares w' = shares w" and brk: "brk w \<le> brk w'" using f by (simp_all add: switch_frame_def)
  have st: "stacks w q \<noteq> None \<longleftrightarrow> stacks w' q \<noteq> None" for q using frame_stack [OF f, of q] by auto
  have dom: "cos w x \<noteq> None \<longleftrightarrow> cos w' x \<noteq> None" for x using frame_co [OF f, of x] by auto
  show "shares_ok w'" if "shares_ok w"
  proof (rule shares_ok_cong [OF that sh])
    show "stacks w q \<noteq> None \<Longrightarrow> stacks w' q \<noteq> None" for q using st by simp
    show "\<exists>r. cos w x = Some r \<and> stack_mem r' = stack_mem r \<and> cIsShareStack r' = cIsShareStack r"
      if "cos w' x = Some r'" for x r'
      using frame_co [OF f, of x] that by (auto simp: same_co_def)
  qed
  show "heap_ok w \<Longrightarrow> heap_ok w'"
    unfolding heap_ok_def st [symmetric] dom [symmetric] sh using brk by (meson less_le_trans)
  show "\<forall>c r. cos w' c = Some r \<longrightarrow> co_env r = env" if "\<forall>c r. cos w c = Some r \<longrightarrow> co_env r = env"
  proof (intro allI impI)
    fix c r assume "cos w' c = Some r"
    then show "co_env r = env" using frame_co [OF f, of c] that by (auto simp: same_co_def)
  qed
qed

lemma running_calls: "calls_ok w e \<Longrightarrow> calls e \<noteq> [] \<and> last (calls e) \<in> set (calls e)"
  using calls_length [of w e] by (cases "calls e") (auto simp: calls_ok_def)

text \<open>A switch from \<open>c\<close> to \<open>p\<close>, as the rest of the program sees it.\<close>

definition same_layout :: "world \<Rightarrow> world \<Rightarrow> bool" where
  "same_layout w w' \<longleftrightarrow>
     (\<forall>x r. cos w x = Some r \<longrightarrow> (\<exists>r'. cos w' x = Some r' \<and> stack_mem r' = stack_mem r \<and>
        cIsMain r' = cIsMain r \<and> cIsShareStack r' = cIsShareStack r)) \<and>
     (\<forall>q s. stacks w q = Some s \<longrightarrow> (\<exists>s'. stacks w' q = Some s' \<and> same_region s s'))"

definition switches_to :: "addr \<Rightarrow> frame \<Rightarrow> addr \<Rightarrow> addr \<Rightarrow> world \<Rightarrow> world \<Rightarrow> bool" where
  "switches_to env fr c p w w' \<longleftrightarrow> running env w' = p \<and>
     suspended env w' = insert c (suspended env w) - {p} \<and> same_layout w w' \<and>
     (\<forall>x r. x \<in> suspended env w - {p} \<longrightarrow> cos w x = Some r \<longrightarrow> \<not> cIsMain r \<longrightarrow> content w' x = content w x) \<and>
     (\<forall>r. cos w c = Some r \<longrightarrow> \<not> cIsMain r \<longrightarrow> content w' c = frame_bytes fr w c) \<and>
     (p \<in> suspended env w \<longrightarrow> stack_bytes w' p = content w p)"

lemma frame_layout: "switch_frame w w' \<Longrightarrow> same_layout w w'"
proof -
  assume f: "switch_frame w w'"
  show ?thesis
    unfolding same_layout_def
  proof (intro conjI allI impI)
    fix x r assume "cos w x = Some r"
    then show "\<exists>r'. cos w' x = Some r' \<and> stack_mem r' = stack_mem r \<and>
        cIsMain r' = cIsMain r \<and> cIsShareStack r' = cIsShareStack r"
      using frame_co [OF f, of x] by (auto simp: same_co_def)
  next
    fix q s assume "stacks w q = Some s"
    then show "\<exists>s'. stacks w' q = Some s' \<and> same_region s s'"
      using frame_stack [OF f, of q] by auto
  qed
qed

lemma same_layout_trans:
  assumes a: "same_layout w1 w2" and b: "same_layout w2 w3"
  shows "same_layout w1 w3"
  unfolding same_layout_def
proof (intro conjI allI impI)
  fix x r assume "cos w1 x = Some r"
  then obtain r2 where r2: "cos w2 x = Some r2" "stack_mem r2 = stack_mem r"
      "cIsMain r2 = cIsMain r" "cIsShareStack r2 = cIsShareStack r"
    using a unfolding same_layout_def by blast
  then obtain r3 where "cos w3 x = Some r3" "stack_mem r3 = stack_mem r2"
      "cIsMain r3 = cIsMain r2" "cIsShareStack r3 = cIsShareStack r2"
    using b unfolding same_layout_def by blast
  with r2 show "\<exists>r'. cos w3 x = Some r' \<and> stack_mem r' = stack_mem r \<and>
        cIsMain r' = cIsMain r \<and> cIsShareStack r' = cIsShareStack r" by simp
next
  fix q s assume "stacks w1 q = Some s"
  then obtain s2 where s2: "stacks w2 q = Some s2" "same_region s s2"
    using a unfolding same_layout_def by blast
  then obtain s3 where "stacks w3 q = Some s3" "same_region s2 s3"
    using b unfolding same_layout_def by blast
  with s2 show "\<exists>s'. stacks w3 q = Some s' \<and> same_region s s'" by (simp add: same_region_def)
qed

lemma resume_ok:
  assumes inv: "thread_inv env w" and co: "cos w co = Some r" "\<not> cEnd r"
    and "co \<notin> set (thread_calls env w)" and room: "length (thread_calls env w) < 128"
    and fr: "frame_ok fr (running env w) w"
  obtains w' where "co_resume fr co w = Some w'" "thread_inv env w'"
    "thread_calls env w' = thread_calls env w @ [co]"
    "switches_to env fr (running env w) co w w'"
proof -
  from inv obtain e where e: "envs w env = Some e" and ok: "calls_ok w e" and tc: "thread_calls env w = calls e"
    and th: "in_thread env w" and core: "core_inv (Some (running env w)) (suspended env w) w"
    and own: "\<forall>c r. cos w c = Some r \<longrightarrow> co_env r = env" and sh: "shares_ok w" and hp: "heap_ok w"
    by (rule thread_invD)
  let ?run = "running env w" and ?S = "suspended env w"
  have run: "?run = last (calls e)" "?run \<in> set (calls e)" "calls e \<noteq> []"
    using running_calls [OF ok] tc by (simp_all add: running_def)
  have neq: "co \<noteq> ?run" using assms(4) run tc by auto
  have rS: "started w ?run" using ok run(2) by (auto simp: calls_ok_def)
  define w1 where "w1 = (if cStart r then w else w\<lparr>cos := (cos w)(co \<mapsto>
     r\<lparr>co_ctx := coctx_make (co_ctx r) CoRoutineFunc_addr (of_nat co) 0, cStart := True\<rparr>)\<rparr>)"
  have room': "iCallStackSize e < 128" using room calls_length [OF ok] tc by simp
  obtain e' where e': "push_call co e = Some e'" "calls e' = calls e @ [co]"
    "length (pCallStack e') = 128" "iCallStackSize e' = iCallStackSize e + 1"
    "\<forall>i < nat (iCallStackSize e'). pCallStack e' ! i \<noteq> None"
    by (rule push_call_calls [OF ok room'])
  define w2 where "w2 = w1\<lparr>envs := (envs w1)(env \<mapsto> e')\<rparr>"
  have w1: "envs w1 = envs w" by (simp add: w1_def)
  obtain r2 where r2: "cos w2 co = Some r2" "cEnd r2 = cEnd r" "cStart r2"
    using co by (cases "cStart r") (auto simp: w2_def w1_def)
  have cos2: "cos w2 x = cos w x" if "x \<noteq> co" for x using that by (simp add: w2_def w1_def)
  have start2: "started w2 x \<longleftrightarrow> started w x \<or> x = co" for x
    using r2 cos2 [of x] by (cases "x = co") (auto simp: started_def)
  have alive2: "(\<exists>r. cos w2 x = Some r \<and> \<not> cEnd r) = (\<exists>r. cos w x = Some r \<and> \<not> cEnd r)" for x
    using r2 co cos2 [of x] by (cases "x = co") auto
  have mains2: "mains w2 x = mains w x" for x
    using co(1) by (cases "cStart r") (auto simp: mains_def w2_def w1_def)
  have ss1: "same_stacks w w1"
    using co(1) by (cases "cStart r") (auto simp: w1_def same_stacks_def same_stack_def)
  then have ss: "same_stacks w w2" by (simp add: same_stacks_def w2_def)
  have core2: "core_inv (Some ?run) ?S w2" by (rule same_stacks_inv [OF ss core])
  have th2: "in_thread env w2"
    using th by (auto simp: in_thread_def co_get_curr_thread_env_def w2_def w1_def split: if_splits)
  have fr2: "frame_ok fr ?run w2" "frame_bytes fr w2 ?run = frame_bytes fr w ?run"
    using fr cos2 [of ?run] neq by (auto simp: frame_ok_def frame_bytes_def w2_def w1_def cong: option.case_cong)
  obtain w3 w4 where out: "co_swap_out fr ?run co w2 = Some w3"
    and bk: "(if co \<in> ?S then co_swap_in w3 else Some w3) = Some w4"
    and core4: "core_inv (Some co) (insert ?run ?S - {co}) w4" and f4: "switch_frame w2 w4"
    and cont: "\<forall>x r. x \<in> ?S - {co} \<longrightarrow> cos w2 x = Some r \<longrightarrow> \<not> cIsMain r \<longrightarrow> content w4 x = content w2 x"
      "\<forall>r. cos w2 ?run = Some r \<longrightarrow> \<not> cIsMain r \<longrightarrow> content w4 ?run = frame_bytes fr w2 ?run"
      "co \<in> ?S \<longrightarrow> stack_bytes w4 co = content w2 co"
    by (rule do_switch [OF core2 fr2(1) th2 r2(1) neq])
  have "hd (calls e) \<in> set (calls e)" using run(3) by simp
  then have main: "\<not> cIsMain r"
    using ok co(1) assms(4) tc unfolding calls_ok_def mains_def by auto
  then have S: "co \<in> ?S \<longleftrightarrow> cStart r" using neq co(1) by (auto simp: suspended_def started_def)
  have e2: "envs w2 env = Some e'" by (simp add: w2_def)
  obtain e4 where e4: "envs w4 env = Some e4" "calls_ok w4 e4 = calls_ok w2 e'" "thread_calls env w4 = calls e'"
    by (rule calls_frame [OF f4 e2])
  have ok2: "calls_ok w2 e'"
    unfolding calls_ok_def start2 alive2 mains2 using ok e' co assms(4) tc run(3) room' by (auto simp: calls_ok_def)
  have run4: "running env w4 = co" using e4(3) e'(2) by (simp add: running_def)
  have sus4: "suspended env w4 = insert ?run ?S - {co}"
    using run4 rS by (auto simp: suspended_def started_frame [OF f4] start2)
  obtain r4 where r4: "cos w4 co = Some r4" "\<not> cEnd r4"
    using started_frame(2) [OF f4, of co] alive2 [of co] co by auto
  have res: "co_resume fr co w = Some w4"
  proof -
    have "co_resume fr co w = co_swap_out fr ?run co w2 \<bind> resume_point (cStart r) co"
      using co(1) own e call_at_last [OF ok] e'(1) run(1)
      by (auto simp: co_resume_def set_co_def w2_def w1_def)
    also have "\<dots> = Some w4"
      using out bk r4 S by (auto simp: resume_point_def)
    finally show ?thesis .
  qed
  have "shares_ok w2"
    using sh by (rule shares_ok_cong) (auto simp: w2_def w1_def co split: if_splits)
  note sh4 = heap_frame(1) [OF f4 this]
  have "heap_ok w2"
    using hp co(1) by (auto simp: heap_ok_def w2_def w1_def)
  note hp4 = heap_frame(2) [OF f4 this]
  have "\<forall>c r. cos w2 c = Some r \<longrightarrow> co_env r = env"
    using own co(1) by (auto simp: w2_def w1_def)
  note own4 = heap_frame(3) [OF f4 this]
  have inv4: "thread_inv env w4"
    unfolding thread_inv_def run4 sus4
    using in_thread_frame [OF f4 th2] e4(1,2) ok2 core4 sh4 hp4 own4 by blast
  have "same_layout w w2"
    using co(1) by (auto simp: same_layout_def w2_def w1_def)
  then have lay: "same_layout w w4"
    using frame_layout [OF f4] by (rule same_layout_trans)
  have "switches_to env fr ?run co w w4"
    unfolding switches_to_def
    using run4 sus4 lay cont cos2 fr2(2) neq by (auto simp: same_stacks_eqs [OF ss])
  with res inv4 e4(3) e'(2) tc show thesis using that by simp
qed

text \<open>The state in which \<open>run\<close> is about to yield, having ended or not.\<close>

definition with_end :: "bool \<Rightarrow> addr \<Rightarrow> world \<Rightarrow> world" where
  "with_end b c w = (case cos w c of None \<Rightarrow> w | Some r \<Rightarrow> w\<lparr>cos := (cos w)(c \<mapsto> r\<lparr>cEnd := b\<rparr>)\<rparr>)"

lemma yield_core:
  assumes inv: "thread_inv env w" and two: "2 \<le> length (thread_calls env w)"
    and fr: "frame_ok fr (running env w) w"
  obtains w' where "co_yield_env fr env (with_end b (running env w) w) = Some w'" "thread_inv env w'"
    "thread_calls env w' = butlast (thread_calls env w)"
    "switches_to env fr (running env w) (last (butlast (thread_calls env w))) w w'"
proof -
  from inv obtain e where e: "envs w env = Some e" and ok: "calls_ok w e" and tc: "thread_calls env w = calls e"
    and th: "in_thread env w" and core: "core_inv (Some (running env w)) (suspended env w) w"
    and own: "\<forall>c r. cos w c = Some r \<longrightarrow> co_env r = env" and sh: "shares_ok w" and hp: "heap_ok w"
    by (rule thread_invD)
  let ?run = "running env w" and ?S = "suspended env w" and ?cs = "calls e"
  define p where "p = last (butlast ?cs)"
  have run: "?run = last ?cs" "?run \<in> set ?cs" "?cs \<noteq> []"
    using running_calls [OF ok] tc by (simp_all add: running_def)
  have split: "?cs = butlast ?cs @ [?run]" "butlast ?cs \<noteq> []"
    using run(1,3) two tc by (auto simp flip: length_greater_0_conv)
  have dist: "distinct ?cs" using ok by (simp add: calls_ok_def)
  have p: "p \<in> set (butlast ?cs)" "p \<in> set ?cs"
    using split unfolding p_def by (metis last_in_set, metis in_set_butlastD last_in_set)
  have neq: "p \<noteq> ?run"
    using p(1) split dist by (metis distinct_append disjoint_iff list.set_intros(1))
  have pS: "p \<in> ?S" "started w ?run"
    using ok p(2) run(2) neq by (auto simp: suspended_def calls_ok_def)
  obtain r where r: "cos w ?run = Some r" using core_invD(8) [OF core] by auto
  define w1 where "w1 = with_end b ?run w"
  have w1: "w1 = w\<lparr>cos := (cos w)(?run \<mapsto> r\<lparr>cEnd := b\<rparr>)\<rparr>" using r by (simp add: w1_def with_end_def)
  let ?e = "iCallStackSize_update (\<lambda>n. n - 1) e"
  define w2 where "w2 = w1\<lparr>envs := (envs w1)(env \<mapsto> ?e)\<rparr>"
  have cos2: "cos w2 x = cos w x" if "x \<noteq> ?run" for x using that by (simp add: w2_def w1)
  have start2: "started w2 x = started w x" "mains w2 x = mains w x" for x
    using r by (auto simp: started_def mains_def w2_def w1)
  have ss: "same_stacks w w2"
    using r by (auto simp: w1 w2_def same_stacks_def same_stack_def)
  have core2: "core_inv (Some ?run) ?S w2" by (rule same_stacks_inv [OF ss core])
  have th2: "in_thread env w2"
    using th by (auto simp: in_thread_def co_get_curr_thread_env_def w2_def w1 split: if_splits)
  have fr2: "frame_ok fr ?run w2" "frame_bytes fr w2 ?run = frame_bytes fr w ?run"
    using fr r by (auto simp: frame_ok_def frame_bytes_def w2_def w1 cong: option.case_cong)
  obtain rp where rp: "cos w p = Some rp" "\<not> cEnd rp" using ok p(2) by (auto simp: calls_ok_def)
  have rp2: "cos w2 p = Some rp" using cos2 [OF neq] rp by simp
  obtain w3 w4 where out: "co_swap_out fr ?run p w2 = Some w3"
    and bk: "(if p \<in> ?S then co_swap_in w3 else Some w3) = Some w4"
    and core4: "core_inv (Some p) (insert ?run ?S - {p}) w4" and f4: "switch_frame w2 w4"
    and cont: "\<forall>x r. x \<in> ?S - {p} \<longrightarrow> cos w2 x = Some r \<longrightarrow> \<not> cIsMain r \<longrightarrow> content w4 x = content w2 x"
      "\<forall>r. cos w2 ?run = Some r \<longrightarrow> \<not> cIsMain r \<longrightarrow> content w4 ?run = frame_bytes fr w2 ?run"
      "p \<in> ?S \<longrightarrow> stack_bytes w4 p = content w2 p"
    by (rule do_switch [OF core2 fr2(1) th2 rp2 neq])
  have e2: "envs w2 env = Some ?e" by (simp add: w2_def)
  obtain e4 where e4: "envs w4 env = Some e4" "calls_ok w4 e4 = calls_ok w2 ?e" "thread_calls env w4 = calls ?e"
    by (rule calls_frame [OF f4 e2])
  note pop = pop_call_calls [OF ok]
  have size2: "2 \<le> iCallStackSize e" using two calls_length [OF ok] tc by simp
  have alive: "(\<exists>r. cos w2 x = Some r \<and> \<not> cEnd r)" if "x \<in> set (butlast ?cs)" for x
  proof -
    have "x \<noteq> ?run" using that split dist by (metis distinct_append disjoint_iff list.set_intros(1))
    then show ?thesis using that ok in_set_butlastD cos2 [of x] by (fastforce simp: calls_ok_def)
  qed
  have "hd (butlast ?cs) = hd ?cs" using split by (metis hd_append2)
  then have ok2: "calls_ok w2 ?e"
    unfolding calls_ok_def start2 pop using ok size2 alive dist in_set_butlastD
    by (fastforce simp: calls_ok_def distinct_butlast)
  have run4: "running env w4 = p" using e4(3) pop by (simp add: running_def p_def)
  have sus4: "suspended env w4 = insert ?run ?S - {p}"
    using run4 pS by (auto simp: suspended_def started_frame [OF f4] start2)
  obtain r4 where r4: "cos w4 p = Some r4" "\<not> cEnd r4"
    using started_frame(2) [OF f4, of p] rp2 rp by auto
  have lastp: "?cs ! nat (iCallStackSize e - 2) = p"
  proof -
    have "p = butlast ?cs ! (length ?cs - 2)" using split(2) by (simp add: p_def last_conv_nth numeral_2_eq_2)
    also have "\<dots> = ?cs ! (length ?cs - 2)" using two tc by (simp add: nth_butlast)
    finally show ?thesis using calls_length [OF ok] size2 by (simp add: nat_diff_distrib)
  qed
  have res: "co_yield_env fr env w1 = Some w4"
  proof -
    have "co_yield_env fr env w1 = co_swap_out fr ?run p w2 \<bind> resume_point True p"
      using e call_at_last [OF ok] call_at_calls [OF ok, of "iCallStackSize e - 2"] size2 lastp run(1)
      by (simp add: co_yield_env_def set_env_def w2_def w1)
    also have "\<dots> = Some w4"
      using out bk r4 pS by (simp add: resume_point_def)
    finally show ?thesis .
  qed
  have "shares_ok w2"
    using sh by (rule shares_ok_cong) (auto simp: w2_def w1 r split: if_splits)
  note sh4 = heap_frame(1) [OF f4 this]
  have "heap_ok w2"
    using hp r by (auto simp: heap_ok_def w2_def w1)
  note hp4 = heap_frame(2) [OF f4 this]
  have "\<forall>c r. cos w2 c = Some r \<longrightarrow> co_env r = env"
    using own r by (auto simp: w2_def w1)
  note own4 = heap_frame(3) [OF f4 this]
  have inv4: "thread_inv env w4"
    unfolding thread_inv_def run4 sus4
    using in_thread_frame [OF f4 th2] e4(1,2) ok2 core4 sh4 hp4 own4 by blast
  have "same_layout w w2"
    using r by (auto simp: same_layout_def w2_def w1)
  then have lay: "same_layout w w4"
    using frame_layout [OF f4] by (rule same_layout_trans)
  have "content w4 x = content w x" if "x \<in> ?S - {p}" "cos w x = Some rx" "\<not> cIsMain rx" for x rx
  proof -
    have "x \<noteq> ?run" using that(1) by (simp add: suspended_def)
    then show ?thesis using cont(1) that cos2 [of x] by (auto simp: same_stacks_eqs [OF ss])
  qed
  moreover have "content w4 ?run = frame_bytes fr w ?run" if "cos w ?run = Some rx" "\<not> cIsMain rx" for rx
    using cont(2) that fr2(2) r by (simp add: w2_def w1)
  moreover have "stack_bytes w4 p = content w p"
    using cont(3) pS by (simp add: same_stacks_eqs [OF ss])
  ultimately have "switches_to env fr ?run p w w4"
    unfolding switches_to_def using run4 sus4 lay by blast
  with res inv4 e4(3) pop tc show thesis using that by (simp add: w1_def p_def)
qed

end
