(* ===== verification/Threads.thy ===== *)
theory Threads
  imports SharedStack
begin

text \<open>
  Executions of one thread: the step relation of its coroutines (switches, writes to memory, creation and
  release), the invariant every reachable state satisfies, and the properties of \<open>co_resume\<close>,
  \<open>co_yield\<close>, \<open>co_create\<close>, \<open>co_release\<close> and of the shared stacks, with their witnesses.
\<close>


section \<open>The other operations of a thread\<close>

definition may_write :: "addr \<Rightarrow> (addr \<Rightarrow> byte) \<Rightarrow> world \<Rightarrow> bool" where
  "may_write c m w \<longleftrightarrow> (\<forall>a. m a \<noteq> mem w a \<longrightarrow> (\<forall>q s. stacks w q = Some s \<longrightarrow>
     stack_buffer s \<le> a \<longrightarrow> a < stack_bp s \<longrightarrow> (\<exists>r. cos w c = Some r \<and> stack_mem r = Some q)))"

lemma write_ok:
  assumes inv: "thread_inv env w" and m: "may_write (running env w) m w"
  defines "w' \<equiv> w\<lparr>mem := m\<rparr>"
  shows "thread_inv env w'" "running env w' = running env w" "suspended env w' = suspended env w"
    "same_layout w w'"
    "\<And>x r. x \<in> suspended env w \<Longrightarrow> cos w x = Some r \<Longrightarrow> \<not> cIsMain r \<Longrightarrow> content w' x = content w x"
proof -
  from inv obtain e where e: "envs w env = Some e" and ok: "calls_ok w e"
    and th: "in_thread env w" and core: "core_inv (Some (running env w)) (suspended env w) w"
    and own: "\<forall>c r. cos w c = Some r \<longrightarrow> co_env r = env" and sh: "shares_ok w" and hp: "heap_ok w"
    by (rule thread_invD)
  have f: "switch_frame w w'" by (simp add: w'_def switch_frame_def)
  show run: "running env w' = running env w"
    by (simp add: running_def thread_calls_def w'_def)
  show sus: "suspended env w' = suspended env w"
    by (simp add: suspended_def run started_frame [OF f])
  show "same_layout w w'" by (rule frame_layout [OF f])
  have wr: "m a = mem w a"
    if "stacks w q = Some s" "stack_buffer s \<le> a" "a < stack_bp s"
      "\<And>r. cos w (running env w) = Some r \<Longrightarrow> stack_mem r \<noteq> Some q" for a q s
    using m that unfolding may_write_def by blast
  have core': "core_inv (Some (running env w)) (suspended env w) w'"
    unfolding w'_def using wr by (intro core_write(1) [OF core]) blast
  obtain e' where "envs w' env = Some e'" "calls_ok w' e' = calls_ok w e"
    using calls_frame [OF f e] by metis
  then show "thread_inv env w'"
    unfolding thread_inv_def run sus
    using in_thread_frame [OF f th] core' ok heap_frame(1) [OF f sh] heap_frame(2) [OF f hp]
      heap_frame(3) [OF f own] by blast
  show "content w' x = content w x" if "x \<in> suspended env w" "cos w x = Some r" "\<not> cIsMain r" for x r
    unfolding w'_def using wr by (intro core_write(2) [OF core _ that]) blast
qed

text \<open>Adding objects at fresh addresses.\<close>

definition extends :: "world \<Rightarrow> world \<Rightarrow> bool" where
  "extends w w' \<longleftrightarrow> tid w' = tid w \<and> g_arrCoEnvPerThread w' = g_arrCoEnvPerThread w \<and> envs w' = envs w \<and>
     bufs w' = bufs w \<and> mem w' = mem w \<and> brk w \<le> brk w' \<and>
     (\<forall>x. x < brk w \<longrightarrow> cos w' x = cos w x \<and> stacks w' x = stacks w x)"

lemma heap_okD:
  assumes "heap_ok w"
  shows "cos w x = Some r \<Longrightarrow> x < brk w" "stacks w x = Some s \<Longrightarrow> x < brk w" "shares w x = Some t \<Longrightarrow> x < brk w"
  using assms by (auto simp: heap_ok_def)

text \<open>The stack \<open>co_alloc_stackmem\<close> adds.\<close>

lemma alloc_stackmem_eq:
  "co_alloc_stackmem sz w = (brk w, w\<lparr>brk := brk w + 1 + max 1 (unat sz),
     stacks := (stacks w)(brk w \<mapsto> \<lparr>occupy_co = None, stack_size = to_s32 (uint sz),
       stack_bp = brk w + 1 + unat sz, stack_buffer = brk w + 1\<rparr>)\<rparr>)"
  by (simp add: co_alloc_stackmem_def malloc_def)

lemma core_alloc_stack:
  assumes inv: "core_inv run S w" and hp: "heap_ok w" and sz: "uint sz < 2 ^ 31"
  defines "w' \<equiv> snd (co_alloc_stackmem sz w)"
  shows "core_inv run S w'" "\<And>x. x \<in> S \<Longrightarrow> content w' x = content w x" "heap_ok w'"
    "same_layout w w'"
proof -
  note I = core_invD [OF inv]
  let ?q = "brk w"
  let ?s = "\<lparr>occupy_co = None, stack_size = to_s32 (uint sz), stack_bp = brk w + 1 + unat sz, stack_buffer = brk w + 1\<rparr>"
  have new: "stacks w ?q = None" "cos w ?q = None" using heap_okD [OF hp, of ?q] by fastforce+
  have w': "w' = w\<lparr>brk := brk w + 1 + max 1 (unat sz), stacks := (stacks w)(?q \<mapsto> ?s)\<rparr>"
    by (simp add: w'_def alloc_stackmem_eq)
  have [simp]: "cos w' = cos w" "bufs w' = bufs w" "mem w' = mem w" "brk w \<le> brk w'"
    by (simp_all add: w')
  have st: "stacks w' q = (if q = ?q then Some ?s else stacks w q)" for q by (simp add: w')
  have use: "stack_mem r \<noteq> Some ?q" if "cos w x = Some r" for x r
    using users_okD [OF I(2) that] new(1) by fastforce
  have eqs: "occupies w' x = occupies w x" "shares_on w' x = shares_on w x" "saved_ok x w' = saved_ok x w"
    "saved_bytes w' x = saved_bytes w x" "sharing w' x = sharing w x" for x
    using use unfolding occupies_def shares_on_def saved_ok_def saved_bytes_def sharing_def st
    by (fastforce simp: fun_eq_iff cong: option.case_cong)+
  have sb: "stack_bytes w' x = stack_bytes w x" for x
    using use new(1) by (auto simp: stack_bytes_def st split: option.splits)
  show "content w' x = content w x" for x by (simp add: content_def eqs sb)
  have sus: "suspended_ok x w' = suspended_ok x w" for x
    using use unfolding suspended_ok_def eqs st by fastforce
  have "stacks_ok w'"
  proof -
    have "int (unat sz) < int (2 ^ 31)" using sz by simp
    then have "unat sz < 2 ^ 31" by (simp only: of_nat_less_iff)
    moreover have "stack_bp s \<le> brk w" if "stacks w q = Some s" for q s
      using I(1) that unfolding stacks_ok_def by blast
    ultimately show ?thesis
      using I(1) unfolding stacks_ok_def st w' by (auto simp: trans_le_add1 le_SucI)
  qed
  moreover have "users_ok w'" "main_ok w'"
    using users_ok_cong [OF I(2,4), of w'] by (auto simp: st)
  moreover have "buffers_ok w'"
    using I(3) unfolding buffers_ok_def by simp (meson \<open>brk w \<le> brk w'\<close> less_le_trans)
  moreover have "occupants_ok (S \<union> set_option run) w'"
    unfolding occupants_ok_def
  proof (intro allI impI)
    fix q s assume s: "stacks w' q = Some s"
    show "case occupy_co s of None \<Rightarrow> \<forall>c\<in>S \<union> set_option run. \<not> shares_on w' c q
        | Some oc \<Rightarrow> oc \<in> S \<union> set_option run \<and> shares_on w' oc q"
    proof (cases "q = ?q")
      case True
      then show ?thesis using s use by (auto simp: st eqs shares_on_def)
    next
      case False
      then show ?thesis using s I(5) unfolding occupants_ok_def eqs st by simp
    qed
  qed
  ultimately show "core_inv run S w'"
    using I by (auto simp: core_inv_def sus eqs)
  show "heap_ok w'"
    using hp unfolding heap_ok_def by (auto simp: w' intro: less_SucI trans_less_add1 split: if_splits)
  show "same_layout w w'" using new(1) by (auto simp: same_layout_def st)
qed

lemma core_brk:
  assumes "core_inv run S w"
  shows "core_inv run S (w\<lparr>brk := brk w + n\<rparr>)" "content (w\<lparr>brk := brk w + n\<rparr>) x = content w x"
proof -
  let ?w = "w\<lparr>brk := brk w + n\<rparr>"
  note I = core_invD [OF assms]
  have eqs: "occupies ?w x = occupies w x" "shares_on ?w x = shares_on w x" "saved_ok x ?w = saved_ok x w"
    "saved_bytes ?w x = saved_bytes w x" "sharing ?w x = sharing w x" "stack_bytes ?w x = stack_bytes w x" for x
    by (simp_all add: occupies_def shares_on_def saved_ok_def saved_bytes_def sharing_def stack_bytes_def
        fun_eq_iff cong: option.case_cong)
  show "content ?w x = content w x" by (simp add: content_def eqs)
  have sus: "suspended_ok x ?w = suspended_ok x w" for x
    unfolding suspended_ok_def eqs by simp
  have "stacks_ok ?w" using I(1) unfolding stacks_ok_def by (auto simp: trans_le_add1)
  moreover have "buffers_ok ?w" using I(3) unfolding buffers_ok_def by (auto simp: trans_less_add1)
  moreover have "users_ok ?w" "main_ok ?w" using I(2,4) by (simp_all add: users_ok_def main_ok_def)
  moreover have "occupants_ok A ?w = occupants_ok A w" for A unfolding occupants_ok_def eqs by simp
  ultimately show "core_inv run S ?w" using I by (auto simp: core_inv_def sus eqs)
qed

lemma core_add_co:
  assumes inv: "core_inv run S w" and new: "cos w lp = None"
    and r: "stack_mem r = Some q" "stacks w q \<noteq> None" "save_buffer r = None" "\<not> cIsMain r"
    and users: "\<And>x rx. cos w x = Some rx \<Longrightarrow> stack_mem rx = Some q \<Longrightarrow> cIsShareStack rx \<and> cIsShareStack r"
  defines "w' \<equiv> w\<lparr>cos := (cos w)(lp \<mapsto> r)\<rparr>"
  shows "core_inv run S w'" "\<And>x. x \<in> S \<Longrightarrow> content w' x = content w x"
proof -
  note I = core_invD [OF inv]
  have [simp]: "stacks w' = stacks w" "bufs w' = bufs w" "mem w' = mem w" "brk w' = brk w"
    by (simp_all add: w'_def)
  have co: "cos w' x = cos w x" if "x \<noteq> lp" for x using that by (simp add: w'_def)
  have lp: "cos w' lp = Some r" by (simp add: w'_def)
  have S: "x \<noteq> lp" if "x \<in> S \<union> set_option run" for x
    using that new I(6) [of x] I(8) [of x] by (auto simp: suspended_ok_def)
  have eqs: "occupies w' x = occupies w x" "shares_on w' x = shares_on w x" "saved_ok x w' = saved_ok x w"
    "saved_bytes w' x = saved_bytes w x" "sharing w' x = sharing w x" "stack_bytes w' x = stack_bytes w x"
    if "x \<noteq> lp" for x
    using co [OF that] by (simp_all add: occupies_def shares_on_def saved_ok_def saved_bytes_def sharing_def
        stack_bytes_def fun_eq_iff cong: option.case_cong)
  show "content w' x = content w x" if "x \<in> S" for x using S [of x] that by (simp add: content_def eqs)
  have sus: "suspended_ok x w'" if "x \<in> S" for x
    using S [of x] that I(6) [OF that] unfolding suspended_ok_def by (auto simp: eqs co)
  have "users_ok w'"
    unfolding users_ok_def
  proof (intro conjI allI impI)
    fix c rc assume c: "cos w' c = Some rc"
    show "\<exists>q s. stack_mem rc = Some q \<and> stacks w' q = Some s"
    proof (cases "c = lp")
      case True
      then show ?thesis using c lp r(1,2) by auto
    next
      case False
      then have "cos w c = Some rc" using c co by simp
      then obtain q s where "stack_mem rc = Some q" "stacks w q = Some s"
        by (rule users_okD [OF I(2)])
      then show ?thesis by simp
    qed
  next
    fix c rc c' rc'
    assume a: "cos w' c = Some rc" "cos w' c' = Some rc'" "stack_mem rc = stack_mem rc'" "c \<noteq> c'"
    have "cIsShareStack rc \<and> cIsShareStack rc'"
    proof (cases "c = lp \<or> c' = lp")
      case True
      then show ?thesis
      proof
        assume "c = lp"
        then have "rc = r" "cos w c' = Some rc'" using a lp co by auto
        then show ?thesis using users [of c' rc'] a(3) r(1) by simp
      next
        assume "c' = lp"
        then have "rc' = r" "cos w c = Some rc" using a lp co by auto
        then show ?thesis using users [of c rc] a(3) r(1) by simp
      qed
    next
      case False
      then show ?thesis using users_ok_sharing [OF I(2) _ _ a(3,4)] a(1,2) co by simp
    qed
    then show "cIsShareStack rc" "cIsShareStack rc'" by simp_all
  qed
  moreover have "buffers_ok w'"
    using I(3) r(3) unfolding buffers_ok_def w'_def by (auto split: if_splits)
  moreover have "main_ok w'" using I(4) r(4) unfolding main_ok_def w'_def by auto
  moreover have "stacks_ok w'" using I(1) by (simp add: stacks_ok_def)
  moreover have "occupants_ok (S \<union> set_option run) w'"
    unfolding occupants_ok_def
  proof (intro allI impI)
    fix q s assume "stacks w' q = Some s"
    then have "case occupy_co s of None \<Rightarrow> \<forall>c\<in>S \<union> set_option run. \<not> shares_on w c q
        | Some oc \<Rightarrow> oc \<in> S \<union> set_option run \<and> shares_on w oc q"
      using I(5) unfolding occupants_ok_def by simp
    then show "case occupy_co s of None \<Rightarrow> \<forall>c\<in>S \<union> set_option run. \<not> shares_on w' c q
        | Some oc \<Rightarrow> oc \<in> S \<union> set_option run \<and> shares_on w' oc q"
      using S by (cases "occupy_co s") (auto simp: eqs)
  qed
  moreover have "\<exists>r. cos w' c = Some r \<and> (cIsShareStack r \<longrightarrow> occupies w' c)" if "run = Some c" for c
    using I(8) [OF that] S [of c] that by (auto simp: eqs co)
  ultimately show "core_inv run S w'" using I(7) sus by (simp add: core_inv_def)
qed

lemma thread_extend:
  assumes inv: "thread_inv env w" and core: "core_inv (Some (running env w)) (suspended env w) w'"
    and same: "envs w' = envs w" "tid w' = tid w" "g_arrCoEnvPerThread w' = g_arrCoEnvPerThread w"
    and st: "\<forall>x. started w' x = started w x" "\<forall>x. mains w' x = mains w x"
      "\<forall>x r. x \<in> set (thread_calls env w) \<longrightarrow> cos w x = Some r \<longrightarrow> cos w' x = Some r"
    and own: "\<forall>c r. cos w' c = Some r \<longrightarrow> co_env r = env" and sh: "shares_ok w'" and hp: "heap_ok w'"
  shows "thread_inv env w'" "running env w' = running env w" "suspended env w' = suspended env w"
    "thread_calls env w' = thread_calls env w"
proof -
  show tc: "thread_calls env w' = thread_calls env w" by (simp add: thread_calls_def same)
  show run: "running env w' = running env w" by (simp add: running_def tc)
  show sus: "suspended env w' = suspended env w" by (simp add: suspended_def run st)
  from inv obtain e where e: "envs w env = Some e" "calls_ok w e" "thread_calls env w = calls e" "in_thread env w"
    by (rule thread_invD)
  have alive: "\<exists>r. cos w' c = Some r \<and> \<not> cEnd r" if c: "c \<in> set (calls e)" for c
  proof -
    obtain r where "cos w c = Some r" "\<not> cEnd r" using e(2) c by (auto simp: calls_ok_def)
    then show ?thesis using st(3) c e(3) by auto
  qed
  then have "calls_ok w' e" using e(2) by (simp add: calls_ok_def st)
  then show "thread_inv env w'"
    unfolding thread_inv_def run sus
    using in_thread_cong [of w' w env] same e core own sh hp by (auto simp: in_thread_def)
qed

unbundle bit_operations_syntax

lemma int_and_0xFFF: "(x :: int) AND 0xFFF = x mod 4096"
proof -
  have "(0xFFF :: int) = mask 12" by (simp add: mask_eq_exp_minus_1)
  then have "x AND 0xFFF = take_bit 12 x" by (simp only: take_bit_eq_mask)
  then show ?thesis by (simp add: take_bit_eq_mod)
qed

lemma int_and_not_0xFFF: "(x :: int) AND NOT 0xFFF = x - x mod 4096"
proof -
  have m: "(0xFFF :: int) = mask 12" by (simp add: mask_eq_exp_minus_1)
  have "x AND NOT (mask 12) = push_bit 12 (drop_bit 12 x)"
    by (rule bit_eqI) (auto simp: bit_simps)
  also have "\<dots> = x - take_bit 12 x" using bits_ident [of 12 x] by simp
  finally show ?thesis unfolding m by (simp add: take_bit_eq_mod)
qed

lemma normal_stack_size_round:
  assumes "0 < sz" "sz \<le> 8 * 1024 * 1024"
  shows "sz \<le> normal_stack_size sz" "normal_stack_size sz < sz + 4096"
proof -
  have eq: "normal_stack_size sz = (if sz mod 4096 \<noteq> 0 then sz - sz mod 4096 + 4096 else sz)"
    unfolding normal_stack_size_def Let_def int_and_0xFFF int_and_not_0xFFF using assms by simp
  have "0 \<le> sz mod 4096" "sz mod 4096 < 4096" by simp_all
  then show "sz \<le> normal_stack_size sz" "normal_stack_size sz < sz + 4096" unfolding eq by auto
qed

lemma normal_stack_size_bounds:
  "4096 \<le> normal_stack_size sz" "normal_stack_size sz \<le> 8 * 1024 * 1024" "normal_stack_size sz mod 4096 = 0"
proof -
  define n where "n = (if sz \<le> 0 then 128 * 1024 else if sz > 1024 * 1024 * 8 then 1024 * 1024 * 8 else sz)"
  have n: "0 < n" "n \<le> 8 * 1024 * 1024" by (auto simp: n_def)
  have eq: "normal_stack_size sz = (if n mod 4096 \<noteq> 0 then n - n mod 4096 + 4096 else n)"
    unfolding normal_stack_size_def Let_def n_def [symmetric] int_and_0xFFF int_and_not_0xFFF by simp
  define k where "k = n div 4096"
  define m where "m = n mod 4096"
  have k: "n = 4096 * k + m" "0 \<le> m" "m < 4096" by (simp_all add: k_def m_def)
  have eq: "normal_stack_size sz = (if m \<noteq> 0 then 4096 * k + 4096 else 4096 * k)"
    unfolding eq m_def [symmetric] using k(1) by simp
  have "0 \<le> k" "k \<le> 2048" using n k by linarith+
  moreover have "k \<noteq> 0" if "m = 0" using n k that by auto
  moreover have "k \<le> 2047" if "m \<noteq> 0" using n k that by linarith
  ultimately show "4096 \<le> normal_stack_size sz" "normal_stack_size sz \<le> 8 * 1024 * 1024"
    unfolding eq by auto
  show "normal_stack_size sz mod 4096 = 0"
    unfolding eq by simp
qed

lemma co_get_stackmem_eq:
  assumes "shares w p = Some sh" "share_count sh = int (length (stack_array sh))"
    and "stack_array sh \<noteq> []" "length (stack_array sh) < 2 ^ 31"
  shows "co_get_stackmem (Some p) w =
    Some (Some (stack_array sh ! (unat (alloc_idx sh) mod length (stack_array sh))),
      w\<lparr>shares := (shares w)(p \<mapsto> sh\<lparr>alloc_idx := alloc_idx sh + 1\<rparr>)\<rparr>)"
proof -
  let ?n = "length (stack_array sh)"
  let ?m = "word_of_int (share_count sh) :: u32"
  have m: "uint ?m = int ?n"
    using assms(2,4) by (simp add: unsigned_of_nat take_bit_nat_eq_self)
  have i: "uint (alloc_idx sh mod ?m) = int (unat (alloc_idx sh) mod ?n)"
    by (simp add: uint_mod m zmod_int)
  have "unat (alloc_idx sh) mod ?n < ?n" using assms(3) by simp
  then have "in_s32 (int (unat (alloc_idx sh) mod ?n))" using assms(4) by (simp add: in_s32_def)
  then have "to_s32 (uint (alloc_idx sh mod ?m)) = int (unat (alloc_idx sh) mod ?n)"
    unfolding i by (rule to_s32_id)
  moreover have "?m \<noteq> 0" using m assms(3) by (metis length_0_conv of_nat_eq_0_iff uint_0_iff)
  ultimately show ?thesis
    using assms(1) \<open>unat (alloc_idx sh) mod ?n < ?n\<close> by (simp add: co_get_stackmem_def)
qed

definition attr_ok :: "world \<Rightarrow> stCoRoutineAttr_t option \<Rightarrow> bool" where
  "attr_ok w attr \<longleftrightarrow> (\<forall>a p. attr = Some a \<longrightarrow> attr_share_stack a = Some p \<longrightarrow> shares w p \<noteq> None)"

text \<open>The coroutine that is created, on the stack \<open>q\<close>.\<close>

definition new_co :: "addr \<Rightarrow> ptr \<Rightarrow> u64 \<Rightarrow> bool \<Rightarrow> addr \<Rightarrow> coctx_t \<Rightarrow> stCoRoutine_t" where
  "new_co env pfn arg share q ctx = \<lparr>co_env = env, co_pfn = pfn, co_arg = arg, co_ctx = ctx,
     cStart = False, cEnd = False, cIsMain = False, cEnableSysHook = False,
     cIsShareStack = share, pvEnv = None, stack_mem = Some q, stack_sp = 0,
     save_size = 0, save_buffer = None, aSpec = replicate 1024 0\<rparr>"

lemma add_co_ok:
  fixes pfn :: ptr and arg :: u64 and ctx :: coctx_t
  assumes inv: "thread_inv env w" and core: "core_inv (Some (running env w)) (suspended env w) w1"
    and cont: "\<forall>x. x \<in> suspended env w \<longrightarrow> content w1 x = content w x"
    and same: "envs w1 = envs w" "tid w1 = tid w" "g_arrCoEnvPerThread w1 = g_arrCoEnvPerThread w" "cos w1 = cos w"
    and lay: "same_layout w w1" and sh: "shares_ok w1" and hp: "heap_ok w1"
    and lp: "cos w lp = None" "lp < brk w1"
    and q: "stacks w1 q \<noteq> None"
    and users: "\<forall>x rx. cos w x = Some rx \<longrightarrow> stack_mem rx = Some q \<longrightarrow> cIsShareStack rx \<and> share"
    and priv: "\<forall>p sh. shares w1 p = Some sh \<longrightarrow> q \<in> set (stack_array sh) \<longrightarrow> share"
  defines "w' \<equiv> w1\<lparr>cos := (cos w1)(lp \<mapsto> new_co env pfn arg share q ctx)\<rparr>"
  shows "thread_inv env w'" "running env w' = running env w" "suspended env w' = suspended env w"
    "thread_calls env w' = thread_calls env w" "same_layout w w'"
    "\<forall>x. x \<in> suspended env w \<longrightarrow> content w' x = content w x"
proof -
  let ?r = "new_co env pfn arg share q ctx"
  note [simp] = new_co_def
  have new: "cos w1 lp = None" using lp same(4) by simp
  have users1: "\<And>x rx. cos w1 x = Some rx \<Longrightarrow> stack_mem rx = Some q \<Longrightarrow> cIsShareStack rx \<and> cIsShareStack ?r"
    using users same(4) by simp
  have r: "stack_mem ?r = Some q" "save_buffer ?r = None" "\<not> cIsMain ?r" by simp_all
  note add = core_add_co [OF core new r(1) q r(2,3) users1]
  have core': "core_inv (Some (running env w)) (suspended env w) w'"
    unfolding w'_def by (rule add(1))
  show "\<forall>x. x \<in> suspended env w \<longrightarrow> content w' x = content w x"
    using add(2) cont unfolding w'_def by simp
  have st: "started w' x = started w x" "mains w' x = mains w x" for x
    using lp(1) same(4) by (auto simp: w'_def started_def mains_def)
  have calls: "cos w' x = Some rx" if "x \<in> set (thread_calls env w)" "cos w x = Some rx" for x rx
    using that lp(1) same(4) by (auto simp: w'_def)
  have own: "\<forall>x rx. cos w' x = Some rx \<longrightarrow> co_env rx = env"
    using inv same(4) by (auto simp: w'_def thread_inv_def split: if_splits)
  have sh': "shares_ok w'"
    unfolding shares_ok_def
  proof (intro allI impI)
    fix p s assume p: "shares w' p = Some s"
    then have old: "share_count s = int (length (stack_array s)) \<and> stack_array s \<noteq> [] \<and>
       length (stack_array s) < 2 ^ 31 \<and> (\<forall>q \<in> set (stack_array s). stacks w1 q \<noteq> None \<and>
        (\<forall>c r. cos w1 c = Some r \<longrightarrow> stack_mem r = Some q \<longrightarrow> cIsShareStack r))"
      using sh unfolding shares_ok_def w'_def by auto
    moreover have "cIsShareStack rc" if "q' \<in> set (stack_array s)" "cos w' c = Some rc" "stack_mem rc = Some q'" for q' c rc
    proof (cases "c = lp")
      case True
      then have "rc = ?r" "q' = q" using that by (auto simp: w'_def)
      then show ?thesis using priv p that(1) unfolding w'_def by auto
    next
      case False
      then show ?thesis using that old by (auto simp: w'_def)
    qed
    ultimately show "share_count s = int (length (stack_array s)) \<and> stack_array s \<noteq> [] \<and>
       length (stack_array s) < 2 ^ 31 \<and> (\<forall>q \<in> set (stack_array s). stacks w' q \<noteq> None \<and>
        (\<forall>c r. cos w' c = Some r \<longrightarrow> stack_mem r = Some q \<longrightarrow> cIsShareStack r))"
      by (auto simp: w'_def)
  qed
  have hp': "heap_ok w'" using hp lp(2) by (auto simp: heap_ok_def w'_def)
  have e: "envs w' = envs w" "tid w' = tid w" "g_arrCoEnvPerThread w' = g_arrCoEnvPerThread w"
    using same by (simp_all add: w'_def)
  have calls': "\<forall>x r. x \<in> set (thread_calls env w) \<longrightarrow> cos w x = Some r \<longrightarrow> cos w' x = Some r"
    using calls by blast
  have st': "\<forall>x. started w' x = started w x" "\<forall>x. mains w' x = mains w x"
    using st by simp_all
  note ext = thread_extend [OF inv core' e st' calls' own sh' hp']
  show "thread_inv env w'" "running env w' = running env w" "suspended env w' = suspended env w"
    "thread_calls env w' = thread_calls env w"
    by (rule ext)+
  have "same_layout w1 w'" using new by (auto simp: same_layout_def w'_def)
  with lay show "same_layout w w'" by (rule same_layout_trans)
qed

lemma create_ok:
  assumes inv: "thread_inv env w" and at: "attr_ok w attr"
  obtains lp w' where "co_create_env env attr pfn arg w = Some (lp, w')" "thread_inv env w'"
    "running env w' = running env w" "suspended env w' = suspended env w" "same_layout w w'"
    "\<forall>x. x \<in> suspended env w \<longrightarrow> content w' x = content w x" "thread_calls env w' = thread_calls env w"
proof -
  from inv have core: "core_inv (Some (running env w)) (suspended env w) w"
    and sh: "shares_ok w" and hp: "heap_ok w"
    by (auto elim: thread_invD)
  let ?lp = "brk w" and ?w0 = "w\<lparr>brk := brk w + 1\<rparr>"
  let ?run = "running env w" and ?S = "suspended env w"
  note core0 = core_brk(1) [OF core, of 1] and cont0 = core_brk(2) [OF core, of 1]
  have lp: "cos w ?lp = None" using heap_okD [OF hp, of ?lp] by fastforce
  have hp0: "heap_ok ?w0" using hp unfolding heap_ok_def by (auto intro: less_SucI)
  have sh0: "shares_ok ?w0" using sh unfolding shares_ok_def by simp
  define sz where "sz = normal_stack_size (case attr of None \<Rightarrow> 128 * 1024 | Some a \<Rightarrow> attr_stack_size a)"
  have sz: "4096 \<le> sz" "sz \<le> 8 * 1024 * 1024" unfolding sz_def by (rule normal_stack_size_bounds)+
  have sz32: "uint (word_of_int sz :: u32) = sz" using sz by (simp add: uint_word_of_int)
  show thesis
  proof (cases "case attr of None \<Rightarrow> None | Some a \<Rightarrow> attr_share_stack a")
    case None
    let ?q = "brk w + 1"
    define w1 where "w1 = snd (co_alloc_stackmem (word_of_int sz) ?w0)"
    have "uint (word_of_int sz :: u32) < 2 ^ 31" using sz sz32 by simp
    note al = core_alloc_stack [OF core0 hp0 this, folded w1_def]
    have w1: "w1 = ?w0\<lparr>brk := brk w + 2 + max 1 (unat (word_of_int sz :: u32)), stacks := (stacks w)(?q \<mapsto>
       \<lparr>occupy_co = None, stack_size = to_s32 sz, stack_bp = brk w + 2 + unat (word_of_int sz :: u32),
        stack_buffer = brk w + 2\<rparr>)\<rparr>"
      by (simp add: w1_def alloc_stackmem_eq sz32)
    have fresh: "stacks w ?q = None" using heap_okD(2) [OF hp, of ?q] by fastforce
    have "stack_mem rx \<noteq> Some ?q" if "cos w x = Some rx" for x rx
      using users_okD [OF core_invD(2) [OF core] that] fresh by (metis option.distinct(1) option.inject)
    then have users: "\<forall>x rx. cos w x = Some rx \<longrightarrow> stack_mem rx = Some ?q \<longrightarrow> cIsShareStack rx \<and> False"
      by blast
    have sh1: "shares_ok w1" by (rule shares_ok_cong [OF sh0]) (auto simp: w1)
    have "same_layout w ?w0" by (auto simp: same_layout_def)
    then have lay: "same_layout w w1" using al(4) by (rule same_layout_trans)
    have "?q \<notin> set (stack_array s)" if "shares w p = Some s" for p s
      using sh that fresh unfolding shares_ok_def by blast
    then have priv: "\<forall>p s. shares w1 p = Some s \<longrightarrow> ?q \<in> set (stack_array s) \<longrightarrow> False"
      by (simp add: w1)
    have f: "envs w1 = envs w" "tid w1 = tid w" "g_arrCoEnvPerThread w1 = g_arrCoEnvPerThread w" "cos w1 = cos w"
      "?lp < brk w1" "stacks w1 ?q \<noteq> None" by (simp_all add: w1)
    have cont1: "\<forall>x. x \<in> ?S \<longrightarrow> content w1 x = content w x"
      using al(2) cont0 by simp
    note ok = add_co_ok [OF inv al(1) cont1 f(1-4) lay sh1 al(3) lp f(5,6) users priv]
    let ?ctx = "coctx_init\<lparr>ss_sp := of_nat (brk w + 2), ss_size := word_of_int sz\<rparr>"
    have "co_create_env env attr pfn arg w =
        Some (?lp, w1\<lparr>cos := (cos w1)(?lp \<mapsto> new_co env pfn arg False ?q ?ctx)\<rparr>)"
      using None by (cases attr)
        (auto simp: co_create_env_def malloc_def alloc_stackmem_eq default_attr_def sz_def new_co_def w1_def)
    then show thesis by (rule that) (rule ok)+
  next
    case (Some p)
    then obtain a where a: "attr = Some a" "attr_share_stack a = Some p" by (cases attr) auto
    then obtain s where s: "shares w p = Some s" using at by (auto simp: attr_ok_def)
    have arr: "share_count s = int (length (stack_array s))" "stack_array s \<noteq> []" "length (stack_array s) < 2 ^ 31"
      "\<forall>q \<in> set (stack_array s). stacks w q \<noteq> None \<and>
        (\<forall>c r. cos w c = Some r \<longrightarrow> stack_mem r = Some q \<longrightarrow> cIsShareStack r)"
      using sh s unfolding shares_ok_def by blast+
    let ?q = "stack_array s ! (unat (alloc_idx s) mod length (stack_array s))"
    have q: "?q \<in> set (stack_array s)" using arr(2) by simp
    then obtain st where st: "stacks w ?q = Some st" using arr(4) by blast
    let ?w1 = "?w0\<lparr>shares := (shares w)(p \<mapsto> s\<lparr>alloc_idx := alloc_idx s + 1\<rparr>)\<rparr>"
    have get: "co_get_stackmem (Some p) ?w0 = Some (Some ?q, ?w1)"
      using co_get_stackmem_eq [of ?w0 p s] s arr by simp
    have ss: "same_stacks ?w0 ?w1" by (rule same_stacksI) simp_all
    have sh1: "shares_ok ?w1" using sh arr unfolding shares_ok_def by auto
    have lay: "same_layout w ?w1" by (auto simp: same_layout_def)
    have hp1: "heap_ok ?w1" using hp0 s unfolding heap_ok_def by auto
    have users: "\<forall>x rx. cos w x = Some rx \<longrightarrow> stack_mem rx = Some ?q \<longrightarrow> cIsShareStack rx \<and> True"
      using arr(4) q by blast
    have cont1: "\<forall>x. x \<in> ?S \<longrightarrow> content ?w1 x = content w x"
      unfolding same_stacks_eqs [OF ss] using cont0 by blast
    have f: "stacks ?w1 ?q \<noteq> None" "envs ?w1 = envs w" "tid ?w1 = tid w" "cos ?w1 = cos w"
      "g_arrCoEnvPerThread ?w1 = g_arrCoEnvPerThread w" "?lp < brk ?w1" using st by simp_all
    have priv: "\<forall>p s. shares ?w1 p = Some s \<longrightarrow> ?q \<in> set (stack_array s) \<longrightarrow> True" by simp
    note ok = add_co_ok [OF inv same_stacks_inv [OF ss core0] cont1 f(2,3,5,4) lay sh1 hp1 lp f(6,1) users priv]
    let ?ctx = "coctx_init\<lparr>ss_sp := of_nat (stack_buffer st), ss_size := word_of_int (share_stack_size s)\<rparr>"
    have "co_create_env env attr pfn arg w =
        Some (?lp, ?w1\<lparr>cos := (cos ?w1)(?lp \<mapsto> new_co env pfn arg True ?q ?ctx)\<rparr>)"
      using a s st get by (simp add: co_create_env_def malloc_def new_co_def)
    then show thesis by (rule that) (rule ok)+
  qed
qed

lemma alloc_stacks_ok:
  assumes "core_inv run S w" "heap_ok w" "uint sz < 2 ^ 31" "alloc_stacks n sz w = (ps, w')"
  shows "core_inv run S w' \<and> heap_ok w' \<and> same_layout w w' \<and> (\<forall>x. x \<in> S \<longrightarrow> content w' x = content w x) \<and>
    length ps = n \<and> (\<forall>q \<in> set ps. brk w \<le> q \<and> stacks w' q \<noteq> None) \<and> cos w' = cos w \<and> envs w' = envs w \<and>
    tid w' = tid w \<and> g_arrCoEnvPerThread w' = g_arrCoEnvPerThread w \<and> shares w' = shares w \<and> brk w \<le> brk w' \<and>
    (\<forall>q. stacks w q \<noteq> None \<longrightarrow> stacks w' q \<noteq> None)"
  using assms
proof (induction n arbitrary: ps w')
  case 0
  then show ?case by (auto simp: same_layout_def)
next
  case (Suc n)
  obtain ps1 w1 where 1: "alloc_stacks n sz w = (ps1, w1)" by fastforce
  note IH = Suc.IH [OF Suc.prems(1,2,3) 1]
  from Suc.prems(4) 1 have w': "ps = ps1 @ [brk w1]" "w' = snd (co_alloc_stackmem sz w1)"
    by (simp_all add: alloc_stackmem_eq)
  note al = core_alloc_stack [OF _ _ Suc.prems(3), of run S w1, folded w'(2)]
  have "core_inv run S w1" "heap_ok w1" using IH by simp_all
  note al = al [OF this]
  have w1: "stacks w' = (stacks w1)(brk w1 \<mapsto> \<lparr>occupy_co = None, stack_size = to_s32 (uint sz),
       stack_bp = brk w1 + 1 + unat sz, stack_buffer = brk w1 + 1\<rparr>)"
    "cos w' = cos w1" "envs w' = envs w1" "tid w' = tid w1" "g_arrCoEnvPerThread w' = g_arrCoEnvPerThread w1"
    "shares w' = shares w1" "brk w1 \<le> brk w'"
    by (simp_all add: w'(2) alloc_stackmem_eq)
  have "same_layout w w'" using IH al(4) same_layout_trans by blast
  moreover have "\<forall>x. x \<in> S \<longrightarrow> content w' x = content w x" using IH al(2) by simp
  moreover have "\<forall>q \<in> set ps. brk w \<le> q \<and> stacks w' q \<noteq> None"
    using IH unfolding w'(1) w1(1) by auto
  moreover have "\<forall>q. stacks w q \<noteq> None \<longrightarrow> stacks w' q \<noteq> None" using IH unfolding w1(1) by auto
  ultimately show ?case using al(1,3) IH w1(2-7) w'(1) by auto
qed

lemma sharestack_ok:
  assumes inv: "thread_inv env w" and cnt: "0 < cnt" "cnt < 2 ^ 31" and sz: "0 \<le> sz" "sz < 2 ^ 31"
    and al: "co_alloc_sharestack cnt sz w = (p, w')"
  shows "thread_inv env w'" "running env w' = running env w" "suspended env w' = suspended env w"
    "same_layout w w'" "\<forall>x. x \<in> suspended env w \<longrightarrow> content w' x = content w x"
    "thread_calls env w' = thread_calls env w"
proof -
  from inv have core: "core_inv (Some (running env w)) (suspended env w) w"
    and sh: "shares_ok w" and hp: "heap_ok w" and own: "\<forall>c r. cos w c = Some r \<longrightarrow> co_env r = env"
    by (auto elim: thread_invD)
  let ?w0 = "w\<lparr>brk := brk w + 1\<rparr>" and ?S = "suspended env w"
  obtain ps w1 where 1: "alloc_stacks (nat cnt) (word_of_int sz) ?w0 = (ps, w1)" by fastforce
  let ?s = "\<lparr>alloc_idx = 0, share_stack_size = sz, share_count = cnt, stack_array = ps\<rparr>"
  have w': "w' = w1\<lparr>shares := (shares w1)(brk w \<mapsto> ?s)\<rparr>"
    using al 1 by (auto simp: co_alloc_sharestack_def malloc_def)
  have hp0: "heap_ok ?w0" using hp unfolding heap_ok_def by (auto intro: less_SucI)
  have "uint (word_of_int sz :: u32) < 2 ^ 31" using sz by (simp add: uint_word_of_int)
  note A = alloc_stacks_ok [OF core_brk(1) [OF core] hp0 this 1]
  have use: "q \<notin> set ps" if c: "cos w c = Some r" "stack_mem r = Some q" for c r q
  proof -
    obtain s where "stacks w q = Some s"
      using users_okD [OF core_invD(2) [OF core] c(1)] c(2) by auto
    then have "q < brk w" using heap_okD(2) [OF hp] by blast
    then show ?thesis using A by auto
  qed
  have ss: "same_stacks w1 w'" unfolding w' by (rule same_stacksI) simp_all
  have core': "core_inv (Some (running env w)) ?S w'" using same_stacks_inv [OF ss] A by blast
  have "share_count sh = int (length (stack_array sh)) \<and> stack_array sh \<noteq> [] \<and>
      length (stack_array sh) < 2 ^ 31 \<and> (\<forall>q \<in> set (stack_array sh). stacks w' q \<noteq> None \<and>
        (\<forall>c r. cos w' c = Some r \<longrightarrow> stack_mem r = Some q \<longrightarrow> cIsShareStack r))"
    if "shares w' b = Some sh" for b sh
  proof (cases "b = brk w")
    case True
    then have "sh = ?s" using that by (simp add: w')
    moreover have "length ps = nat cnt" using A by simp
    moreover have "nat cnt < 2 ^ 31" using cnt by (simp add: nat_less_iff)
    moreover have "\<forall>q \<in> set ps. stacks w' q \<noteq> None" using A by (simp add: w')
    ultimately show ?thesis using cnt use A by (auto simp: w')
  next
    case False
    then have "shares w b = Some sh" using that A by (simp add: w')
    then have "share_count sh = int (length (stack_array sh)) \<and> stack_array sh \<noteq> [] \<and>
      length (stack_array sh) < 2 ^ 31 \<and> (\<forall>q \<in> set (stack_array sh). stacks w q \<noteq> None \<and>
        (\<forall>c r. cos w c = Some r \<longrightarrow> stack_mem r = Some q \<longrightarrow> cIsShareStack r))"
      using sh unfolding shares_ok_def by blast
    then show ?thesis using A by (simp add: w')
  qed
  then have sh': "shares_ok w'" unfolding shares_ok_def by blast
  have "heap_ok w1" "brk w < brk w1" using A by simp_all
  then have hp': "heap_ok w'" by (auto simp: heap_ok_def w')
  have same: "envs w' = envs w" "tid w' = tid w" "g_arrCoEnvPerThread w' = g_arrCoEnvPerThread w" "cos w' = cos w"
    using A by (simp_all add: w')
  have st: "\<forall>x. started w' x = started w x" "\<forall>x. mains w' x = mains w x"
     "\<forall>x r. x \<in> set (thread_calls env w) \<longrightarrow> cos w x = Some r \<longrightarrow> cos w' x = Some r"
     "\<forall>c r. cos w' c = Some r \<longrightarrow> co_env r = env"
    using own by (simp_all add: started_def mains_def same)
  note ext = thread_extend [OF inv core' same(1-3) st sh' hp']
  show "thread_inv env w'" "running env w' = running env w" "suspended env w' = suspended env w"
    "thread_calls env w' = thread_calls env w"
    by (rule ext)+
  have "same_layout ?w0 w1" using A by blast
  then show "same_layout w w'" by (auto simp: same_layout_def w')
  show "\<forall>x. x \<in> ?S \<longrightarrow> content w' x = content w x"
    using A core_brk(2) [OF core, of 1] unfolding same_stacks_eqs [OF ss] by simp
qed

lemma core_free:
  assumes inv: "core_inv (Some run) S w" and co: "cos w co = Some r" "co \<noteq> run" "\<not> occupies w co"
    and w': "co_free co w = Some w'"
  shows "core_inv (Some run) (S - {co}) w'" "\<And>x. x \<in> S \<Longrightarrow> x \<noteq> co \<Longrightarrow> content w' x = content w x"
    "\<And>x. x \<noteq> co \<Longrightarrow> cos w' x = cos w x" "cos w' co = None" "envs w' = envs w" "tid w' = tid w"
    "g_arrCoEnvPerThread w' = g_arrCoEnvPerThread w" "shares w' = shares w" "brk w' = brk w"
    "\<And>q s. stacks w' q = Some s \<Longrightarrow> stacks w q = Some s"
    "\<And>q. stacks w q \<noteq> None \<Longrightarrow> cIsShareStack r \<or> stack_mem r \<noteq> Some q \<Longrightarrow> stacks w' q = stacks w q"
proof -
  note I = core_invD [OF inv]
  obtain q s where q: "stack_mem r = Some q" "stacks w q = Some s" using users_okD [OF I(2) co(1)] .
  define D where "D = (if cIsShareStack r then {} else {q})"
  have w': "w' = w\<lparr>cos := (cos w)(co := None), stacks := (\<lambda>x. if x \<in> D then None else stacks w x)\<rparr>"
    using w' co(1) q by (auto simp: co_free_def D_def fun_eq_iff split: if_splits)
  show f: "\<And>x. x \<noteq> co \<Longrightarrow> cos w' x = cos w x" "cos w' co = None" "envs w' = envs w" "tid w' = tid w"
    "g_arrCoEnvPerThread w' = g_arrCoEnvPerThread w" "shares w' = shares w" "brk w' = brk w"
    by (simp_all add: w')
  have f2: "bufs w' = bufs w" "mem w' = mem w" by (simp_all add: w')
  show st1: "stacks w' q' = Some s' \<Longrightarrow> stacks w q' = Some s'" for q' s' by (auto simp: w' split: if_splits)
  have st: "stacks w' q' = stacks w q'" if "q' \<notin> D" for q' using that by (simp add: w')
  show "stacks w' q' = stacks w q'" if "stacks w q' \<noteq> None" "cIsShareStack r \<or> stack_mem r \<noteq> Some q'" for q'
    using that q(1) by (intro st) (auto simp: D_def)
  have use: "q' \<notin> D" if "cos w x = Some rx" "x \<noteq> co" "stack_mem rx = Some q'" for x rx q'
    using users_ok_sharing [OF I(2) that(1) co(1)] that(2,3) q(1) by (auto simp: D_def split: if_splits)
  have eqs: "occupies w' x = occupies w x" "shares_on w' x = shares_on w x" "saved_ok x w' = saved_ok x w"
    "saved_bytes w' x = saved_bytes w x" "sharing w' x = sharing w x" "stack_bytes w' x = stack_bytes w x"
    if x: "x \<noteq> co" for x
  proof -
    have c: "cos w' x = cos w x" using f(1) x by blast
    have s: "stacks w' q' = stacks w q'" if "cos w x = Some rx" "stack_mem rx = Some q'" for rx q'
      using st use [OF that(1) x that(2)] by blast
    show "shares_on w' x = shares_on w x" "saved_bytes w' x = saved_bytes w x" "sharing w' x = sharing w x"
      by (simp_all add: shares_on_def saved_bytes_def sharing_def c f2 fun_eq_iff cong: option.case_cong)
    show "occupies w' x = occupies w x" "saved_ok x w' = saved_ok x w" "stack_bytes w' x = stack_bytes w x"
      using s by (cases "cos w x"; cases "stack_mem (the (cos w x))";
          simp add: occupies_def saved_ok_def stack_bytes_def c f2 cong: option.case_cong)+
  qed
  show "content w' x = content w x" if "x \<in> S" "x \<noteq> co" for x by (simp add: content_def eqs that)
  have sus: "suspended_ok x w'" if x: "x \<in> S" "x \<noteq> co" for x
  proof -
    obtain rx qx sx where rx: "cos w x = Some rx" "stack_mem rx = Some qx" "stacks w qx = Some sx"
      "\<not> cIsMain rx \<longrightarrow> stack_buffer sx \<le> stack_sp rx \<and> stack_sp rx \<le> stack_bp sx"
      "cIsShareStack rx \<longrightarrow> occupies w x \<or> saved_ok x w"
      using I(6) [OF x(1)] unfolding suspended_ok_def by blast
    then show ?thesis
      using f(1) [OF x(2)] st [OF use [OF rx(1) x(2) rx(2)]] unfolding suspended_ok_def eqs [OF x(2)] by simp
  qed
  have "users_ok w'"
  proof -
    have "\<exists>q s. stack_mem rx = Some q \<and> stacks w' q = Some s" if c: "cos w' x = Some rx" for x rx
    proof -
      have x: "x \<noteq> co" "cos w x = Some rx" using c by (auto simp: w' split: if_splits)
      obtain q' s' where "stack_mem rx = Some q'" "stacks w q' = Some s'" using users_okD [OF I(2) x(2)] .
      then show ?thesis using st [OF use [OF x(2,1)]] by auto
    qed
    moreover have "cIsShareStack r1 \<and> cIsShareStack r2"
      if "cos w' c = Some r1" "cos w' c' = Some r2" "stack_mem r1 = stack_mem r2" "c \<noteq> c'" for c r1 c' r2
      using users_ok_sharing [OF I(2) _ _ that(3,4)] that(1,2) by (auto simp: w' split: if_splits)
    ultimately show ?thesis unfolding users_ok_def by blast
  qed
  moreover have "stacks_ok w'" using I(1) st1 unfolding stacks_ok_def f(7) by blast
  moreover have "buffers_ok w'" using I(3) f(7) unfolding buffers_ok_def f2 by (auto simp: w' split: if_splits)
  moreover have "main_ok w'" using I(4) unfolding main_ok_def by (auto simp: w' split: if_splits)
  moreover have "occupants_ok (S - {co} \<union> set_option (Some run)) w'"
    unfolding occupants_ok_def
  proof (intro allI impI)
    fix q' s' assume "stacks w' q' = Some s'"
    then have s': "stacks w q' = Some s'" by (rule st1)
    then have *: "case occupy_co s' of None \<Rightarrow> \<forall>c\<in>S \<union> set_option (Some run). \<not> shares_on w c q'
        | Some oc \<Rightarrow> oc \<in> S \<union> set_option (Some run) \<and> shares_on w oc q'"
      using I(5) unfolding occupants_ok_def by blast
    show "case occupy_co s' of None \<Rightarrow> \<forall>c\<in>S - {co} \<union> set_option (Some run). \<not> shares_on w' c q'
        | Some oc \<Rightarrow> oc \<in> S - {co} \<union> set_option (Some run) \<and> shares_on w' oc q'"
    proof (cases "occupy_co s'")
      case None
      then show ?thesis using * co(2) eqs(2) by auto
    next
      case (Some oc)
      then have "oc \<noteq> co" using * co s' by (auto simp: occupies_def shares_on_def)
      then show ?thesis using * Some eqs(2) by auto
    qed
  qed
  ultimately show "core_inv (Some run) (S - {co}) w'"
    using I(7,8) sus co(2) by (auto simp: core_inv_def f(1) eqs)
qed

lemma free_ok:
  assumes inv: "thread_inv env w" and co: "cos w co = Some r" "co \<notin> set (thread_calls env w)" "\<not> occupies w co"
  obtains w' where "co_free co w = Some w'" "thread_inv env w'" "running env w' = running env w"
    "suspended env w' = suspended env w - {co}" "thread_calls env w' = thread_calls env w"
    "\<forall>x. x \<in> suspended env w - {co} \<longrightarrow> content w' x = content w x"
    "\<forall>x. x \<noteq> co \<longrightarrow> cos w' x = cos w x" "cos w' co = None"
    "\<forall>q. stacks w q \<noteq> None \<longrightarrow> cIsShareStack r \<or> stack_mem r \<noteq> Some q \<longrightarrow> stacks w' q = stacks w q"
proof -
  from inv obtain e where e: "envs w env = Some e" "calls_ok w e" "thread_calls env w = calls e" "in_thread env w"
    and core: "core_inv (Some (running env w)) (suspended env w) w" and own: "\<forall>c r. cos w c = Some r \<longrightarrow> co_env r = env"
    and sh: "shares_ok w" and hp: "heap_ok w"
    by (rule thread_invD)
  have neq: "co \<noteq> running env w"
    using co(2) running_calls [OF e(2)] e(3) by (auto simp: running_def)
  obtain q s where "stack_mem r = Some q" "stacks w q = Some s"
    using users_okD [OF core_invD(2) [OF core] co(1)] .
  then obtain w' where w': "co_free co w = Some w'" using co(1) by (cases "cIsShareStack r") (auto simp: co_free_def)
  note F = core_free [OF core co(1) neq co(3) w']
  have tc: "thread_calls env w' = thread_calls env w" by (simp add: thread_calls_def F)
  then have run: "running env w' = running env w" by (simp add: running_def)
  have st: "started w' x \<longleftrightarrow> started w x \<and> x \<noteq> co" "mains w' x \<longleftrightarrow> mains w x \<and> x \<noteq> co" for x
    using F(3) [of x] F(4) by (cases "x = co"; auto simp: started_def mains_def)+
  have sus: "suspended env w' = suspended env w - {co}" by (auto simp: suspended_def run st)
  have "calls_ok w' e"
    unfolding calls_ok_def st
  proof (intro conjI)
    show "\<forall>c\<in>set (calls e). (started w c \<and> c \<noteq> co) \<and> (\<exists>r. cos w' c = Some r \<and> \<not> cEnd r)"
    proof
      fix c assume c: "c \<in> set (calls e)"
      then have "c \<noteq> co" using co(2) e(3) by auto
      then show "(started w c \<and> c \<noteq> co) \<and> (\<exists>r. cos w' c = Some r \<and> \<not> cEnd r)"
        using e(2) c F(3) unfolding calls_ok_def by auto
    qed
  qed (use e(2) in \<open>auto simp: calls_ok_def\<close>)
  moreover have "shares_ok w'"
    unfolding shares_ok_def
  proof (intro allI impI)
    fix p t assume "shares w' p = Some t"
    then have old: "share_count t = int (length (stack_array t)) \<and> stack_array t \<noteq> [] \<and>
       length (stack_array t) < 2 ^ 31 \<and> (\<forall>q \<in> set (stack_array t). stacks w q \<noteq> None \<and>
        (\<forall>c r. cos w c = Some r \<longrightarrow> stack_mem r = Some q \<longrightarrow> cIsShareStack r))"
      using sh unfolding shares_ok_def F(8) by blast
    have "stacks w' q = stacks w q" if "q \<in> set (stack_array t)" for q
      using F(11) [of q] old that co(1) by blast
    moreover have "cIsShareStack rc" if "q \<in> set (stack_array t)" "cos w' c = Some rc" "stack_mem rc = Some q" for q c rc
    proof -
      have "c \<noteq> co" using that(2) F(4) by auto
      then show ?thesis using old that F(3) by auto
    qed
    ultimately show "share_count t = int (length (stack_array t)) \<and> stack_array t \<noteq> [] \<and>
       length (stack_array t) < 2 ^ 31 \<and> (\<forall>q \<in> set (stack_array t). stacks w' q \<noteq> None \<and>
        (\<forall>c r. cos w' c = Some r \<longrightarrow> stack_mem r = Some q \<longrightarrow> cIsShareStack r))"
      using old by auto
  qed
  moreover have "heap_ok w'"
  proof -
    have "cos w x \<noteq> None" if "cos w' x \<noteq> None" for x
      using that F(3,4) by (cases "x = co") auto
    moreover have "stacks w x \<noteq> None" if "stacks w' x \<noteq> None" for x using that F(10) [of x] by auto
    ultimately show ?thesis using hp unfolding heap_ok_def F(8,9) by blast
  qed
  moreover have "\<forall>c r. cos w' c = Some r \<longrightarrow> co_env r = env"
  proof (intro allI impI)
    fix c rc assume "cos w' c = Some rc"
    then show "co_env rc = env" using own F(3) [of c] F(4) by (cases "c = co") auto
  qed
  ultimately have "thread_inv env w'"
    unfolding thread_inv_def run sus
    using in_thread_cong [of w' w env] F(1,5,6,7) e(1,4) by (auto simp: in_thread_def)
  then show thesis
    using that [OF w' _ run sus tc] F(2,3,4,11) by auto
qed

section \<open>Executions of a thread\<close>

text \<open>
  A switch: the running coroutine resumes another one, yields, or ends. The guards are what the callers
  owe: \<open>co_resume\<close> is given a live coroutine that is not on the call stack, which has room; \<open>co_yield\<close>
  and the end of a coroutine need a resumer; the local \<open>c\<close> of \<open>co_swap\<close> is on the caller's stack.
\<close>

inductive switch_step :: "addr \<Rightarrow> frame \<Rightarrow> world \<Rightarrow> world \<Rightarrow> bool" for env fr where
  resume: "cos w co = Some r \<Longrightarrow> \<not> cEnd r \<Longrightarrow> co \<notin> set (thread_calls env w) \<Longrightarrow>
    length (thread_calls env w) < 128 \<Longrightarrow> frame_ok fr (running env w) w \<Longrightarrow>
    co_resume fr co w = Some w' \<Longrightarrow> switch_step env fr w w'"
| yield: "2 \<le> length (thread_calls env w) \<Longrightarrow> frame_ok fr (running env w) w \<Longrightarrow>
    co_yield_env fr env w = Some w' \<Longrightarrow> switch_step env fr w w'"
| finish: "2 \<le> length (thread_calls env w) \<Longrightarrow> frame_ok fr (running env w) w \<Longrightarrow>
    CoRoutineFunc_end fr (running env w) w = Some w' \<Longrightarrow> switch_step env fr w w'"

text \<open>A step: a switch, a write to memory that is no other coroutine's stack, a creation, a release.\<close>

inductive thread_step :: "addr \<Rightarrow> world \<Rightarrow> world \<Rightarrow> bool" for env where
  switch: "switch_step env fr w w' \<Longrightarrow> thread_step env w w'"
| poke: "may_write (running env w) m w \<Longrightarrow> thread_step env w (w\<lparr>mem := m\<rparr>)"
| create: "attr_ok w attr \<Longrightarrow> co_create_env env attr pfn arg w = Some (lp, w') \<Longrightarrow> thread_step env w w'"
| sharestack: "0 < cnt \<Longrightarrow> cnt < 2 ^ 31 \<Longrightarrow> 0 \<le> sz \<Longrightarrow> sz < 2 ^ 31 \<Longrightarrow>
    co_alloc_sharestack cnt sz w = (p, w') \<Longrightarrow> thread_step env w w'"
| release: "cos w co = Some r \<Longrightarrow> co \<notin> set (thread_calls env w) \<Longrightarrow> \<not> occupies w co \<Longrightarrow>
    co_release co w = Some w' \<Longrightarrow> thread_step env w w'"

inductive_cases switch_stepE: "switch_step env fr w w'"

definition stack_region :: "world \<Rightarrow> addr \<Rightarrow> (bool \<times> addr \<times> addr) option" where
  "stack_region w c = do { r \<leftarrow> cos w c; q \<leftarrow> stack_mem r; s \<leftarrow> stacks w q;
     Some (cIsMain r, stack_buffer s, stack_bp s) }"

lemma same_layout_region:
  assumes "same_layout w w'" "stack_region w c = Some t"
  shows "stack_region w' c = Some t"
proof -
  obtain r q s where r: "cos w c = Some r" "stack_mem r = Some q" "stacks w q = Some s"
    "t = (cIsMain r, stack_buffer s, stack_bp s)"
    using assms(2) by (auto simp: stack_region_def bind_eq_Some_conv)
  then obtain r' s' where "cos w' c = Some r'" "stack_mem r' = Some q" "cIsMain r' = cIsMain r"
    "stacks w' q = Some s'" "same_region s s'"
    using assms(1) unfolding same_layout_def by metis
  then show ?thesis using r(4) by (simp add: stack_region_def same_region_def)
qed

text \<open>What a step does to the coroutines that are suspended in its first state.\<close>

definition keeps_stacks :: "addr \<Rightarrow> world \<Rightarrow> world \<Rightarrow> bool" where
  "keeps_stacks env w w' \<longleftrightarrow> (\<forall>c b e. c \<in> suspended env w \<longrightarrow> stack_region w c = Some (False, b, e) \<longrightarrow>
     (c \<in> suspended env w' \<longrightarrow> content w' c = content w c \<and> stack_region w' c = stack_region w c) \<and>
     (running env w' = c \<longrightarrow> stack_bytes w' c = content w c \<and> stack_region w' c = stack_region w c))"

lemma region_not_main: "stack_region w c = Some (False, b, e) \<Longrightarrow> \<exists>r. cos w c = Some r \<and> \<not> cIsMain r"
  by (auto simp: stack_region_def bind_eq_Some_conv)

lemma switches_keeps:
  assumes "switches_to env fr (running env w) p w w'"
  shows "keeps_stacks env w w'"
  unfolding keeps_stacks_def
proof (intro allI impI)
  fix c b e assume c: "c \<in> suspended env w" "stack_region w c = Some (False, b, e)"
  obtain r where r: "cos w c = Some r" "\<not> cIsMain r" using region_not_main [OF c(2)] by blast
  have "stack_region w' c = stack_region w c"
    using same_layout_region [OF _ c(2)] assms c(2) by (simp add: switches_to_def)
  then show "(c \<in> suspended env w' \<longrightarrow> content w' c = content w c \<and> stack_region w' c = stack_region w c) \<and>
     (running env w' = c \<longrightarrow> stack_bytes w' c = content w c \<and> stack_region w' c = stack_region w c)"
    using assms c(1) r unfolding switches_to_def by auto
qed

lemma quiet_keeps:
  assumes "running env w' = running env w" "suspended env w' \<subseteq> suspended env w"
    and "\<And>c b e. c \<in> suspended env w' \<Longrightarrow> stack_region w c = Some (False, b, e) \<Longrightarrow>
      content w' c = content w c \<and> stack_region w' c = stack_region w c"
  shows "keeps_stacks env w w'"
  using assms unfolding keeps_stacks_def by (auto simp: suspended_def)

lemma with_end_same:
  assumes "thread_inv env w"
  shows "with_end False (running env w) w = w"
    "CoRoutineFunc_end fr (running env w) w = co_yield_env fr env (with_end True (running env w) w)"
proof -
  from assms obtain e where e: "envs w env = Some e" "calls_ok w e" "thread_calls env w = calls e"
    and own: "\<forall>c r. cos w c = Some r \<longrightarrow> co_env r = env"
    by (rule thread_invD)
  obtain r where r: "cos w (running env w) = Some r" "\<not> cEnd r"
    using running_calls [OF e(2)] e(2,3) by (auto simp: running_def calls_ok_def)
  then have "r\<lparr>cEnd := False\<rparr> = r" by (cases r) simp
  then show "with_end False (running env w) w = w" using r by (simp add: with_end_def fun_upd_idem)
  have "cEnd_update (\<lambda>_. True) r = r\<lparr>cEnd := True\<rparr>" by simp
  then show "CoRoutineFunc_end fr (running env w) w = co_yield_env fr env (with_end True (running env w) w)"
    using r own by (simp add: CoRoutineFunc_end_def set_co_def with_end_def)
qed

lemma switch_step_to:
  assumes inv: "thread_inv env w" and st: "switch_step env fr w w'"
  shows "thread_inv env w' \<and> frame_ok fr (running env w) w \<and> (\<exists>p. switches_to env fr (running env w) p w w')"
  using st
proof (cases rule: switch_step.cases)
  case (resume co r)
  show ?thesis
    by (rule resume_ok [OF inv resume(1-5)]) (use resume(5,6) in auto)
next
  case yield
  show ?thesis
    by (rule yield_core [OF inv yield(1,2), of False]) (use yield(2,3) with_end_same(1) [OF inv] in auto)
next
  case finish
  show ?thesis
    by (rule yield_core [OF inv finish(1,2), of True]) (use finish(2,3) with_end_same(2) [OF inv] in auto)
qed

lemma thread_step_keeps:
  assumes inv: "thread_inv env w" and st: "thread_step env w w'"
  shows "thread_inv env w' \<and> keeps_stacks env w w'"
  using st
proof (cases rule: thread_step.cases)
  case (switch fr)
  then show ?thesis using switch_step_to [OF inv] switches_keeps by blast
next
  case (poke m)
  note W = write_ok [OF inv poke(2)]
  have "keeps_stacks env w w'"
    unfolding poke(1)
  proof (rule quiet_keeps)
    fix c b e assume c: "c \<in> suspended env (w\<lparr>mem := m\<rparr>)" "stack_region w c = Some (False, b, e)"
    then show "content (w\<lparr>mem := m\<rparr>) c = content w c \<and> stack_region (w\<lparr>mem := m\<rparr>) c = stack_region w c"
      using W(3,5) region_not_main [OF c(2)] by (auto simp: stack_region_def)
  qed (use W in auto)
  then show ?thesis using W(1) poke(1) by simp
next
  case (create attr pfn arg lp)
  obtain lp2 w2 where C: "co_create_env env attr pfn arg w = Some (lp2, w2)" "thread_inv env w2"
    "running env w2 = running env w" "suspended env w2 = suspended env w" "same_layout w w2"
    "\<forall>x. x \<in> suspended env w \<longrightarrow> content w2 x = content w x"
    using create_ok [OF inv create(1)] by metis
  then have "w2 = w'" using create(2) by simp
  with C have "keeps_stacks env w w'" using same_layout_region by (intro quiet_keeps) auto
  then show ?thesis using C(2) \<open>w2 = w'\<close> by simp
next
  case (sharestack cnt sz p)
  note C = sharestack_ok [OF inv sharestack]
  have "keeps_stacks env w w'" using C same_layout_region by (intro quiet_keeps) auto
  then show ?thesis using C(1) by simp
next
  case (release co r)
  obtain w2 where C: "co_free co w = Some w2" "thread_inv env w2" "running env w2 = running env w"
    "suspended env w2 = suspended env w - {co}" "\<forall>x. x \<in> suspended env w - {co} \<longrightarrow> content w2 x = content w x"
    "\<forall>x. x \<noteq> co \<longrightarrow> cos w2 x = cos w x"
    "\<forall>q. stacks w q \<noteq> None \<longrightarrow> cIsShareStack r \<or> stack_mem r \<noteq> Some q \<longrightarrow> stacks w2 q = stacks w q"
    using free_ok [OF inv release(1-3)] by metis
  have eq: "w2 = w'" using C(1) release(4) by (simp add: co_release_def)
  have users: "users_ok w" using inv by (auto simp: thread_inv_def core_inv_def)
  have "keeps_stacks env w w'"
  proof (rule quiet_keeps)
    fix c b e assume c: "c \<in> suspended env w'" "stack_region w c = Some (False, b, e)"
    then have "c \<noteq> co" "c \<in> suspended env w - {co}" using C(4) eq by auto
    obtain rc q s where rc: "cos w c = Some rc" "stack_mem rc = Some q" "stacks w q = Some s"
      using c(2) by (auto simp: stack_region_def bind_eq_Some_conv)
    have "cIsShareStack r \<or> stack_mem r \<noteq> Some q"
      using users_ok_sharing [OF users rc(1) release(1)] rc(2) \<open>c \<noteq> co\<close> by auto
    then have "stacks w' q = stacks w q" using C(7) rc(3) eq by auto
    then have "stack_region w' c = stack_region w c"
      using C(6) eq \<open>c \<noteq> co\<close> rc by (simp add: stack_region_def)
    then show "content w' c = content w c \<and> stack_region w' c = stack_region w c"
      using C(5) eq \<open>c \<in> suspended env w - {co}\<close> by simp
  qed (use C(3,4) eq in auto)
  then show ?thesis using C(2) eq by simp
qed

text \<open>A step during which \<open>c\<close> stays suspended.\<close>

definition away_step :: "addr \<Rightarrow> addr \<Rightarrow> world \<Rightarrow> world \<Rightarrow> bool" where
  "away_step env c w w' \<longleftrightarrow> thread_step env w w' \<and> c \<in> suspended env w \<and> c \<in> suspended env w'"

lemma away_keeps:
  assumes "(away_step env c)\<^sup>*\<^sup>* w w'" "thread_inv env w" "stack_region w c = Some (False, b, e)"
  shows "thread_inv env w' \<and> content w' c = content w c \<and> stack_region w' c = Some (False, b, e)"
  using assms
proof (induction rule: rtranclp_induct)
  case base
  then show ?case by simp
next
  case (step y z)
  then have y: "thread_inv env y" "content y c = content w c" "stack_region y c = Some (False, b, e)" by simp_all
  have "thread_step env y z" "c \<in> suspended env y" "c \<in> suspended env z"
    using step.hyps(2) by (simp_all add: away_step_def)
  then show ?case using thread_step_keeps [OF y(1)] y unfolding keeps_stacks_def by fastforce
qed

lemma frame_bytes_region:
  assumes "stack_region w c = Some (m, b, e)"
  shows "frame_bytes fr w c = map (mem w) [c_addr fr ..< e]"
    "\<exists>r. cos w c = Some r \<and> stack_bytes w c = map (mem w) [stack_sp r ..< e]"
  using assms by (auto simp: stack_region_def frame_bytes_def stack_bytes_def bind_eq_Some_conv)

lemma away_suspended:
  assumes "(away_step env c)\<^sup>*\<^sup>* w w'" "c \<in> suspended env w"
  shows "c \<in> suspended env w'"
  using assms by (induction rule: rtranclp_induct) (auto simp: away_step_def)

text \<open>
  C1: a coroutine finds its stack as it left it. Let \<open>c\<close>, which is not the main coroutine, be running and
  give up control through \<open>co_swap\<close> (by \<open>co_resume\<close> of another coroutine, by \<open>co_yield\<close> or at its end), with
  the local \<open>c\<close> of \<open>co_swap\<close> at \<open>c_addr fr\<close>. Whatever the thread does while \<open>c\<close> is suspended - other coroutines
  on the same shared stack run, write to it, are suspended, created and released - the step that runs \<open>c\<close>
  again leaves every byte of its stack, from \<open>c_addr fr\<close> to the bottom \<open>e\<close>, as it was; for a shared
  stack they come from the save buffer unless the coroutine still occupies it.
\<close>
theorem stack_restored:
  assumes inv: "thread_inv env w0" and c: "running env w0 = c" "stack_region w0 c = Some (False, b, e)"
    and out: "switch_step env fr w0 w1" "c \<in> suspended env w1"
    and away: "(away_step env c)\<^sup>*\<^sup>* w1 w2" and bk: "thread_step env w2 w3" "running env w3 = c"
  shows "map (mem w3) [c_addr fr ..< e] = map (mem w0) [c_addr fr ..< e]"
proof -
  from switch_step_to [OF inv out(1)] obtain p where inv1: "thread_inv env w1"
    and fr: "frame_ok fr c w0" and sw: "switches_to env fr c p w0 w1"
    unfolding c(1) by blast
  have lay: "stack_region w1 c = Some (False, b, e)"
    using same_layout_region [OF _ c(2)] sw by (simp add: switches_to_def)
  obtain r where r: "cos w0 c = Some r" "\<not> cIsMain r" using region_not_main [OF c(2)] by blast
  have "content w1 c = map (mem w0) [c_addr fr ..< e]"
    using sw r frame_bytes_region(1) [OF c(2)] unfolding switches_to_def by simp
  moreover note away_keeps [OF away inv1 lay]
  ultimately have 2: "thread_inv env w2" "content w2 c = map (mem w0) [c_addr fr ..< e]"
    "stack_region w2 c = Some (False, b, e)" by auto
  have "stack_bytes w3 c = content w2 c \<and> stack_region w3 c = stack_region w2 c"
    using thread_step_keeps [OF 2(1) bk(1)] away_suspended [OF away out(2)] bk(2) 2(3) unfolding keeps_stacks_def by blast
  then have 3: "stack_bytes w3 c = map (mem w0) [c_addr fr ..< e]" "stack_region w3 c = Some (False, b, e)"
    using 2 by auto
  obtain r3 where r3: "cos w3 c = Some r3" "stack_bytes w3 c = map (mem w3) [stack_sp r3 ..< e]"
    using frame_bytes_region(2) [OF 3(2)] by blast
  then have "length [stack_sp r3 ..< e] = length [c_addr fr ..< e]" using 3(1) by (metis length_map)
  then have "e - stack_sp r3 = e - c_addr fr" by simp
  then have "stack_sp r3 = c_addr fr \<or> e \<le> stack_sp r3 \<and> e \<le> c_addr fr" by arith
  then have "[stack_sp r3 ..< e] = [c_addr fr ..< e]" by auto
  with r3(2) 3(1) show ?thesis by simp
qed

text \<open>
  A state for the witnesses: the main coroutine 2, and the coroutines 10 (running, started) and 11 (new),
  which share the stack 12 of 64 bytes at 200; every byte of memory is 9.
\<close>

definition demo_co :: "bool \<Rightarrow> bool \<Rightarrow> addr \<Rightarrow> stCoRoutine_t" where
  "demo_co start main q = \<lparr>co_env = 4, co_pfn = Some 5, co_arg = 0, co_ctx = coctx_init,
     cStart = start, cEnd = False, cIsMain = main, cEnableSysHook = False, cIsShareStack = (\<not> main),
     pvEnv = None, stack_mem = Some q, stack_sp = 150, save_size = 0, save_buffer = None,
     aSpec = replicate 1024 0\<rparr>"

definition demo_world :: world where
  "demo_world = \<lparr>
     cos = [2 \<mapsto> demo_co False True 3, 10 \<mapsto> demo_co True False 12, 11 \<mapsto> demo_co False False 12],
     stacks = [3 \<mapsto> \<lparr>occupy_co = None, stack_size = 100, stack_bp = 200, stack_buffer = 100\<rparr>,
       12 \<mapsto> \<lparr>occupy_co = Some 10, stack_size = 64, stack_bp = 264, stack_buffer = 200\<rparr>],
     shares = Map.empty,
     envs = [4 \<mapsto> \<lparr>pCallStack = [Some 2, Some 10] @ replicate 126 None, iCallStackSize = 2, pEpoll = None,
       env_pending_co = Some 10, env_occupy_co = None\<rparr>],
     epolls = Map.empty, timeouts = Map.empty, tm = \<lparr>nodes = Map.empty, links = Map.empty\<rparr>,
     bufs = Map.empty, mem = (\<lambda>_. 9), brk = 300, g_arrCoEnvPerThread = [7 \<mapsto> 4], tid = 7, cpu_regs = []\<rparr>"

definition demo_frame :: frame where
  "demo_frame = \<lparr>c_addr = 240, call_regs = replicate 14 0\<rparr>"

lemma demo_calls: "thread_calls 4 demo_world = [2, 10]" "running 4 demo_world = 10"
  by (simp_all add: running_def thread_calls_def demo_world_def calls_def)

lemma demo_started: "started demo_world c \<longleftrightarrow> c = 2 \<or> c = 10"
  by (auto simp: started_def demo_world_def demo_co_def split: if_splits)

lemma demo_inv: "thread_inv 4 demo_world"
proof -
  have sus: "suspended 4 demo_world = {2}"
    by (auto simp: suspended_def demo_started demo_calls)
  have "stacks_ok demo_world"
    by (auto simp: stacks_ok_def demo_world_def split: if_splits)
  moreover have "users_ok demo_world"
    by (auto simp: users_ok_def demo_world_def demo_co_def split: if_splits)
  moreover have "buffers_ok demo_world" "main_ok demo_world"
    by (auto simp: buffers_ok_def main_ok_def demo_world_def demo_co_def split: if_splits)
  moreover have "occupants_ok {2, 10} demo_world"
    by (auto simp: occupants_ok_def shares_on_def demo_world_def demo_co_def split: if_splits)
  moreover have "suspended_ok 2 demo_world" "occupies demo_world 10"
    by (simp_all add: suspended_ok_def occupies_def demo_world_def demo_co_def)
  ultimately have "core_inv (Some 10) {2} demo_world"
    by (simp add: core_inv_def insert_commute) (simp add: demo_world_def)
  moreover have "in_thread 4 demo_world" "shares_ok demo_world" "heap_ok demo_world"
    by (auto simp: in_thread_def co_get_curr_thread_env_def shares_ok_def heap_ok_def demo_world_def)
  moreover have "\<forall>c r. cos demo_world c = Some r \<longrightarrow> co_env r = 4"
    by (simp add: demo_world_def demo_co_def)
  moreover have "\<exists>e. envs demo_world 4 = Some e \<and> calls_ok demo_world e"
  proof -
    define e where "e = the (envs demo_world 4)"
    have e: "envs demo_world 4 = Some e" "length (pCallStack e) = 128" "iCallStackSize e = 2"
      "pCallStack e ! 0 = Some 2" "pCallStack e ! 1 = Some 10" "calls e = [2, 10]"
      by (simp_all add: e_def demo_world_def calls_def)
    have "\<forall>i < 2. pCallStack e ! i \<noteq> None" using e(4,5) by (auto simp: less_2_cases_iff)
    moreover have "mains demo_world c \<longrightarrow> c = 2" for c
      by (simp add: mains_def demo_world_def demo_co_def)
    moreover have "\<forall>c \<in> {2, 10}. \<exists>r. cos demo_world c = Some r \<and> \<not> cEnd r"
      by (simp add: demo_world_def demo_co_def)
    ultimately have "calls_ok demo_world e"
      by (simp add: calls_ok_def e demo_started)
    with e(1) show ?thesis by blast
  qed
  ultimately show ?thesis by (simp add: thread_inv_def demo_calls sus)
qed

lemma frame_ok_region:
  assumes "stack_region w c = Some (m, b, e)" "m \<or> b \<le> c_addr fr \<and> c_addr fr \<le> e"
  shows "frame_ok fr c w"
  using assms by (auto simp: frame_ok_def stack_region_def bind_eq_Some_conv)

lemma resume_region:
  assumes inv: "thread_inv env w" and reg: "stack_region w co = Some (False, b, e)"
    and alive: "\<And>r. cos w co = Some r \<Longrightarrow> \<not> cEnd r"
    and "co \<notin> set (thread_calls env w)" "length (thread_calls env w) < 128"
    and fr: "frame_ok fr (running env w) w"
  obtains w' where "switch_step env fr w w'" "thread_inv env w'" "co_resume fr co w = Some w'"
    "thread_calls env w' = thread_calls env w @ [co]" "running env w' = co"
    "suspended env w' = insert (running env w) (suspended env w) - {co}" "same_layout w w'"
proof -
  obtain r where r: "cos w co = Some r" using region_not_main [OF reg] by blast
  obtain w' where w': "co_resume fr co w = Some w'" "thread_inv env w'"
    "thread_calls env w' = thread_calls env w @ [co]" "switches_to env fr (running env w) co w w'"
    using resume_ok [OF inv r alive [OF r] assms(4,5) fr] by blast
  have "switch_step env fr w w'" by (rule switch_step.resume [OF r alive [OF r] assms(4,5) fr w'(1)])
  with w' show thesis using that by (simp add: switches_to_def)
qed

lemma yield_region:
  assumes inv: "thread_inv env w" and two: "2 \<le> length (thread_calls env w)"
    and fr: "frame_ok fr (running env w) w"
  obtains w' where "switch_step env fr w w'" "thread_inv env w'" "co_yield_env fr env w = Some w'"
    "thread_calls env w' = butlast (thread_calls env w)" "running env w' = last (butlast (thread_calls env w))"
    "suspended env w' = insert (running env w) (suspended env w) - {running env w'}" "same_layout w w'"
proof -
  obtain w' where w': "co_yield_env fr env w = Some w'" "thread_inv env w'"
    "thread_calls env w' = butlast (thread_calls env w)"
    "switches_to env fr (running env w) (last (butlast (thread_calls env w))) w w'"
    using yield_core [OF inv two fr, of False] with_end_same(1) [OF inv] by auto
  have "switch_step env fr w w'" by (rule switch_step.yield [OF two fr w'(1)])
  with w' show thesis using that by (simp add: switches_to_def)
qed

text \<open>All of the shared stack is overwritten.\<close>

definition demo_mem :: "addr \<Rightarrow> byte" where
  "demo_mem a = (if 200 \<le> a \<and> a < 264 then 0 else 9)"

lemma demo_regions:
  "stack_region demo_world 2 = Some (True, 100, 200)" "stack_region demo_world 10 = Some (False, 200, 264)"
  "stack_region demo_world 11 = Some (False, 200, 264)"
  by (simp_all add: stack_region_def demo_world_def demo_co_def)


lemmas run_ops = co_resume_def co_yield_env_def co_swap_out_def co_swap_in_def save_stack_buffer_def resume_point_def
  co_get_curr_thread_env_def set_co_def set_env_def set_stack_def call_at_def push_call_def malloc_def to_s32_def

lemmas demo_eval = demo_world_def demo_co_def demo_frame_def coctx_make_def run_ops

text \<open>10 yields to main, main resumes 11, which overwrites the shared stack and yields, main resumes 10.\<close>

definition demo1 :: world where "demo1 = the (co_yield_env demo_frame 4 demo_world)"
definition demo2 :: world where "demo2 = the (co_resume demo_frame 11 demo1)"
definition demo3 :: world where "demo3 = the (co_yield_env demo_frame 4 (demo2\<lparr>mem := demo_mem\<rparr>))"
definition demo4 :: world where "demo4 = the (co_resume demo_frame 10 demo3)"

lemmas demo_defs = demo1_def demo2_def demo3_def demo4_def

lemma demo_alive: "cos demo1 11 = Some r \<Longrightarrow> \<not> cEnd r" "cos demo3 10 = Some r \<Longrightarrow> \<not> cEnd r"
  by (auto simp: demo_defs demo_eval)

lemma demo_stack12: "stacks demo2 q = Some s \<Longrightarrow> stack_buffer s \<le> a \<Longrightarrow> a < stack_bp s \<Longrightarrow> 200 \<le> a \<Longrightarrow> a < 264 \<Longrightarrow>
    \<exists>r. cos demo2 11 = Some r \<and> stack_mem r = Some q"
  by (auto simp: demo_defs demo_eval split: if_splits)

lemma demo_mem2: "mem demo2 a = 9"
  by (simp add: demo_defs demo_eval)

lemma stack_restored_witness:
  "map (mem demo4) [240 ..< 264] = map (mem demo_world) [240 ..< 264] \<and> mem demo3 250 = 0 \<and>
   mem demo_world 250 = 9"
proof -
  have "frame_ok demo_frame 10 demo_world"
    by (rule frame_ok_region [OF demo_regions(2)]) (simp add: demo_frame_def)
  then obtain w1 where 1: "switch_step 4 demo_frame demo_world w1" "thread_inv 4 w1"
    "co_yield_env demo_frame 4 demo_world = Some w1" "thread_calls 4 w1 = [2]" "running 4 w1 = 2"
    "suspended 4 w1 = insert 10 (suspended 4 demo_world) - {2}" "same_layout demo_world w1"
    using yield_region [OF demo_inv, of demo_frame] by (auto simp: demo_calls)
  then have [simp]: "w1 = demo1" by (simp add: demo1_def)
  note reg1 = demo_regions [THEN same_layout_region [OF 1(7)]]
  have "frame_ok demo_frame 2 demo1" using frame_ok_region [OF reg1(1)] by simp
  then obtain w2 where 2: "switch_step 4 demo_frame demo1 w2" "thread_inv 4 w2"
    "co_resume demo_frame 11 demo1 = Some w2" "thread_calls 4 w2 = [2, 11]" "running 4 w2 = 11"
    "suspended 4 w2 = insert 2 (suspended 4 demo1) - {11}" "same_layout demo1 w2"
    using resume_region [of 4 demo1 11 200 264 demo_frame] reg1(3) demo_alive(1) 1(2,4,5) by auto
  then have [simp]: "w2 = demo2" by (simp add: demo2_def)
  note reg2 = reg1 [THEN same_layout_region [OF 2(7) [folded \<open>w1 = demo1\<close>]]]
  let ?w = "demo2\<lparr>mem := demo_mem\<rparr>"
  have mw: "may_write 11 demo_mem demo2"
    using demo_stack12 unfolding may_write_def by (auto simp: demo_mem_def demo_mem2 split: if_splits)
  have "thread_inv 4 demo2" "running 4 demo2 = 11" using 2 by simp_all
  note W = write_ok [OF this(1), of demo_mem, unfolded this(2), OF mw]
  have "thread_calls 4 ?w = [2, 11]" using 2(4) by (simp add: thread_calls_def)
  moreover have "frame_ok demo_frame 11 ?w"
    using frame_ok_region [OF same_layout_region [OF W(4)], of 11 False 200 264] reg2(3)
    by (simp add: demo_frame_def)
  ultimately obtain w3 where 3: "switch_step 4 demo_frame ?w w3" "thread_inv 4 w3"
    "co_yield_env demo_frame 4 ?w = Some w3" "thread_calls 4 w3 = [2]" "running 4 w3 = 2"
    "suspended 4 w3 = insert 11 (suspended 4 ?w) - {2}" "same_layout ?w w3"
    using yield_region [OF W(1), of demo_frame] W(2) by auto
  then have [simp]: "w3 = demo3" by (simp add: demo3_def)
  note reg3 = reg2 [simplified, THEN same_layout_region [OF W(4)], THEN same_layout_region [OF 3(7)]]
  have "frame_ok demo_frame 2 demo3" using frame_ok_region [OF reg3(1)] by simp
  then obtain w4 where 4: "switch_step 4 demo_frame demo3 w4" "thread_inv 4 w4"
    "co_resume demo_frame 10 demo3 = Some w4" "thread_calls 4 w4 = [2, 10]" "running 4 w4 = 10"
    "suspended 4 w4 = insert 2 (suspended 4 demo3) - {10}" "same_layout demo3 w4"
    using resume_region [of 4 demo3 10 200 264 demo_frame] reg3(2) demo_alive(2) 3(2,4,5) by auto
  then have [simp]: "w4 = demo4" by (simp add: demo4_def)
  have sus: "10 \<in> suspended 4 demo1" "10 \<in> suspended 4 demo2" "10 \<in> suspended 4 ?w" "10 \<in> suspended 4 demo3"
    using 1(6) 2(6) 3(6) W(3) by auto
  have "away_step 4 10 demo1 demo2" "away_step 4 10 demo2 ?w" "away_step 4 10 ?w demo3"
    using sus 2(1) 3(1) mw \<open>running 4 demo2 = 11\<close>
    by (auto simp: away_step_def intro: thread_step.switch thread_step.poke)
  then have "(away_step 4 10)\<^sup>*\<^sup>* demo1 demo3"
    by (meson converse_rtranclp_into_rtranclp rtranclp.rtrancl_refl)
  moreover have "thread_step 4 demo3 demo4" using 4(1) thread_step.switch by simp
  moreover have "mem demo3 250 = 0" "mem demo_world 250 = 9"
    by (simp add: demo_defs demo_eval demo_mem_def) (simp add: demo_world_def)
  ultimately show ?thesis
    using stack_restored [OF demo_inv demo_calls(2) demo_regions(2), of demo_frame demo1 demo3 demo4] 1(1) sus(1) 4(5)
    by (simp add: demo_frame_def)
qed

section \<open>Properties of the call stack\<close>

lemma current_co:
  assumes "thread_inv env w"
  shows "GetCurrThreadCo w = Some (Some (running env w))"
proof -
  from assms obtain e where e: "envs w env = Some e" "calls_ok w e" "thread_calls env w = calls e" "in_thread env w"
    by (rule thread_invD)
  then show ?thesis
    using call_at_last [OF e(2)] by (simp add: GetCurrThreadCo_def GetCurrCo_def in_thread_def running_def)
qed

text \<open>
  \<open>co_resume\<close> works and runs its argument. For a coroutine that has not ended and is not on the call
  stack, and a call stack with room, it has no undefined behaviour, pushes the coroutine on the call
  stack, makes it the current one, marks it started and keeps the invariant of the thread.
\<close>
theorem co_resume_runs:
  assumes inv: "thread_inv env w" and co: "cos w co = Some r" "\<not> cEnd r" "co \<notin> set (thread_calls env w)"
    and room: "length (thread_calls env w) < 128" and fr: "frame_ok fr (running env w) w"
  shows "\<exists>w'. co_resume fr co w = Some w' \<and> thread_inv env w' \<and>
    thread_calls env w' = thread_calls env w @ [co] \<and> GetCurrThreadCo w' = Some (Some co) \<and> started w' co"
proof -
  obtain w' where w': "co_resume fr co w = Some w'" "thread_inv env w'"
    "thread_calls env w' = thread_calls env w @ [co]"
    using resume_ok [OF inv co room fr] by blast
  have "running env w' = co" using w'(3) by (simp add: running_def)
  moreover have "started w' co"
  proof -
    from w'(2) obtain e where "calls_ok w' e" "thread_calls env w' = calls e" by (rule thread_invD)
    moreover from this have "calls e = thread_calls env w @ [co]" using w'(3) by simp
    then have "co \<in> set (calls e)" by simp
    ultimately show ?thesis by (simp add: calls_ok_def)
  qed
  ultimately show ?thesis using w' current_co [OF w'(2)] by auto
qed

text \<open>
  \<open>co_yield\<close>, and the end of a coroutine's function, return to the coroutine that resumed the current
  one: they have no undefined behaviour as long as there is a resumer, pop the call stack, make the
  resumer the current coroutine and keep the invariant; a coroutine that ended is marked so.
\<close>
theorem co_yield_returns_to_resumer:
  assumes inv: "thread_inv env w" and two: "2 \<le> length (thread_calls env w)"
    and fr: "frame_ok fr (running env w) w"
  shows "(\<exists>w'. co_yield_ct fr w = Some w' \<and> thread_inv env w' \<and>
      thread_calls env w' = butlast (thread_calls env w) \<and>
      GetCurrThreadCo w' = Some (Some (last (butlast (thread_calls env w))))) \<and>
    (\<exists>w'. CoRoutineFunc_end fr (running env w) w = Some w' \<and> thread_inv env w' \<and>
      thread_calls env w' = butlast (thread_calls env w) \<and>
      GetCurrThreadCo w' = Some (Some (last (butlast (thread_calls env w)))))"
proof -
  have th: "in_thread env w" using inv by (auto simp: thread_inv_def)
  have "\<exists>w'. co_yield_env fr env (with_end b (running env w) w) = Some w' \<and> thread_inv env w' \<and>
      thread_calls env w' = butlast (thread_calls env w) \<and>
      GetCurrThreadCo w' = Some (Some (last (butlast (thread_calls env w))))" for b
  proof -
    obtain w' where w': "co_yield_env fr env (with_end b (running env w) w) = Some w'" "thread_inv env w'"
      "thread_calls env w' = butlast (thread_calls env w)"
      using yield_core [OF inv two fr, of b] by blast
    then show ?thesis using current_co [OF w'(2)] by (simp add: running_def)
  qed
  from this [of False] this [of True] show ?thesis
    using th by (simp add: with_end_same [OF inv] co_yield_ct_def in_thread_def)
qed

text \<open>
  the limits of \<open>pCallStack\<close> are not checked by the code: with 128 nested coroutines \<open>co_resume\<close>
  writes past the array, and \<open>co_yield\<close> by a coroutine that nobody resumed reads index \<open>-1\<close>.
\<close>
theorem call_stack_limits:
  assumes inv: "thread_inv env w"
  shows "(length (thread_calls env w) = 128 \<longrightarrow> co_resume fr co w = None) \<and>
    (length (thread_calls env w) = 1 \<longrightarrow> co_yield_env fr env w = None)"
proof (intro conjI impI)
  from inv obtain e where e: "envs w env = Some e" "calls_ok w e" "thread_calls env w = calls e"
    and own: "\<forall>c r. cos w c = Some r \<longrightarrow> co_env r = env"
    by (rule thread_invD)
  note len = calls_length [OF e(2), folded e(3)]
  show "co_resume fr co w = None" if "length (thread_calls env w) = 128"
  proof -
    have "push_call co e = None" using that len e(2) by (simp add: push_call_def calls_ok_def)
    then show ?thesis
      using own e(1) by (cases "cos w co"; cases "call_at e (iCallStackSize e - 1)")
        (auto simp: co_resume_def set_co_def)
  qed
  show "co_yield_env fr env w = None" if "length (thread_calls env w) = 1"
  proof -
    have "iCallStackSize e = 1" using that len by simp
    then show ?thesis using e(1) by (simp add: co_yield_env_def call_at_def)
  qed
qed

section \<open>Properties of creation, initialisation and release\<close>


text \<open>\<open>n\<close> calls of \<open>co_get_stackmem\<close> in a row.\<close>

primrec get_stackmems :: "nat \<Rightarrow> addr \<Rightarrow> world \<Rightarrow> (ptr list \<times> world) option" where
  "get_stackmems 0 p w = Some ([], w)"
| "get_stackmems (Suc n) p w = do {
     (qs, w) \<leftarrow> get_stackmems n p w;
     (q, w) \<leftarrow> co_get_stackmem (Some p) w;
     Some (qs @ [q], w) }"

text \<open>
  the coroutines created on a shared stack are spread over its stack memories in turn: from a
  counter \<open>i\<close>, the \<open>j\<close>-th call of \<open>co_get_stackmem\<close> returns entry \<open>(i + j) mod count\<close>, as long as the
  32-bit counter does not wrap around.
\<close>
theorem co_get_stackmem_round_robin:
  assumes "shares w p = Some sh" "share_count sh = int (length (stack_array sh))"
    and "stack_array sh \<noteq> []" "length (stack_array sh) < 2 ^ 31" "unat (alloc_idx sh) + n < 2 ^ 32"
  shows "\<exists>w'. get_stackmems n p w = Some
     (map (\<lambda>j. Some (stack_array sh ! ((unat (alloc_idx sh) + j) mod length (stack_array sh)))) [0..<n], w')"
proof -
  have "n \<le> m \<Longrightarrow> unat (alloc_idx sh) + m < 2 ^ 32 \<Longrightarrow> get_stackmems n p w = Some
     (map (\<lambda>j. Some (stack_array sh ! ((unat (alloc_idx sh) + j) mod length (stack_array sh)))) [0..<n],
      w\<lparr>shares := (shares w)(p \<mapsto> sh\<lparr>alloc_idx := alloc_idx sh + word_of_nat n\<rparr>)\<rparr>)" for m
  proof (induction n)
    case 0
    then show ?case using assms(1) by (cases w) (simp add: fun_upd_idem)
  next
    case (Suc n)
    let ?sh = "sh\<lparr>alloc_idx := alloc_idx sh + word_of_nat n\<rparr>"
    let ?w = "w\<lparr>shares := (shares w)(p \<mapsto> ?sh)\<rparr>"
    have IH: "get_stackmems n p w = Some
       (map (\<lambda>j. Some (stack_array sh ! ((unat (alloc_idx sh) + j) mod length (stack_array sh)))) [0..<n], ?w)"
      by (rule Suc.IH) (use Suc.prems in auto)
    have "unat (word_of_nat n :: u32) = n"
      using Suc.prems by (simp add: unat_of_nat)
    then have u: "unat (alloc_idx ?sh) = unat (alloc_idx sh) + n"
      using Suc.prems by (simp add: unat_word_ariths)
    have "co_get_stackmem (Some p) ?w = Some (Some (stack_array sh ! ((unat (alloc_idx sh) + n) mod length (stack_array sh))),
        w\<lparr>shares := (shares w)(p \<mapsto> sh\<lparr>alloc_idx := alloc_idx sh + word_of_nat (Suc n)\<rparr>)\<rparr>)"
      using co_get_stackmem_eq [of ?w p ?sh] assms(2-4) u by (simp add: ac_simps)
    then show ?case using IH by (simp del: fun_upd_apply)
  qed
  then show ?thesis using assms(5) by blast
qed

text \<open>
  C35: releasing the occupant of a shared stack is a use after free. \<open>co_release\<close> leaves \<open>occupy_co\<close>
  pointing at the coroutine it frees; when another coroutine of that stack is resumed next, \<open>co_swap\<close>
  reads the freed structure to save its stack.
\<close>
theorem release_of_occupant_is_use_after_free:
  assumes inv: "thread_inv env w" and co: "cos w co = Some r" "cIsShareStack r" "occupies w co"
    and rel: "co_release co w = Some w'"
    and other: "cos w co2 = Some r2" "co2 \<noteq> co" "cIsShareStack r2" "stack_mem r2 = stack_mem r"
  shows "co_resume fr co2 w' = None"
proof -
  obtain q s where q: "stack_mem r = Some q" "stacks w q = Some s" "occupy_co s = Some co"
    using co by (auto simp: occupies_def)
  have w': "w' = w\<lparr>cos := (cos w)(co := None)\<rparr>"
    using rel co(1,2) by (simp add: co_release_def co_free_def)
  have out: "co_swap_out fr c co2 v = None"
    if v: "cos v co = None" "stacks v = stacks w" "\<And>r. cos v co2 = Some r \<Longrightarrow> cIsShareStack r \<and> stack_mem r = Some q" for v c
  proof (rule ccontr)
    assume "co_swap_out fr c co2 v \<noteq> None"
    then obtain v' where "co_swap_out fr c co2 v = Some v'" by blast
    then obtain env v1 rp where e: "co_get_curr_thread_env v = Some (Some env)"
      and v1: "set_co (\<lambda>c. c\<lparr>stack_sp := c_addr fr\<rparr>) c v = Some v1" "cos v1 co2 = Some rp"
      by (auto simp: co_swap_out_def bind_eq_Some_conv)
    have "cos v1 co = None" "stacks v1 = stacks w" "cIsShareStack rp \<and> stack_mem rp = Some q"
      using v1 v by (auto simp: set_co_def split: if_splits)
    with \<open>co_swap_out fr c co2 v = Some v'\<close> v1 e q other(2) show False
      by (auto simp: co_swap_out_def bind_eq_Some_conv set_stack_def set_env_def save_stack_buffer_def)
  qed
  have 1: "co_swap_out fr c co2 (w'\<lparr>envs := E\<rparr>) = None" for c E
    by (rule out) (use other q(1) in \<open>auto simp: w'\<close>)
  have 2: "co_swap_out fr c co2 (w'\<lparr>cos := (cos w')(co2 \<mapsto> r2\<lparr>co_ctx := x, cStart := True\<rparr>), envs := E\<rparr>) = None"
    for c x E
    by (rule out) (use other q(1) in \<open>auto simp: w'\<close>)
  show ?thesis
  proof (rule ccontr)
    assume "co_resume fr co2 w' \<noteq> None"
    then obtain w'' where w'': "co_resume fr co2 w' = Some w''" by blast
    moreover have "cos w' co2 = Some r2" using other by (simp add: w')
    ultimately show False
      using 1 2 by (cases "cStart r2") (auto simp: co_resume_def bind_eq_Some_conv set_co_def)
  qed
qed

text \<open>A process in which nothing has been allocated.\<close>

definition empty_world :: "int \<Rightarrow> addr \<Rightarrow> world" where
  "empty_world t b = \<lparr>cos = Map.empty, stacks = Map.empty, shares = Map.empty, envs = Map.empty,
     epolls = Map.empty, timeouts = Map.empty, tm = \<lparr>nodes = Map.empty, links = Map.empty\<rparr>,
     bufs = Map.empty, mem = (\<lambda>_. 0), brk = b, g_arrCoEnvPerThread = (\<lambda>_. None), tid = t, cpu_regs = []\<rparr>"

text \<open>The main coroutine and its environment, as \<open>co_init_curr_thread_env\<close> builds them.\<close>

definition main_co :: "addr \<Rightarrow> stCoRoutine_t" where
  "main_co b = (new_co b None 0 False (b + 2) coctx_init)\<lparr>cIsMain := True\<rparr>"

definition main_stack :: "addr \<Rightarrow> stStackMem_t" where
  "main_stack b = \<lparr>occupy_co = None, stack_size = 131072, stack_bp = 131075 + b, stack_buffer = Suc (Suc (Suc b))\<rparr>"

definition main_env :: "addr \<Rightarrow> stCoRoutineEnv_t" where
  "main_env b = \<lparr>pCallStack = (replicate 128 None)[0 := Some (b + 1)], iCallStackSize = 1,
     pEpoll = Some (131075 + b), env_pending_co = None, env_occupy_co = None\<rparr>"

lemma init_eq:
  assumes "0 \<le> t" "t < 204800"
  obtains w where "co_init_curr_thread_env efd tick (empty_world t b) = Some w"
    "cos w = [b + 1 \<mapsto> main_co b]" "stacks w = [b + 2 \<mapsto> main_stack b]" "envs w = [b \<mapsto> main_env b]"
    "shares w = Map.empty" "bufs w = Map.empty" "tid w = t" "g_arrCoEnvPerThread w = (\<lambda>_. None)(t := Some b)"
    "brk w = b + 191079" "mem w = (\<lambda>_. 0)"
proof -
  have "to_s32 131072 = 131072" by (rule to_s32_id) (simp add: in_s32_def)
  then have "\<exists>w. co_init_curr_thread_env efd tick (empty_world t b) = Some w \<and>
    cos w = [b + 1 \<mapsto> main_co b] \<and> stacks w = [b + 2 \<mapsto> main_stack b] \<and> envs w = [b \<mapsto> main_env b] \<and>
    shares w = Map.empty \<and> bufs w = Map.empty \<and> tid w = t \<and>
    g_arrCoEnvPerThread w = (\<lambda>_. None)(t := Some b) \<and> brk w = b + 191079 \<and> mem w = (\<lambda>_. 0)"
    using assms
    by (simp add: co_init_curr_thread_env_def malloc_def empty_world_def co_create_env_def default_attr_def
        normal_stack_size_def alloc_stackmem_eq set_co_def push_call_def AllocEpoll_def AllocTimeout_def SetEpoll_def
        set_env_def main_co_def main_stack_def main_env_def new_co_def Let_def)
  then show thesis using that by blast
qed

lemma init_inv:
  assumes "0 \<le> t" "t < 204800" "co_init_curr_thread_env efd tick (empty_world t b) = Some w"
  shows "thread_inv b w" "thread_calls b w = [b + 1]"
proof -
  obtain w2 where w2: "co_init_curr_thread_env efd tick (empty_world t b) = Some w2"
    "cos w2 = [b + 1 \<mapsto> main_co b]" "stacks w2 = [b + 2 \<mapsto> main_stack b]" "envs w2 = [b \<mapsto> main_env b]"
    "shares w2 = Map.empty" "bufs w2 = Map.empty" "tid w2 = t" "g_arrCoEnvPerThread w2 = (\<lambda>_. None)(t := Some b)"
    "brk w2 = b + 191079" "mem w2 = (\<lambda>_. 0)"
    using init_eq [OF assms(1,2)] .
  have "w2 = w" using w2(1) assms(3) by simp
  note w = w2(2-10) [unfolded this]
  have calls: "calls (main_env b) = [b + 1]"
    by (simp add: calls_def main_env_def take_Suc hd_conv_nth)
  show tc: "thread_calls b w = [b + 1]" by (simp add: thread_calls_def w calls)
  then have run: "running b w = b + 1" by (simp add: running_def)
  have st: "started w x \<longleftrightarrow> x = b + 1" "mains w x \<longleftrightarrow> x = b + 1" for x
    by (simp_all add: started_def mains_def w main_co_def)
  have sus: "suspended b w = {}" by (auto simp: suspended_def st run)
  have "stacks_ok w" "users_ok w" "buffers_ok w" "main_ok w" "occupants_ok {b + 1} w"
    by (auto simp: stacks_ok_def users_ok_def buffers_ok_def main_ok_def occupants_ok_def shares_on_def w
        main_stack_def main_co_def new_co_def)
  then have "core_inv (Some (running b w)) (suspended b w) w"
    unfolding run sus by (simp add: core_inv_def w main_co_def new_co_def)
  moreover have "calls_ok w (main_env b)"
    unfolding calls_ok_def calls st by (auto simp: main_env_def w main_co_def new_co_def)
  moreover have "in_thread b w" "shares_ok w" "heap_ok w"
    using assms(1,2) by (auto simp: in_thread_def co_get_curr_thread_env_def w shares_ok_def heap_ok_def)
  ultimately show "thread_inv b w"
    by (simp add: thread_inv_def w) (simp add: main_co_def new_co_def)
qed

interpretation thread: preserved "thread_step env" "thread_inv env" for env
  by unfold_locales (simp add: thread_step_keeps)

text \<open>
  C7: the invariant of a thread holds in every reachable state. \<open>co_init_curr_thread_env\<close> succeeds on a
  fresh process for every thread identifier of the array, and whatever sequence of steps follows, the
  call stack holds between 1 and 128 distinct live coroutines, \<open>GetCurrThreadCo\<close> is its last entry, and
  two different stacks never overlap.
\<close>
theorem reachable_threads_ok:
  assumes "0 \<le> t" "t < 204800"
  shows "\<exists>w. co_init_curr_thread_env efd tick (empty_world t b) = Some w \<and>
    (\<forall>w'. (thread_step b)\<^sup>*\<^sup>* w w' \<longrightarrow> thread_inv b w' \<and>
       1 \<le> length (thread_calls b w') \<and> length (thread_calls b w') \<le> 128 \<and> distinct (thread_calls b w') \<and>
       (\<forall>c \<in> set (thread_calls b w'). \<exists>r. cos w' c = Some r \<and> \<not> cEnd r) \<and>
       GetCurrThreadCo w' = Some (Some (last (thread_calls b w'))) \<and>
       (\<forall>q s q' s'. stacks w' q = Some s \<longrightarrow> stacks w' q' = Some s' \<longrightarrow> q \<noteq> q' \<longrightarrow>
          {stack_buffer s ..< stack_bp s} \<inter> {stack_buffer s' ..< stack_bp s'} = {}))"
proof -
  obtain w where w: "co_init_curr_thread_env efd tick (empty_world t b) = Some w"
    using init_eq [OF assms] by metis
  have "thread_inv b w'" if "(thread_step b)\<^sup>*\<^sup>* w w'" for w'
    using thread.reached [OF that init_inv(1) [OF assms w]] .
  moreover have "1 \<le> length (thread_calls b w') \<and> length (thread_calls b w') \<le> 128 \<and>
      distinct (thread_calls b w') \<and> (\<forall>c \<in> set (thread_calls b w'). \<exists>r. cos w' c = Some r \<and> \<not> cEnd r) \<and>
       GetCurrThreadCo w' = Some (Some (last (thread_calls b w'))) \<and>
       (\<forall>q s q' s'. stacks w' q = Some s \<longrightarrow> stacks w' q' = Some s' \<longrightarrow> q \<noteq> q' \<longrightarrow>
          {stack_buffer s ..< stack_bp s} \<inter> {stack_buffer s' ..< stack_bp s'} = {})"
    if inv: "thread_inv b w'" for w'
  proof -
    from inv obtain e where e: "calls_ok w' e" "thread_calls b w' = calls e"
      "core_inv (Some (running b w')) (suspended b w') w'" by (rule thread_invD)
    have "stacks_ok w'" by (rule core_invD(1) [OF e(3)])
    then have "stack_bp s \<le> stack_buffer s' \<or> stack_bp s' \<le> stack_buffer s"
      if "stacks w' q = Some s" "stacks w' q' = Some s'" "q \<noteq> q'" for q s q' s'
      using that unfolding stacks_ok_def by blast
    then have "{stack_buffer s ..< stack_bp s} \<inter> {stack_buffer s' ..< stack_bp s'} = {}"
      if "stacks w' q = Some s" "stacks w' q' = Some s'" "q \<noteq> q'" for q s q' s'
      using that by fastforce
    then show ?thesis
      using e(1) calls_length [OF e(1)] current_co [OF inv] e(2)
      by (auto simp: calls_ok_def running_def nat_le_iff)
  qed
  ultimately show ?thesis using w by blast
qed

section \<open>Witnesses\<close>

lemma demo_frame10: "frame_ok demo_frame 10 demo_world"
  by (rule frame_ok_region [OF demo_regions(2)]) (simp add: demo_frame_def)

lemma co_resume_runs_witness:
  "\<exists>w'. co_resume demo_frame 11 demo_world = Some w' \<and> thread_calls 4 w' = [2, 10, 11]"
proof -
  have "cos demo_world 11 = Some (demo_co False False 12)" "\<not> cEnd (demo_co False False 12)"
    by (simp_all add: demo_world_def demo_co_def)
  then show ?thesis
    using co_resume_runs [OF demo_inv, of 11 "demo_co False False 12" demo_frame] demo_calls demo_frame10 by auto
qed

lemma co_yield_returns_to_resumer_witness:
  "\<exists>w'. co_yield_ct demo_frame demo_world = Some w' \<and> GetCurrThreadCo w' = Some (Some 2)"
  using co_yield_returns_to_resumer [OF demo_inv, of demo_frame] demo_calls demo_frame10 by auto

lemma call_stack_limits_witness:
  "\<exists>w. co_init_curr_thread_env 5 1000 (empty_world 7 100) = Some w \<and> co_yield_env demo_frame 100 w = None"
proof -
  obtain w where w: "co_init_curr_thread_env 5 1000 (empty_world 7 100) = Some w"
    using init_eq [of 7 5 1000 100] by auto
  have i: "thread_inv 100 w" "thread_calls 100 w = [101]"
    using init_inv [OF _ _ w] by simp_all
  show ?thesis
    using call_stack_limits [OF i(1), of demo_frame 2] i(2) w by simp
qed


definition demo_share :: world where
  "demo_share = (empty_world 7 100)\<lparr>shares := [50 \<mapsto>
     \<lparr>alloc_idx = 1, share_stack_size = 64, share_count = 3, stack_array = [60, 70, 80]\<rparr>]\<rparr>"

lemma co_get_stackmem_round_robin_witness:
  "\<exists>w'. get_stackmems 4 50 demo_share = Some ([Some 70, Some 80, Some 60, Some 70], w')"
  using co_get_stackmem_round_robin [of demo_share 50
      "\<lparr>alloc_idx = 1, share_stack_size = 64, share_count = 3, stack_array = [60, 70, 80]\<rparr>" 4]
  by (simp add: demo_share_def upt_conv_Cons)

lemma release_of_occupant_is_use_after_free_witness:
  "\<exists>w'. co_release 10 demo1 = Some w' \<and> co_resume demo_frame 11 w' = None"
proof -
  have "2 \<le> length (thread_calls 4 demo_world)" "frame_ok demo_frame (running 4 demo_world) demo_world"
    using demo_frame10 by (simp_all add: demo_calls)
  then obtain w1 where 1: "thread_inv 4 w1" "co_yield_env demo_frame 4 demo_world = Some w1"
    using yield_region [OF demo_inv] by metis
  then have inv: "thread_inv 4 demo1" by (simp add: demo1_def)
  have "\<exists>r. cos demo1 10 = Some r \<and> cIsShareStack r \<and> stack_mem r = Some 12"
    "\<exists>r. cos demo1 11 = Some r \<and> cIsShareStack r \<and> stack_mem r = Some 12"
    "\<exists>s. stacks demo1 12 = Some s \<and> occupy_co s = Some 10"
    by (simp_all add: demo1_def demo_eval)
  then obtain r r2 s where q: "cos demo1 10 = Some r" "cIsShareStack r" "stack_mem r = Some 12"
    "cos demo1 11 = Some r2" "cIsShareStack r2" "stack_mem r2 = Some 12"
    "stacks demo1 12 = Some s" "occupy_co s = Some 10" by blast
  then have "occupies demo1 10" by (simp add: occupies_def)
  with q have r: "cos demo1 10 = Some r" "cIsShareStack r" "occupies demo1 10"
    "cos demo1 11 = Some r2" "cIsShareStack r2" "stack_mem r2 = stack_mem r" by simp_all
  moreover obtain w' where w': "co_release 10 demo1 = Some w'"
    using r by (simp add: co_release_def co_free_def)
  ultimately show ?thesis
    using release_of_occupant_is_use_after_free [OF inv r(1-3) w' r(4) _ r(5,6), of demo_frame] by auto
qed

lemma reachable_threads_ok_witness:
  "\<exists>w. co_init_curr_thread_env 5 1000 (empty_world 7 100) = Some w \<and> GetCurrThreadCo w = Some (Some 101)"
proof -
  obtain w where w: "co_init_curr_thread_env 5 1000 (empty_world 7 100) = Some w"
    "GetCurrThreadCo w = Some (Some (last (thread_calls 100 w)))"
    using reachable_threads_ok [of 7 5 1000 100] by auto
  then show ?thesis using init_inv(2) [OF _ _ w(1)] by simp
qed

end
