(* ===== verification/PollRound.thy ===== *)
theory PollRound
  imports Poll Threads
begin

text \<open>
  \<open>co_poll\<close> from the call to its return: the coroutine registers and yields, the event loop on the main
  coroutine collects a round and resumes it, it cleans up and returns. The theory joins the theorems on
  the lists, the wheel, the event loop, \<open>co_poll_inner\<close> and the threads.
\<close>

section \<open>Switches leave the event loop alone\<close>

definition kept :: "world \<Rightarrow> world \<Rightarrow> bool" where
  "kept w w' \<longleftrightarrow> tm w' = tm w \<and> timeouts w' = timeouts w \<and> epolls w' = epolls w \<and>
     tid w' = tid w \<and> g_arrCoEnvPerThread w' = g_arrCoEnvPerThread w \<and> brk w \<le> brk w' \<and>
     (\<forall>x. map_option pEpoll (envs w' x) = map_option pEpoll (envs w x)) \<and>
     (\<forall>x. map_option (\<lambda>c. (cEnd c, cIsMain c)) (cos w' x) = map_option (\<lambda>c. (cEnd c, cIsMain c)) (cos w x))"

lemma kept_refl [simp]: "kept w w"
  by (simp add: kept_def)

lemma kept_trans: "kept a b \<Longrightarrow> kept b c \<Longrightarrow> kept a c"
  by (simp add: kept_def)

lemma kept_set_co: "set_co f x w = Some w' \<Longrightarrow> (\<And>c. cEnd (f c) = cEnd c \<and> cIsMain (f c) = cIsMain c) \<Longrightarrow> kept w w'"
  by (auto simp: kept_def set_co_def)

lemma kept_set_env: "set_env f x w = Some w' \<Longrightarrow> (\<And>e. pEpoll (f e) = pEpoll e) \<Longrightarrow> kept w w'"
  by (auto simp: kept_def set_env_def)

lemma kept_set_stack: "set_stack f x w = Some w' \<Longrightarrow> kept w w'"
  by (auto simp: kept_def set_stack_def)

lemma kept_save: "save_stack_buffer oc w = Some w' \<Longrightarrow> kept w w'"
  by (auto simp: save_stack_buffer_def bind_eq_Some_conv malloc_def kept_def set_co_def Let_def split: option.splits if_splits)

lemma kept_swap_out:
  assumes "co_swap_out fr cur pd w = Some w'"
  shows "kept w w'"
proof -
  obtain w1 p env w2 w3 k where s: "set_co (\<lambda>c. c\<lparr>stack_sp := c_addr fr\<rparr>) cur w = Some w1"
    and p: "cos w1 pd = Some p"
    and w2: "(if \<not> cIsShareStack p
       then set_env (\<lambda>e. e\<lparr>env_pending_co := None, env_occupy_co := None\<rparr>) env w1
       else do {
         q \<leftarrow> stack_mem p;
         s \<leftarrow> stacks w1 q;
         w \<leftarrow> set_stack (\<lambda>s. s\<lparr>occupy_co := Some pd\<rparr>) q w1;
         w \<leftarrow> set_env (\<lambda>e. e\<lparr>env_pending_co := Some pd, env_occupy_co := occupy_co s\<rparr>) env w;
         (case occupy_co s of
            None \<Rightarrow> Some w
          | Some oc \<Rightarrow> if oc \<noteq> pd then save_stack_buffer oc w else Some w) }) = Some w2"
    and w3: "set_co (\<lambda>c. c\<lparr>co_ctx := (co_ctx c)\<lparr>regs := call_regs fr\<rparr>\<rparr>) cur w2 = Some w3"
    and "cos w3 pd = Some k" and w': "Some (w3\<lparr>cpu_regs := regs (co_ctx k)\<rparr>) = Some w'"
    using assms unfolding co_swap_out_def bind_eq_Some_conv
    by (elim exE conjE) (rule that)
  have "kept w1 w2"
  proof (cases "cIsShareStack p")
    case False
    with w2 have "set_env (\<lambda>e. e\<lparr>env_pending_co := None, env_occupy_co := None\<rparr>) env w1 = Some w2" by simp
    then show ?thesis by (rule kept_set_env) simp
  next
    case True
    then obtain q s a b where a: "set_stack (\<lambda>s. s\<lparr>occupy_co := Some pd\<rparr>) q w1 = Some a"
      and b: "set_env (\<lambda>e. e\<lparr>env_pending_co := Some pd, env_occupy_co := occupy_co s\<rparr>) env a = Some b"
      and "stacks w1 q = Some s"
      and w2: "(case occupy_co s of None \<Rightarrow> Some b
          | Some oc \<Rightarrow> if oc \<noteq> pd then save_stack_buffer oc b else Some b) = Some w2"
      using w2 by (auto simp: bind_eq_Some_conv)
    have "kept a b" by (rule kept_set_env [OF b]) simp
    moreover have "kept b w2" using w2 kept_save by (auto split: option.split_asm if_split_asm)
    ultimately show ?thesis using kept_set_stack [OF a] by (blast intro: kept_trans)
  qed
  moreover have "kept w w1" by (rule kept_set_co [OF s]) simp
  moreover have "kept w2 w3" by (rule kept_set_co [OF w3]) simp
  moreover have "kept w3 w'" using w' by (auto simp: kept_def)
  ultimately show ?thesis by (blast intro: kept_trans)
qed

lemma kept_swap_in:
  assumes "co_swap_in w = Some w'"
  shows "kept w w'"
proof -
  obtain env e where env: "co_get_curr_thread_env w = Some (Some env)" "envs w env = Some e"
    using assms unfolding co_swap_in_def bind_eq_Some_conv by (elim exE conjE) simp
  show ?thesis
  proof (cases "env_occupy_co e")
    case None
    then show ?thesis using assms env by (simp add: co_swap_in_def)
  next
    case oc: (Some oc)
    show ?thesis
    proof (cases "env_pending_co e")
      case None
      then show ?thesis using assms env oc by (simp add: co_swap_in_def)
    next
      case (Some p)
      then show ?thesis using assms env oc
        by (auto simp: co_swap_in_def kept_def bind_eq_Some_conv split: if_split_asm option.split_asm)
    qed
  qed
qed

lemma kept_resume_point: "resume_point b co w = Some w' \<Longrightarrow> kept w w'"
  by (auto simp: resume_point_def bind_eq_Some_conv split: if_splits dest: kept_swap_in)

lemma kept_yield:
  assumes "co_yield_env fr env w = Some w'"
  shows "kept w w'"
proof -
  obtain w1 cur prev w2 where w1: "set_env (iCallStackSize_update (\<lambda>n. n - 1)) env w = Some w1"
    and w2: "co_swap_out fr cur prev w1 = Some w2" and w': "resume_point True prev w2 = Some w'"
    using assms unfolding co_yield_env_def by (auto simp: bind_eq_Some_conv)
  have "kept w w1" by (rule kept_set_env [OF w1]) simp
  then show ?thesis using kept_swap_out [OF w2] kept_resume_point [OF w'] by (blast intro: kept_trans)
qed

lemma kept_resume:
  assumes "co_resume fr co w = Some w'"
  shows "kept w w'"
proof -
  obtain c w1 e e' cur w2 where c: "cos w co = Some c" and e: "envs w (co_env c) = Some e"
    and w1: "(if \<not> cStart c then set_co (\<lambda>c. c\<lparr>co_ctx := coctx_make (co_ctx c) CoRoutineFunc_addr (of_nat co) 0,
                              cStart := True\<rparr>) co w else Some w) = Some w1"
    and e': "push_call co e = Some e'"
    and w2: "co_swap_out fr cur co (w1\<lparr>envs := (envs w1)(co_env c \<mapsto> e')\<rparr>) = Some w2"
    and w': "resume_point (cStart c) co w2 = Some w'"
    using assms unfolding co_resume_def by (auto simp: bind_eq_Some_conv Let_def)
  have k1: "kept w w1" using w1 by (auto split: if_splits intro!: kept_set_co)
  have "envs w1 = envs w" using w1 by (auto simp: set_co_def split: if_splits)
  moreover have "pEpoll e' = pEpoll e" using e' by (auto simp: push_call_def split: if_splits)
  ultimately have "kept w1 (w1\<lparr>envs := (envs w1)(co_env c \<mapsto> e')\<rparr>)" using e by (simp add: kept_def)
  then show ?thesis using k1 kept_swap_out [OF w2] kept_resume_point [OF w'] by (blast intro: kept_trans)
qed

section \<open>The event loop leaves the thread alone\<close>

lemma thread_quiet:
  assumes inv: "thread_inv env w"
  shows "thread_inv env (w\<lparr>tm := m, timeouts := t\<rparr>)" "thread_inv env (w\<lparr>brk := brk w + n\<rparr>)"
    "thread_inv env (w\<lparr>epolls := p\<rparr>)"
proof -
  from inv obtain e where e: "envs w env = Some e" and ok: "calls_ok w e"
    and th: "in_thread env w" and core: "core_inv (Some (running env w)) (suspended env w) w"
    and own: "\<forall>c r. cos w c = Some r \<longrightarrow> co_env r = env" and sh: "shares_ok w" and hp: "heap_ok w"
    by (rule thread_invD)
  have "same_stacks w (w\<lparr>tm := m, timeouts := t\<rparr>)" by (simp add: same_stacks_def same_stack_def)
  note core1 = same_stacks_inv [OF this core]
  show "thread_inv env (w\<lparr>tm := m, timeouts := t\<rparr>)"
    by (rule thread_extend(1) [OF inv core1]) (use own sh hp in \<open>auto simp: started_def mains_def shares_ok_def heap_ok_def\<close>)
  have "same_stacks w (w\<lparr>epolls := p\<rparr>)" by (simp add: same_stacks_def same_stack_def)
  note core2 = same_stacks_inv [OF this core]
  show "thread_inv env (w\<lparr>epolls := p\<rparr>)"
    by (rule thread_extend(1) [OF inv core2]) (use own sh hp in \<open>auto simp: started_def mains_def shares_ok_def heap_ok_def\<close>)
  show "thread_inv env (w\<lparr>brk := brk w + n\<rparr>)"
    by (rule thread_extend(1) [OF inv core_brk(1) [OF core]])
      (use own sh hp in \<open>auto simp: started_def mains_def shares_ok_def heap_ok_def intro: trans_less_add1\<close>)
qed

lemma thread_calls_quiet [simp]:
  "thread_calls env (w\<lparr>tm := m\<rparr>) = thread_calls env w"
  "thread_calls env (w\<lparr>timeouts := t\<rparr>) = thread_calls env w"
  "thread_calls env (w\<lparr>brk := n\<rparr>) = thread_calls env w"
  by (simp_all add: thread_calls_def)

lemma loop_cong:
  assumes "epolls (wd q) = epolls (wd p)" "timeouts (wd q) = timeouts (wd p)" "tm (wd q) = tm (wd p)"
  shows "loop_ok ctx q A = loop_ok ctx p A" "active_of ctx q = active_of ctx p" "wheel_of ctx q = wheel_of ctx p"
    "waiting ctx q A = waiting ctx p A"
  using assms by (simp_all add: loop_ok_def active_of_def wheel_of_def waiting_def)

lemma poll_waits_cong:
  assumes "epolls (wd q) = epolls (wd p)" "tm (wd q) = tm (wd p)" "polls q = polls p" "pitems q = pitems p"
  shows "poll_waits ctx q s arg ufds = poll_waits ctx p s arg ufds"
  using assms by (simp add: poll_waits_def)

section \<open>The round that wakes a poll\<close>

text \<open>
  What runs from the yield of a coroutine until it is resumed, when it is the first the event loop
  resumes: the loop collects, takes the first item off the active list and calls its \<open>pfnProcess\<close>.
\<close>

definition first_turn :: "addr \<Rightarrow> epoll_event list \<Rightarrow> u64 \<Rightarrow> frame \<Rightarrow> proc \<Rightarrow> proc option" where
  "first_turn ctx evs now fr p = do {
     c \<leftarrow> epolls (wd p) ctx;
     p \<leftarrow> loop_collect ctx evs now p;
     l \<leftarrow> links (tm (wd p)) (pstActiveList c);
     x \<leftarrow> head l;
     serve (OnPollProcessEvent fr) (pstActiveList c) x p }"

text \<open>The events of descriptors of the poll at \<open>arg\<close>: the index in its array and the mask.\<close>

definition poll_events :: "addr \<Rightarrow> (nat \<times> u32) list \<Rightarrow> epoll_event list" where
  "poll_events arg js = map (\<lambda>(j, e). \<lparr>ev_events = e, ev_ptr = Some (arg + 1 + j)\<rparr>) js"

text \<open>What \<open>poll\<close> reports for them.\<close>

definition revents_of :: "nat \<Rightarrow> (nat \<times> u32) list \<Rightarrow> 16 word list" where
  "revents_of n js = fold (\<lambda>(j, e) xs. xs[j := EpollEvent2Poll e]) js (replicate n 0)"

definition poll_answer :: "pollfd list \<Rightarrow> 16 word list \<Rightarrow> pollfd list" where
  "poll_answer ufds rs = map (\<lambda>(f, r). f\<lparr>prevents := r\<rparr>) (zip ufds rs)"

lemma raised:
  "map prevents (fds (fold raise_event js pl)) = fold (\<lambda>(j, e) xs. xs[j := EpollEvent2Poll e]) js (map prevents (fds pl))"
  "iRaiseCnt (fold raise_event js pl) = iRaiseCnt pl + int (length js)"
  "length (fds (fold raise_event js pl)) = length (fds pl)"
  "pPollItems (fold raise_event js pl) = pPollItems pl"
  "poll_epfd (fold raise_event js pl) = poll_epfd pl"
  by (induction js arbitrary: pl) (auto simp: raise_event_def map_update)

lemma poll_answer_fds:
  "map (\<lambda>(f, g). f\<lparr>prevents := prevents g\<rparr>) (zip ufds gs) = poll_answer ufds (map prevents gs)"
  by (simp add: poll_answer_def zip_map2 comp_def case_prod_unfold)

lemma first_new_replicate: "arg \<notin> D \<Longrightarrow> first_new D (replicate n arg) = (if n = 0 then [] else [arg])"
proof (cases n)
  case (Suc k)
  moreover have "first_new E (replicate k arg) = []" if "arg \<in> E" for E
    using that by (induction k) auto
  moreover assume "arg \<notin> D"
  ultimately show ?thesis by simp
qed simp

lemma poll_events_waiting:
  assumes w: "poll_waits ctx p s arg ufds" and js: "\<forall>(j, e) \<in> set js. j < length ufds"
  shows "\<forall>e \<in> set (poll_events arg js). event_ok p e"
    "first_new (detached p) (map (poll_of p) (poll_events arg js)) = (if js = [] then [] else [arg])"
    "polls_after (poll_events arg js) p arg =
       Some (fold raise_event js (new_stPoll (iEpollFd (the (epolls (wd p) ctx))) (length ufds) (arg + 1)))"
proof -
  have ev: "event_ok p e \<and> poll_of p e = arg \<and> (pSelf (item_of p e), ev_events e) = (j, b)"
    if "(j, b) \<in> set js" "e = \<lparr>ev_events = b, ev_ptr = Some (arg + 1 + j)\<rparr>" for e j b
  proof -
    have j: "j < length ufds" using js that(1) by auto
    then have "pitems p (arg + 1 + j) = Some (registered_item arg (arg + 1) j (ufds ! j)
          \<lparr>pSelf = 0, pPoll = None, stEvent = \<lparr>ev_events = 0, ev_ptr = None\<rparr>\<rparr>)"
      using w by (auto simp: poll_waits_def)
    then have "pSelf (item_of p e) = j" using that(2) by (simp add: item_of_def registered_item_def)
    then show ?thesis using poll_waits_event_ok [OF w j] that(2) by simp
  qed
  show "\<forall>e \<in> set (poll_events arg js). event_ok p e"
    using ev by (fastforce simp: poll_events_def)
  have of_arg: "map (poll_of p) (poll_events arg js) = replicate (length js) arg"
    unfolding poll_events_def map_map
    by (subst map_replicate_const [symmetric], rule map_cong [OF refl]) (use ev in auto)
  have "arg \<notin> detached p" using w by (auto simp: poll_waits_def detached_def new_stPoll_def)
  then show "first_new (detached p) (map (poll_of p) (poll_events arg js)) = (if js = [] then [] else [arg])"
    unfolding of_arg by (simp add: first_new_replicate)
  have "filter (\<lambda>e. poll_of p e = arg) (poll_events arg js) = poll_events arg js"
    by (rule filter_True) (use ev in \<open>auto simp: poll_events_def\<close>)
  moreover have "map (\<lambda>e. (pSelf (item_of p e), ev_events e)) (poll_events arg js) = js"
    unfolding poll_events_def map_map by (rule map_idI) (use ev in auto)
  ultimately show "polls_after (poll_events arg js) p arg =
       Some (fold raise_event js (new_stPoll (iEpollFd (the (epolls (wd p) ctx))) (length ufds) (arg + 1)))"
    using w by (simp add: polls_after_def poll_waits_def)
qed

lemma poll_is_woken:
  assumes L: "loop_ok ctx p A" and w: "poll_waits ctx p s arg ufds" and js: "\<forall>(j, e) \<in> set js. j < length ufds"
    and idle: "A (active_of ctx p) = []" and wait: "waiting ctx p A = us @ arg # vs"
    and others: "\<forall>x \<in> set (us @ vs). x \<noteq> arg \<and> uint now < expire_of (tm (wd p)) x"
    and wake: "js \<noteq> [] \<or> expire_of (tm (wd p)) arg \<le> uint now"
    and clock: "ullStart (wheel_of ctx p) \<le> now"
      "ullStart (wheel_of ctx p) = 0 \<or> uint now - uint (ullStart (wheel_of ctx p)) < 2 ^ 31 - 1"
      "uint now < 2 ^ 62"
  shows "\<exists>q B. first_turn ctx (poll_events arg js) now fr p = OnPollProcessEvent fr arg q \<and>
     loop_ok ctx q B \<and> active_of ctx q = active_of ctx p \<and> B (active_of ctx p) = [] \<and>
     waiting ctx q B = us @ vs \<and> \<not> linked B arg \<and> collect_frame p q \<and> lists_within [arg] A B \<and>
     polls q arg = Some (fold raise_event js (new_stPoll (iEpollFd (the (epolls (wd p) ctx))) (length ufds) (arg + 1)))"
proof -
  note ev = poll_events_waiting [OF w js]
  let ?a = "active_of ctx p" and ?W = "if js = [] then [] else [arg]"
  define due where "due = filter (\<lambda>x. x \<notin> set ?W \<and> expire_of (tm (wd p)) x \<le> uint now) (waiting ctx p A)"
  have late: "\<not> expire_of (tm (wd p)) x \<le> uint now" "x \<noteq> arg" if "x \<in> set us \<or> x \<in> set vs" for x
  proof -
    have "x \<in> set (us @ vs)" using that by simp
    with others have "x \<noteq> arg \<and> uint now < expire_of (tm (wd p)) x" by blast
    then show "\<not> expire_of (tm (wd p)) x \<le> uint now" "x \<noteq> arg" by simp_all
  qed
  have Wdue: "?W @ due = [arg]"
    using late wake by (cases "js = []") (auto simp: due_def wait intro!: filter_False)
  have rest: "filter (\<lambda>x. x \<notin> set ?W \<and> \<not> expire_of (tm (wd p)) x \<le> uint now) (waiting ctx p A) = us @ vs"
    using late wake by (cases "js = []") (auto simp: wait intro!: filter_True)
  obtain q0 B0 where q0: "loop_collect ctx (poll_events arg js) now p = Some q0" "loop_ok ctx q0 B0"
     "active_of ctx q0 = ?a" "B0 ?a = [arg]" "waiting ctx q0 B0 = us @ vs"
     "collect_frame p q0" "polls q0 = polls_after (poll_events arg js) p" "lists_within ?W A B0"
    using loop_collect_full [OF L ev(1) clock ev(2) [symmetric] due_def] idle Wdue unfolding rest by auto
  obtain m where m: "PopHead ?a (tm (wd q0)) = Some m" "same_data (tm (wd q0)) m" "is_node m arg"
     "loop_ok ctx (q0\<lparr>wd := (wd q0)\<lparr>tm := m\<rparr>\<rparr>) (B0(?a := []))"
     "waiting ctx (q0\<lparr>wd := (wd q0)\<lparr>tm := m\<rparr>\<rparr>) (B0(?a := [])) = us @ vs"
    using pop_active [OF q0(2), of arg "[]"] q0(3-5) by auto
  let ?q = "q0\<lparr>wd := (wd q0)\<lparr>tm := m\<rparr>\<rparr>" and ?B = "B0(?a := [])"
  have R: "repr (tm (wd q0)) B0" and lk: "is_link (tm (wd q0)) ?a"
    using loop_ok_active [OF q0(2)] q0(3) by auto
  have un: "\<not> linked ?B arg"
    using lists.rep_disjoint [OF R, of arg _ ?a] q0(4) by (auto simp: linked_def)
  have frame: "collect_frame p ?q"
  proof -
    have e: "wd q0 = (wd p)\<lparr>tm := tm (wd q0), timeouts := timeouts (wd q0)\<rparr>"
      and r: "pitems q0 = pitems p" "ctls q0 = ctls p"
        "conds q0 = conds p" "payload (tm (wd q0)) = payload (tm (wd p))"
        "\<forall>k. is_link (tm (wd q0)) k = is_link (tm (wd p)) k"
      using q0(6) unfolding collect_frame_def by blast+
    have "wd ?q = (wd p)\<lparr>tm := m, timeouts := timeouts (wd q0)\<rparr>"
      using arg_cong [OF e, of "\<lambda>w. w\<lparr>tm := m\<rparr>"] by simp
    then show ?thesis
      using r same_data_payload [OF m(2)] lists.same_islink [OF m(2)] by (simp add: collect_frame_def)
  qed
  have within: "lists_within [arg] A ?B"
    using q0(8) by (auto simp: lists_within_def split: if_splits)
  have process: "\<exists>n. nodes m arg = Some n \<and> pfnProcess n \<noteq> NoProcess"
  proof -
    obtain n where n: "nodes (tm (wd p)) arg = Some n" "pfnProcess n = OnPollProcess"
      using w by (auto simp: poll_waits_def)
    then have "payload m arg = Some (pfnPrepare n, OnPollProcess, pArg n)"
      using frame by (simp add: collect_frame_def) (simp add: payload_def)
    then show ?thesis by (auto simp: payload_Some)
  qed
  obtain c where c: "epolls (wd p) ctx = Some c" "pstActiveList c = ?a"
    using L by (auto simp: loop_ok_def active_of_def)
  obtain l where l: "links (tm (wd q0)) ?a = Some l" "head l = Some arg"
    using lk repr_list_ok [OF R] q0(4) by (fastforce simp: is_link_def list_ok_def)
  have "first_turn ctx (poll_events arg js) now fr p = OnPollProcessEvent fr arg ?q"
    using c q0(1) l m(1) process by (auto simp: first_turn_def serve_def on_tm_def)
  moreover have "active_of ctx ?q = ?a" using q0(3) by (simp add: active_of_def)
  moreover have "polls ?q arg = Some (fold raise_event js (new_stPoll (iEpollFd (the (epolls (wd p) ctx))) (length ufds) (arg + 1)))"
    using q0(7) ev(3) by simp
  ultimately show ?thesis using m(4,5) un frame within by (intro exI [of _ ?q] exI [of _ ?B]) simp
qed

section \<open>\<open>co_poll\<close> from call to return\<close>

lemma filter_sorted_split:
  assumes "sorted (map f xs)"
  shows "filter (\<lambda>x. f x \<le> (d :: int)) xs @ filter (\<lambda>x. \<not> f x \<le> d) xs = xs"
  using assms
proof (induction xs)
  case (Cons x xs)
  show ?case
  proof (cases "f x \<le> d")
    case False
    then have "filter (\<lambda>x. f x \<le> d) xs = []" "filter (\<lambda>x. \<not> f x \<le> d) xs = xs"
      using Cons.prems by (auto simp: filter_empty_conv filter_id_conv intro: order_trans)
    with False show ?thesis by simp
  qed (use Cons in auto)
qed simp

lemma waiting_sorted: "loop_ok ctx p A \<Longrightarrow> sorted (map (expire_of (tm (wd p))) (waiting ctx p A))"
  using pending_sorted by (fastforce simp: loop_ok_def waiting_def wheel_of_def)

text \<open>The coroutine gives up the control and the thread is back in its main coroutine.\<close>

lemma yield_to_main:
  assumes inv: "thread_inv env w" and calls: "thread_calls env w = [m, s]" and fr: "frame_ok fr s w"
  shows "\<exists>w'. co_yield_env fr env w = Some w' \<and> thread_inv env w' \<and> thread_calls env w' = [m] \<and> kept w w'"
proof -
  have run: "running env w = s" by (simp add: running_def calls)
  obtain w' where w': "co_yield_env fr env (with_end False (running env w) w) = Some w'" "thread_inv env w'"
    "thread_calls env w' = butlast (thread_calls env w)"
    using yield_core [OF inv _ fr [folded run], of False] calls by auto
  then show ?thesis using with_end_same(1) [OF inv] kept_yield calls by auto
qed

text \<open>The event loop resumes it.\<close>

lemma resume_from_main:
  assumes inv: "thread_inv env w" and calls: "thread_calls env w = [m]" and m: "mains w m" and s: "s \<noteq> m"
    and co: "cos w s = Some r" "\<not> cEnd r"
  shows "\<exists>w'. co_resume fr s w = Some w' \<and> thread_inv env w' \<and> thread_calls env w' = [m, s] \<and> kept w w'"
proof -
  have run: "running env w = m" by (simp add: running_def calls)
  have "frame_ok fr (running env w) w" using m by (auto simp: frame_ok_def mains_def run)
  then obtain w' where "co_resume fr s w = Some w'" "thread_inv env w'" "thread_calls env w' = [m, s]"
    using resume_ok [OF inv co] calls s by auto
  then show ?thesis using kept_resume by blast
qed

lemma kept_alive: "kept w w' \<Longrightarrow> cos w c = Some r \<Longrightarrow> \<exists>r'. cos w' c = Some r' \<and> cEnd r' = cEnd r"
  unfolding kept_def by (elim conjE, drule spec [of _ c], drule spec [of _ c]) auto

lemma kept_mains: "kept w w' \<Longrightarrow> mains w c \<Longrightarrow> mains w' c"
  unfolding kept_def mains_def by (elim conjE, drule spec [of _ c], drule spec [of _ c]) auto

lemma poll_suspends:
  fixes now :: u64 and timeout :: int
  assumes inv: "thread_inv env (wd p)" and calls: "thread_calls env (wd p) = [m, s]" and m: "mains (wd p) m"
    and fr: "frame_ok fr s (wd p)" and L: "loop_ok ctx p A" and F: "fresh_above p"
    and clock: "now \<noteq> 0" "ullStart (wheel_of ctx p) \<le> now" "uint now < 2 ^ 61" "0 \<le> timeout"
      "uint now + clamp_timeout timeout - uint (ullStart (wheel_start (wheel_of ctx p) now)) < iItemSize (wheel_of ctx p)"
  defines "arg \<equiv> brk (wd p)" and "due \<equiv> uint now + clamp_timeout timeout"
  obtains p1 w2 A1 r where "co_poll_enter ctl now ctx ufds timeout False p = Some (PollYield arg, p1)"
    "co_get_curr_thread_env (wd p1) = Some (Some env)" "co_yield_env fr env (wd p1) = Some w2"
    "loop_ok ctx (p1\<lparr>wd := w2\<rparr>) A1" "poll_waits ctx (p1\<lparr>wd := w2\<rparr>) s arg ufds" "polls p1 arg \<noteq> None"
    "ctls p1 = rev (add_calls (iEpollFd (the (epolls (wd p) ctx))) (arg + 1) 0 ufds) @ ctls p"
    "expire_of (tm w2) arg = due" "A1 (active_of ctx p) = A (active_of ctx p)"
    "active_of ctx (p1\<lparr>wd := w2\<rparr>) = active_of ctx p" "epolls w2 = epolls (wd p)"
    "waiting ctx (p1\<lparr>wd := w2\<rparr>) A1 = filter (\<lambda>x. expire_of (tm (wd p)) x \<le> due) (waiting ctx p A) @ arg #
       filter (\<lambda>x. \<not> expire_of (tm (wd p)) x \<le> due) (waiting ctx p A)"
    "wheel_of ctx (p1\<lparr>wd := w2\<rparr>) = wheel_start (wheel_of ctx p) now" "lists_within [arg] A A1"
    "\<forall>x \<in> set (waiting ctx p A). expire_of (tm w2) x = expire_of (tm (wd p)) x"
    "thread_inv env w2" "thread_calls env w2 = [m]" "mains w2 m" "cos w2 s = Some r" "\<not> cEnd r" "s \<noteq> m"
proof -
  from inv obtain e where e: "calls_ok (wd p) e" "thread_calls env (wd p) = calls e" by (rule thread_invD)
  obtain r0 where r0: "cos (wd p) s = Some r0" "\<not> cEnd r0" and sm: "s \<noteq> m"
  proof -
    have cl: "calls e = [m, s]" using e(2) calls by simp
    show thesis using that e(1) unfolding calls_ok_def cl by auto
  qed
  have self: "co_self (wd p) = Some (Some s)" "cos (wd p) s \<noteq> None"
    using current_co [OF inv] r0 calls by (simp_all add: co_self_def running_def)
  have nof: "\<not> (length ufds = 1 \<and> False)" by simp
  obtain p1 A1 where p1: "co_poll_enter ctl now ctx ufds timeout False p = Some (PollYield arg, p1)"
     "loop_ok ctx p1 A1" "poll_waits ctx p1 s arg ufds"
     "ctls p1 = rev (add_calls (iEpollFd (the (epolls (wd p) ctx))) (arg + 1) 0 ufds) @ ctls p"
     "expire_of (tm (wd p1)) arg = due" "A1 (active_of ctx p) = A (active_of ctx p)"
     "waiting ctx p1 A1 = filter (\<lambda>x. expire_of (tm (wd p)) x \<le> due) (waiting ctx p A) @ arg #
       filter (\<lambda>x. \<not> expire_of (tm (wd p)) x \<le> due) (waiting ctx p A)"
     "wd p1 = (wd p)\<lparr>brk := arg + 1 + max 1 (length ufds), tm := tm (wd p1), timeouts := timeouts (wd p1)\<rparr>"
     "wheel_of ctx p1 = wheel_start (wheel_of ctx p) now" "lists_within [arg] A A1"
     "\<forall>x \<in> set (waiting ctx p A). expire_of (tm (wd p1)) x = expire_of (tm (wd p)) x"
    using co_poll_enter_full [OF L F self nof clock, of ctl, folded arg_def due_def] by (elim exE conjE) (rule that)
  let ?w0 = "(wd p)\<lparr>brk := brk (wd p) + (1 + max 1 (length ufds))\<rparr>"
  have w1: "wd p1 = ?w0\<lparr>tm := tm (wd p1), timeouts := timeouts (wd p1)\<rparr>"
    by (subst p1(8)) (simp add: arg_def add.assoc)
  have inv1: "thread_inv env (wd p1)"
    by (subst w1) (intro thread_quiet inv)
  have calls1: "thread_calls env (wd p1) = [m, s]" by (subst w1) (simp add: calls)
  have same1: "cos (wd p1) = cos (wd p)" "stacks (wd p1) = stacks (wd p)" "epolls (wd p1) = epolls (wd p)"
    by (subst w1, simp)+
  have fr1: "frame_ok fr s (wd p1)" using fr by (simp add: frame_ok_def same1)
  obtain w2 where w2: "co_yield_env fr env (wd p1) = Some w2" "thread_inv env w2" "thread_calls env w2 = [m]"
    "kept (wd p1) w2" using yield_to_main [OF inv1 calls1 fr1] by blast
  have k: "tm w2 = tm (wd p1)" "timeouts w2 = timeouts (wd p1)" "epolls w2 = epolls (wd p)"
    using w2(4) same1 by (simp_all add: kept_def)
  have env1: "co_get_curr_thread_env (wd p1) = Some (Some env)"
    using inv1 by (simp add: thread_inv_def in_thread_def)
  let ?p2 = "p1\<lparr>wd := w2\<rparr>"
  have c: "loop_ok ctx ?p2 A1 = loop_ok ctx p1 A1" "active_of ctx ?p2 = active_of ctx p1"
    "wheel_of ctx ?p2 = wheel_of ctx p1" "waiting ctx ?p2 A1 = waiting ctx p1 A1"
    by (rule loop_cong; simp add: k same1)+
  have act: "active_of ctx p1 = active_of ctx p" by (simp add: active_of_def same1)
  have pw: "poll_waits ctx ?p2 s arg ufds = poll_waits ctx p1 s arg ufds"
    by (rule poll_waits_cong) (simp_all add: k same1)
  have "mains (wd p1) m" using m by (simp add: mains_def same1)
  note m2 = kept_mains [OF w2(4) this]
  obtain r where r: "cos w2 s = Some r" "\<not> cEnd r" using kept_alive [OF w2(4), of s r0] r0 same1 by auto
  have "polls p1 arg \<noteq> None" using p1(3) by (simp add: poll_waits_def)
  then show thesis
    using that [OF p1(1) env1 w2(1)] c act pw p1 k w2(2,3) m2 r sm by simp
qed

text \<open>The event loop wakes and resumes a suspended poll, and the call cleans up.\<close>

lemma poll_finishes:
  assumes inv: "thread_inv env (wd p)" "thread_calls env (wd p) = [m]" "mains (wd p) m" "s \<noteq> m"
      "cos (wd p) s = Some r" "\<not> cEnd r"
    and L: "loop_ok ctx p A" and w: "poll_waits ctx p s arg ufds" and js: "\<forall>(j, e) \<in> set js. j < length ufds"
    and idle: "A (active_of ctx p) = []" and wait: "waiting ctx p A = us @ arg # vs"
    and others: "\<forall>x \<in> set (us @ vs). x \<noteq> arg \<and> uint now < expire_of (tm (wd p)) x"
    and wake: "js \<noteq> [] \<or> expire_of (tm (wd p)) arg \<le> uint now"
    and clock: "ullStart (wheel_of ctx p) \<le> now"
      "ullStart (wheel_of ctx p) = 0 \<or> uint now - uint (ullStart (wheel_of ctx p)) < 2 ^ 31 - 1"
      "uint now < 2 ^ 62"
    and free: "\<forall>x. linked A x \<longrightarrow> x \<le> arg"
  shows "\<exists>p4 p' B. first_turn ctx (poll_events arg js) now fr p = Some p4 \<and>
    co_poll_leave ctl epfd arg ufds p4 = Some (int (length js), poll_answer ufds (revents_of (length ufds) js), p') \<and>
    loop_ok ctx p' B \<and> B (active_of ctx p) = [] \<and> waiting ctx p' B = us @ vs \<and> polls p' arg = None \<and>
    ctls p' = rev (map undo_ctl (add_calls epfd (arg + 1) 0 ufds)) @ ctls p \<and>
    thread_inv env (wd p') \<and> thread_calls env (wd p') = [m, s]"
proof -
  obtain q B where q: "first_turn ctx (poll_events arg js) now fr p = OnPollProcessEvent fr arg q"
     "loop_ok ctx q B" "active_of ctx q = active_of ctx p" "B (active_of ctx p) = []" "waiting ctx q B = us @ vs"
     "\<not> linked B arg" "collect_frame p q" "lists_within [arg] A B"
     "polls q arg = Some (fold raise_event js (new_stPoll (iEpollFd (the (epolls (wd p) ctx))) (length ufds) (arg + 1)))"
    using poll_is_woken [OF L w js idle wait others wake clock, of fr] by blast
  let ?pl = "fold raise_event js (new_stPoll (iEpollFd (the (epolls (wd p) ctx))) (length ufds) (arg + 1))"
  have wq: "wd q = (wd p)\<lparr>tm := tm (wd q), timeouts := timeouts (wd q)\<rparr>" "pitems q = pitems p" "ctls q = ctls p"
    and pay: "payload (tm (wd q)) = payload (tm (wd p))"
    using q(7) unfolding collect_frame_def by blast+
  have same: "cos (wd q) = cos (wd p)" by (subst wq(1)) simp
  have inv_q: "thread_inv env (wd q)" by (subst wq(1)) (rule thread_quiet(1) [OF inv(1)])
  have calls_q: "thread_calls env (wd q) = [m]" by (subst wq(1)) (simp add: inv(2))
  have m_q: "mains (wd q) m" using inv(3) by (simp add: mains_def same)
  have s_q: "cos (wd q) s = Some r" using inv(5) same by simp
  obtain w4 where w4: "co_resume fr s (wd q) = Some w4" "thread_inv env w4" "thread_calls env w4 = [m, s]" "kept (wd q) w4"
    using resume_from_main [OF inv_q calls_q m_q inv(4) s_q inv(6)] by blast
  let ?p4 = "q\<lparr>wd := w4\<rparr>"
  have k: "tm w4 = tm (wd q)" "timeouts w4 = timeouts (wd q)" "epolls w4 = epolls (wd q)"
    using w4(4) by (simp_all add: kept_def)
  obtain n where n: "nodes (tm (wd q)) arg = Some n" "pArg n = Some s"
    using w fun_cong [OF pay, of arg] by (auto simp: poll_waits_def payload_def)
  have turn: "first_turn ctx (poll_events arg js) now fr p = Some ?p4"
    using q(1) n w4(1) by (simp add: OnPollProcessEvent_def resume_pArg_def)
  have c: "loop_ok ctx ?p4 B" "active_of ctx ?p4 = active_of ctx p" "waiting ctx ?p4 B = us @ vs"
    using q(2,3,5) loop_cong [of ?p4 q] k by simp_all
  have pl: "polls ?p4 arg = Some ?pl" "length (fds ?pl) = length ufds" "pPollItems ?pl = arg + 1"
    using q(9) by (simp_all add: raised new_stPoll_def)
  have node: "is_node (tm (wd ?p4)) arg" using n k by (simp add: is_node_def)
  have items: "\<forall>j < length ufds. pitems ?p4 (pPollItems ?pl + j) = Some (registered_item arg (pPollItems ?pl) j (ufds ! j)
       \<lparr>pSelf = 0, pPoll = None, stEvent = \<lparr>ev_events = 0, ev_ptr = None\<rparr>\<rparr>)"
    unfolding pl(3) using w wq(2) by (auto simp: poll_waits_def)
  have notin: "\<forall>a lk. pPollItems ?pl \<le> a \<longrightarrow> a < pPollItems ?pl + length ufds \<longrightarrow> a \<notin> set (B lk)"
    using q(8) free pl(3) by (fastforce simp: lists_within_def)
  obtain p' where p': "co_poll_leave ctl epfd arg ufds ?p4 =
       Some (iRaiseCnt ?pl, map (\<lambda>(f, g). f\<lparr>prevents := prevents g\<rparr>) (zip ufds (fds ?pl)), p')"
     "loop_ok ctx p' (\<lambda>lk. remove1 arg (B lk))" "polls p' arg = None"
     "ctls p' = rev (map undo_ctl (add_calls epfd (pPollItems ?pl) 0 ufds)) @ ctls ?p4"
     "wd p' = (wd ?p4)\<lparr>tm := tm (wd p')\<rparr>"
    using co_poll_leave_lemma [OF c(1) pl(1,2) node items notin, of ctl epfd] by blast
  have B: "(\<lambda>lk. remove1 arg (B lk)) = B"
    using q(6) by (auto simp: linked_def fun_eq_iff intro: remove1_idem)
  have ans: "map (\<lambda>(f, g). f\<lparr>prevents := prevents g\<rparr>) (zip ufds (fds ?pl)) = poll_answer ufds (revents_of (length ufds) js)"
    unfolding poll_answer_fds raised(1) by (simp add: new_stPoll_def revents_of_def)
  have cnt: "iRaiseCnt ?pl = int (length js)" by (simp add: raised(2) new_stPoll_def)
  have "wheel_of ctx p' = wheel_of ctx ?p4" unfolding wheel_of_def by (subst (1 2) p'(5)) simp
  then have "waiting ctx p' B = us @ vs" using c(3) by (simp add: waiting_def)
  moreover have "thread_inv env (wd p')"
    using thread_quiet(1) [where m = "tm (wd p')" and t = "timeouts w4", OF w4(2)] by (subst p'(5)) simp
  moreover have "thread_calls env (wd p') = [m, s]" by (subst p'(5)) (simp add: w4(3))
  ultimately show ?thesis
    using turn p'(1-4) c(2) wq(3) q(4) unfolding ans cnt B pl(3)
    by (intro exI [of _ ?p4] exI [of _ p'] exI [of _ B]) simp
qed

lemma co_poll_returns_lemma:
  fixes now :: u64 and timeout :: int
  assumes thr: "thread_inv env (wd p)" "thread_calls env (wd p) = [m, s]" "mains (wd p) m" "frame_ok fr s (wd p)"
    and L: "loop_ok ctx p A" "fresh_above p" and idle: "A (active_of ctx p) = []"
    and clock: "now \<noteq> 0" "ullStart (wheel_of ctx p) \<le> now" "uint now < 2 ^ 61" "0 \<le> timeout"
      "uint now + clamp_timeout timeout - uint (ullStart (wheel_start (wheel_of ctx p) now)) < iItemSize (wheel_of ctx p)"
    and later: "now \<le> now'" "uint now' - uint (ullStart (wheel_start (wheel_of ctx p) now)) < 2 ^ 31 - 1" "uint now' < 2 ^ 62"
    and js: "\<forall>(j, e) \<in> set js. j < length ufds"
    and others: "\<forall>x \<in> set (waiting ctx p A). uint now' < expire_of (tm (wd p)) x"
    and wake: "js \<noteq> [] \<or> uint now + clamp_timeout timeout \<le> uint now'"
  defines "adds \<equiv> add_calls (iEpollFd (the (epolls (wd p) ctx))) (brk (wd p) + 1) 0 ufds"
  shows "\<exists>p' B. co_poll ctl now fr (first_turn ctx (poll_events (brk (wd p)) js) now' fr') ctx ufds timeout p =
      Some (int (length js), poll_answer ufds (revents_of (length ufds) js), p') \<and>
    loop_ok ctx p' B \<and> B (active_of ctx p) = [] \<and> waiting ctx p' B = waiting ctx p A \<and>
    polls p' (brk (wd p)) = None \<and> ctls p' = rev (map undo_ctl adds) @ rev adds @ ctls p \<and>
    thread_inv env (wd p') \<and> thread_calls env (wd p') = [m, s]"
proof -
  define arg where "arg = brk (wd p)"
  define due where "due = uint now + clamp_timeout timeout"
  define us where "us = filter (\<lambda>x. expire_of (tm (wd p)) x \<le> due) (waiting ctx p A)"
  define vs where "vs = filter (\<lambda>x. \<not> expire_of (tm (wd p)) x \<le> due) (waiting ctx p A)"
  note folds = arg_def [symmetric] due_def [symmetric] us_def [symmetric] vs_def [symmetric]
  obtain p1 w2 A1 r where E: "co_poll_enter ctl now ctx ufds timeout False p = Some (PollYield arg, p1)"
    "co_get_curr_thread_env (wd p1) = Some (Some env)" "co_yield_env fr env (wd p1) = Some w2"
    "loop_ok ctx (p1\<lparr>wd := w2\<rparr>) A1" "poll_waits ctx (p1\<lparr>wd := w2\<rparr>) s arg ufds" "polls p1 arg \<noteq> None"
    and ctl1: "ctls p1 = rev adds @ ctls p"
    and F: "expire_of (tm w2) arg = due" "A1 (active_of ctx p) = A (active_of ctx p)"
    "active_of ctx (p1\<lparr>wd := w2\<rparr>) = active_of ctx p" "epolls w2 = epolls (wd p)"
    "waiting ctx (p1\<lparr>wd := w2\<rparr>) A1 = us @ arg # vs"
    "wheel_of ctx (p1\<lparr>wd := w2\<rparr>) = wheel_start (wheel_of ctx p) now" "lists_within [arg] A A1"
    "\<forall>x \<in> set (waiting ctx p A). expire_of (tm w2) x = expire_of (tm (wd p)) x"
    and T: "thread_inv env w2" "thread_calls env w2 = [m]" "mains w2 m" "s \<noteq> m" "cos w2 s = Some r" "\<not> cEnd r"
    using poll_suspends [where ufds = ufds and ctl = ctl, OF thr L clock] unfolding folds adds_def by metis
  let ?p2 = "p1\<lparr>wd := w2\<rparr>"
  have R: "repr (tm (wd p)) A" using loop_ok_active [OF L(1)] by simp
  have low: "x < arg" if "linked A x" for x
    using lists.rep_isnode [OF R] that L(2) unfolding fresh_above_def arg_def linked_def is_node_def
    by (meson not_le)
  have lk: "linked A x" if "x \<in> set (waiting ctx p A)" for x
    using L(1) that set_pending by (fastforce simp: loop_ok_def waiting_def wheel_of_def linked_def)
  have usvs: "us @ vs = waiting ctx p A"
    unfolding us_def vs_def by (rule filter_sorted_split [OF waiting_sorted [OF L(1)]])
  have oth: "\<forall>x \<in> set (us @ vs). x \<noteq> arg \<and> uint now' < expire_of (tm (wd ?p2)) x"
    unfolding usvs using others F(8) lk low by fastforce
  have start: "ullStart (wheel_start (wheel_of ctx p) now) \<le> now'"
    using clock(2) later(1) by (auto simp: wheel_start_def)
  have free: "\<forall>x. linked A1 x \<longrightarrow> x \<le> arg"
    using F(7) low by (fastforce simp: lists_within_def linked_def)
  have T2: "thread_inv env (wd ?p2)" "thread_calls env (wd ?p2) = [m]" "mains (wd ?p2) m" "s \<noteq> m"
    "cos (wd ?p2) s = Some r" "\<not> cEnd r" using T by simp_all
  have idle2: "A1 (active_of ctx ?p2) = []" using F(2,3) idle by simp
  have wake2: "js \<noteq> [] \<or> expire_of (tm (wd ?p2)) arg \<le> uint now'" using wake F(1) by (simp add: due_def)
  have start2: "ullStart (wheel_of ctx ?p2) \<le> now'"
    "ullStart (wheel_of ctx ?p2) = 0 \<or> uint now' - uint (ullStart (wheel_of ctx ?p2)) < 2 ^ 31 - 1"
    using start later(2) F(6) by simp_all
  obtain p4 p' B where P: "first_turn ctx (poll_events arg js) now' fr' ?p2 = Some p4"
    "co_poll_leave ctl (poll_epfd (the (polls p1 arg))) arg ufds p4 =
       Some (int (length js), poll_answer ufds (revents_of (length ufds) js), p')"
    "loop_ok ctx p' B" "B (active_of ctx p) = []" "waiting ctx p' B = us @ vs" "polls p' arg = None"
    "ctls p' = rev (map undo_ctl (add_calls (poll_epfd (the (polls p1 arg))) (arg + 1) 0 ufds)) @ ctls ?p2"
    "thread_inv env (wd p')" "thread_calls env (wd p') = [m, s]"
    using poll_finishes [where epfd = "poll_epfd (the (polls p1 arg))" and fr = fr' and ctl = ctl,
        OF T2 E(4,5) js idle2 F(5) oth wake2 start2 later(3) free]
    unfolding F(3) proc.simps by (elim exE conjE) (rule that)
  have epfd: "poll_epfd (the (polls p1 arg)) = iEpollFd (the (epolls (wd p) ctx))"
    using E(5) F(4) by (simp add: poll_waits_def new_stPoll_def)
  obtain pl where pl: "polls p1 arg = Some pl" using E(6) by blast
  have "co_poll ctl now fr (first_turn ctx (poll_events arg js) now' fr') ctx ufds timeout p =
      Some (int (length js), poll_answer ufds (revents_of (length ufds) js), p')"
    using E(1-3) P(1,2) pl by (simp add: co_poll_def co_poll_inner_def)
  moreover have "ctls p' = rev (map undo_ctl adds) @ rev adds @ ctls p"
    using P(7) [unfolded epfd] ctl1 by (simp add: adds_def arg_def)
  moreover have "waiting ctx p' B = waiting ctx p A" "polls p' (brk (wd p)) = None"
    using P(5,6) usvs by (simp_all add: arg_def)
  ultimately show ?thesis
    using P(3,4,8,9) unfolding arg_def by (intro exI [of _ p'] exI [of _ B]) simp
qed

text \<open>
  C5: \<open>co_poll\<close> returns. A coroutine that the event loop of its thread has resumed calls \<open>co_poll\<close>; no
  other item is due. When events \<open>js\<close> of its descriptors arrive at \<open>now'\<close>, or none do and the time is up, the
  loop wakes and resumes it and the call returns the number of events, 0 for a timeout, with the
  masks of its descriptors. Nothing is left behind: its objects are freed, every descriptor it added to the
  epoll instance is removed, the wheel holds what it held, the active list is empty, and the call stack
  and the invariant of the thread are as before.
\<close>

theorem co_poll_returns:
  fixes now :: u64 and timeout :: int
  assumes "thread_inv env (wd p)" "thread_calls env (wd p) = [m, s]" "mains (wd p) m" "frame_ok fr s (wd p)"
    and "loop_ok ctx p A" "fresh_above p" and "A (active_of ctx p) = []"
    and "now \<noteq> 0" "ullStart (wheel_of ctx p) \<le> now" "uint now < 2 ^ 61" "0 \<le> timeout"
      "uint now + clamp_timeout timeout - uint (ullStart (wheel_start (wheel_of ctx p) now)) < iItemSize (wheel_of ctx p)"
    and "now \<le> now'" "uint now' - uint (ullStart (wheel_start (wheel_of ctx p) now)) < 2 ^ 31 - 1" "uint now' < 2 ^ 62"
    and "\<forall>(j, e) \<in> set js. j < length ufds"
    and "\<forall>x \<in> set (waiting ctx p A). uint now' < expire_of (tm (wd p)) x"
    and "js \<noteq> [] \<or> uint now + clamp_timeout timeout \<le> uint now'"
  shows "\<exists>p' B. co_poll ctl now fr (first_turn ctx (poll_events (brk (wd p)) js) now' fr') ctx ufds timeout p =
      Some (int (length js), poll_answer ufds (revents_of (length ufds) js), p') \<and>
    loop_ok ctx p' B \<and> B (active_of ctx p) = [] \<and> waiting ctx p' B = waiting ctx p A \<and>
    polls p' (brk (wd p)) = None \<and>
    ctls p' = rev (map undo_ctl (add_calls (iEpollFd (the (epolls (wd p) ctx))) (brk (wd p) + 1) 0 ufds)) @
      rev (add_calls (iEpollFd (the (epolls (wd p) ctx))) (brk (wd p) + 1) 0 ufds) @ ctls p \<and>
    thread_inv env (wd p') \<and> thread_calls env (wd p') = [m, s]"
  using assms by (rule co_poll_returns_lemma)

text \<open>The thread of \<open>demo_world\<close> with an epoll object whose wheel is empty; coroutine 10 polls descriptor 3.\<close>

definition poll_wheel :: stTimeout_t where
  "poll_wheel = \<lparr>pItems = 20, iItemSize = 5, ullStart = 0, llStartIdx = 0\<rparr>"

definition poll_proc :: proc where
  "poll_proc = \<lparr>wd = demo_world\<lparr>epolls := [60 \<mapsto> \<lparr>iEpollFd = 9, pTimeout = 61, pstTimeoutList = 63, pstActiveList = 62,
         epoll_result = True\<rparr>], timeouts := [61 \<mapsto> poll_wheel],
       tm := \<lparr>nodes = Map.empty, links = (\<lambda>a. if 20 \<le> a \<and> a < 25 \<or> a = 62 \<or> a = 63
         then Some \<lparr>head = None, tail = None\<rparr> else None)\<rparr>\<rparr>,
     polls = Map.empty, pitems = Map.empty, conds = \<lparr>nodes = Map.empty, links = Map.empty\<rparr>, ctls = [], errno = 0\<rparr>"

lemma poll_proc_loop: "loop_ok 60 poll_proc (\<lambda>_. [])"
proof -
  have R: "repr (tm (wd poll_proc)) (\<lambda>_. [])"
    by (auto simp: repr_def list_ok_def poll_proc_def)
  then have "wheel_inv poll_wheel (tm (wd poll_proc)) (\<lambda>_. [])"
    by (auto simp: wheel_inv_def poll_wheel_def is_slot_def is_link_def poll_proc_def)
  then show ?thesis
    by (auto simp: loop_ok_def is_link_def is_slot_def poll_proc_def poll_wheel_def)
qed

lemma poll_proc_simps [simp]:
  "wheel_of 60 poll_proc = poll_wheel" "ullStart poll_wheel = 0" "iItemSize poll_wheel = 5"
  "waiting 60 poll_proc (\<lambda>_. []) = []" "brk (wd poll_proc) = 300"
  by (simp_all add: wheel_of_def poll_proc_def poll_wheel_def waiting_def pending_def demo_world_def)

lemma poll_proc_thread:
  "thread_inv 4 (wd poll_proc)" "thread_calls 4 (wd poll_proc) = [2, 10]" "mains (wd poll_proc) 2"
  "frame_ok demo_frame 10 (wd poll_proc)" "fresh_above poll_proc"
proof -
  have w: "wd poll_proc = (demo_world\<lparr>epolls := epolls (wd poll_proc)\<rparr>)\<lparr>tm := tm (wd poll_proc), timeouts := timeouts (wd poll_proc)\<rparr>"
    by (simp add: poll_proc_def)
  show "thread_inv 4 (wd poll_proc)" by (subst w) (intro thread_quiet demo_inv)
  show "thread_calls 4 (wd poll_proc) = [2, 10]" using demo_calls(1) by (simp add: poll_proc_def thread_calls_def)
  show "mains (wd poll_proc) 2" by (simp add: mains_def poll_proc_def demo_world_def demo_co_def)
  show "frame_ok demo_frame 10 (wd poll_proc)" using demo_frame10 by (simp add: frame_ok_def poll_proc_def)
  show "fresh_above poll_proc" by (auto simp: fresh_above_def poll_proc_def demo_world_def)
qed

theorem co_poll_returns_witness:
  "\<exists>p'. co_poll (\<lambda>_. (0, 0)) 1000 demo_frame (first_turn 60 (poll_events 300 [(0, 1)]) 1001 demo_frame) 60
       [\<lparr>pfd = 3, pevents = 1, prevents = 0\<rparr>] 3 poll_proc =
     Some (1, [\<lparr>pfd = 3, pevents = 1, prevents = 1\<rparr>], p') \<and> thread_calls 4 (wd p') = [2, 10]"
proof -
  have ans: "poll_answer [\<lparr>pfd = 3, pevents = 1, prevents = 0\<rparr>] (revents_of 1 [(0, 1)]) =
      [\<lparr>pfd = 3, pevents = 1, prevents = 1\<rparr>]"
    by (simp add: poll_answer_def revents_of_def EpollEvent2Poll_def)
  let ?start = "wheel_start (wheel_of 60 poll_proc) 1000" and ?fds = "[\<lparr>pfd = 3, pevents = 1, prevents = 0\<rparr>] :: pollfd list"
  have c: "(1000 :: u64) \<noteq> 0" "ullStart (wheel_of 60 poll_proc) \<le> 1000" "uint (1000 :: u64) < 2 ^ 61" "0 \<le> (3 :: int)"
    "uint (1000 :: u64) + clamp_timeout 3 - uint (ullStart ?start) < iItemSize (wheel_of 60 poll_proc)"
    "(1000 :: u64) \<le> 1001" "uint (1001 :: u64) - uint (ullStart ?start) < 2 ^ 31 - 1" "uint (1001 :: u64) < 2 ^ 62"
    by (simp_all add: clamp_timeout_def eMaxTimeout_def wheel_start_def)
  have j: "\<forall>(j, e) \<in> set [(0, 1 :: u32)]. j < length ?fds"
    "\<forall>x \<in> set (waiting 60 poll_proc (\<lambda>_. [])). uint (1001 :: u64) < expire_of (tm (wd poll_proc)) x"
    "[(0 :: nat, 1 :: u32)] \<noteq> [] \<or> uint (1000 :: u64) + clamp_timeout 3 \<le> uint (1001 :: u64)" by simp_all
  note R = co_poll_returns [where ctl = "\<lambda>_. (0, 0)" and fr' = demo_frame,
      OF poll_proc_thread(1-4) poll_proc_loop poll_proc_thread(5) refl c j]
  have n: "length ?fds = 1" "int (length [(0 :: nat, 1 :: u32)]) = 1" by simp_all
  show ?thesis
    using R unfolding n ans poll_proc_simps(5) by (elim exE conjE) (intro exI conjI)
qed

end
