(* ===== verification/Cond.thy ===== *)
theory Cond
  imports Poll
begin

text \<open>
  The condition variables of \<open>src/libco/co_routine.cpp\<close>. A \<open>stCoCondItem_t\<close> is a node of the heap
  \<open>conds\<close>, whose headers are the \<open>stCoCond_t\<close> objects; its member \<open>timeout\<close> is the node of the timer
  heap at the same address.
\<close>

section \<open>Operations\<close>

definition on_conds :: "(unit lmem \<Rightarrow> unit lmem option) \<Rightarrow> proc \<Rightarrow> proc option" where
  "on_conds f p = map_option (\<lambda>m. p\<lparr>conds := m\<rparr>) (f (conds p))"

definition co_cond_alloc :: "proc \<Rightarrow> addr \<times> proc" where
  "co_cond_alloc p = (let (a, w) = malloc 1 (wd p)
     in (a, p\<lparr>wd := w, conds := (conds p)\<lparr>links := (links (conds p))(a \<mapsto> \<lparr>head = None, tail = None\<rparr>)\<rparr>\<rparr>))"

definition co_cond_free :: "addr \<Rightarrow> proc \<Rightarrow> int \<times> proc" where
  "co_cond_free cc p = (0, p\<lparr>conds := (conds p)\<lparr>links := (links (conds p))(cc := None)\<rparr>\<rparr>)"

definition co_cond_pop :: "addr \<Rightarrow> proc \<Rightarrow> (ptr \<times> proc) option" where
  "co_cond_pop link p = do {
     l \<leftarrow> links (conds p) link;
     (case head l of
        None \<Rightarrow> Some (None, p)
      | Some x \<Rightarrow> do { p \<leftarrow> on_conds (PopHead link) p; Some (Some x, p) }) }"

text \<open>\<open>co_get_curr_thread_env()->pEpoll\<close>.\<close>

definition curr_epoll :: "world \<Rightarrow> stCoEpoll_t option" where
  "curr_epoll w = do {
     e \<leftarrow> co_get_curr_thread_env w;
     env \<leftarrow> e;
     en \<leftarrow> envs w env;
     ctx \<leftarrow> pEpoll en;
     epolls w ctx }"

lemma curr_epoll_simps [simp]:
  "curr_epoll (w\<lparr>tm := m\<rparr>) = curr_epoll w" "curr_epoll (w\<lparr>brk := b\<rparr>) = curr_epoll w"
  "curr_epoll (w\<lparr>timeouts := ts\<rparr>) = curr_epoll w"
  by (simp_all add: curr_epoll_def co_get_curr_thread_env_def)

definition wake_waiter :: "addr \<Rightarrow> proc \<Rightarrow> proc option" where
  "wake_waiter sp p = do {
     p \<leftarrow> on_tm (RemoveFromLink sp) p;
     c \<leftarrow> curr_epoll (wd p);
     on_tm (AddTail (pstActiveList c) sp) p }"

definition co_cond_signal :: "addr \<Rightarrow> proc \<Rightarrow> (int \<times> proc) option" where
  "co_cond_signal si p = do {
     (sp, p) \<leftarrow> co_cond_pop si p;
     (case sp of
        None \<Rightarrow> Some (0, p)
      | Some sp \<Rightarrow> do { p \<leftarrow> wake_waiter sp p; Some (0, p) }) }"

partial_function (option) co_cond_broadcast :: "addr \<Rightarrow> proc \<Rightarrow> (int \<times> proc) option" where
  "co_cond_broadcast si p = do {
     (sp, p) \<leftarrow> co_cond_pop si p;
     (case sp of
        None \<Rightarrow> Some (0, p)
      | Some sp \<Rightarrow> do { p \<leftarrow> wake_waiter sp p; co_cond_broadcast si p }) }"

text \<open>\<open>co_cond_timedwait\<close> down to \<open>co_yield_ct\<close>: an error result, or the waiter.\<close>

definition co_cond_timedwait_enter :: "u64 \<Rightarrow> addr \<Rightarrow> int \<Rightarrow> proc \<Rightarrow> ((int + addr) \<times> proc) option" where
  "co_cond_timedwait_enter now link ms p = do {
     let (psi, w) = malloc 1 (wd p);
     cur \<leftarrow> GetCurrThreadCo w;
     let m = tm w;
     let m = m\<lparr>nodes := (nodes m)(psi \<mapsto> zero_item\<lparr>pArg := cur, pfnProcess := OnSignalProcess\<rparr>)\<rparr>;
     let cm = conds p;
     let p = p\<lparr>wd := w\<lparr>tm := m\<rparr>,
       conds := cm\<lparr>nodes := (nodes cm)(psi \<mapsto> \<lparr>pPrev = None, pNext = None, pLink = None\<rparr>)\<rparr>\<rparr>;
     (ret, p) \<leftarrow> (if ms > 0 then do {
         p \<leftarrow> on_tm (set_node (ullExpireTime_update (\<lambda>_. now + word_of_int ms)) psi) p;
         c \<leftarrow> curr_epoll (wd p);
         t \<leftarrow> timeouts (wd p) (pTimeout c);
         (ret, t, m) \<leftarrow> AddTimeout t psi now (tm (wd p));
         Some (ret, p\<lparr>wd := (wd p)\<lparr>tm := m, timeouts := (timeouts (wd p))(pTimeout c \<mapsto> t)\<rparr>\<rparr>) }
       else Some (0, p));
     if ret \<noteq> 0 then Some (Inl ret,
       p\<lparr>wd := (wd p)\<lparr>tm := (tm (wd p))\<lparr>nodes := (nodes (tm (wd p)))(psi := None)\<rparr>\<rparr>,
         conds := (conds p)\<lparr>nodes := (nodes (conds p))(psi := None)\<rparr>\<rparr>)
     else do {
       p \<leftarrow> on_conds (AddTail link psi) p;
       Some (Inr psi, p) } }"

definition co_cond_timedwait_leave :: "addr \<Rightarrow> proc \<Rightarrow> (int \<times> proc) option" where
  "co_cond_timedwait_leave psi p = do {
     p \<leftarrow> on_conds (RemoveFromLink psi) p;
     _ \<leftarrow> nodes (tm (wd p)) psi;
     Some (0, p\<lparr>wd := (wd p)\<lparr>tm := (tm (wd p))\<lparr>nodes := (nodes (tm (wd p)))(psi := None)\<rparr>\<rparr>,
       conds := (conds p)\<lparr>nodes := (nodes (conds p))(psi := None)\<rparr>\<rparr>) }"

definition co_cond_timedwait ::
  "u64 \<Rightarrow> frame \<Rightarrow> (proc \<Rightarrow> proc option) \<Rightarrow> addr \<Rightarrow> int \<Rightarrow> proc \<Rightarrow> (int \<times> proc) option" where
  "co_cond_timedwait now fr others link ms p = do {
     (r, p) \<leftarrow> co_cond_timedwait_enter now link ms p;
     (case r of
        Inl ret \<Rightarrow> Some (ret, p)
      | Inr psi \<Rightarrow> do {
          w \<leftarrow> co_yield_ct fr (wd p);
          p \<leftarrow> others (p\<lparr>wd := w\<rparr>);
          co_cond_timedwait_leave psi p }) }"

section \<open>Waking waiters\<close>

definition cond_ok :: "addr \<Rightarrow> proc \<Rightarrow> (addr \<Rightarrow> addr list) \<Rightarrow> (addr \<Rightarrow> addr list) \<Rightarrow> bool" where
  "cond_ok ctx p A C \<longleftrightarrow> loop_ok ctx p A \<and> repr (conds p) C \<and> curr_epoll (wd p) = epolls (wd p) ctx \<and>
     (\<forall>si. \<forall>x\<in>set (C si). is_node (tm (wd p)) x)"

lemma cond_ok_node:
  assumes "cond_ok ctx p A C" "C si = xs" "y \<in> set xs"
  shows "is_node (tm (wd p)) y"
  using assms unfolding cond_ok_def by blast

lemma wake_waiter_spec:
  assumes K: "cond_ok ctx p A C" and x: "is_node (tm (wd p)) x"
  shows "\<exists>p'. wake_waiter x p = Some p' \<and> cond_ok ctx p' (moved (active_of ctx p) [x] A) C \<and>
     same_world p p' \<and> same_data (tm (wd p)) (tm (wd p')) \<and> polls p' = polls p \<and>
     active_of ctx p' = active_of ctx p \<and>
     waiting ctx p' (moved (active_of ctx p) [x] A) = filter (\<lambda>y. y \<noteq> x) (waiting ctx p A)"
proof -
  from K have L: "loop_ok ctx p A" and ce: "curr_epoll (wd p) = epolls (wd p) ctx" by (auto simp: cond_ok_def)
  from L obtain c t where c: "epolls (wd p) ctx = Some c" "timeouts (wd p) (pTimeout c) = Some t"
     and inv: "wheel_inv t (tm (wd p)) A"
     and lk: "is_link (tm (wd p)) (pstActiveList c)" "is_link (tm (wd p)) (pstTimeoutList c)"
       "\<not> is_slot t (pstActiveList c)" "\<not> is_slot t (pstTimeoutList c)"
       "pstActiveList c \<noteq> pstTimeoutList c" and empty: "A (pstTimeoutList c) = []"
    unfolding loop_ok_def by blast
  have of_simps: "active_of ctx p = pstActiveList c" "wheel_of ctx p = t"
    using c by (simp_all add: active_of_def wheel_of_def)
  note R = wheel_invD(1) [OF inv]
  let ?A = "moved (pstActiveList c) [x] A"
  obtain m1 m2 where m: "RemoveFromLink x (tm (wd p)) = Some m1" "AddTail (pstActiveList c) x m1 = Some m2"
       "same_data (tm (wd p)) m2" "repr m2 ?A"
    using lists.requeue [OF R x lk(1)] moved_one [OF R] by metis
  let ?p = "p\<lparr>wd := (wd p)\<lparr>tm := m2\<rparr>\<rparr>"
  have run: "wake_waiter x p = Some ?p"
    using m ce c by (simp add: wake_waiter_def on_tm_def)
  have sub: "?A k = filter (\<lambda>y. y \<noteq> x) (A k)" if "is_slot t k" for k
    using that lk(3) by (auto simp: moved_def)
  have lks: "is_link m2 k = is_link (tm (wd p)) k" for k using lists.same_islink [OF m(3)] .
  have inv2: "wheel_inv t m2 ?A" and pend: "pending t ?A = filter (\<lambda>y. y \<noteq> x) (pending t A)"
    using wheel_filter [OF inv m(4) expire_of_same [OF m(3)] lks sub] by auto
  have "loop_ok ctx ?p ?A"
    unfolding loop_ok_def using c inv2 lk lks empty by (auto simp: moved_def intro!: exI [of _ c])
  then have "cond_ok ctx ?p ?A C"
    using K lists.same_isnode [OF m(3)] by (simp add: cond_ok_def)
  moreover have "waiting ctx ?p ?A = filter (\<lambda>y. y \<noteq> x) (waiting ctx p A)"
    using pend of_simps c by (simp add: waiting_def wheel_of_def)
  moreover have "same_world p ?p" by (simp add: same_world_def)
  moreover have "active_of ctx ?p = active_of ctx p" by (simp add: active_of_def)
  ultimately show ?thesis
    using run m(3) of_simps(1) by (intro exI [of _ ?p]) simp
qed

lemma co_cond_pop_spec:
  assumes K: "cond_ok ctx p A C" and si: "is_link (conds p) si"
  shows "C si = [] \<Longrightarrow> co_cond_pop si p = Some (None, p)"
    and "C si = x # xs \<Longrightarrow> \<exists>m. co_cond_pop si p = Some (Some x, p\<lparr>conds := m\<rparr>) \<and> same_data (conds p) m \<and>
       cond_ok ctx (p\<lparr>conds := m\<rparr>) A (C(si := xs))"
proof -
  from K have R: "repr (conds p) C" by (simp add: cond_ok_def)
  from si obtain l where l: "links (conds p) si = Some l" by (auto simp: is_link_def)
  have hd: "head l = fst_or (C si) None" using repr_list_ok [OF R l] l by (simp add: list_ok_def)
  show "co_cond_pop si p = Some (None, p)" if "C si = []"
    using l hd that by (simp add: co_cond_pop_def)
  show "\<exists>m. co_cond_pop si p = Some (Some x, p\<lparr>conds := m\<rparr>) \<and> same_data (conds p) m \<and>
       cond_ok ctx (p\<lparr>conds := m\<rparr>) A (C(si := xs))" if C: "C si = x # xs"
  proof -
    obtain m where m: "PopHead si (conds p) = Some m" "repr m (C(si := tl (C si)))" "same_data (conds p) m"
      using lists.pop_law [OF R si] by blast
    have "loop_ok ctx (p\<lparr>conds := m\<rparr>) A"
      using K by (simp add: cond_ok_def loop_ok_def)
    moreover have "set xs \<subseteq> set (C si)" using C by auto
    ultimately have "cond_ok ctx (p\<lparr>conds := m\<rparr>) A (C(si := xs))"
      using K m(2) C cond_ok_node [OF K C] cond_ok_node [OF K refl] by (simp add: cond_ok_def)
    then show ?thesis
      using l hd C m by (auto simp: co_cond_pop_def on_conds_def)
  qed
qed

lemma co_cond_signal_full:
  assumes K: "cond_ok ctx p A C" and si: "is_link (conds p) si"
  shows "\<exists>p'. co_cond_signal si p = Some (0, p') \<and> active_of ctx p' = active_of ctx p \<and>
     cond_ok ctx p' (moved (active_of ctx p) (take 1 (C si)) A) (C(si := drop 1 (C si))) \<and>
     same_data (tm (wd p)) (tm (wd p')) \<and> same_data (conds p) (conds p') \<and>
     waiting ctx p' (moved (active_of ctx p) (take 1 (C si)) A) =
       filter (\<lambda>y. y \<notin> set (take 1 (C si))) (waiting ctx p A) \<and>
     same_world (p\<lparr>conds := conds p'\<rparr>) p' \<and> polls p' = polls p"
proof (cases "C si")
  case Nil
  then have "co_cond_signal si p = Some (0, p)"
    using co_cond_pop_spec(1) [OF K si] by (simp add: co_cond_signal_def)
  moreover have "C(si := []) = C" using Nil by auto
  ultimately show ?thesis using K Nil by simp
next
  case (Cons x xs)
  obtain m where m: "co_cond_pop si p = Some (Some x, p\<lparr>conds := m\<rparr>)" "same_data (conds p) m"
    "cond_ok ctx (p\<lparr>conds := m\<rparr>) A (C(si := xs))"
    using co_cond_pop_spec(2) [OF K si Cons] by blast
  have x: "is_node (tm (wd (p\<lparr>conds := m\<rparr>))) x" using cond_ok_node [OF K Cons, of x] by simp
  have same: "active_of ctx (p\<lparr>conds := m\<rparr>) = active_of ctx p" "waiting ctx (p\<lparr>conds := m\<rparr>) = waiting ctx p"
    by (simp_all add: active_of_def waiting_def wheel_of_def fun_eq_iff)
  obtain p' where p': "wake_waiter x (p\<lparr>conds := m\<rparr>) = Some p'"
     "cond_ok ctx p' (moved (active_of ctx p) [x] A) (C(si := xs))" "same_world (p\<lparr>conds := m\<rparr>) p'" "polls p' = polls p"
     "same_data (tm (wd p)) (tm (wd p'))" "active_of ctx p' = active_of ctx p"
     "waiting ctx p' (moved (active_of ctx p) [x] A) = filter (\<lambda>y. y \<noteq> x) (waiting ctx p A)"
    using wake_waiter_spec [OF m(3) x] unfolding same by auto
  have "conds p' = m" using p'(3) by (simp add: same_world_def)
  with m p' Cons show ?thesis by (simp add: co_cond_signal_def)
qed

lemma co_cond_signal_lemma:
  assumes K: "cond_ok ctx p A C" and si: "is_link (conds p) si"
  shows "\<exists>p'. co_cond_signal si p = Some (0, p') \<and> active_of ctx p' = active_of ctx p \<and>
     cond_ok ctx p' (moved (active_of ctx p) (take 1 (C si)) A) (C(si := drop 1 (C si))) \<and>
     same_data (tm (wd p)) (tm (wd p')) \<and> same_data (conds p) (conds p') \<and>
     waiting ctx p' (moved (active_of ctx p) (take 1 (C si)) A) =
       filter (\<lambda>y. y \<notin> set (take 1 (C si))) (waiting ctx p A)"
  using co_cond_signal_full [OF assms] by (elim exE conjE) (intro exI conjI)

lemma co_cond_broadcast_full:
  assumes "cond_ok ctx p A C" "is_link (conds p) si"
  shows "\<exists>p'. co_cond_broadcast si p = Some (0, p') \<and> active_of ctx p' = active_of ctx p \<and>
     cond_ok ctx p' (moved (active_of ctx p) (C si) A) (C(si := [])) \<and>
     same_data (tm (wd p)) (tm (wd p')) \<and> same_data (conds p) (conds p') \<and>
     waiting ctx p' (moved (active_of ctx p) (C si) A) = filter (\<lambda>y. y \<notin> set (C si)) (waiting ctx p A) \<and>
     same_world (p\<lparr>conds := conds p'\<rparr>) p' \<and> polls p' = polls p"
  using assms
proof (induction "C si" arbitrary: p A C)
  case Nil
  have "co_cond_broadcast si p = Some (0, p)"
    using co_cond_pop_spec(1) [OF Nil.prems] Nil.hyps by (subst co_cond_broadcast.simps) simp
  moreover have "C(si := []) = C" using Nil.hyps by auto
  ultimately show ?case using Nil by (auto simp flip: Nil.hyps)
next
  case (Cons x xs)
  obtain m where m: "co_cond_pop si p = Some (Some x, p\<lparr>conds := m\<rparr>)" "same_data (conds p) m"
    "cond_ok ctx (p\<lparr>conds := m\<rparr>) A (C(si := xs))"
    using co_cond_pop_spec(2) [OF Cons.prems Cons.hyps(2) [symmetric]] by blast
  have x: "is_node (tm (wd (p\<lparr>conds := m\<rparr>))) x"
    using cond_ok_node [OF Cons.prems(1) Cons.hyps(2) [symmetric], of x] by simp
  have same: "active_of ctx (p\<lparr>conds := m\<rparr>) = active_of ctx p" "waiting ctx (p\<lparr>conds := m\<rparr>) = waiting ctx p"
    by (simp_all add: active_of_def waiting_def wheel_of_def fun_eq_iff)
  let ?a = "active_of ctx p"
  obtain p1 where p1: "wake_waiter x (p\<lparr>conds := m\<rparr>) = Some p1"
     "cond_ok ctx p1 (moved ?a [x] A) (C(si := xs))" "same_world (p\<lparr>conds := m\<rparr>) p1" "polls p1 = polls p"
     "same_data (tm (wd p)) (tm (wd p1))" "active_of ctx p1 = ?a"
     "waiting ctx p1 (moved ?a [x] A) = filter (\<lambda>y. y \<noteq> x) (waiting ctx p A)"
    using wake_waiter_spec [OF m(3) x] unfolding same by auto
  have cm: "conds p1 = m" using p1(3) by (simp add: same_world_def)
  have link1: "is_link (conds p1) si" using lists.same_islink [OF m(2)] Cons.prems(2) cm by simp
  have "xs = (C(si := xs)) si" by simp
  from Cons.hyps(1) [OF this p1(2) link1] obtain p' where p': "co_cond_broadcast si p1 = Some (0, p')"
     "active_of ctx p' = ?a" "cond_ok ctx p' (moved ?a xs (moved ?a [x] A)) (C(si := []))"
     "same_data (tm (wd p1)) (tm (wd p'))" "same_data (conds p1) (conds p')"
     "waiting ctx p' (moved ?a xs (moved ?a [x] A)) = filter (\<lambda>y. y \<notin> set xs) (waiting ctx p1 (moved ?a [x] A))"
     "same_world (p1\<lparr>conds := conds p'\<rparr>) p'" "polls p' = polls p1"
    using p1(6) by auto
  have "distinct (C si)" using Cons.prems(1) repr_distinct by (auto simp: cond_ok_def)
  then have mv: "moved ?a xs (moved ?a [x] A) = moved ?a (C si) A"
    by (subst moved_moved) (auto simp flip: Cons.hyps(2))
  have run: "co_cond_broadcast si p = Some (0, p')"
    using m(1) p1(1) p'(1) by (subst co_cond_broadcast.simps) simp
  have w: "filter (\<lambda>y. y \<notin> set xs) (filter (\<lambda>y. y \<noteq> x) (waiting ctx p A)) = filter (\<lambda>y. y \<notin> set (C si)) (waiting ctx p A)"
    by (auto simp flip: Cons.hyps(2) intro: filter_cong)
  have sw: "same_world (p\<lparr>conds := conds p'\<rparr>) p'"
    using p1(3) p'(7) unfolding same_world_def by (cases "wd p"; cases "wd p1"; cases "wd p'") simp
  show ?case
    using sw p'(8) p1(4) run p' same_data_trans [OF p1(5) p'(4)] same_data_trans [OF m(2)] cm mv w p1(7)
    by (intro exI [of _ p']) simp
qed

lemma co_cond_broadcast_lemma:
  assumes "cond_ok ctx p A C" "is_link (conds p) si"
  shows "\<exists>p'. co_cond_broadcast si p = Some (0, p') \<and> active_of ctx p' = active_of ctx p \<and>
     cond_ok ctx p' (moved (active_of ctx p) (C si) A) (C(si := [])) \<and>
     same_data (tm (wd p)) (tm (wd p')) \<and> same_data (conds p) (conds p') \<and>
     waiting ctx p' (moved (active_of ctx p) (C si) A) = filter (\<lambda>y. y \<notin> set (C si)) (waiting ctx p A)"
  using co_cond_broadcast_full [OF assms] by (elim exE conjE) (intro exI conjI)

section \<open>Waiting\<close>

definition fresh_conds :: "proc \<Rightarrow> bool" where
  "fresh_conds p \<longleftrightarrow> (\<forall>a \<ge> brk (wd p). nodes (conds p) a = None \<and> nodes (tm (wd p)) a = None)"

definition cond_item :: "addr \<Rightarrow> u64 \<Rightarrow> stTimeoutItem_t" where
  "cond_item s e = zero_item\<lparr>pfnProcess := OnSignalProcess, pArg := Some s, ullExpireTime := e\<rparr>"

lemma poll_nodes_0: "poll_nodes a 0 item m = m\<lparr>nodes := (nodes m)(a \<mapsto> item)\<rparr>"
  by (auto simp: poll_nodes_def fun_eq_iff intro!: lmem.equality)

lemma repr_new_cond:
  fixes m :: "unit lmem"
  assumes R: "repr m C" and "\<forall>a\<ge>psi. nodes m a = None" and link: "is_link m link"
  shows "\<exists>m'. AddTail link psi (m\<lparr>nodes := (nodes m)(psi \<mapsto> \<lparr>pPrev = None, pNext = None, pLink = None\<rparr>)\<rparr>) = Some m' \<and>
     repr m' (C(link := C link @ [psi])) \<and> psi \<notin> set (C lk) \<and>
     (\<forall>x. is_node m' x \<longleftrightarrow> x = psi \<or> is_node m x) \<and> (\<forall>k. is_link m' k = is_link m k)"
proof -
  let ?m = "m\<lparr>nodes := (nodes m)(psi \<mapsto> \<lparr>pPrev = None, pNext = None, pLink = None\<rparr>)\<rparr>"
  have notin: "psi \<notin> set (C lk)" for lk
    using lists.rep_isnode [OF R, of psi lk] assms(2) by (auto simp: is_node_def)
  have R1: "repr ?m C"
  proof (rule repr_nodes_change [OF R])
    fix lk x n assume "x \<in> set (C lk)" "nodes m x = Some n"
    then show "\<exists>n'. nodes ?m x = Some n' \<and> pPrev n' = pPrev n \<and> pNext n' = pNext n \<and> pLink n' = pLink n"
      using notin by auto
  next
    fix x n lk assume "nodes ?m x = Some n" "pLink n = Some lk"
    then have "nodes m x = Some n" "pLink n = Some lk" by (auto split: if_splits)
    then show "x \<in> set (C lk)" using R by (auto simp: repr_def)
  qed simp
  have "is_node ?m psi" "is_link ?m link" using link by (simp_all add: is_node_def is_link_def)
  from lists.add_law [OF R1 this] notin obtain m' where m': "AddTail link psi ?m = Some m'"
    "repr m' (C(link := C link @ [psi]))" "same_data ?m m'" by (auto simp: linked_def)
  have "is_node m' x \<longleftrightarrow> x = psi \<or> is_node m x" "is_link m' k = is_link m k" for x k
    using lists.same_isnode [OF m'(3)] lists.same_islink [OF m'(3)] by (auto simp: is_node_def is_link_def)
  then show ?thesis using m'(1,2) notin by blast
qed

lemma loop_ok_conds [simp]: "loop_ok ctx (p\<lparr>conds := m\<rparr>) A = loop_ok ctx p A"
  by (simp add: loop_ok_def)

text \<open>What a new waiter at \<open>psi\<close> of the coroutine \<open>s\<close> changes.\<close>

definition waits_at :: "addr \<Rightarrow> addr \<Rightarrow> proc \<Rightarrow> proc \<Rightarrow> bool" where
  "waits_at psi s p p' \<longleftrightarrow>
     wd p' = (wd p)\<lparr>brk := brk (wd p) + 1, tm := tm (wd p'), timeouts := timeouts (wd p')\<rparr> \<and>
     polls p' = polls p \<and> pitems p' = pitems p \<and> ctls p' = ctls p \<and>
     payload (tm (wd p')) = (payload (tm (wd p)))(psi \<mapsto> (NoPrepare, OnSignalProcess, Some s)) \<and>
     (\<forall>x. is_node (conds p') x \<longleftrightarrow> x = psi \<or> is_node (conds p) x) \<and>
     (\<forall>k. is_link (conds p') k = is_link (conds p) k) \<and> (\<forall>k. is_link (tm (wd p')) k = is_link (tm (wd p)) k)"

lemma timedwait_forever:
  assumes K: "cond_ok ctx p A C" and F: "fresh_conds p" and s: "GetCurrThreadCo (wd p) = Some (Some s)"
    and link: "is_link (conds p) link" and ms: "ms \<le> 0"
  defines "psi \<equiv> brk (wd p)"
  shows "\<exists>p'. co_cond_timedwait_enter now link ms p = Some (Inr psi, p') \<and>
     cond_ok ctx p' A (C(link := C link @ [psi])) \<and> waiting ctx p' A = waiting ctx p A \<and>
     nodes (tm (wd p')) psi = Some (cond_item s 0) \<and> waits_at psi s p p'"
proof -
  from K have L: "loop_ok ctx p A" and R: "repr (conds p) C" and ce: "curr_epoll (wd p) = epolls (wd p) ctx"
    by (auto simp: cond_ok_def)
  from L obtain c t where c: "epolls (wd p) ctx = Some c" "timeouts (wd p) (pTimeout c) = Some t"
     and inv: "wheel_inv t (tm (wd p)) A"
     and lk: "is_link (tm (wd p)) (pstActiveList c)" "is_link (tm (wd p)) (pstTimeoutList c)"
       "\<not> is_slot t (pstActiveList c)" "\<not> is_slot t (pstTimeoutList c)"
       "pstActiveList c \<noteq> pstTimeoutList c" and empty: "A (pstTimeoutList c) = []"
    unfolding loop_ok_def by blast
  have above: "\<forall>a\<ge>psi. nodes (tm (wd p)) a = None" "\<forall>a\<ge>psi. nodes (conds p) a = None"
    using F by (auto simp: fresh_conds_def psi_def)
  obtain cm where cm: "AddTail link psi ((conds p)\<lparr>nodes := (nodes (conds p))(psi \<mapsto> \<lparr>pPrev = None, pNext = None, pLink = None\<rparr>)\<rparr>) = Some cm"
     "repr cm (C(link := C link @ [psi]))"
     "\<forall>x. is_node cm x \<longleftrightarrow> x = psi \<or> is_node (conds p) x" "\<forall>k. is_link cm k = is_link (conds p) k"
    using repr_new_cond [OF R above(2) link] by blast
  let ?m = "poll_nodes psi 0 (cond_item s 0) (tm (wd p))"
  have un: "pLink (cond_item s 0) = None" by (simp add: cond_item_def zero_item_def)
  note inv' = poll_nodes_wheel(1) [OF inv above(1) un, where n = 0]
  let ?p = "p\<lparr>wd := (wd p)\<lparr>brk := brk (wd p) + 1, tm := ?m\<rparr>, conds := cm\<rparr>"
  have gc: "GetCurrThreadCo ((wd p)\<lparr>brk := b\<rparr>) = GetCurrThreadCo (wd p)" for b
    by (simp add: GetCurrThreadCo_def cong: option.case_cong)
  have run: "co_cond_timedwait_enter now link ms p = Some (Inr psi, ?p)"
    using cm(1) s ms unfolding co_cond_timedwait_enter_def
    by (simp add: malloc_def gc Let_def on_conds_def psi_def poll_nodes_0 cond_item_def zero_item_def)
  have "is_link ?m k = is_link (tm (wd p)) k" for k by (simp add: is_link_def poll_nodes_def)
  then have "loop_ok ctx ?p A"
    unfolding loop_ok_def using c inv' lk empty by (auto intro!: exI [of _ c])
  moreover have "is_node ?m x" if "x = psi \<or> is_node (tm (wd p)) x" for x
    using that by (auto simp: is_node_def poll_nodes_def)
  ultimately have "cond_ok ctx ?p A (C(link := C link @ [psi]))"
    using K cm(2) by (auto simp: cond_ok_def)
  moreover have "waiting ctx ?p A = waiting ctx p A" by (simp add: waiting_def wheel_of_def)
  moreover have "waits_at psi s p ?p"
    using cm(3,4) by (auto simp: waits_at_def payload_def poll_nodes_def cond_item_def zero_item_def fun_eq_iff is_link_def)
  ultimately show ?thesis using run by (intro exI [of _ ?p]) (simp add: poll_nodes_def)
qed

text \<open>With a timeout, up to the result of \<open>AddTimeout\<close>.\<close>

lemma timedwait_timeout:
  assumes K: "cond_ok ctx p A C" and s: "GetCurrThreadCo (wd p) = Some (Some s)" and ms: "ms > 0"
    and c: "epolls (wd p) ctx = Some c" "timeouts (wd p) (pTimeout c) = Some t"
  defines "psi \<equiv> brk (wd p)"
  shows "co_cond_timedwait_enter now link ms p =
     (case AddTimeout t psi now (poll_nodes psi 0 (cond_item s (now + word_of_int ms)) (tm (wd p))) of
        None \<Rightarrow> None
      | Some (ret, t', m) \<Rightarrow> let
          cm = (conds p)\<lparr>nodes := (nodes (conds p))(psi \<mapsto> \<lparr>pPrev = None, pNext = None, pLink = None\<rparr>)\<rparr>;
          q = p\<lparr>wd := (wd p)\<lparr>brk := psi + 1, tm := m, timeouts := (timeouts (wd p))(pTimeout c \<mapsto> t')\<rparr>\<rparr>
          in if ret \<noteq> 0 then Some (Inl ret, q\<lparr>wd := (wd q)\<lparr>tm := m\<lparr>nodes := (nodes m)(psi := None)\<rparr>\<rparr>,
                 conds := cm\<lparr>nodes := (nodes cm)(psi := None)\<rparr>\<rparr>)
             else map_option (\<lambda>cm. (Inr psi, q\<lparr>conds := cm\<rparr>)) (AddTail link psi cm))"
proof -
  from K have ce: "curr_epoll (wd p) = Some c" using c by (simp add: cond_ok_def)
  have gc: "GetCurrThreadCo ((wd p)\<lparr>brk := b\<rparr>) = GetCurrThreadCo (wd p)" for b
    by (simp add: GetCurrThreadCo_def cong: option.case_cong)
  show ?thesis
    using s ms c ce unfolding co_cond_timedwait_enter_def
    by (simp add: malloc_def gc Let_def on_conds_def on_tm_def set_node_def psi_def poll_nodes_0 cond_item_def zero_item_def
        split: option.splits prod.splits) (simp add: map_conv_bind_option comp_def)
qed

lemma timedwait_timeout_full:
  assumes K: "cond_ok ctx p A C" and F: "fresh_conds p" and s: "GetCurrThreadCo (wd p) = Some (Some s)"
    and link: "is_link (conds p) link" and ms: "0 < ms" "ms < 2 ^ 31"
    and clock: "now \<noteq> 0" "ullStart (wheel_of ctx p) \<le> now" "uint now < 2 ^ 61"
      "uint now + ms - uint (ullStart (wheel_start (wheel_of ctx p) now)) < iItemSize (wheel_of ctx p)"
  defines "psi \<equiv> brk (wd p)"
  shows "\<exists>p' A'. co_cond_timedwait_enter now link ms p = Some (Inr psi, p') \<and>
     cond_ok ctx p' A' (C(link := C link @ [psi])) \<and> expire_of (tm (wd p')) psi = uint now + ms \<and>
     A' (active_of ctx p) = A (active_of ctx p) \<and>
     waiting ctx p' A' = filter (\<lambda>x. expire_of (tm (wd p)) x \<le> uint now + ms) (waiting ctx p A) @ psi #
       filter (\<lambda>x. \<not> expire_of (tm (wd p)) x \<le> uint now + ms) (waiting ctx p A) \<and>
     waits_at psi s p p' \<and> lists_within [psi] A A'"
proof -
  from K have L: "loop_ok ctx p A" and R: "repr (conds p) C" and ce: "curr_epoll (wd p) = epolls (wd p) ctx"
    by (auto simp: cond_ok_def)
  from L obtain c t where c: "epolls (wd p) ctx = Some c" "timeouts (wd p) (pTimeout c) = Some t"
     and inv: "wheel_inv t (tm (wd p)) A"
     and lk: "is_link (tm (wd p)) (pstActiveList c)" "is_link (tm (wd p)) (pstTimeoutList c)"
       "\<not> is_slot t (pstActiveList c)" "\<not> is_slot t (pstTimeoutList c)"
       "pstActiveList c \<noteq> pstTimeoutList c" and empty: "A (pstTimeoutList c) = []"
    unfolding loop_ok_def by blast
  have of_simps: "active_of ctx p = pstActiveList c" "wheel_of ctx p = t"
    using c by (simp_all add: active_of_def wheel_of_def)
  have above: "\<forall>a\<ge>psi. nodes (tm (wd p)) a = None" "\<forall>a\<ge>psi. nodes (conds p) a = None"
    using F by (auto simp: fresh_conds_def psi_def)
  obtain cm where cm: "AddTail link psi ((conds p)\<lparr>nodes := (nodes (conds p))(psi \<mapsto> \<lparr>pPrev = None, pNext = None, pLink = None\<rparr>)\<rparr>) = Some cm"
     "repr cm (C(link := C link @ [psi]))"
     "\<forall>x. is_node cm x \<longleftrightarrow> x = psi \<or> is_node (conds p) x" "\<forall>k. is_link cm k = is_link (conds p) k"
    using repr_new_cond [OF R above(2) link] by blast
  define item where "item = cond_item s (now + word_of_int ms)"
  let ?m = "poll_nodes psi 0 item (tm (wd p))"
  have un: "pLink item = None" by (simp add: item_def cond_item_def zero_item_def)
  note inv' = poll_nodes_wheel(1) [OF inv above(1) un, where n = 0]
    and notin = poll_nodes_wheel(2) [OF inv above(1) un]
  have node: "nodes ?m psi = Some item" by (simp add: poll_nodes_def)
  have "uint (word_of_int ms :: u64) = ms"
    using ms by (simp add: uint_word_of_int)
  then have due: "uint (ullExpireTime item) = uint now + ms"
    using ms clock(3) uint_ge_0 [of now] by (simp add: item_def cond_item_def uint_word_ariths)
  have "now \<le> ullExpireTime item" "uint (ullExpireTime item) < 2 ^ 62" "\<not> linked A psi"
    "ullStart t \<le> now"
    "uint (ullExpireTime item) - uint (ullStart (wheel_start t now)) < iItemSize t"
    using due ms clock notin of_simps by (simp_all add: word_le_def linked_def)
  from AddTimeout_success [OF inv' node this(3) clock(1) this(4,1,5,2)]
  obtain t' m' B lk1 where add: "AddTimeout t psi now ?m = Some (0, t', m')" "wheel_inv t' m' B"
     "t' = wheel_start t now" "same_data ?m m'" "is_slot t lk1" "B = A(lk1 := A lk1 @ [psi])"
     "pending t' B = filter (\<lambda>y. expire_of ?m y \<le> expire_of ?m psi) (pending t A) @ psi #
       filter (\<lambda>y. \<not> expire_of ?m y \<le> expire_of ?m psi) (pending t A)"
    by metis
  let ?p = "p\<lparr>wd := (wd p)\<lparr>brk := psi + 1, tm := m', timeouts := (timeouts (wd p))(pTimeout c \<mapsto> t')\<rparr>, conds := cm\<rparr>"
  have run: "co_cond_timedwait_enter now link ms p = Some (Inr psi, ?p)"
    using timedwait_timeout [OF K s ms(1) c, of now link] add(1) cm(1)
    by (simp add: item_def psi_def)
  have slot': "is_slot t' = is_slot t" using add(3) by simp
  have links: "is_link m' k = is_link (tm (wd p)) k" for k
    using lists.same_islink [OF add(4)] by (simp add: is_link_def poll_nodes_def)
  have B: "B (pstActiveList c) = A (pstActiveList c)" "B (pstTimeoutList c) = A (pstTimeoutList c)"
    using add(5,6) lk by auto
  have "loop_ok ctx ?p B"
    unfolding loop_ok_def using c add(2) links lk slot' B empty by (auto intro!: exI [of _ c])
  moreover have "is_node m' x" if "x = psi \<or> is_node (tm (wd p)) x" for x
    using that lists.same_isnode [OF add(4)] by (auto simp: is_node_def poll_nodes_def)
  ultimately have r1: "cond_ok ctx ?p B (C(link := C link @ [psi]))"
    using K cm(2) by (auto simp: cond_ok_def)
  have r2: "expire_of (tm (wd ?p)) psi = uint now + ms"
    using expire_of_same [OF add(4)] node due by (simp add: expire_of_def)
  have r3: "waiting ctx ?p B = filter (\<lambda>x. expire_of (tm (wd p)) x \<le> uint now + ms) (waiting ctx p A) @ psi #
       filter (\<lambda>x. \<not> expire_of (tm (wd p)) x \<le> uint now + ms) (waiting ctx p A)"
  proof -
    have ea: "expire_of ?m psi = uint now + ms" using node due by (simp add: expire_of_def)
    note ex = poll_nodes_expire [OF inv above(1), where n = 0 and item = item]
    have "wheel_of ctx ?p = t'" using c by (simp add: wheel_of_def)
    then have "waiting ctx ?p B = pending t' B" "waiting ctx p A = pending t A"
      using of_simps by (simp_all add: waiting_def)
    moreover have "filter (\<lambda>y. expire_of ?m y \<le> uint now + ms) (pending t A) = filter (\<lambda>x. expire_of (tm (wd p)) x \<le> uint now + ms) (pending t A)"
      "filter (\<lambda>y. \<not> expire_of ?m y \<le> uint now + ms) (pending t A) = filter (\<lambda>x. \<not> expire_of (tm (wd p)) x \<le> uint now + ms) (pending t A)"
      using ex by (auto intro: filter_cong)
    ultimately show ?thesis using add(7) unfolding ea by simp
  qed
  have r4: "B (active_of ctx p) = A (active_of ctx p)" using B(1) of_simps by simp
  have pay: "payload m' = (payload (tm (wd p)))(psi \<mapsto> (NoPrepare, OnSignalProcess, Some s))"
    unfolding same_data_payload [OF add(4)]
    by (auto simp: payload_def poll_nodes_def item_def cond_item_def zero_item_def fun_eq_iff)
  have r5: "waits_at psi s p ?p"
    using cm(3,4) links pay by (simp add: waits_at_def psi_def)
  have r6: "lists_within [psi] A B"
    using add(6) by (auto simp: lists_within_def linked_def split: if_splits)
  show ?thesis
    by (rule exI [of _ ?p], rule exI [of _ B]) (intro conjI run r1 r2 r4 r3 r5 r6)
qed

lemma timedwait_timeout_success:
  assumes K: "cond_ok ctx p A C" and F: "fresh_conds p" and s: "GetCurrThreadCo (wd p) = Some (Some s)"
    and link: "is_link (conds p) link" and ms: "0 < ms" "ms < 2 ^ 31"
    and clock: "now \<noteq> 0" "ullStart (wheel_of ctx p) \<le> now" "uint now < 2 ^ 61"
      "uint now + ms - uint (ullStart (wheel_start (wheel_of ctx p) now)) < iItemSize (wheel_of ctx p)"
  shows "\<exists>p' A'. co_cond_timedwait_enter now link ms p = Some (Inr (brk (wd p)), p') \<and>
     cond_ok ctx p' A' (C(link := C link @ [brk (wd p)])) \<and> expire_of (tm (wd p')) (brk (wd p)) = uint now + ms \<and>
     A' (active_of ctx p) = A (active_of ctx p) \<and>
     waiting ctx p' A' = filter (\<lambda>x. expire_of (tm (wd p)) x \<le> uint now + ms) (waiting ctx p A) @ brk (wd p) #
       filter (\<lambda>x. \<not> expire_of (tm (wd p)) x \<le> uint now + ms) (waiting ctx p A)"
  using timedwait_timeout_full [OF assms] by (elim exE conjE) (intro exI conjI)

lemma timedwait_too_long:
  assumes K: "cond_ok ctx p A C" and F: "fresh_conds p" and s: "GetCurrThreadCo (wd p) = Some (Some s)"
    and ms: "0 < ms" "ms < 2 ^ 31"
    and clock: "now \<noteq> 0" "ullStart (wheel_of ctx p) \<le> now" "uint now < 2 ^ 61"
      "uint now - uint (ullStart (wheel_of ctx p)) + ms < 2 ^ 31"
      "uint now + ms - uint (ullStart (wheel_start (wheel_of ctx p) now)) \<ge> iItemSize (wheel_of ctx p)"
  shows "\<exists>p'. co_cond_timedwait_enter now link ms p = Some (Inl 478, p') \<and>
     tm (wd p') = tm (wd p) \<and> conds p' = conds p"
proof -
  from K have L: "loop_ok ctx p A" by (auto simp: cond_ok_def)
  from L obtain c t where c: "epolls (wd p) ctx = Some c" "timeouts (wd p) (pTimeout c) = Some t"
     and inv: "wheel_inv t (tm (wd p)) A"
    unfolding loop_ok_def by blast
  have of_simps: "wheel_of ctx p = t" using c by (simp add: wheel_of_def)
  define psi where "psi = brk (wd p)"
  have above: "\<forall>a\<ge>psi. nodes (tm (wd p)) a = None" "\<forall>a\<ge>psi. nodes (conds p) a = None"
    using F by (auto simp: fresh_conds_def psi_def)
  define item where "item = cond_item s (now + word_of_int ms)"
  let ?m = "poll_nodes psi 0 item (tm (wd p))"
  have un: "pLink item = None" by (simp add: item_def cond_item_def zero_item_def)
  note inv' = poll_nodes_wheel(1) [OF inv above(1) un, where n = 0]
  have node: "nodes ?m psi = Some item" by (simp add: poll_nodes_def)
  have "uint (word_of_int ms :: u64) = ms"
    using ms by (simp add: uint_word_of_int)
  then have due: "uint (ullExpireTime item) = uint now + ms"
    using ms clock(3) uint_ge_0 [of now] by (simp add: item_def cond_item_def uint_word_ariths)
  have r: "uint (ullExpireTime item) - uint (ullStart (wheel_start t now)) < 2 ^ 31"
    using due clock of_simps ms by (cases "ullStart t = 0") simp_all
  have "now \<le> ullExpireTime item" using due ms by (simp add: word_le_def)
  then have "AddTimeout t psi now ?m = Some (478, wheel_start t now, ?m)"
    using AddTimeout_error(3) [OF inv' node r] clock due of_simps by simp
  then show ?thesis
    using timedwait_timeout [OF K s ms(1) c, of now link] above
    by (simp add: item_def psi_def poll_nodes_0 Let_def fun_upd_idem)
qed

section \<open>Leaving the wait\<close>

text \<open>The items of the timer lists are allocated; what \<open>free\<close> of a linked one breaks.\<close>

lemma leave_linked_breaks:
  assumes K: "cond_ok ctx p A C" and psi: "is_node (conds p) psi" and x: "psi \<in> set (A lk)"
  shows "\<exists>p'. co_cond_timedwait_leave psi p = Some (0, p') \<and> (\<forall>B. \<not> repr (tm (wd p')) B)"
proof -
  from K have R: "repr (conds p) C" and L: "loop_ok ctx p A" by (auto simp: cond_ok_def)
  then have Rt: "repr (tm (wd p)) A" using loop_ok_active by blast
  obtain cm where cm: "RemoveFromLink psi (conds p) = Some cm"
    using lists.rem_law [OF R psi] by blast
  obtain n where n: "nodes (tm (wd p)) psi = Some n" "pLink n = Some lk"
    using repr_pLink [OF Rt x] by blast
  let ?m = "(tm (wd p))\<lparr>nodes := (nodes (tm (wd p)))(psi := None)\<rparr>"
  have "\<not> repr ?m B" for B
  proof
    assume RB: "repr ?m B"
    obtain l where l: "links (tm (wd p)) lk = Some l" using repr_link_defined [OF Rt x] by blast
    have ok: "list_ok (tm (wd p)) lk (A lk)" using repr_list_ok [OF Rt l] .
    have okB: "list_ok ?m lk (B lk)" using repr_list_ok [OF RB, of lk l] l by simp
    have chain: "xs = ys" if "dseg (nodes (tm (wd p))) lk pr xs None" "dseg (nodes ?m) lk pr ys None"
      "fst_or xs None = fst_or ys None" "distinct xs" "distinct ys" for xs ys pr
      using that
    proof (induction xs arbitrary: ys pr)
      case Nil
      then show ?case by (cases ys) simp_all
    next
      case (Cons a xs)
      then obtain zs where ys: "ys = a # zs" by (cases ys) simp_all
      from Cons.prems ys have "fst_or xs None = fst_or zs None"
        by (auto split: if_splits)
      with Cons ys show ?case by auto
    qed
    have "fst_or (A lk) None = fst_or (B lk) None"
      using ok okB l by (auto simp: list_ok_def)
    with chain [of None "A lk" "B lk"] ok okB have "A lk = B lk" by (simp add: list_ok_def)
    with x have "psi \<in> set (B lk)" by simp
    from repr_pLink [OF RB this] show False by simp
  qed
  then show ?thesis
    using cm n by (auto simp: co_cond_timedwait_leave_def on_conds_def)
qed

lemma leave_unlinked:
  assumes K: "cond_ok ctx p A C" and psi: "is_node (conds p) psi" "is_node (tm (wd p)) psi"
    and un: "\<not> linked A psi"
  shows "\<exists>p'. co_cond_timedwait_leave psi p = Some (0, p') \<and> cond_ok ctx p' A (\<lambda>lk. remove1 psi (C lk)) \<and>
     waiting ctx p' A = waiting ctx p A \<and> nodes (tm (wd p')) psi = None \<and> nodes (conds p') psi = None \<and>
     wd p' = (wd p)\<lparr>tm := tm (wd p')\<rparr> \<and> polls p' = polls p \<and> pitems p' = pitems p \<and> ctls p' = ctls p \<and>
     payload (tm (wd p')) = (payload (tm (wd p)))(psi := None) \<and>
     (\<forall>x. is_node (conds p') x \<longleftrightarrow> x \<noteq> psi \<and> is_node (conds p) x) \<and>
     (\<forall>k. is_link (conds p') k = is_link (conds p) k) \<and> (\<forall>k. is_link (tm (wd p')) k = is_link (tm (wd p)) k)"
proof -
  from K have L: "loop_ok ctx p A" and R: "repr (conds p) C" by (auto simp: cond_ok_def)
  from L obtain c t where c: "epolls (wd p) ctx = Some c" "timeouts (wd p) (pTimeout c) = Some t"
     and inv: "wheel_inv t (tm (wd p)) A"
     and lk: "is_link (tm (wd p)) (pstActiveList c)" "is_link (tm (wd p)) (pstTimeoutList c)"
       "\<not> is_slot t (pstActiveList c)" "\<not> is_slot t (pstTimeoutList c)"
       "pstActiveList c \<noteq> pstTimeoutList c" and empty: "A (pstTimeoutList c) = []"
    unfolding loop_ok_def by blast
  note Rt = wheel_invD(1) [OF inv]
  let ?C = "\<lambda>lk. remove1 psi (C lk)"
  obtain cm where cm: "RemoveFromLink psi (conds p) = Some cm" "repr cm ?C" "same_data (conds p) cm"
    using lists.rem_law [OF R psi(1)] by blast
  let ?cm = "cm\<lparr>nodes := (nodes cm)(psi := None)\<rparr>"
    and ?m = "(tm (wd p))\<lparr>nodes := (nodes (tm (wd p)))(psi := None)\<rparr>"
  have notC: "psi \<notin> set (?C k)" for k using repr_distinct [OF R] by simp
  have notA: "psi \<notin> set (A k)" for k using un by (simp add: linked_def)
  have Rc: "repr ?cm ?C"
  proof (rule repr_nodes_change [OF cm(2)])
    fix k x n assume "x \<in> set (?C k)" "nodes cm x = Some n"
    then show "\<exists>n'. nodes ?cm x = Some n' \<and> pPrev n' = pPrev n \<and> pNext n' = pNext n \<and> pLink n' = pLink n"
      using notC by (auto simp del: in_set_remove1)
  next
    fix x n k assume "nodes ?cm x = Some n" "pLink n = Some k"
    then have "nodes cm x = Some n" "pLink n = Some k" by (auto split: if_splits)
    then show "x \<in> set (?C k)" using cm(2) by (auto simp: repr_def)
  qed simp
  have Rm: "repr ?m A"
  proof (rule repr_nodes_change [OF Rt])
    fix k x n assume "x \<in> set (A k)" "nodes (tm (wd p)) x = Some n"
    then show "\<exists>n'. nodes ?m x = Some n' \<and> pPrev n' = pPrev n \<and> pNext n' = pNext n \<and> pLink n' = pLink n"
      using notA by auto
  next
    fix x n k assume "nodes ?m x = Some n" "pLink n = Some k"
    then have "nodes (tm (wd p)) x = Some n" "pLink n = Some k" by (auto split: if_splits)
    then show "x \<in> set (A k)" using Rt by (auto simp: repr_def)
  qed simp
  have ex: "expire_of ?m x = expire_of (tm (wd p)) x" if "x \<in> set (A k)" for k x
    using that notA by (auto simp: expire_of_def)
  have lks: "is_link ?m k = is_link (tm (wd p)) k" for k by (simp add: is_link_def)
  have inv': "wheel_inv t ?m A" using wheel_filter(1) [OF inv Rm ex lks, where P = "\<lambda>_. True"] by simp
  let ?p = "p\<lparr>conds := ?cm, wd := (wd p)\<lparr>tm := ?m\<rparr>\<rparr>"
  have "loop_ok ctx ?p A"
    unfolding loop_ok_def using c inv' lk lks empty by (auto intro!: exI [of _ c])
  moreover have "is_node ?m x" if "x \<in> set (?C k)" for x k
  proof -
    have "x \<noteq> psi" using notC that by metis
    moreover have "x \<in> set (C k)" using that by (meson notin_set_remove1)
    ultimately show ?thesis using cond_ok_node [OF K refl] by (auto simp: is_node_def)
  qed
  ultimately have "cond_ok ctx ?p A ?C"
    using K Rc by (simp add: cond_ok_def)
  moreover have "waiting ctx ?p A = waiting ctx p A" by (simp add: waiting_def wheel_of_def)
  moreover have "co_cond_timedwait_leave psi p = Some (0, ?p)"
    using cm(1) psi(2) by (auto simp: co_cond_timedwait_leave_def on_conds_def is_node_def)
  moreover have "payload ?m = (payload (tm (wd p)))(psi := None)" by (simp add: payload_def fun_eq_iff)
  moreover have "is_node ?cm x \<longleftrightarrow> x \<noteq> psi \<and> is_node (conds p) x" "is_link ?cm k = is_link (conds p) k" for x k
    using lists.same_isnode [OF cm(3)] lists.same_islink [OF cm(3)] by (auto simp: is_node_def is_link_def)
  ultimately show ?thesis using lks by (intro exI [of _ ?p]) simp
qed


section \<open>The properties of the condition variables\<close>

definition demo_waiters :: "addr \<Rightarrow> addr list" where
  "demo_waiters = (\<lambda>k. if k = 50 then [7, 6] else [])"

lemma demo_cond_ok: "cond_ok 302 demo_loop demo_lists demo_waiters"
proof -
  have "repr (conds demo_loop) demo_waiters"
    by (auto simp: demo_loop_def repr_def list_ok_def demo_waiters_def split: if_splits)
  moreover have "curr_epoll (wd demo_loop) = epolls (wd demo_loop) 302"
    by (simp add: demo_loop_def curr_epoll_def co_get_curr_thread_env_def)
  moreover have "\<forall>si. \<forall>x\<in>set (demo_waiters si). is_node (tm (wd demo_loop)) x"
    by (simp add: demo_waiters_def demo_loop_def demo_tmem_def is_node_def)
  ultimately show ?thesis using demo_loop_ok by (simp add: cond_ok_def)
qed

lemma demo_cond_link: "is_link (conds demo_loop) 50"
  by (simp add: demo_loop_def is_link_def)

lemma demo_fresh_conds: "fresh_conds demo_loop"
  by (simp add: fresh_conds_def demo_loop_def demo_tmem_def)

text \<open>
  C20: \<open>co_cond_signal\<close> returns 0, takes the waiter that has waited longest, if any, off the condition
  variable, cancels its timeout or takes it from wherever the timer has put it, and queues it at the end of
  the active list; the other waiters and the other items stay as they are.
\<close>

theorem co_cond_signal_wakes_first:
  assumes "cond_ok ctx p A C" "is_link (conds p) si"
  shows "\<exists>p'. co_cond_signal si p = Some (0, p') \<and> active_of ctx p' = active_of ctx p \<and>
     cond_ok ctx p' (moved (active_of ctx p) (take 1 (C si)) A) (C(si := drop 1 (C si))) \<and>
     same_data (tm (wd p)) (tm (wd p')) \<and> same_data (conds p) (conds p') \<and>
     waiting ctx p' (moved (active_of ctx p) (take 1 (C si)) A) =
       filter (\<lambda>y. y \<notin> set (take 1 (C si))) (waiting ctx p A)"
  using assms by (rule co_cond_signal_lemma)

theorem co_cond_signal_wakes_first_witness:
  "\<exists>p'. co_cond_signal 50 demo_loop = Some (0, p') \<and> active_of 302 p' = active_of 302 demo_loop \<and>
     cond_ok 302 p' (moved (active_of 302 demo_loop) (take 1 (demo_waiters 50)) demo_lists)
       (demo_waiters(50 := drop 1 (demo_waiters 50))) \<and>
     same_data (tm (wd demo_loop)) (tm (wd p')) \<and> same_data (conds demo_loop) (conds p') \<and>
     waiting 302 p' (moved (active_of 302 demo_loop) (take 1 (demo_waiters 50)) demo_lists) =
       filter (\<lambda>y. y \<notin> set (take 1 (demo_waiters 50))) (waiting 302 demo_loop demo_lists)"
  by (rule co_cond_signal_wakes_first [OF demo_cond_ok demo_cond_link])

text \<open>
  C21: \<open>co_cond_broadcast\<close> terminates, returns 0, empties the condition variable, cancels the timeouts
  of all its waiters and queues them at the end of the active list in the order in which they came.
\<close>

theorem co_cond_broadcast_wakes_all:
  assumes "cond_ok ctx p A C" "is_link (conds p) si"
  shows "\<exists>p'. co_cond_broadcast si p = Some (0, p') \<and> active_of ctx p' = active_of ctx p \<and>
     cond_ok ctx p' (moved (active_of ctx p) (C si) A) (C(si := [])) \<and>
     same_data (tm (wd p)) (tm (wd p')) \<and> same_data (conds p) (conds p') \<and>
     waiting ctx p' (moved (active_of ctx p) (C si) A) = filter (\<lambda>y. y \<notin> set (C si)) (waiting ctx p A)"
  using assms by (rule co_cond_broadcast_lemma)

theorem co_cond_broadcast_wakes_all_witness:
  "\<exists>p'. co_cond_broadcast 50 demo_loop = Some (0, p') \<and> active_of 302 p' = active_of 302 demo_loop \<and>
     cond_ok 302 p' (moved (active_of 302 demo_loop) (demo_waiters 50) demo_lists) (demo_waiters(50 := [])) \<and>
     same_data (tm (wd demo_loop)) (tm (wd p')) \<and> same_data (conds demo_loop) (conds p') \<and>
     waiting 302 p' (moved (active_of 302 demo_loop) (demo_waiters 50) demo_lists) =
       filter (\<lambda>y. y \<notin> set (demo_waiters 50)) (waiting 302 demo_loop demo_lists)"
  by (rule co_cond_broadcast_wakes_all [OF demo_cond_ok demo_cond_link])

text \<open>
  \<open>co_cond_timedwait\<close> with a positive timeout that fits the wheel queues a new waiter for the current
  coroutine behind the other waiters, and its timeout among the waiting items by its expiry time.
\<close>

theorem co_cond_timedwait_queues:
  assumes "cond_ok ctx p A C" "fresh_conds p" "GetCurrThreadCo (wd p) = Some (Some s)"
    and "is_link (conds p) link" "0 < ms" "ms < 2 ^ 31"
    and "now \<noteq> 0" "ullStart (wheel_of ctx p) \<le> now" "uint now < 2 ^ 61"
      "uint now + ms - uint (ullStart (wheel_start (wheel_of ctx p) now)) < iItemSize (wheel_of ctx p)"
  shows "\<exists>p' A'. co_cond_timedwait_enter now link ms p = Some (Inr (brk (wd p)), p') \<and>
     cond_ok ctx p' A' (C(link := C link @ [brk (wd p)])) \<and>
     expire_of (tm (wd p')) (brk (wd p)) = uint now + ms \<and>
     A' (active_of ctx p) = A (active_of ctx p) \<and>
     waiting ctx p' A' = filter (\<lambda>x. expire_of (tm (wd p)) x \<le> uint now + ms) (waiting ctx p A) @ brk (wd p) #
       filter (\<lambda>x. \<not> expire_of (tm (wd p)) x \<le> uint now + ms) (waiting ctx p A)"
  using assms by (rule timedwait_timeout_success)

theorem co_cond_timedwait_queues_witness:
  "\<exists>p' A'. co_cond_timedwait_enter 1000 50 2 demo_loop = Some (Inr (brk (wd demo_loop)), p') \<and>
     cond_ok 302 p' A' (demo_waiters(50 := demo_waiters 50 @ [brk (wd demo_loop)])) \<and>
     expire_of (tm (wd p')) (brk (wd demo_loop)) = uint (1000 :: u64) + 2 \<and>
     A' (active_of 302 demo_loop) = demo_lists (active_of 302 demo_loop) \<and>
     waiting 302 p' A' = filter (\<lambda>x. expire_of (tm (wd demo_loop)) x \<le> uint (1000 :: u64) + 2)
         (waiting 302 demo_loop demo_lists) @ brk (wd demo_loop) #
       filter (\<lambda>x. \<not> expire_of (tm (wd demo_loop)) x \<le> uint (1000 :: u64) + 2) (waiting 302 demo_loop demo_lists)"
  by (rule co_cond_timedwait_queues [OF demo_cond_ok demo_fresh_conds _ demo_cond_link])
    (simp_all add: wheel_start_def)

text \<open>
  a timeout that does not fit the wheel (with the wheel of \<open>AllocEpoll\<close>, 60 seconds or more after
  its start) makes \<open>co_cond_timedwait\<close> return 478, the line of the check in \<open>AddTimeout\<close>, at once:
  the coroutine has not waited, and no list has changed.
\<close>

theorem co_cond_timedwait_too_long:
  assumes "cond_ok ctx p A C" "fresh_conds p" "GetCurrThreadCo (wd p) = Some (Some s)"
    and "0 < ms" "ms < 2 ^ 31"
    and "now \<noteq> 0" "ullStart (wheel_of ctx p) \<le> now" "uint now < 2 ^ 61"
      "uint now - uint (ullStart (wheel_of ctx p)) + ms < 2 ^ 31"
      "uint now + ms - uint (ullStart (wheel_start (wheel_of ctx p) now)) \<ge> iItemSize (wheel_of ctx p)"
  shows "\<exists>p'. co_cond_timedwait_enter now link ms p = Some (Inl 478, p') \<and>
     tm (wd p') = tm (wd p) \<and> conds p' = conds p"
  using assms by (rule timedwait_too_long)

theorem co_cond_timedwait_too_long_witness:
  "\<exists>p'. co_cond_timedwait_enter 1000 50 4 demo_loop = Some (Inl 478, p') \<and>
     tm (wd p') = tm (wd demo_loop) \<and> conds p' = conds demo_loop"
  by (rule co_cond_timedwait_too_long [OF demo_cond_ok demo_fresh_conds])
    (simp_all add: wheel_start_def)

text \<open>
  the end of \<open>co_cond_timedwait\<close> frees its waiter without taking its timeout off the timer's lists.
  When the event loop or a signal has resumed the coroutine the item is on no list and all lists stay
  well-formed; when something else has resumed it while the timeout still waits, a list of the timer
  keeps a pointer to freed memory: no assignment of lists describes the heap any more.
\<close>

theorem co_cond_timedwait_leave_cases:
  assumes "cond_ok ctx p A C" "is_node (conds p) psi" "is_node (tm (wd p)) psi"
  shows "\<exists>p'. co_cond_timedwait_leave psi p = Some (0, p') \<and>
     (if linked A psi then \<forall>B. \<not> repr (tm (wd p')) B
      else cond_ok ctx p' A (\<lambda>lk. remove1 psi (C lk)) \<and> waiting ctx p' A = waiting ctx p A \<and>
        nodes (tm (wd p')) psi = None \<and> nodes (conds p') psi = None)"
proof (cases "linked A psi")
  case True
  then obtain lk where "psi \<in> set (A lk)" by (auto simp: linked_def)
  from leave_linked_breaks [OF assms(1,2) this] True show ?thesis by simp
next
  case False
  with leave_unlinked [OF assms False] show ?thesis by auto
qed

theorem co_cond_timedwait_leave_cases_witness:
  "\<exists>p'. co_cond_timedwait_leave 6 demo_loop = Some (0, p') \<and>
     (if linked demo_lists 6 then \<forall>B. \<not> repr (tm (wd p')) B
      else cond_ok 302 p' demo_lists (\<lambda>lk. remove1 6 (demo_waiters lk)) \<and>
        waiting 302 p' demo_lists = waiting 302 demo_loop demo_lists \<and>
        nodes (tm (wd p')) 6 = None \<and> nodes (conds p') 6 = None)"
  by (rule co_cond_timedwait_leave_cases [OF demo_cond_ok])
    (simp_all add: is_node_def demo_loop_def demo_tmem_def)

end
