(* ===== verification/System.thy ===== *)
theory System
  imports PollRound Cond
begin

text \<open>
  The event system of a thread as a whole: threads, \<open>co_poll\<close>, condition variables and the event loop as the
  steps of one transition relation, from \<open>co_init_curr_thread_env\<close> on.
\<close>

section \<open>Waiters\<close>

text \<open>
  A coroutine that has given up the control in \<open>co_poll\<close> or \<open>co_cond_timedwait\<close>, by the address of its
  \<open>stPoll_t\<close> or \<open>stCoCondItem_t\<close>: which coroutine it is, and the caller's array for a poll. It is what the
  frame of the suspended call holds.
\<close>

datatype waiter = PollWaiter addr "pollfd list" | CondWaiter addr

type_synonym waiters = "addr \<rightharpoonup> waiter"

primrec waiter_co :: "waiter \<Rightarrow> addr" where
  "waiter_co (PollWaiter s u) = s"
| "waiter_co (CondWaiter s) = s"

text \<open>The items of a poll follow it: the address of the last object of the waiter, relative to the first.\<close>

primrec waiter_width :: "waiter \<Rightarrow> nat" where
  "waiter_width (PollWaiter s u) = length u"
| "waiter_width (CondWaiter s) = 0"

definition waiting_cos :: "waiters \<Rightarrow> addr set" where
  "waiting_cos W = waiter_co ` ran W"

text \<open>
  What the kernel may report after the calls \<open>cs\<close> of \<open>epoll_ctl\<close>, the latest first: a descriptor with
  the pointer it was added with. An \<open>EPOLL_CTL_DEL\<close> forgets the descriptor. (The kernel may report
  less: \<open>EPOLL_CTL_ADD\<close> can fail.)
\<close>

fun may_report :: "ctl_call list \<Rightarrow> (int \<times> addr) set" where
  "may_report [] = {}"
| "may_report (Ctl EPOLL_CTL_DEL epfd fd ev # cs) = may_report cs - {fd} \<times> UNIV"
| "may_report (Ctl op epfd fd ev # cs) = may_report cs \<union> {fd} \<times> set_option (ev_ptr ev)"

definition reportable :: "proc \<Rightarrow> epoll_event \<Rightarrow> bool" where
  "reportable p e \<longleftrightarrow> (\<exists>a fd. ev_ptr e = Some a \<and> (fd, a) \<in> may_report (ctls p))"

section \<open>Steps\<close>

text \<open>A time the thread may read, and a timeout of \<open>ms\<close> milliseconds that fits the wheel then.\<close>

definition clock_ok :: "addr \<Rightarrow> proc \<Rightarrow> u64 \<Rightarrow> bool" where
  "clock_ok ctx p now \<longleftrightarrow> now \<noteq> 0 \<and> ullStart (wheel_of ctx p) \<le> now \<and> uint now < 2 ^ 61"

definition fits_wheel :: "addr \<Rightarrow> proc \<Rightarrow> u64 \<Rightarrow> int \<Rightarrow> bool" where
  "fits_wheel ctx p now ms \<longleftrightarrow>
     uint now + ms - uint (ullStart (wheel_start (wheel_of ctx p) now)) < iItemSize (wheel_of ctx p)"

text \<open>The rest of the call of a waiter, once its coroutine runs again.\<close>

definition finish_wait :: "kernel_ctl \<Rightarrow> addr \<Rightarrow> addr \<Rightarrow> waiter \<Rightarrow> proc \<Rightarrow> proc option" where
  "finish_wait ctl ctx x v p = (case v of
     PollWaiter s u \<Rightarrow> map_option (\<lambda>(_, _, q). q) (co_poll_leave ctl (iEpollFd (the (epolls (wd p) ctx))) x u p)
   | CondWaiter s \<Rightarrow> map_option snd (co_cond_timedwait_leave x p))"

text \<open>The first item of the active list, as the loop over that list takes it.\<close>

definition first_active :: "addr \<Rightarrow> proc \<Rightarrow> ptr" where
  "first_active ctx p = do { l \<leftarrow> links (tm (wd p)) (active_of ctx p); head l }"

text \<open>
  \<open>poll\<close> and \<open>wait\<close> are calls down to the yield, of the running coroutine; \<open>turn\<close> is one
  turn of the loop over the active list with the rest of the call of the coroutine it resumes; \<open>thread\<close> is
  any step of the thread that leaves the waiting coroutines alone (see \<open>away_step\<close>).
\<close>

inductive sys_step :: "kernel_ctl \<Rightarrow> addr \<Rightarrow> addr \<Rightarrow> proc \<times> waiters \<Rightarrow> proc \<times> waiters \<Rightarrow> bool" for ctl env ctx where
  poll: "2 \<le> length (thread_calls env (wd p)) \<Longrightarrow> frame_ok fr (running env (wd p)) (wd p) \<Longrightarrow>
    clock_ok ctx p now \<Longrightarrow> 0 \<le> timeout \<Longrightarrow> fits_wheel ctx p now (clamp_timeout timeout) \<Longrightarrow>
    \<not> (length ufds = 1 \<and> hasf) \<Longrightarrow>
    co_poll_enter ctl now ctx ufds timeout hasf p = Some (PollYield arg, q) \<Longrightarrow>
    co_yield_env fr env (wd q) = Some w \<Longrightarrow>
    sys_step ctl env ctx (p, W) (q\<lparr>wd := w\<rparr>, W(arg \<mapsto> PollWaiter (running env (wd p)) ufds))"
| wait: "2 \<le> length (thread_calls env (wd p)) \<Longrightarrow> frame_ok fr (running env (wd p)) (wd p) \<Longrightarrow>
    is_link (conds p) link \<Longrightarrow>
    ms \<le> 0 \<or> clock_ok ctx p now \<and> ms < 2 ^ 31 \<and> fits_wheel ctx p now ms \<Longrightarrow>
    co_cond_timedwait_enter now link ms p = Some (Inr psi, q) \<Longrightarrow>
    co_yield_ct fr (wd q) = Some w \<Longrightarrow>
    sys_step ctl env ctx (p, W) (q\<lparr>wd := w\<rparr>, W(psi \<mapsto> CondWaiter (running env (wd p))))"
| signal: "is_link (conds p) si \<Longrightarrow> co_cond_signal si p = Some (ret, q) \<Longrightarrow> sys_step ctl env ctx (p, W) (q, W)"
| broadcast: "is_link (conds p) si \<Longrightarrow> co_cond_broadcast si p = Some (ret, q) \<Longrightarrow> sys_step ctl env ctx (p, W) (q, W)"
| cond_alloc: "co_cond_alloc p = (cc, q) \<Longrightarrow> sys_step ctl env ctx (p, W) (q, W)"
| collect: "clock_ok ctx p now \<Longrightarrow>
    ullStart (wheel_of ctx p) = 0 \<or> uint now - uint (ullStart (wheel_of ctx p)) < 2 ^ 31 - 1 \<Longrightarrow>
    \<forall>e \<in> set evs. reportable p e \<Longrightarrow> loop_collect ctx evs now p = Some q \<Longrightarrow> sys_step ctl env ctx (p, W) (q, W)"
| turn: "length (thread_calls env (wd p)) < 128 \<Longrightarrow> frame_ok fr (running env (wd p)) (wd p) \<Longrightarrow>
    first_active ctx p = Some x \<Longrightarrow> W x = Some v \<Longrightarrow>
    serve (process_item fr (\<lambda>co. finish_wait ctl ctx x v)) (active_of ctx p) x p = Some q \<Longrightarrow>
    sys_step ctl env ctx (p, W) (q, W(x := None))"
| thread: "thread_step env (wd p) w \<Longrightarrow> \<forall>c \<in> waiting_cos W. away_step env c (wd p) w \<Longrightarrow>
    sys_step ctl env ctx (p, W) (p\<lparr>wd := w\<rparr>, W)"

section \<open>The invariant\<close>

text \<open>The objects of a waiter are as the call set them up.\<close>

definition waiter_ok :: "proc \<Rightarrow> addr \<Rightarrow> waiter \<Rightarrow> bool" where
  "waiter_ok p x v \<longleftrightarrow> (case v of
     PollWaiter s u \<Rightarrow> payload (tm (wd p)) x = Some (NoPrepare, OnPollProcess, Some s) \<and>
       (\<exists>pl. polls p x = Some pl \<and> length (fds pl) = length u \<and> pPollItems pl = x + 1) \<and>
       (\<forall>j < length u. payload (tm (wd p)) (x + 1 + j) = Some (OnPollPrepare, NoProcess, None) \<and>
          pitems p (x + 1 + j) = Some (registered_item x (x + 1) j (u ! j)
            \<lparr>pSelf = 0, pPoll = None, stEvent = \<lparr>ev_events = 0, ev_ptr = None\<rparr>\<rparr>))
   | CondWaiter s \<Rightarrow> payload (tm (wd p)) x = Some (NoPrepare, OnSignalProcess, Some s) \<and> is_node (conds p) x)"

definition waiter_span :: "addr \<Rightarrow> waiter \<Rightarrow> addr set" where
  "waiter_span x v = {x..x + waiter_width v}"

definition spans_ok :: "addr \<Rightarrow> waiters \<Rightarrow> bool" where
  "spans_ok b W \<longleftrightarrow> (\<forall>x v. W x = Some v \<longrightarrow> x + waiter_width v < b) \<and>
     (\<forall>x y v u. W x = Some v \<longrightarrow> W y = Some u \<longrightarrow> x \<noteq> y \<longrightarrow> waiter_span x v \<inter> waiter_span y u = {})"

text \<open>Every waiter is queued where it can be found, and nothing else is queued.\<close>

definition queued :: "addr \<Rightarrow> proc \<Rightarrow> (addr \<Rightarrow> addr list) \<Rightarrow> addr set" where
  "queued ctx p A = set (A (active_of ctx p)) \<union> set (waiting ctx p A)"

definition queues_ok :: "addr \<Rightarrow> proc \<Rightarrow> (addr \<Rightarrow> addr list) \<Rightarrow> (addr \<Rightarrow> addr list) \<Rightarrow> waiters \<Rightarrow> bool" where
  "queues_ok ctx p A C W \<longleftrightarrow>
     (\<forall>x v. W x = Some v \<longrightarrow> x \<in> queued ctx p A \<or> (\<exists>s. v = CondWaiter s) \<and> linked C x) \<and>
     (\<forall>x. linked A x \<longrightarrow> W x \<noteq> None) \<and> (\<forall>x. linked C x \<longrightarrow> (\<exists>s. W x = Some (CondWaiter s)))"

text \<open>The coroutine of a waiter is alive and off the call stack, and waits once.\<close>

definition parked :: "addr \<Rightarrow> world \<Rightarrow> waiters \<Rightarrow> bool" where
  "parked env w W \<longleftrightarrow>
     (\<forall>x v. W x = Some v \<longrightarrow> waiter_co v \<notin> set (thread_calls env w) \<and> (\<exists>r. cos w (waiter_co v) = Some r \<and> \<not> cEnd r)) \<and>
     (\<forall>x y v u. W x = Some v \<longrightarrow> W y = Some u \<longrightarrow> waiter_co v = waiter_co u \<longrightarrow> x = y)"

definition registrations :: "waiters \<Rightarrow> (int \<times> addr) set" where
  "registrations W = {(pfd (u ! j), x + 1 + j) | x s u j. W x = Some (PollWaiter s u) \<and> j < length u \<and> - 1 < pfd (u ! j)}"

definition objs_ok :: "addr \<Rightarrow> proc \<Rightarrow> (addr \<Rightarrow> addr list) \<Rightarrow> (addr \<Rightarrow> addr list) \<Rightarrow> waiters \<Rightarrow> bool" where
  "objs_ok ctx p A C W \<longleftrightarrow> cond_ok ctx p A C \<and> fresh_above p \<and> fresh_conds p \<and>
     (\<forall>a \<ge> brk (wd p). links (conds p) a = None) \<and>
     (\<forall>x v. W x = Some v \<longrightarrow> waiter_ok p x v) \<and> spans_ok (brk (wd p)) W \<and>
     may_report (ctls p) \<subseteq> registrations W"

text \<open>A poll that has had an event is on the active list: \<open>OnPollPreparePfn\<close> puts it there at the first event only.\<close>

definition woken_ok :: "addr \<Rightarrow> proc \<Rightarrow> (addr \<Rightarrow> addr list) \<Rightarrow> waiters \<Rightarrow> bool" where
  "woken_ok ctx p A W \<longleftrightarrow> (\<forall>x. W x \<noteq> None \<longrightarrow> x \<in> detached p \<longrightarrow> x \<in> set (A (active_of ctx p)))"

definition rest_ok :: "addr \<Rightarrow> proc \<Rightarrow> (addr \<Rightarrow> addr list) \<Rightarrow> (addr \<Rightarrow> addr list) \<Rightarrow> waiters \<Rightarrow> bool" where
  "rest_ok ctx p A C W \<longleftrightarrow> objs_ok ctx p A C W \<and> queues_ok ctx p A C W \<and> woken_ok ctx p A W"

definition sys_ok :: "addr \<Rightarrow> addr \<Rightarrow> proc \<times> waiters \<Rightarrow> bool" where
  "sys_ok env ctx s \<longleftrightarrow> thread_inv env (wd (fst s)) \<and> parked env (wd (fst s)) (snd s) \<and>
     (\<exists>A C. rest_ok ctx (fst s) A C (snd s))"

section \<open>Steps of the thread\<close>

definition quiet :: "world \<Rightarrow> world \<Rightarrow> bool" where
  "quiet w w' \<longleftrightarrow> tm w' = tm w \<and> timeouts w' = timeouts w \<and> epolls w' = epolls w \<and>
     tid w' = tid w \<and> g_arrCoEnvPerThread w' = g_arrCoEnvPerThread w \<and> brk w \<le> brk w' \<and>
     (\<forall>x. map_option pEpoll (envs w' x) = map_option pEpoll (envs w x))"

lemma quiet_refl [simp]: "quiet w w"
  by (simp add: quiet_def)

lemma quiet_trans: "quiet a b \<Longrightarrow> quiet b c \<Longrightarrow> quiet a c"
  by (simp add: quiet_def)

lemma kept_quiet: "kept w w' \<Longrightarrow> quiet w w'"
  by (simp add: kept_def quiet_def)

lemma quiet_epoll: "quiet w w' \<Longrightarrow> curr_epoll w' = curr_epoll w"
  unfolding quiet_def
proof (elim conjE)
  assume e: "\<forall>x. map_option pEpoll (envs w' x) = map_option pEpoll (envs w x)"
    and s: "epolls w' = epolls w" "tid w' = tid w" "g_arrCoEnvPerThread w' = g_arrCoEnvPerThread w"
  have "Option.bind (envs w' x) (\<lambda>en. Option.bind (pEpoll en) (epolls w)) =
      Option.bind (envs w x) (\<lambda>en. Option.bind (pEpoll en) (epolls w))" for x
    using e [rule_format, of x] by (cases "envs w x"; cases "envs w' x") auto
  then show "curr_epoll w' = curr_epoll w"
    by (simp add: curr_epoll_def co_get_curr_thread_env_def s)
qed

lemma queued_quiet: "quiet (wd p) w \<Longrightarrow> queued ctx (p\<lparr>wd := w\<rparr>) A = queued ctx p A"
  using loop_cong [of "p\<lparr>wd := w\<rparr>" p] by (simp add: quiet_def queued_def)

lemma objs_quiet:
  assumes "objs_ok ctx p A C W" "quiet (wd p) w"
  shows "objs_ok ctx (p\<lparr>wd := w\<rparr>) A C W"
proof -
  have s: "tm w = tm (wd p)" "timeouts w = timeouts (wd p)" "epolls w = epolls (wd p)" "brk (wd p) \<le> brk w"
    using assms(2) by (simp_all add: quiet_def)
  let ?p = "p\<lparr>wd := w\<rparr>"
  have c: "loop_ok ctx ?p A = loop_ok ctx p A" using loop_cong [of ?p p] s by simp
  have w: "waiter_ok ?p x v = waiter_ok p x v" for x v
    by (cases v) (simp_all add: waiter_ok_def s)
  have "spans_ok (brk w) W" if "spans_ok (brk (wd p)) W"
    using that s(4) unfolding spans_ok_def by (meson order_less_le_trans)
  then show ?thesis
    using assms(1) s quiet_epoll [OF assms(2)] c
    by (simp add: objs_ok_def cond_ok_def fresh_above_def fresh_conds_def w)
qed

lemma rest_quiet: "rest_ok ctx p A C W \<Longrightarrow> quiet (wd p) w \<Longrightarrow> rest_ok ctx (p\<lparr>wd := w\<rparr>) A C W"
  using loop_cong(2) [of "p\<lparr>wd := w\<rparr>" p ctx]
  by (simp add: rest_ok_def queues_ok_def objs_quiet queued_quiet woken_ok_def detached_def quiet_def)

lemma quiet_alloc: "co_alloc_stackmem sz w = (q, w') \<Longrightarrow> quiet w w' \<and> cos w' = cos w"
  by (auto simp: co_alloc_stackmem_def malloc_def quiet_def Let_def)

lemma quiet_create:
  assumes "co_create_env env attr pfn arg w = Some (lp, w')"
  shows "quiet w w'" "\<forall>c. c \<noteq> lp \<longrightarrow> cos w' c = cos w c" "lp = brk w"
proof -
  define spec where "spec = replicate 1024 (0 :: u64)"
  show "quiet w w'" "\<forall>c. c \<noteq> lp \<longrightarrow> cos w' c = cos w c" "lp = brk w"
    using assms unfolding co_create_env_def spec_def [symmetric]
    by (auto simp: malloc_def quiet_def Let_def bind_eq_Some_conv co_get_stackmem_def
      co_alloc_stackmem_def split: option.splits prod.splits if_split_asm)
qed

lemma quiet_alloc_stacks: "alloc_stacks n sz w = (ps, w') \<Longrightarrow> quiet w w' \<and> cos w' = cos w"
proof (induction n arbitrary: ps w')
  case (Suc n)
  obtain qs w1 where 1: "alloc_stacks n sz w = (qs, w1)" by fastforce
  then obtain q where "co_alloc_stackmem sz w1 = (q, w')"
    using Suc.prems by (auto simp: Let_def split: prod.splits)
  then show ?case using Suc.IH [OF 1] quiet_alloc quiet_trans by metis
qed simp

lemma quiet_sharestack:
  assumes "co_alloc_sharestack cnt sz w = (p, w')"
  shows "quiet w w' \<and> cos w' = cos w"
proof -
  obtain ps w1 where 1: "alloc_stacks (nat cnt) (word_of_int sz) (w\<lparr>brk := brk w + 1\<rparr>) = (ps, w1)" by fastforce
  have "quiet w (w\<lparr>brk := brk w + 1\<rparr>)" by (simp add: quiet_def)
  then show ?thesis
    using assms 1 quiet_alloc_stacks [OF 1] by (auto simp: co_alloc_sharestack_def malloc_def Let_def quiet_def)
qed

lemma quiet_end:
  assumes "CoRoutineFunc_end fr co w = Some w'"
  shows "quiet w w'" "\<forall>c r. c \<noteq> co \<longrightarrow> cos w c = Some r \<longrightarrow> (\<exists>r'. cos w' c = Some r' \<and> cEnd r' = cEnd r)"
proof -
  obtain w1 c where w1: "set_co (cEnd_update (\<lambda>_. True)) co w = Some w1" "cos w1 co = Some c"
    and y: "co_yield_env fr (co_env c) w1 = Some w'"
    using assms unfolding CoRoutineFunc_end_def bind_eq_Some_conv by (elim exE conjE) (rule that)
  have q: "quiet w w1" and c: "\<And>c. c \<noteq> co \<Longrightarrow> cos w1 c = cos w c" using w1 by (auto simp: set_co_def quiet_def)
  show "quiet w w'" by (rule quiet_trans [OF q kept_quiet [OF kept_yield [OF y]]])
  show "\<forall>c r. c \<noteq> co \<longrightarrow> cos w c = Some r \<longrightarrow> (\<exists>r'. cos w' c = Some r' \<and> cEnd r' = cEnd r)"
    using c kept_alive [OF kept_yield [OF y]] by auto
qed

lemma quiet_free: "co_free co w = Some w' \<Longrightarrow> quiet w w' \<and> (\<forall>c. c \<noteq> co \<longrightarrow> cos w' c = cos w c)"
  by (auto simp: co_free_def quiet_def bind_eq_Some_conv split: if_splits)

text \<open>What a step of the thread does to a coroutine that stays suspended.\<close>

lemma thread_step_quiet:
  assumes inv: "thread_inv env w" and st: "thread_step env w w'"
  shows "quiet w w'"
    "\<And>c r. cos w c = Some r \<Longrightarrow> c \<noteq> running env w \<Longrightarrow> cos w' c \<noteq> None \<Longrightarrow>
      \<exists>r'. cos w' c = Some r' \<and> cEnd r' = cEnd r"
    "set (thread_calls env w') \<subseteq> insert (running env w') (set (thread_calls env w))"
proof -
  have "quiet w w' \<and> (\<forall>c r. cos w c = Some r \<longrightarrow> c \<noteq> running env w \<longrightarrow> cos w' c \<noteq> None \<longrightarrow>
      (\<exists>r'. cos w' c = Some r' \<and> cEnd r' = cEnd r)) \<and>
      set (thread_calls env w') \<subseteq> insert (running env w') (set (thread_calls env w))"
    using st
  proof (cases rule: thread_step.cases)
    case (switch fr)
    from switch show ?thesis
    proof (cases rule: switch_step.cases)
      case (resume co r)
      obtain w2 where "co_resume fr co w = Some w2" "thread_calls env w2 = thread_calls env w @ [co]"
        using resume_ok [OF inv resume(1-5)] by blast
      then have "thread_calls env w' = thread_calls env w @ [co]" using resume(6) by simp
      then show ?thesis using kept_resume [OF resume(6)] kept_quiet kept_alive by (auto simp: running_def)
    next
      case yield
      obtain w2 where "co_yield_env fr env w = Some w2" "thread_calls env w2 = butlast (thread_calls env w)"
        using yield_core [OF inv yield(1,2), of False] with_end_same(1) [OF inv] by auto
      then have "thread_calls env w' = butlast (thread_calls env w)" using yield(3) by simp
      then show ?thesis using kept_yield [OF yield(3)] kept_quiet kept_alive by (auto dest: in_set_butlastD)
    next
      case finish
      obtain w2 where "CoRoutineFunc_end fr (running env w) w = Some w2" "thread_calls env w2 = butlast (thread_calls env w)"
        using yield_core [OF inv finish(1,2), of True] with_end_same(2) [OF inv] by auto
      then have "thread_calls env w' = butlast (thread_calls env w)" using finish(3) by simp
      then show ?thesis using quiet_end [OF finish(3)] by (auto dest: in_set_butlastD)
    qed
  next
    case (poke m)
    then show ?thesis by (auto simp: quiet_def thread_calls_def)
  next
    case (create attr pfn arg lp)
    obtain lp2 w2 where C: "co_create_env env attr pfn arg w = Some (lp2, w2)" "thread_calls env w2 = thread_calls env w"
      using create_ok [OF inv create(1)] by metis
    have "cos w lp = None" using inv heap_okD quiet_create(3) [OF create(2)] by (fastforce elim: thread_invD)
    then have "cos w' c = cos w c" if "cos w c = Some r" for c r
      using that quiet_create(2) [OF create(2)] by (cases "c = lp") auto
    moreover have "w2 = w'" using C(1) create(2) by simp
    ultimately show ?thesis using C(2) quiet_create(1) [OF create(2)] by auto
  next
    case (sharestack cnt sz p)
    then show ?thesis using quiet_sharestack [OF sharestack(5)] sharestack_ok(6) [OF inv sharestack] by auto
  next
    case (release co r)
    obtain w2 where C: "co_free co w = Some w2" "thread_calls env w2 = thread_calls env w" "cos w2 co = None"
      using free_ok [OF inv release(1-3)] by metis
    then have "w2 = w'" using release(4) by (simp add: co_release_def)
    moreover have "cos w' c = cos w c" if "cos w' c \<noteq> None" for c
      using that C(3) quiet_free [OF C(1)] \<open>w2 = w'\<close> by (cases "c = co") auto
    ultimately show ?thesis using C(2) quiet_free [OF C(1)] by auto
  qed
  then show "quiet w w'" "\<And>c r. cos w c = Some r \<Longrightarrow> c \<noteq> running env w \<Longrightarrow> cos w' c \<noteq> None \<Longrightarrow>
      \<exists>r'. cos w' c = Some r' \<and> cEnd r' = cEnd r"
    "set (thread_calls env w') \<subseteq> insert (running env w') (set (thread_calls env w))" by simp_all
qed

lemma sys_thread:
  assumes ok: "sys_ok env ctx (p, W)" and st: "thread_step env (wd p) w"
    and away: "\<forall>c \<in> waiting_cos W. away_step env c (wd p) w"
  shows "sys_ok env ctx (p\<lparr>wd := w\<rparr>, W)"
proof -
  from ok have inv: "thread_inv env (wd p)" and pk: "parked env (wd p) W"
    and rest: "\<exists>A C. rest_ok ctx p A C W" by (simp_all add: sys_ok_def)
  note Q = thread_step_quiet [OF inv st]
  have "waiter_co v \<notin> set (thread_calls env w) \<and> (\<exists>r. cos w (waiter_co v) = Some r \<and> \<not> cEnd r)"
    if v: "W x = Some v" for x v
  proof -
    let ?c = "waiter_co v"
    have "?c \<in> waiting_cos W" using v by (auto simp: waiting_cos_def ran_def)
    then have a: "?c \<noteq> running env (wd p)" "?c \<noteq> running env w" "cos w ?c \<noteq> None"
      using away by (auto simp: away_step_def suspended_def started_def)
    from pk v obtain r where r: "?c \<notin> set (thread_calls env (wd p))" "cos (wd p) ?c = Some r" "\<not> cEnd r"
      unfolding parked_def by blast
    show ?thesis using Q(2) [OF r(2) a(1,3)] Q(3) r a(2) by auto
  qed
  then have "parked env w W" using pk by (simp add: parked_def)
  moreover obtain A C where "rest_ok ctx (p\<lparr>wd := w\<rparr>) A C W" using rest_quiet [OF _ Q(1)] rest by blast
  ultimately show ?thesis using thread_step_keeps [OF inv st] by (auto simp: sys_ok_def)
qed

section \<open>Calls that wait\<close>

lemma clock_okD:
  assumes "clock_ok ctx p now"
  shows "now \<noteq> 0" "ullStart (wheel_of ctx p) \<le> now" "uint now < 2 ^ 61"
  using assms by (simp_all add: clock_ok_def)

lemma may_report_adds:
  "may_report (rev (add_calls epfd items i fs) @ cs) =
     may_report cs \<union> {(pfd (fs ! j), items + (i + j)) | j. j < length fs \<and> - 1 < pfd (fs ! j)}"
proof (induction fs arbitrary: i cs)
  case (Cons f fs)
  have split: "{(pfd ((f # fs) ! j), items + (i + j)) | j. j < length (f # fs) \<and> - 1 < pfd ((f # fs) ! j)} =
     (if - 1 < pfd f then {(pfd f, items + i)} else {}) \<union>
     {(pfd (fs ! j), items + (i + 1 + j)) | j. j < length fs \<and> - 1 < pfd (fs ! j)}" (is "?L = ?F \<union> ?R")
  proof (rule set_eqI, rule iffI)
    fix z assume "z \<in> ?L"
    then obtain j where "z = (pfd ((f # fs) ! j), items + (i + j))" "j < length (f # fs)" "- 1 < pfd ((f # fs) ! j)" by blast
    then show "z \<in> ?F \<union> ?R" by (cases j) (auto intro!: exI)
  next
    fix z assume "z \<in> ?F \<union> ?R"
    then consider "z = (pfd f, items + i)" "- 1 < pfd f"
      | j where "z = (pfd (fs ! j), items + (i + 1 + j))" "j < length fs" "- 1 < pfd (fs ! j)"
      by (auto split: if_splits)
    then show "z \<in> ?L"
    proof cases
      case 1
      then show ?thesis by (intro CollectI exI [of _ 0]) simp
    next
      case (2 j)
      then show ?thesis by (intro CollectI exI [of _ "Suc j"]) simp
    qed
  qed
  show ?case unfolding split by (auto simp: Cons.IH)
qed simp

lemma may_report_dels:
  "may_report (rev (map undo_ctl (add_calls epfd items i fs)) @ cs) =
     may_report cs - {(d, a) | d a. \<exists>f \<in> set fs. - 1 < pfd f \<and> d = pfd f}"
  by (induction fs arbitrary: i cs) auto

lemma spans_extend:
  assumes ok: "spans_ok b W" and v: "b + waiter_width v < b'"
  shows "spans_ok b' (W(b \<mapsto> v))"
proof -
  have "waiter_span x u \<inter> waiter_span b v = {}" if "W x = Some u" for x u
  proof -
    have "x + waiter_width u < b" using ok that by (simp add: spans_ok_def)
    then show ?thesis by (auto simp: waiter_span_def)
  qed
  moreover have "x + waiter_width u < b'" if "W x = Some u" for x u
    using ok that v unfolding spans_ok_def by fastforce
  ultimately show ?thesis using ok v unfolding spans_ok_def by (auto simp: Int_commute)
qed

text \<open>The objects of the other waiters are below \<open>brk\<close>.\<close>

lemma span_below:
  assumes "spans_ok b W" "W x = Some v" "j \<le> waiter_width v"
  shows "x + j < b"
  using assms unfolding spans_ok_def by (meson add_le_cancel_left order_le_less_trans)

lemma is_node_payload: "is_node m x \<longleftrightarrow> payload m x \<noteq> None"
  by (simp add: is_node_def payload_def)

lemma waiter_ok_cong:
  assumes "waiter_ok p x v"
    and "\<And>j. j \<le> waiter_width v \<Longrightarrow> payload (tm (wd q)) (x + j) = payload (tm (wd p)) (x + j) \<and> pitems q (x + j) = pitems p (x + j)"
    and "\<And>pl. polls p x = Some pl \<Longrightarrow>
      \<exists>pl'. polls q x = Some pl' \<and> length (fds pl') = length (fds pl) \<and> pPollItems pl' = pPollItems pl"
    and "is_node (conds p) x \<Longrightarrow> is_node (conds q) x"
  shows "waiter_ok q x v"
proof (cases v)
  case (PollWaiter s u)
  have "payload (tm (wd q)) (x + 1 + j) = payload (tm (wd p)) (x + 1 + j) \<and> pitems q (x + 1 + j) = pitems p (x + 1 + j)"
    if "j < length u" for j using assms(2) [of "1 + j"] that PollWaiter by simp
  moreover have "payload (tm (wd q)) x = payload (tm (wd p)) x" using assms(2) [of 0] by simp
  ultimately show ?thesis using assms(1,3) PollWaiter unfolding waiter_ok_def by fastforce
next
  case (CondWaiter s)
  then show ?thesis using assms(1,4) assms(2) [of 0] by (simp add: waiter_ok_def)
qed

lemma rest_okD:
  assumes "rest_ok ctx p A C W"
  shows "cond_ok ctx p A C" "loop_ok ctx p A" "repr (conds p) C" "curr_epoll (wd p) = epolls (wd p) ctx"
    "fresh_above p" "fresh_conds p" "\<And>a. brk (wd p) \<le> a \<Longrightarrow> links (conds p) a = None"
    "\<And>x v. W x = Some v \<Longrightarrow> waiter_ok p x v" "spans_ok (brk (wd p)) W" "queues_ok ctx p A C W"
    "may_report (ctls p) \<subseteq> registrations W" "\<And>si x. x \<in> set (C si) \<Longrightarrow> payload (tm (wd p)) x \<noteq> None"
    "\<And>a. brk (wd p) \<le> a \<Longrightarrow> W a = None" "woken_ok ctx p A W"
proof -
  show "W a = None" if "brk (wd p) \<le> a" for a
    using assms span_below [of "brk (wd p)" W a _ 0] that by (cases "W a") (auto simp: rest_ok_def objs_ok_def)
qed (use assms in \<open>auto simp: rest_ok_def objs_ok_def cond_ok_def is_node_def payload_def\<close>)

lemma registrationsI:
  assumes "W x = Some (PollWaiter s u)" "j < length u" "- 1 < pfd (u ! j)" "d = pfd (u ! j)" "a = x + 1 + j"
  shows "(d, a) \<in> registrations W"
  unfolding registrations_def using assms by blast

lemma registrationsE:
  assumes "z \<in> registrations W"
  obtains x s u j where "W x = Some (PollWaiter s u)" "j < length u" "- 1 < pfd (u ! j)" "z = (pfd (u ! j), x + 1 + j)"
  using assms unfolding registrations_def by blast

lemma registrations_extend:
  assumes "W x = None"
  shows "registrations W \<subseteq> registrations (W(x \<mapsto> v))"
proof
  fix z assume "z \<in> registrations W"
  then obtain y s u j where y: "W y = Some (PollWaiter s u)" "j < length u" "- 1 < pfd (u ! j)" "z = (pfd (u ! j), y + 1 + j)"
    by (rule registrationsE)
  then have "(W(x \<mapsto> v)) y = Some (PollWaiter s u)" using assms by auto
  then show "z \<in> registrations (W(x \<mapsto> v))" unfolding y(4) by (rule registrationsI) (use y(2,3) in simp_all)
qed

lemma queues_extend:
  assumes "queues_ok ctx p A C W" "W x = None"
    and "queued ctx p A \<subseteq> queued ctx q A'" "\<And>y. linked A' y \<Longrightarrow> y = x \<or> linked A y"
    and "\<And>y. linked C y \<Longrightarrow> linked C' y" "\<And>y. linked C' y \<Longrightarrow> linked C y \<or> y = x \<and> (\<exists>s. v = CondWaiter s)"
    and "x \<in> queued ctx q A' \<or> (\<exists>s. v = CondWaiter s) \<and> linked C' x"
  shows "queues_ok ctx q A' C' (W(x \<mapsto> v))"
  unfolding queues_ok_def
proof (intro conjI allI impI)
  fix y u assume y: "(W(x \<mapsto> v)) y = Some u"
  then show "y \<in> queued ctx q A' \<or> (\<exists>s. u = CondWaiter s) \<and> linked C' y"
  proof (cases "y = x")
    case False
    then have "y \<in> queued ctx p A \<or> (\<exists>s. u = CondWaiter s) \<and> linked C y"
      using y assms(1) unfolding queues_ok_def by auto
    then show ?thesis using assms(3,5) by blast
  qed (use y assms(7) in simp)
next
  fix y assume "linked A' y"
  then have "y = x \<or> linked A y" by (rule assms(4))
  then show "(W(x \<mapsto> v)) y \<noteq> None" using assms(1) unfolding queues_ok_def by auto
next
  fix y assume "linked C' y"
  then have "linked C y \<or> y = x \<and> (\<exists>s. v = CondWaiter s)" by (rule assms(6))
  then show "\<exists>s. (W(x \<mapsto> v)) y = Some (CondWaiter s)"
    using assms(1,2) by (auto simp: queues_ok_def)
qed

lemma enter_rest:
  assumes ok: "rest_ok ctx p A C W" and clock: "clock_ok ctx p now" "0 \<le> timeout" "fits_wheel ctx p now (clamp_timeout timeout)"
    and self: "co_self (wd p) = Some (Some s)" "cos (wd p) s \<noteq> None" and nof: "\<not> (length ufds = 1 \<and> hasf)"
  shows "\<exists>q A'. co_poll_enter ctl now ctx ufds timeout hasf p = Some (PollYield (brk (wd p)), q) \<and>
     rest_ok ctx q A' C (W(brk (wd p) \<mapsto> PollWaiter s ufds)) \<and>
     wd q = (wd p)\<lparr>brk := brk (wd p) + 1 + max 1 (length ufds), tm := tm (wd q), timeouts := timeouts (wd q)\<rparr> \<and>
     ctls q = rev (add_calls (iEpollFd (the (epolls (wd p) ctx))) (brk (wd p) + 1) 0 ufds) @ ctls p \<and>
     wheel_of ctx q = wheel_start (wheel_of ctx p) now"
proof -
  note D = rest_okD [OF ok]
  let ?x = "brk (wd p)" and ?n = "length ufds" and ?v = "PollWaiter s ufds"
  obtain q A' where run: "co_poll_enter ctl now ctx ufds timeout hasf p = Some (PollYield ?x, q)"
     and L: "loop_ok ctx q A'"
     and ctl: "ctls q = rev (add_calls (iEpollFd (the (epolls (wd p) ctx))) (?x + 1) 0 ufds) @ ctls p"
     and act: "A' (active_of ctx p) = A (active_of ctx p)"
     and wait: "waiting ctx q A' = filter (\<lambda>x. expire_of (tm (wd p)) x \<le> uint now + clamp_timeout timeout) (waiting ctx p A) @ ?x #
       filter (\<lambda>x. \<not> expire_of (tm (wd p)) x \<le> uint now + clamp_timeout timeout) (waiting ctx p A)"
     and wd: "wd q = (wd p)\<lparr>brk := ?x + 1 + max 1 ?n, tm := tm (wd q), timeouts := timeouts (wd q)\<rparr>"
     and wheel: "wheel_of ctx q = wheel_start (wheel_of ctx p) now" and within: "lists_within [?x] A A'"
     and polls: "polls q = (polls p)(?x \<mapsto> new_stPoll (iEpollFd (the (epolls (wd p) ctx))) ?n (?x + 1))"
     and items: "pitems q = poll_items_of ?x ufds (pitems p)" and conds: "conds q = conds p"
     and pay: "payload (tm (wd q)) = poll_payload ?x s ?n (payload (tm (wd p)))"
     and links: "\<forall>k. is_link (tm (wd q)) k = is_link (tm (wd p)) k"
    using co_poll_enter_full [OF D(2,5) self nof clock_okD [OF clock(1)] clock(2) clock(3) [unfolded fits_wheel_def],
        of ctl] by (elim exE conjE) (rule that)
  have b: "brk (wd q) = ?x + 1 + max 1 ?n" "epolls (wd q) = epolls (wd p)" "curr_epoll (wd q) = curr_epoll (wd p)"
    by (subst wd, simp)+
  have active: "active_of ctx q = active_of ctx p" by (simp add: active_of_def b)
  have none: "payload (tm (wd q)) a = None" if "brk (wd q) \<le> a" for a
    using D(5) that b(1) by (auto simp: pay poll_payload_def fresh_above_def payload_def)
  have "cond_ok ctx q A' C"
    using L D(3,4,12) b(2,3) by (auto simp: cond_ok_def conds is_node_payload pay poll_payload_def)
  moreover have "links (tm (wd q)) a = None" if "brk (wd q) \<le> a" for a
    using links [rule_format, of a] D(5) that b(1) by (auto simp: fresh_above_def is_link_def)
  then have "fresh_above q" "fresh_conds q"
    using none D(5,6) b(1) polls items conds
    by (auto simp: fresh_above_def fresh_conds_def payload_def poll_items_of_def)
  moreover have "links (conds q) a = None" if "brk (wd q) \<le> a" for a
    using D(7) [of a] that b(1) by (simp add: conds)
  moreover have "waiter_ok q y v" if y: "(W(?x \<mapsto> ?v)) y = Some v" for y v
  proof (cases "y = ?x")
    case True
    then show ?thesis using y by (auto simp: waiter_ok_def pay poll_payload_def polls items poll_items_of_def new_stPoll_def)
  next
    case False
    then have v: "W y = Some v" using y by simp
    note low = span_below [OF D(9) v]
    show ?thesis
      by (rule waiter_ok_cong [OF D(8) [OF v]])
        (use low low [of 0] False in \<open>fastforce simp: pay poll_payload_def items poll_items_of_def polls conds\<close>)+
  qed
  moreover have "spans_ok (brk (wd q)) (W(?x \<mapsto> ?v))"
    by (rule spans_extend [OF D(9)]) (simp add: b(1))
  moreover have "queues_ok ctx q A' C (W(?x \<mapsto> ?v))"
  proof (rule queues_extend [OF D(10)])
    show "queued ctx p A \<subseteq> queued ctx q A'" "?x \<in> queued ctx q A' \<or> (\<exists>t. ?v = CondWaiter t) \<and> linked C ?x"
      by (auto simp: queued_def active act wait)
    show "W ?x = None" by (simp add: D(13))
    show "y = ?x \<or> linked A y" if "linked A' y" for y
      using within that unfolding lists_within_def linked_def by fastforce
  qed simp_all
  moreover have "woken_ok ctx q A' (W(?x \<mapsto> ?v))"
    using D(14) unfolding woken_ok_def active act by (auto simp: detached_def polls new_stPoll_def)
  moreover have "may_report (ctls q) \<subseteq> registrations (W(?x \<mapsto> ?v))"
  proof -
    have "registrations W \<subseteq> registrations (W(?x \<mapsto> ?v))"
      by (rule registrations_extend) (simp add: D(13))
    moreover have "{(pfd (ufds ! j), ?x + 1 + (0 + j)) | j. j < ?n \<and> - 1 < pfd (ufds ! j)} \<subseteq> registrations (W(?x \<mapsto> ?v))"
      by (auto intro!: registrationsI)
    ultimately show ?thesis using D(11) unfolding ctl may_report_adds by blast
  qed
  ultimately show ?thesis using run wd ctl wheel unfolding rest_ok_def objs_ok_def by blast
qed

lemma wait_rest:
  assumes ok: "rest_ok ctx p A C W" and link: "is_link (conds p) link" and s: "GetCurrThreadCo (wd p) = Some (Some s)"
    and clock: "ms \<le> 0 \<or> clock_ok ctx p now \<and> ms < 2 ^ 31 \<and> fits_wheel ctx p now ms"
  shows "\<exists>q A' C'. co_cond_timedwait_enter now link ms p = Some (Inr (brk (wd p)), q) \<and>
     rest_ok ctx q A' C' (W(brk (wd p) \<mapsto> CondWaiter s)) \<and>
     wd q = (wd p)\<lparr>brk := brk (wd p) + 1, tm := tm (wd q), timeouts := timeouts (wd q)\<rparr>"
proof -
  note D = rest_okD [OF ok]
  let ?x = "brk (wd p)" and ?C = "C(link := C link @ [brk (wd p)])"
  obtain q A' where run: "co_cond_timedwait_enter now link ms p = Some (Inr ?x, q)" and K: "cond_ok ctx q A' ?C"
    and at: "waits_at ?x s p q" and act: "A' (active_of ctx p) = A (active_of ctx p)"
    and wait: "set (waiting ctx p A) \<subseteq> set (waiting ctx q A')" and within: "lists_within [?x] A A'"
  proof (cases "ms \<le> 0")
    case True
    obtain q where "co_cond_timedwait_enter now link ms p = Some (Inr ?x, q)" "cond_ok ctx q A ?C"
      "waiting ctx q A = waiting ctx p A" "waits_at ?x s p q"
      using timedwait_forever [OF D(1,6) s link True, of now] by blast
    then show thesis using that [of q A] by (simp add: lists_within_def linked_def) blast
  next
    case False
    then have ms: "0 < ms" "ms < 2 ^ 31" and t: "clock_ok ctx p now" "fits_wheel ctx p now ms" using clock by simp_all
    obtain q A' where "co_cond_timedwait_enter now link ms p = Some (Inr ?x, q)" "cond_ok ctx q A' ?C"
      "A' (active_of ctx p) = A (active_of ctx p)"
      "waiting ctx q A' = filter (\<lambda>x. expire_of (tm (wd p)) x \<le> uint now + ms) (waiting ctx p A) @ ?x #
         filter (\<lambda>x. \<not> expire_of (tm (wd p)) x \<le> uint now + ms) (waiting ctx p A)"
      "waits_at ?x s p q" "lists_within [?x] A A'"
      using timedwait_timeout_full [OF D(1,6) s link ms clock_okD [OF t(1)] t(2) [unfolded fits_wheel_def]]
      by (elim exE conjE) (rule that)
    then show thesis using that [of q A'] by auto
  qed
  from at have wd: "wd q = (wd p)\<lparr>brk := ?x + 1, tm := tm (wd q), timeouts := timeouts (wd q)\<rparr>"
    and same: "polls q = polls p" "pitems q = pitems p" "ctls q = ctls p"
    and pay: "payload (tm (wd q)) = (payload (tm (wd p)))(?x \<mapsto> (NoPrepare, OnSignalProcess, Some s))"
    and cn: "\<And>x. is_node (conds q) x \<longleftrightarrow> x = ?x \<or> is_node (conds p) x"
    and lk: "\<And>k. is_link (conds q) k = is_link (conds p) k" "\<And>k. is_link (tm (wd q)) k = is_link (tm (wd p)) k"
    unfolding waits_at_def by blast+
  have b: "brk (wd q) = ?x + 1" "epolls (wd q) = epolls (wd p)" by (subst wd, simp)+
  have active: "active_of ctx q = active_of ctx p" by (simp add: active_of_def b)
  have none: "payload (tm (wd q)) a = None" "links (tm (wd q)) a = None" "nodes (conds q) a = None"
    "links (conds q) a = None" if "brk (wd q) \<le> a" for a
    using D(5,6) D(7) [of a] lk [of a] cn [of a] that b(1)
    by (auto simp: pay fresh_above_def fresh_conds_def payload_def is_link_def is_node_def)
  have "fresh_above q" "fresh_conds q"
    using none D(5) b(1) by (auto simp: fresh_above_def fresh_conds_def payload_def same)
  moreover have "waiter_ok q y v" if y: "(W(?x \<mapsto> CondWaiter s)) y = Some v" for y v
  proof (cases "y = ?x")
    case True
    then show ?thesis using y by (auto simp: waiter_ok_def pay cn)
  next
    case False
    then have v: "W y = Some v" using y by simp
    note low = span_below [OF D(9) v]
    show ?thesis
      by (rule waiter_ok_cong [OF D(8) [OF v]]) (use low in \<open>fastforce simp: pay same cn\<close>)+
  qed
  moreover have "spans_ok (brk (wd q)) (W(?x \<mapsto> CondWaiter s))"
    by (rule spans_extend [OF D(9)]) (simp add: b(1))
  moreover have "queues_ok ctx q A' ?C (W(?x \<mapsto> CondWaiter s))"
  proof (rule queues_extend [OF D(10)])
    show "queued ctx p A \<subseteq> queued ctx q A'" using wait by (auto simp: queued_def active act)
    show "?x \<in> queued ctx q A' \<or> (\<exists>t. CondWaiter s = CondWaiter t) \<and> linked ?C ?x" by (auto simp: linked_def)
    show "W ?x = None" by (simp add: D(13))
    show "y = ?x \<or> linked A y" if "linked A' y" for y
      using within that unfolding lists_within_def linked_def by fastforce
    show "linked ?C y" if "linked C y" for y using that unfolding linked_def by (auto intro: exI)
    show "linked C y \<or> y = ?x \<and> (\<exists>t. CondWaiter s = CondWaiter t)" if "linked ?C y" for y
      using that by (auto simp: linked_def split: if_splits)
  qed
  moreover have "woken_ok ctx q A' (W(?x \<mapsto> CondWaiter s))"
  proof -
    have "polls p ?x = None" using D(5) by (simp add: fresh_above_def)
    then show ?thesis using D(14) unfolding woken_ok_def active act by (auto simp: detached_def same)
  qed
  moreover have "may_report (ctls q) \<subseteq> registrations (W(?x \<mapsto> CondWaiter s))"
    unfolding same by (rule order_trans [OF D(11) registrations_extend]) (simp add: D(13))
  ultimately show ?thesis using run wd K none(4) unfolding rest_ok_def objs_ok_def by blast
qed

text \<open>The yield at the end of both calls.\<close>

lemma sys_yield:
  assumes ok: "sys_ok env ctx (p, W)" and calls: "2 \<le> length (thread_calls env (wd p))"
    and fr: "frame_ok fr (running env (wd p)) (wd p)"
    and wq: "wd q = (wd p)\<lparr>brk := brk (wd p) + n, tm := tm (wd q), timeouts := timeouts (wd q)\<rparr>"
    and rest: "rest_ok ctx q A C (W(x \<mapsto> v))" and v: "waiter_co v = running env (wd p)"
    and x: "W x = None"
  shows "\<exists>w. co_yield_env fr env (wd q) = Some w \<and> sys_ok env ctx (q\<lparr>wd := w\<rparr>, W(x \<mapsto> v))"
proof -
  from ok have inv: "thread_inv env (wd p)" and pk: "parked env (wd p) W" by (simp_all add: sys_ok_def)
  have same: "cos (wd q) = cos (wd p)" "stacks (wd q) = stacks (wd p)" "thread_calls env (wd q) = thread_calls env (wd p)"
    by (subst wq, simp)+
  have invq: "thread_inv env (wd q)" by (subst wq) (intro thread_quiet inv)
  have run: "running env (wd q) = running env (wd p)" by (simp add: running_def same)
  have frq: "frame_ok fr (running env (wd q)) (wd q)" using fr by (simp add: frame_ok_def same run)
  obtain w where "co_yield_env fr env (with_end False (running env (wd q)) (wd q)) = Some w" "thread_inv env w"
    "thread_calls env w = butlast (thread_calls env (wd q))"
    using yield_core [OF invq _ frq, of False] calls same by auto
  then have w: "co_yield_env fr env (wd q) = Some w" "thread_inv env w"
    "thread_calls env w = butlast (thread_calls env (wd p))"
    using with_end_same(1) [OF invq] same by simp_all
  obtain e where e: "calls_ok (wd p) e" "thread_calls env (wd p) = calls e" using inv by (rule thread_invD)
  have "calls e \<noteq> []" "distinct (calls e)" using e calls by (auto simp: calls_ok_def)
  then have s: "running env (wd p) \<notin> set (butlast (calls e))" "running env (wd p) \<in> set (calls e)"
    unfolding running_def e(2) by (cases "calls e" rule: rev_cases; simp)+
  have alive: "\<exists>r. cos w c = Some r \<and> \<not> cEnd r" if "\<exists>r. cos (wd p) c = Some r \<and> \<not> cEnd r" for c
    using that kept_alive [OF kept_yield [OF w(1)]] same by fastforce
  have "parked env w (W(x \<mapsto> v))"
    unfolding parked_def
  proof (intro conjI allI impI)
    fix y u assume y: "(W(x \<mapsto> v)) y = Some u"
    have "waiter_co u \<notin> set (butlast (calls e)) \<and> (\<exists>r. cos (wd p) (waiter_co u) = Some r \<and> \<not> cEnd r)"
    proof (cases "y = x")
      case True
      then show ?thesis using y v s e(1) by (auto simp: calls_ok_def)
    next
      case False
      then have "W y = Some u" using y by simp
      then show ?thesis using pk in_set_butlastD unfolding parked_def e(2) by metis
    qed
    then show "waiter_co u \<notin> set (thread_calls env w)" "\<exists>r. cos w (waiter_co u) = Some r \<and> \<not> cEnd r"
      using alive by (simp_all add: w(3) e(2))
  next
    fix y z u t assume yz: "(W(x \<mapsto> v)) y = Some u" "(W(x \<mapsto> v)) z = Some t" "waiter_co u = waiter_co t"
    have "waiter_co t \<noteq> waiter_co v" if "W z = Some t" for z t
      using that pk s(2) unfolding parked_def v e(2) by metis
    then show "y = z" using yz pk unfolding parked_def by (auto split: if_splits)
  qed
  moreover have "rest_ok ctx (q\<lparr>wd := w\<rparr>) A C (W(x \<mapsto> v))"
    by (rule rest_quiet [OF rest kept_quiet [OF kept_yield [OF w(1)]]])
  ultimately show ?thesis using w by (auto simp: sys_ok_def)
qed

section \<open>Signals\<close>

lemma queues_keep:
  assumes "queues_ok ctx p A C W" "queued ctx p A \<subseteq> queued ctx q A'"
    and "\<And>y. linked A' y \<Longrightarrow> linked A y \<or> W y \<noteq> None"
    and "\<And>y. linked C y \<Longrightarrow> linked C' y \<or> y \<in> queued ctx q A'" "\<And>y. linked C' y \<Longrightarrow> linked C y"
  shows "queues_ok ctx q A' C' W"
  unfolding queues_ok_def
proof (intro conjI allI impI)
  fix y v assume "W y = Some v"
  then have "y \<in> queued ctx p A \<or> (\<exists>s. v = CondWaiter s) \<and> linked C y"
    using assms(1) unfolding queues_ok_def by blast
  then show "y \<in> queued ctx q A' \<or> (\<exists>s. v = CondWaiter s) \<and> linked C' y" using assms(2,4) by blast
next
  fix y assume "linked A' y"
  then show "W y \<noteq> None" using assms(1,3) unfolding queues_ok_def by blast
next
  fix y assume "linked C' y"
  then show "\<exists>s. W y = Some (CondWaiter s)" using assms(1,5) unfolding queues_ok_def by blast
qed

text \<open>A change of the lists that leaves the objects, as a signal and a round of the loop make.\<close>

lemma rest_keep:
  assumes ok: "rest_ok ctx p A C W" and K: "cond_ok ctx q A' C'" and Q: "queues_ok ctx q A' C' W"
    and Wk: "woken_ok ctx q A' W"
    and b: "brk (wd q) = brk (wd p)" and c: "ctls q = ctls p" "pitems q = pitems p"
    and pay: "payload (tm (wd q)) = payload (tm (wd p))" and lk: "\<And>k. is_link (tm (wd q)) k = is_link (tm (wd p)) k"
    and cn: "\<And>x. is_node (conds q) x = is_node (conds p) x" "\<And>k. is_link (conds q) k = is_link (conds p) k"
    and pl: "\<And>x. map_option (\<lambda>pl. (length (fds pl), pPollItems pl)) (polls q x) =
      map_option (\<lambda>pl. (length (fds pl), pPollItems pl)) (polls p x)"
  shows "rest_ok ctx q A' C' W"
proof -
  note D = rest_okD [OF ok]
  have none: "nodes (tm (wd q)) a = None" "links (tm (wd q)) a = None" "polls q a = None" "nodes (conds q) a = None"
    "links (conds q) a = None" if a: "brk (wd p) \<le> a" for a
  proof -
    have "payload (tm (wd q)) a = None" using D(5) a by (simp add: pay fresh_above_def payload_def)
    then show "nodes (tm (wd q)) a = None" by (simp add: payload_def)
    show "links (tm (wd q)) a = None" using lk [of a] D(5) a by (simp add: is_link_def fresh_above_def)
    show "polls q a = None" using pl [of a] D(5) a by (simp add: fresh_above_def)
    show "nodes (conds q) a = None" using cn(1) [of a] D(6) a by (simp add: is_node_def fresh_conds_def)
    show "links (conds q) a = None" using cn(2) [of a] D(7) [OF a] by (simp add: is_link_def)
  qed
  have "waiter_ok q x v" if v: "W x = Some v" for x v
  proof (rule waiter_ok_cong [OF D(8) [OF v]])
    show "\<exists>pl'. polls q x = Some pl' \<and> length (fds pl') = length (fds l) \<and> pPollItems pl' = pPollItems l"
      if "polls p x = Some l" for l using pl [of x] that by (cases "polls q x") auto
  qed (simp_all add: pay c cn)
  then show ?thesis
    using K Q Wk D(5,9,11) none b c by (simp add: rest_ok_def objs_ok_def fresh_above_def fresh_conds_def)
qed

lemma rest_woken:
  assumes ok: "rest_ok ctx p A C W" and K: "cond_ok ctx q (moved (active_of ctx p) xs A) C'"
    and active: "active_of ctx q = active_of ctx p"
    and d: "same_data (tm (wd p)) (tm (wd q))" "same_data (conds p) (conds q)"
    and wait: "waiting ctx q (moved (active_of ctx p) xs A) = filter (\<lambda>y. y \<notin> set xs) (waiting ctx p A)"
    and same: "same_world (p\<lparr>conds := conds q\<rparr>) q" "polls q = polls p"
    and xs: "\<And>y. linked C y \<Longrightarrow> linked C' y \<or> y \<in> set xs" "\<And>y. linked C' y \<or> y \<in> set xs \<Longrightarrow> linked C y"
  shows "rest_ok ctx q (moved (active_of ctx p) xs A) C' W"
proof (rule rest_keep [OF ok K])
  note D = rest_okD [OF ok]
  have wd: "wd q = (wd p)\<lparr>tm := tm (wd q)\<rparr>" using same(1) by (simp add: same_world_def)
  show "brk (wd q) = brk (wd p)" by (subst wd) simp
  have qd: "queued ctx q (moved (active_of ctx p) xs A) = queued ctx p A \<union> set xs"
    unfolding queued_def active wait by (auto simp: moved_def)
  show "queues_ok ctx q (moved (active_of ctx p) xs A) C' W"
  proof (rule queues_keep [OF D(10)])
    show "linked A y \<or> W y \<noteq> None" if "linked (moved (active_of ctx p) xs A) y" for y
    proof -
      have "linked A y \<or> y \<in> set xs" using that by (auto simp: linked_def moved_def split: if_splits)
      then show ?thesis using xs(2) D(10) unfolding queues_ok_def by blast
    qed
  qed (use xs in \<open>auto simp: qd\<close>)
  show "woken_ok ctx q (moved (active_of ctx p) xs A) W"
    using D(14) unfolding woken_ok_def active by (auto simp: detached_def same(2) moved_def)
  show "is_node (conds q) x = is_node (conds p) x" for x using lists.same_isnode [OF d(2)] by simp
  show "is_link (tm (wd q)) k = is_link (tm (wd p)) k" for k by (rule lists.same_islink [OF d(1)])
  show "is_link (conds q) k = is_link (conds p) k" for k by (rule lists.same_islink [OF d(2)])
  show "payload (tm (wd q)) = payload (tm (wd p))" by (rule same_data_payload [OF d(1)])
qed (use same in \<open>auto simp: same_world_def\<close>)

lemma linked_upd: "linked (C(k := xs)) y \<longleftrightarrow> y \<in> set xs \<or> (\<exists>l. l \<noteq> k \<and> y \<in> set (C l))"
  unfolding linked_def by (auto split: if_splits)

lemma signal_rest:
  assumes ok: "rest_ok ctx p A C W" and si: "is_link (conds p) si"
  shows "\<exists>q A' C'. co_cond_signal si p = Some (0, q) \<and> rest_ok ctx q A' C' W \<and> wd q = (wd p)\<lparr>tm := tm (wd q)\<rparr>"
    "\<exists>q A' C'. co_cond_broadcast si p = Some (0, q) \<and> rest_ok ctx q A' C' W \<and> wd q = (wd p)\<lparr>tm := tm (wd q)\<rparr>"
proof -
  note D = rest_okD [OF ok] and at = linked_upd [of C si "C si", unfolded fun_upd_triv]
  have split: "set (C si) = set (take 1 (C si)) \<union> set (drop 1 (C si))"
    by (subst set_append [symmetric], subst append_take_drop_id) simp
  obtain q where q: "co_cond_signal si p = Some (0, q)" "active_of ctx q = active_of ctx p"
     "cond_ok ctx q (moved (active_of ctx p) (take 1 (C si)) A) (C(si := drop 1 (C si)))"
     "same_data (tm (wd p)) (tm (wd q))" "same_data (conds p) (conds q)"
     "waiting ctx q (moved (active_of ctx p) (take 1 (C si)) A) =
       filter (\<lambda>y. y \<notin> set (take 1 (C si))) (waiting ctx p A)"
     "same_world (p\<lparr>conds := conds q\<rparr>) q" "polls q = polls p"
    using co_cond_signal_full [OF D(1) si] by blast
  have "rest_ok ctx q (moved (active_of ctx p) (take 1 (C si)) A) (C(si := drop 1 (C si))) W"
    by (rule rest_woken [OF ok q(3,2,4-8)]) (use split in \<open>auto simp: linked_upd at\<close>)
  then show "\<exists>q A' C'. co_cond_signal si p = Some (0, q) \<and> rest_ok ctx q A' C' W \<and> wd q = (wd p)\<lparr>tm := tm (wd q)\<rparr>"
    using q(1,7) unfolding same_world_def by auto
  obtain q where q: "co_cond_broadcast si p = Some (0, q)" "active_of ctx q = active_of ctx p"
     "cond_ok ctx q (moved (active_of ctx p) (C si) A) (C(si := []))"
     "same_data (tm (wd p)) (tm (wd q))" "same_data (conds p) (conds q)"
     "waiting ctx q (moved (active_of ctx p) (C si) A) = filter (\<lambda>y. y \<notin> set (C si)) (waiting ctx p A)"
     "same_world (p\<lparr>conds := conds q\<rparr>) q" "polls q = polls p"
    using co_cond_broadcast_full [OF D(1) si] by blast
  have "rest_ok ctx q (moved (active_of ctx p) (C si) A) (C(si := [])) W"
    by (rule rest_woken [OF ok q(3,2,4-8)]) (auto simp: linked_upd at)
  then show "\<exists>q A' C'. co_cond_broadcast si p = Some (0, q) \<and> rest_ok ctx q A' C' W \<and> wd q = (wd p)\<lparr>tm := tm (wd q)\<rparr>"
    using q(1,7) unfolding same_world_def by auto
qed

lemma sys_tm:
  assumes ok: "sys_ok env ctx (p, W)" and wq: "wd q = (wd p)\<lparr>tm := tm (wd q), timeouts := timeouts (wd q)\<rparr>"
    and rest: "rest_ok ctx q A C W"
  shows "sys_ok env ctx (q, W)"
proof -
  from ok have inv: "thread_inv env (wd p)" and pk: "parked env (wd p) W" by (simp_all add: sys_ok_def)
  have "cos (wd q) = cos (wd p)" "thread_calls env (wd q) = thread_calls env (wd p)" by (subst wq, simp)+
  then have "parked env (wd q) W" using pk by (simp add: parked_def)
  moreover have "thread_inv env (wd q)" by (subst wq) (intro thread_quiet inv)
  ultimately show ?thesis using rest by (auto simp: sys_ok_def)
qed

lemma tm_only: "wd q = (wd p)\<lparr>tm := tm (wd q)\<rparr> \<Longrightarrow> wd q = (wd p)\<lparr>tm := tm (wd q), timeouts := timeouts (wd q)\<rparr>"
  by (metis world.surjective world.update_convs(6,7))

lemma sys_cond_alloc:
  assumes ok: "sys_ok env ctx (p, W)" and al: "co_cond_alloc p = (cc, q)"
  shows "sys_ok env ctx (q, W)"
proof -
  from ok obtain A C where inv: "thread_inv env (wd p)" and pk: "parked env (wd p) W" and rest: "rest_ok ctx p A C W"
    by (auto simp: sys_ok_def)
  note D = rest_okD [OF rest]
  let ?w = "(wd p)\<lparr>brk := brk (wd p) + 1\<rparr>"
  have q: "q = (p\<lparr>wd := ?w\<rparr>)\<lparr>conds := (conds p)\<lparr>links := (links (conds p))(brk (wd p) \<mapsto> \<lparr>head = None, tail = None\<rparr>)\<rparr>\<rparr>"
    using al by (auto simp: co_cond_alloc_def malloc_def)
  have R: "rest_ok ctx (p\<lparr>wd := ?w\<rparr>) A C W" by (rule rest_quiet [OF rest]) (simp add: quiet_def)
  have new: "links (conds p) (brk (wd p)) = None" "C (brk (wd p)) = []"
    using D(7) [OF order_refl] D(3) by (auto simp: repr_def)
  have "repr (conds q) C"
    using D(3) new unfolding q by (auto simp: repr_def list_ok_def)
  moreover have "waiter_ok q x v" if "waiter_ok (p\<lparr>wd := ?w\<rparr>) x v" for x v
    by (rule waiter_ok_cong [OF that]) (auto simp: q is_node_def)
  ultimately have "rest_ok ctx q A C W"
    using R D(7) by (simp add: rest_ok_def objs_ok_def cond_ok_def q fresh_above_def fresh_conds_def queues_ok_def queued_def
        loop_ok_def active_of_def waiting_def wheel_of_def woken_ok_def detached_def)
  moreover have "thread_inv env (wd q)" using thread_quiet(2) [OF inv, where n = 1] by (simp add: q)
  moreover have "parked env (wd q) W" using pk by (simp add: q parked_def thread_calls_def)
  ultimately show ?thesis by (auto simp: sys_ok_def)
qed

section \<open>A round of the loop\<close>

text \<open>An event the kernel can report belongs to a descriptor of a waiter.\<close>

lemma reportable_ok:
  assumes rest: "rest_ok ctx p A C W" and e: "reportable p e"
  shows "event_ok p e" "W (poll_of p e) \<noteq> None"
proof -
  note D = rest_okD [OF rest]
  obtain a fd where a: "ev_ptr e = Some a" "(fd, a) \<in> may_report (ctls p)" using e by (auto simp: reportable_def)
  with D(11) have "(fd, a) \<in> registrations W" by blast
  then obtain x s u j where x: "W x = Some (PollWaiter s u)" "j < length u" "- 1 < pfd (u ! j)" "(fd, a) = (pfd (u ! j), x + 1 + j)"
    by (rule registrationsE)
  have a': "a = x + 1 + j" using x(4) by simp
  from D(8) [OF x(1)] x(2) have w: "payload (tm (wd p)) x = Some (NoPrepare, OnPollProcess, Some s)"
    "\<exists>pl. polls p x = Some pl \<and> length (fds pl) = length u"
    "payload (tm (wd p)) a = Some (OnPollPrepare, NoProcess, None)"
    "pitems p a = Some (registered_item x (x + 1) j (u ! j) \<lparr>pSelf = 0, pPoll = None, stEvent = \<lparr>ev_events = 0, ev_ptr = None\<rparr>\<rparr>)"
    unfolding waiter_ok_def a' by auto
  then show "event_ok p e" using a(1) x(2)
    by (auto simp: event_ok_def payload_Some is_node_def registered_item_def)
  have "poll_of p e = x" using w(4) a(1) by (simp add: poll_of_def item_of_def registered_item_def)
  then show "W (poll_of p e) \<noteq> None" using x(1) by simp
qed

lemma fold_raise: "length (fds (fold raise_event js pl)) = length (fds pl) \<and> pPollItems (fold raise_event js pl) = pPollItems pl"
  by (induction js arbitrary: pl) (simp_all add: raise_event_def)

lemma collect_rest:
  assumes rest: "rest_ok ctx p A C W" and clock: "clock_ok ctx p now"
      "ullStart (wheel_of ctx p) = 0 \<or> uint now - uint (ullStart (wheel_of ctx p)) < 2 ^ 31 - 1"
    and evs: "\<forall>e \<in> set evs. reportable p e"
  shows "\<exists>q A'. loop_collect ctx evs now p = Some q \<and> rest_ok ctx q A' C W \<and>
     (\<forall>e \<in> set evs. poll_of p e \<in> set (A' (active_of ctx q))) \<and>
     (\<forall>x \<in> set (waiting ctx p A). expire_of (tm (wd p)) x \<le> uint now \<longrightarrow> x \<in> set (A' (active_of ctx q))) \<and>
     wd q = (wd p)\<lparr>tm := tm (wd q), timeouts := timeouts (wd q)\<rparr>"
proof -
  note D = rest_okD [OF rest]
  define V where "V = first_new (detached p) (map (poll_of p) evs)"
  define due where "due = filter (\<lambda>x. x \<notin> set V \<and> expire_of (tm (wd p)) x \<le> uint now) (waiting ctx p A)"
  have ev: "\<forall>e \<in> set evs. event_ok p e" using evs reportable_ok(1) [OF rest] by blast
  have VW: "W y \<noteq> None" if "y \<in> set V" for y
    using that evs reportable_ok(2) [OF rest] unfolding V_def set_first_new by auto
  have t: "uint now < 2 ^ 62" using clock_okD(3) [OF clock(1)] by simp
  obtain q A' where q: "loop_collect ctx evs now p = Some q" "loop_ok ctx q A'" "active_of ctx q = active_of ctx p"
    "A' (active_of ctx p) = filter (\<lambda>x. x \<notin> set V) (A (active_of ctx p)) @ V @ due"
    "waiting ctx q A' = filter (\<lambda>x. x \<notin> set V \<and> \<not> expire_of (tm (wd p)) x \<le> uint now) (waiting ctx p A)"
    "collect_frame p q" "polls q = polls_after evs p" "lists_within V A A'"
    using loop_collect_full [OF D(2) ev clock_okD(2) [OF clock(1)] clock(2) t V_def due_def] by (elim exE conjE) (rule that)
  from q(6) have wd: "wd q = (wd p)\<lparr>tm := tm (wd q), timeouts := timeouts (wd q)\<rparr>"
    and same: "pitems q = pitems p" "ctls q = ctls p" "conds q = conds p" "payload (tm (wd q)) = payload (tm (wd p))"
      "\<And>k. is_link (tm (wd q)) k = is_link (tm (wd p)) k"
    unfolding collect_frame_def by blast+
  have b: "brk (wd q) = brk (wd p)" "epolls (wd q) = epolls (wd p)" "curr_epoll (wd q) = curr_epoll (wd p)"
    by (subst wd, simp)+
  have K: "cond_ok ctx q A' C"
    using q(2) D(3,4,12) b by (auto simp: cond_ok_def same is_node_payload)
  have sub: "queued ctx p A \<subseteq> queued ctx q A'"
    unfolding queued_def q(3-5) due_def by auto
  have "queues_ok ctx q A' C W"
  proof (rule queues_keep [OF D(10) sub])
    show "linked A y \<or> W y \<noteq> None" if "linked A' y" for y
      using that q(8) VW unfolding lists_within_def linked_def by metis
  qed simp_all
  moreover have woken: "poll_of p e \<in> set (A' (active_of ctx q))" if "e \<in> set evs" for e
  proof (cases "poll_of p e \<in> detached p")
    case True
    then have "poll_of p e \<in> set (A (active_of ctx p))"
      using D(14) evs that reportable_ok(2) [OF rest] by (auto simp: woken_ok_def)
    then show ?thesis unfolding q(3,4) by auto
  next
    case False
    then have "poll_of p e \<in> set V" using that unfolding V_def set_first_new by auto
    then show ?thesis unfolding q(3,4) by auto
  qed
  moreover have "woken_ok ctx q A' W"
    unfolding woken_ok_def
  proof (intro allI impI)
    fix x assume x: "W x \<noteq> None" "x \<in> detached q"
    obtain pl where pl: "polls p x = Some pl"
      "iAllEventDetach (fold raise_event (map (\<lambda>e. (pSelf (item_of p e), ev_events e)) (filter (\<lambda>e. poll_of p e = x) evs)) pl)"
      using x(2) by (auto simp: detached_def q(7) polls_after_def)
    show "x \<in> set (A' (active_of ctx q))"
    proof (cases "filter (\<lambda>e. poll_of p e = x) evs")
      case Nil
      then have "x \<in> set (A (active_of ctx p))"
        using pl D(14) x(1) by (auto simp: woken_ok_def detached_def)
      then show ?thesis unfolding q(3,4) by auto
    next
      case (Cons e es)
      then have "e \<in> set (filter (\<lambda>e. poll_of p e = x) evs)" by simp
      then show ?thesis using woken by auto
    qed
  qed
  ultimately have "rest_ok ctx q A' C W"
    by (intro rest_keep [OF rest K]) (auto simp: b same q(7) polls_after_def option.map_comp comp_def fold_raise)
  moreover have "x \<in> set (A' (active_of ctx q))" if "x \<in> set (waiting ctx p A)" "expire_of (tm (wd p)) x \<le> uint now" for x
    using that unfolding q(3,4) due_def by auto
  ultimately show ?thesis using q(1) wd woken by blast
qed

section \<open>A turn of the loop over the active list\<close>

text \<open>What the rest of the call leaves: the objects of the waiter are gone, the others untouched.\<close>

definition left_by :: "addr \<Rightarrow> waiter \<Rightarrow> proc \<Rightarrow> proc \<Rightarrow> bool" where
  "left_by x v p q \<longleftrightarrow> wd q = (wd p)\<lparr>tm := tm (wd q)\<rparr> \<and>
     (\<forall>a. a \<notin> waiter_span x v \<longrightarrow> payload (tm (wd q)) a = payload (tm (wd p)) a \<and> pitems q a = pitems p a \<and>
        polls q a = polls p a \<and> is_node (conds q) a = is_node (conds p) a) \<and>
     (\<forall>k. is_link (tm (wd q)) k = is_link (tm (wd p)) k) \<and> (\<forall>k. is_link (conds q) k = is_link (conds p) k) \<and>
     may_report (ctls q) \<subseteq> may_report (ctls p) - {(d, a). \<exists>s u. v = PollWaiter s u \<and> (\<exists>f \<in> set u. - 1 < pfd f \<and> d = pfd f)}"

lemma finish_poll:
  assumes ok: "objs_ok ctx p A C W" and x: "W x = Some (PollWaiter s u)"
    and A: "\<not> linked A x" "\<And>y. linked A y \<Longrightarrow> W y \<noteq> None"
    and C: "\<And>y. linked C y \<Longrightarrow> \<exists>s. W y = Some (CondWaiter s)"
  shows "\<exists>q. finish_wait ctl ctx x (PollWaiter s u) p = Some q \<and> cond_ok ctx q A C \<and> left_by x (PollWaiter s u) p q"
proof -
  from ok have K: "cond_ok ctx p A C" and spans: "spans_ok (brk (wd p)) W" and wait: "waiter_ok p x (PollWaiter s u)"
    using x by (auto simp: objs_ok_def)
  from K have L: "loop_ok ctx p A" and R: "repr (conds p) C" and ce: "curr_epoll (wd p) = epolls (wd p) ctx"
    and Cn: "\<And>si y. y \<in> set (C si) \<Longrightarrow> payload (tm (wd p)) y \<noteq> None"
    by (auto simp: cond_ok_def is_node_payload)
  from wait obtain pl where pl: "polls p x = Some pl" "length (fds pl) = length u" "pPollItems pl = x + 1"
    and node: "is_node (tm (wd p)) x"
    and items: "\<forall>j < length u. pitems p (pPollItems pl + j) = Some (registered_item x (pPollItems pl) j (u ! j)
       \<lparr>pSelf = 0, pPoll = None, stEvent = \<lparr>ev_events = 0, ev_ptr = None\<rparr>\<rparr>)"
    unfolding waiter_ok_def by (auto simp: is_node_payload)
  have other: "a \<notin> waiter_span x (PollWaiter s u)" if "W a \<noteq> None" "a \<noteq> x" for a
  proof -
    obtain t where t: "W a = Some t" using \<open>W a \<noteq> None\<close> by blast
    have "waiter_span a t \<inter> waiter_span x (PollWaiter s u) = {}"
      using spans t x that(2) unfolding spans_ok_def by blast
    then show ?thesis by (auto simp: waiter_span_def)
  qed
  have notin: "\<forall>a lk. pPollItems pl \<le> a \<longrightarrow> a < pPollItems pl + length u \<longrightarrow> a \<notin> set (A lk)"
  proof (intro allI impI notI)
    fix a lk assume a: "pPollItems pl \<le> a" "a < pPollItems pl + length u" "a \<in> set (A lk)"
    then have "linked A a" by (auto simp: linked_def)
    then show False using other [of a] A(2) [of a] a(1,2) pl(3) by (simp add: waiter_span_def)
  qed
  obtain q where q: "co_poll_leave ctl (iEpollFd (the (epolls (wd p) ctx))) x u p =
       Some (iRaiseCnt pl, map (\<lambda>(f, g). f\<lparr>prevents := prevents g\<rparr>) (zip u (fds pl)), q)"
     "loop_ok ctx q (\<lambda>lk. remove1 x (A lk))"
     "ctls q = rev (map undo_ctl (add_calls (iEpollFd (the (epolls (wd p) ctx))) (pPollItems pl) 0 u)) @ ctls p"
     "wd q = (wd p)\<lparr>tm := tm (wd q)\<rparr>" "freed x (pPollItems pl) (length u) p q"
    using co_poll_leave_lemma [OF L pl(1,2) node items notin, of ctl "iEpollFd (the (epolls (wd p) ctx))"]
    by (elim exE conjE) (rule that)
  have rem: "(\<lambda>lk. remove1 x (A lk)) = A"
    using A(1) by (auto simp: linked_def fun_eq_iff intro: remove1_idem)
  from q(5) have pay: "payload (tm (wd q)) = (\<lambda>a. if a = x \<or> x + 1 \<le> a \<and> a < x + 1 + length u then None else payload (tm (wd p)) a)"
    and same: "polls q = (polls p)(x := None)" "conds q = conds p"
      "pitems q = (\<lambda>a. if x + 1 \<le> a \<and> a < x + 1 + length u then None else pitems p a)"
      "\<And>k. is_link (tm (wd q)) k = is_link (tm (wd p)) k"
    unfolding freed_def pl(3) by blast+
  have b: "epolls (wd q) = epolls (wd p)" "curr_epoll (wd q) = curr_epoll (wd p)" by (subst q(4), simp)+
  have "payload (tm (wd q)) y \<noteq> None" if y: "y \<in> set (C si)" for si y
  proof -
    have "linked C y" using y by (auto simp: linked_def)
    then obtain t where t: "W y = Some (CondWaiter t)" using C by blast
    then have "y \<noteq> x" using x by auto
    then have "y \<notin> waiter_span x (PollWaiter s u)" using other t by blast
    then show ?thesis using Cn [OF y] by (auto simp: pay waiter_span_def)
  qed
  then have "cond_ok ctx q A C"
    using q(2) R ce unfolding rem cond_ok_def is_node_payload same b by blast
  moreover have "left_by x (PollWaiter s u) p q"
    unfolding left_by_def q(3) may_report_dels
    using q(4) pay same by (auto simp: waiter_span_def)
  ultimately show ?thesis using q(1) by (auto simp: finish_wait_def)
qed

lemma finish_cond:
  assumes ok: "objs_ok ctx p A C W" and x: "W x = Some (CondWaiter s)" and A: "\<not> linked A x"
  shows "\<exists>q. finish_wait ctl ctx x (CondWaiter s) p = Some q \<and> cond_ok ctx q A (\<lambda>lk. remove1 x (C lk)) \<and>
     left_by x (CondWaiter s) p q"
proof -
  from ok have K: "cond_ok ctx p A C" and wait: "waiter_ok p x (CondWaiter s)" using x by (auto simp: objs_ok_def)
  have n: "is_node (conds p) x" "is_node (tm (wd p)) x" using wait by (simp_all add: waiter_ok_def is_node_payload)
  obtain q where q: "co_cond_timedwait_leave x p = Some (0, q)" "cond_ok ctx q A (\<lambda>lk. remove1 x (C lk))"
     "wd q = (wd p)\<lparr>tm := tm (wd q)\<rparr>" "polls q = polls p" "pitems q = pitems p" "ctls q = ctls p"
     "payload (tm (wd q)) = (payload (tm (wd p)))(x := None)"
     "\<forall>y. is_node (conds q) y \<longleftrightarrow> y \<noteq> x \<and> is_node (conds p) y"
     "\<forall>k. is_link (conds q) k = is_link (conds p) k" "\<forall>k. is_link (tm (wd q)) k = is_link (tm (wd p)) k"
    using leave_unlinked [OF K n A] by blast
  then have "left_by x (CondWaiter s) p q" by (auto simp: left_by_def waiter_span_def)
  then show ?thesis using q(1,2) by (auto simp: finish_wait_def)
qed

lemma finish_rest:
  assumes ok: "objs_ok ctx p A C W" and x: "W x = Some v" and A: "\<not> linked A x"
    and Q: "\<And>y. linked A y \<Longrightarrow> W y \<noteq> None" "\<And>y. linked C y \<Longrightarrow> \<exists>s. W y = Some (CondWaiter s)"
      "\<And>y u. W y = Some u \<Longrightarrow> y \<noteq> x \<Longrightarrow> y \<in> queued ctx p A \<or> (\<exists>s. u = CondWaiter s) \<and> linked C y"
    and Wk: "\<And>y. W y \<noteq> None \<Longrightarrow> y \<noteq> x \<Longrightarrow> y \<in> detached p \<Longrightarrow> y \<in> set (A (active_of ctx p))"
  shows "\<exists>q C'. finish_wait ctl ctx x v p = Some q \<and> rest_ok ctx q A C' (W(x := None)) \<and> wd q = (wd p)\<lparr>tm := tm (wd q)\<rparr>"
proof -
  from ok have K: "cond_ok ctx p A C" and fresh: "fresh_above p" "fresh_conds p" "\<And>a. brk (wd p) \<le> a \<Longrightarrow> links (conds p) a = None"
    and ws: "\<And>y u. W y = Some u \<Longrightarrow> waiter_ok p y u" and spans: "spans_ok (brk (wd p)) W"
    and reg: "may_report (ctls p) \<subseteq> registrations W"
    by (auto simp: objs_ok_def)
  have R: "repr (conds p) C" using K by (simp add: cond_ok_def)
  obtain q C' where q: "finish_wait ctl ctx x v p = Some q" "cond_ok ctx q A C'" "left_by x v p q"
    and C': "\<And>y. linked C' y \<longleftrightarrow> linked C y \<and> y \<noteq> x"
  proof (cases v)
    case (PollWaiter s u)
    have "y \<noteq> x" if "linked C y" for y using Q(2) [OF that] x PollWaiter by auto
    moreover have "W x = Some (PollWaiter s u)" using x PollWaiter by simp
    ultimately show thesis using finish_poll [OF ok _ A Q(1,2)] that [of _ C] PollWaiter by blast
  next
    case (CondWaiter s)
    have "linked (\<lambda>lk. remove1 x (C lk)) y \<longleftrightarrow> linked C y \<and> y \<noteq> x" for y
      using repr_distinct [OF R] by (auto simp: linked_def)
    moreover have "W x = Some (CondWaiter s)" using x CondWaiter by simp
    ultimately show thesis using finish_cond [OF ok _ A] that [of _ "\<lambda>lk. remove1 x (C lk)"] CondWaiter by blast
  qed
  from q(3) have wd: "wd q = (wd p)\<lparr>tm := tm (wd q)\<rparr>"
    and out: "\<And>a. a \<notin> waiter_span x v \<Longrightarrow> payload (tm (wd q)) a = payload (tm (wd p)) a \<and> pitems q a = pitems p a \<and>
        polls q a = polls p a \<and> is_node (conds q) a = is_node (conds p) a"
    and lk: "\<And>k. is_link (tm (wd q)) k = is_link (tm (wd p)) k" "\<And>k. is_link (conds q) k = is_link (conds p) k"
    and ctl: "may_report (ctls q) \<subseteq> may_report (ctls p) - {(d, a). \<exists>s u. v = PollWaiter s u \<and> (\<exists>f \<in> set u. - 1 < pfd f \<and> d = pfd f)}"
    unfolding left_by_def by blast+
  have b: "brk (wd q) = brk (wd p)" "epolls (wd q) = epolls (wd p)" "timeouts (wd q) = timeouts (wd p)"
    by (subst wd, simp)+
  have same: "queued ctx q A = queued ctx p A"
    by (simp add: queued_def active_of_def waiting_def wheel_of_def b)
  have high: "a \<notin> waiter_span x v" if "brk (wd p) \<le> a" for a
    using spans x that by (fastforce simp: spans_ok_def waiter_span_def)
  have none: "payload (tm (wd q)) a = None" "links (tm (wd q)) a = None" "polls q a = None" "pitems q a = None"
    "nodes (conds q) a = None" "links (conds q) a = None" if a: "brk (wd p) \<le> a" for a
    using out [OF high [OF a]] fresh(1,2) fresh(3) [OF a] lk [of a] a
    by (auto simp: fresh_above_def fresh_conds_def payload_def is_node_def is_link_def)
  have f: "fresh_above q" "fresh_conds q" using none b(1) by (auto simp: fresh_above_def fresh_conds_def payload_def)
  have apart: "a \<notin> waiter_span x v" if "W y = Some u" "y \<noteq> x" "a \<in> waiter_span y u" for y u a
    using spans x that unfolding spans_ok_def by blast
  have wok: "waiter_ok q y u" if y: "W y = Some u" "y \<noteq> x" for y u
  proof -
    have "y + j \<notin> waiter_span x v" if "j \<le> waiter_width u" for j
      by (rule apart [OF y]) (use that in \<open>simp add: waiter_span_def\<close>)
    note o = out [OF this] and o0 = out [OF this [of 0]]
    show ?thesis by (rule waiter_ok_cong [OF ws [OF y(1)]]) (use o o0 in auto)
  qed
  have sp: "spans_ok (brk (wd q)) (W(x := None))"
    using spans unfolding spans_ok_def b by (simp split: if_splits)
  have "z \<in> registrations (W(x := None))" if z: "z \<in> may_report (ctls q)" for z
  proof -
    obtain y s u j where y: "W y = Some (PollWaiter s u)" "j < length u" "- 1 < pfd (u ! j)" "z = (pfd (u ! j), y + 1 + j)"
      using z ctl reg registrationsE by blast
    have "y \<noteq> x"
    proof
      assume "y = x"
      then have "v = PollWaiter s u" using x y(1) by simp
      moreover have "u ! j \<in> set u" using y(2) by simp
      ultimately show False using z ctl y(3,4) by blast
    qed
    then show ?thesis unfolding y(4) by (intro registrationsI [of _ y s u j]) (use y in simp_all)
  qed
  then have "objs_ok ctx q A C' (W(x := None))"
    using q(2) f none(6) wok sp b(1) by (auto simp: objs_ok_def)
  moreover have "queues_ok ctx q A C' (W(x := None))"
    unfolding queues_ok_def same
  proof (intro conjI allI impI)
    fix y u assume "(W(x := None)) y = Some u"
    then have "W y = Some u" "y \<noteq> x" by (auto split: if_splits)
    then show "y \<in> queued ctx p A \<or> (\<exists>s. u = CondWaiter s) \<and> linked C' y" using Q(3) C' by blast
  next
    fix y assume "linked A y"
    then show "(W(x := None)) y \<noteq> None" using Q(1) A by auto
  next
    fix y assume "linked C' y"
    then show "\<exists>s. (W(x := None)) y = Some (CondWaiter s)" using Q(2) C' by auto
  qed
  moreover have "woken_ok ctx q A (W(x := None))"
    unfolding woken_ok_def
  proof (intro allI impI)
    fix y assume y: "(W(x := None)) y \<noteq> None" "y \<in> detached q"
    then obtain u where u: "W y = Some u" "y \<noteq> x" by (auto split: if_splits)
    have "y \<notin> waiter_span x v" by (rule apart [OF u]) (simp add: waiter_span_def)
    then have "y \<in> detached p" using y(2) out by (auto simp: detached_def)
    then show "y \<in> set (A (active_of ctx q))" using Wk [of y] u by (simp add: active_of_def b)
  qed
  ultimately show ?thesis using q(1) wd by (auto simp: rest_ok_def)
qed

lemma turn_ok:
  assumes ok: "sys_ok env ctx (p, W)" and room: "length (thread_calls env (wd p)) < 128"
    and fr: "frame_ok fr (running env (wd p)) (wd p)" and first: "first_active ctx p = Some x"
  shows "\<exists>v q. W x = Some v \<and>
     serve (process_item fr (\<lambda>co. finish_wait ctl ctx x v)) (active_of ctx p) x p = Some q \<and>
     sys_ok env ctx (q, W(x := None)) \<and> thread_calls env (wd q) = thread_calls env (wd p) @ [waiter_co v]"
proof -
  from ok obtain A C where inv: "thread_inv env (wd p)" and pk: "parked env (wd p) W" and rest: "rest_ok ctx p A C W"
    by (auto simp: sys_ok_def)
  note D = rest_okD [OF rest]
  let ?a = "active_of ctx p"
  have R: "repr (tm (wd p)) A" using loop_ok_active [OF D(2)] by simp
  obtain l where l: "links (tm (wd p)) ?a = Some l" "head l = Some x"
    using first by (auto simp: first_active_def bind_eq_Some_conv)
  then have "fst_or (A ?a) None = Some x" using repr_list_ok [OF R l(1)] by (auto simp: list_ok_def)
  then obtain xs where Aa: "A ?a = x # xs" by (cases "A ?a") auto
  have "linked A x" using Aa by (auto simp: linked_def intro: exI [of _ ?a])
  then obtain v where v: "W x = Some v" using D(10) unfolding queues_ok_def by blast
  obtain m where m: "PopHead ?a (tm (wd p)) = Some m" "same_data (tm (wd p)) m"
     "loop_ok ctx (p\<lparr>wd := (wd p)\<lparr>tm := m\<rparr>\<rparr>) (A(?a := xs))"
     "waiting ctx (p\<lparr>wd := (wd p)\<lparr>tm := m\<rparr>\<rparr>) (A(?a := xs)) = waiting ctx p A"
    using pop_active [OF D(2) Aa] by blast
  let ?p = "p\<lparr>wd := (wd p)\<lparr>tm := m\<rparr>\<rparr>" and ?A = "A(?a := xs)"
  have pay: "payload m = payload (tm (wd p))" by (rule same_data_payload [OF m(2)])
  have un: "\<not> linked ?A x"
    using repr_distinct [OF R, of ?a] lists.rep_disjoint [OF R, of x _ ?a] Aa by (auto simp: linked_def split: if_splits)
  have sub: "linked A y" if "linked ?A y" for y
    using that Aa unfolding linked_def by (auto split: if_splits intro: exI [of _ ?a])
  have act: "active_of ctx ?p = ?a" by (simp add: active_of_def)
  have qd: "queued ctx p A = insert x (queued ctx ?p ?A)"
    unfolding queued_def act m(4) Aa by simp
  have "objs_ok ctx ?p ?A C W"
  proof -
    have K: "cond_ok ctx ?p ?A C"
      using m(3) D(3,4,12) pay by (auto simp: cond_ok_def is_node_payload)
    have "links m a = None" if "links (tm (wd p)) a = None" for a
      using lists.same_islink [OF m(2), of a] that by (simp add: is_link_def)
    moreover have "nodes m a = None" if "nodes (tm (wd p)) a = None" for a
      using fun_cong [OF pay, of a] that by (simp add: payload_def)
    ultimately have "fresh_above ?p" "fresh_conds ?p"
      using D(5,6) by (simp_all add: fresh_above_def fresh_conds_def)
    moreover have "waiter_ok ?p y u" if "W y = Some u" for y u
      by (rule waiter_ok_cong [OF D(8) [OF that]]) (auto simp: pay)
    ultimately show ?thesis using K D(7,9,11) by (simp add: objs_ok_def)
  qed
  note objs = this
  from pk v obtain r where r: "cos (wd p) (waiter_co v) = Some r" "\<not> cEnd r" "waiter_co v \<notin> set (thread_calls env (wd p))"
    unfolding parked_def by blast
  have invp: "thread_inv env (wd ?p)" using thread_quiet(1) [OF inv, where m = m and t = "timeouts (wd p)"] by simp
  obtain w where w: "co_resume fr (waiter_co v) (wd ?p) = Some w" "thread_inv env w"
    "thread_calls env w = thread_calls env (wd ?p) @ [waiter_co v]"
  proof -
    have c: "thread_calls env (wd ?p) = thread_calls env (wd p)" "running env (wd ?p) = running env (wd p)"
      "cos (wd ?p) (waiter_co v) = Some r" using r(1) by (simp_all add: running_def)
    have "frame_ok fr (running env (wd ?p)) (wd ?p)" unfolding c using fr by (simp add: frame_ok_def)
    then show thesis
      using resume_ok [OF invp c(3) r(2) r(3) [folded c(1)] room [folded c(1)]] that by blast
  qed
  have kept: "kept (wd ?p) w" by (rule kept_resume [OF w(1)])
  let ?q = "?p\<lparr>wd := w\<rparr>"
  have objs': "objs_ok ctx ?q ?A C W" by (rule objs_quiet [OF objs kept_quiet [OF kept]])
  have same: "queued ctx ?q ?A = queued ctx ?p ?A"
    using kept loop_cong [of ?q ?p] by (simp add: kept_def queued_def)
  have "\<exists>q C'. finish_wait ctl ctx x v ?q = Some q \<and> rest_ok ctx q ?A C' (W(x := None)) \<and> wd q = (wd ?q)\<lparr>tm := tm (wd q)\<rparr>"
  proof (rule finish_rest [OF objs' v un])
    show "W y \<noteq> None" if "linked ?A y" for y using sub [OF that] D(10) unfolding queues_ok_def by blast
    show "\<exists>s. W y = Some (CondWaiter s)" if "linked C y" for y using that D(10) unfolding queues_ok_def by blast
    show "y \<in> queued ctx ?q ?A \<or> (\<exists>s. u = CondWaiter s) \<and> linked C y" if "W y = Some u" "y \<noteq> x" for y u
      using that D(10) qd unfolding queues_ok_def same by blast
    have act': "active_of ctx ?q = ?a" using kept by (simp add: active_of_def kept_def)
    show "y \<in> set (?A (active_of ctx ?q))" if "W y \<noteq> None" "y \<noteq> x" "y \<in> detached ?q" for y
      using that D(14) Aa unfolding act' by (auto simp: woken_ok_def detached_def)
  qed
  then obtain q C' where q: "finish_wait ctl ctx x v ?q = Some q" "rest_ok ctx q ?A C' (W(x := None))"
    "wd q = w\<lparr>tm := tm (wd q)\<rparr>" by auto
  have pl: "\<exists>n. nodes m x = Some n \<and> pArg n = Some (waiter_co v) \<and>
      (pfnProcess n = OnPollProcess \<or> pfnProcess n = OnSignalProcess)"
    using D(8) [OF v] unfolding waiter_ok_def pay [symmetric] by (cases v) (auto simp: payload_Some)
  have "serve (process_item fr (\<lambda>co. finish_wait ctl ctx x v)) ?a x p = Some q"
    using m(1) pl w(1) q(1)
    by (auto simp: serve_def on_tm_def process_item_def OnPollProcessEvent_def OnSignalProcessEvent_def resume_pArg_def)
  moreover have "sys_ok env ctx (q, W(x := None))"
  proof -
    have co: "cos (wd q) = cos w" "thread_calls env (wd q) = thread_calls env w" by (subst q(3), simp)+
    have "thread_inv env (wd q)"
      using thread_quiet(1) [OF w(2), where m = "tm (wd q)" and t = "timeouts w"] by (subst q(3)) simp
    moreover have "parked env (wd q) (W(x := None))"
      unfolding parked_def
    proof (intro conjI allI impI)
      fix y u assume "(W(x := None)) y = Some u"
      then have y: "W y = Some u" "y \<noteq> x" by (auto split: if_splits)
      then have "waiter_co u \<noteq> waiter_co v" using pk v unfolding parked_def by blast
      then show "waiter_co u \<notin> set (thread_calls env (wd q))" using pk y(1) by (auto simp: co w(3) parked_def)
      obtain r where r: "cos (wd ?p) (waiter_co u) = Some r" "\<not> cEnd r"
        using pk y(1) unfolding parked_def by fastforce
      show "\<exists>r. cos (wd q) (waiter_co u) = Some r \<and> \<not> cEnd r"
        using kept_alive [OF kept r(1)] r(2) by (auto simp: co)
    next
      fix y z u t assume "(W(x := None)) y = Some u" "(W(x := None)) z = Some t" "waiter_co u = waiter_co t"
      then show "y = z" using pk unfolding parked_def by (auto split: if_splits)
    qed
    ultimately show ?thesis using q(2) by (auto simp: sys_ok_def)
  qed
  moreover have "thread_calls env (wd q) = thread_calls env (wd p) @ [waiter_co v]"
    by (subst q(3)) (simp add: w(3))
  ultimately show ?thesis using v by blast
qed

section \<open>Every reachable state\<close>

lemma running_is_current:
  assumes "thread_inv env w"
  shows "co_self w = Some (Some (running env w))" "GetCurrThreadCo w = Some (Some (running env w))"
    "cos w (running env w) \<noteq> None" "co_yield_ct fr w = co_yield_env fr env w"
proof -
  obtain e where e: "calls_ok w e" "thread_calls env w = calls e" "in_thread env w" using assms by (rule thread_invD)
  show "cos w (running env w) \<noteq> None"
    using running_calls [OF e(1)] e(1,2) by (auto simp: running_def calls_ok_def)
  show "GetCurrThreadCo w = Some (Some (running env w))" using current_co [OF assms] by simp
  then show "co_self w = Some (Some (running env w))" by (simp add: co_self_def)
  show "co_yield_ct fr w = co_yield_env fr env w" using e(3) by (simp add: co_yield_ct_def in_thread_def)
qed

lemma sys_step_ok:
  assumes st: "sys_step ctl env ctx s t" and ok: "sys_ok env ctx s"
  shows "sys_ok env ctx t"
  using st
proof (cases rule: sys_step.cases)
  case (poll p fr now timeout ufds hasf arg q w W)
  from ok poll(1) obtain A C where inv: "thread_inv env (wd p)" and rest: "rest_ok ctx p A C W" by (auto simp: sys_ok_def)
  obtain q' A' where q': "co_poll_enter ctl now ctx ufds timeout hasf p = Some (PollYield (brk (wd p)), q')"
    "rest_ok ctx q' A' C (W(brk (wd p) \<mapsto> PollWaiter (running env (wd p)) ufds))"
    "wd q' = (wd p)\<lparr>brk := brk (wd p) + (1 + max 1 (length ufds)), tm := tm (wd q'), timeouts := timeouts (wd q')\<rparr>"
    using enter_rest [OF rest poll(5-7) running_is_current(1,3) [OF inv] poll(8), of ctl] by (auto simp: add.assoc)
  then have eq: "arg = brk (wd p)" "q = q'" using poll(9) by simp_all
  show ?thesis
    using sys_yield [OF ok [unfolded poll(1)] poll(3,4) q'(3,2)] rest_okD(13) [OF rest order_refl] poll(2,10)
    unfolding eq by auto
next
  case (wait p fr link ms now psi q w W)
  from ok wait(1) obtain A C where inv: "thread_inv env (wd p)" and rest: "rest_ok ctx p A C W" by (auto simp: sys_ok_def)
  obtain q' A' C' where q': "co_cond_timedwait_enter now link ms p = Some (Inr (brk (wd p)), q')"
    "rest_ok ctx q' A' C' (W(brk (wd p) \<mapsto> CondWaiter (running env (wd p))))"
    "wd q' = (wd p)\<lparr>brk := brk (wd p) + 1, tm := tm (wd q'), timeouts := timeouts (wd q')\<rparr>"
    using wait_rest [OF rest wait(5) running_is_current(2) [OF inv] wait(6)] by blast
  then have eq: "psi = brk (wd p)" "q = q'" using wait(7) by simp_all
  have "thread_inv env (wd q')" using thread_quiet(1) [OF thread_quiet(2) [OF inv]] by (subst q'(3)) 
  then have "co_yield_ct fr (wd q') = co_yield_env fr env (wd q')" by (rule running_is_current(4))
  then show ?thesis
    using sys_yield [OF ok [unfolded wait(1)] wait(3,4) q'(3,2)] rest_okD(13) [OF rest order_refl] wait(2,8)
    unfolding eq by auto
next
  case (signal p si ret q W)
  from ok signal(1) obtain A C where rest: "rest_ok ctx p A C W" by (auto simp: sys_ok_def)
  then show ?thesis
    using signal_rest(1) [OF rest signal(3)] signal(2,4) sys_tm [OF ok [unfolded signal(1)] tm_only] by auto
next
  case (broadcast p si ret q W)
  from ok broadcast(1) obtain A C where rest: "rest_ok ctx p A C W" by (auto simp: sys_ok_def)
  then show ?thesis
    using signal_rest(2) [OF rest broadcast(3)] broadcast(2,4) sys_tm [OF ok [unfolded broadcast(1)] tm_only] by auto
next
  case (cond_alloc p cc q W)
  then show ?thesis using sys_cond_alloc [of env ctx p W] ok by simp
next
  case (collect p now evs q W)
  from ok collect(1) obtain A C where rest: "rest_ok ctx p A C W" by (auto simp: sys_ok_def)
  then show ?thesis
    using collect_rest [OF rest collect(3-5)] collect(2,6) sys_tm [OF ok [unfolded collect(1)]] by auto
next
  case (turn p fr x W v q)
  then show ?thesis using turn_ok [OF ok [unfolded turn(1)] turn(3-5), of ctl] by auto
next
  case (thread p w W)
  then show ?thesis using sys_thread [OF ok [unfolded thread(1)]] by simp
qed

interpretation sys: preserved "sys_step ctl env ctx" "sys_ok env ctx" for ctl env ctx
  by unfold_locales (rule sys_step_ok)

end
