(* ===== verification/Runs.thy ===== *)
theory Runs
  imports System
begin

text \<open>
  The runs of a thread from \<open>co_init_curr_thread_env\<close> on: what holds in every state that the steps of theory
  \<open>System\<close> reach, and a run that reaches a waiting coroutine.
\<close>

section \<open>The states reached from a fresh thread\<close>

text \<open>The process after \<open>co_init_curr_thread_env\<close>, and the address of the epoll object it has made.\<close>

definition boot_proc :: "world \<Rightarrow> proc" where
  "boot_proc w = \<lparr>wd = w, polls = Map.empty, pitems = Map.empty, conds = \<lparr>nodes = Map.empty, links = Map.empty\<rparr>,
     ctls = [], errno = 0\<rparr>"

definition boot_ctx :: "addr \<Rightarrow> addr" where
  "boot_ctx b = b + 131075"

definition sys_reachable :: "kernel_ctl \<Rightarrow> addr \<Rightarrow> world \<Rightarrow> proc \<Rightarrow> waiters \<Rightarrow> bool" where
  "sys_reachable ctl b w p W \<longleftrightarrow> (sys_step ctl b (boot_ctx b))\<^sup>*\<^sup>* (boot_proc w, Map.empty) (p, W)"

lemma boot_epoll:
  assumes "0 \<le> t" "t < 204800" "co_init_curr_thread_env efd tick (empty_world t b) = Some w"
  shows "epolls w = [b + 131075 \<mapsto> \<lparr>iEpollFd = efd, pTimeout = b + 131076, pstTimeoutList = b + 191078,
      pstActiveList = b + 191077, epoll_result = False\<rparr>]"
    "timeouts w = [b + 131076 \<mapsto> \<lparr>pItems = b + 131077, iItemSize = 60000, ullStart = tick, llStartIdx = 0\<rparr>]"
    "nodes (tm w) = Map.empty"
    "links (tm w) = (\<lambda>a. if b + 131077 \<le> a \<and> a < b + 191079 then Some \<lparr>head = None, tail = None\<rparr> else None)"
    "envs w b = Some (main_env b)" "brk w = b + 191079" "tid w = t" "g_arrCoEnvPerThread w = (\<lambda>_. None)(t := Some b)"
    "mains w (b + 1)"
proof -
  let ?E = "[b + 131075 \<mapsto> \<lparr>iEpollFd = efd, pTimeout = b + 131076, pstTimeoutList = b + 191078,
      pstActiveList = b + 191077, epoll_result = False\<rparr>]"
    and ?T = "[b + 131076 \<mapsto> \<lparr>pItems = b + 131077, iItemSize = 60000, ullStart = tick, llStartIdx = 0\<rparr>]"
  have "to_s32 131072 = 131072" by (rule to_s32_id) (simp add: in_s32_def)
  then have w: "epolls w = ?E \<and> timeouts w = ?T \<and> nodes (tm w) = Map.empty \<and>
    links (tm w) = (\<lambda>a. if b + 131077 \<le> a \<and> a < b + 191077 then Some \<lparr>head = None, tail = None\<rparr> else None)
      (b + 191077 \<mapsto> \<lparr>head = None, tail = None\<rparr>, b + 191078 \<mapsto> \<lparr>head = None, tail = None\<rparr>)"
    using assms
    by (auto simp: co_init_curr_thread_env_def malloc_def empty_world_def co_create_env_def default_attr_def
        normal_stack_size_def alloc_stackmem_eq set_co_def push_call_def AllocEpoll_def AllocTimeout_def SetEpoll_def
        set_env_def Let_def)
  then show "epolls w = ?E" "timeouts w = ?T" "nodes (tm w) = Map.empty" by blast+
  from w have lk: "links (tm w) = (\<lambda>a. if b + 131077 \<le> a \<and> a < b + 191077 then Some \<lparr>head = None, tail = None\<rparr> else None)
      (b + 191077 \<mapsto> \<lparr>head = None, tail = None\<rparr>, b + 191078 \<mapsto> \<lparr>head = None, tail = None\<rparr>)" by blast
  show "links (tm w) = (\<lambda>a. if b + 131077 \<le> a \<and> a < b + 191079 then Some \<lparr>head = None, tail = None\<rparr> else None)"
    unfolding lk by (rule ext) auto
  show "envs w b = Some (main_env b)" "brk w = b + 191079" "tid w = t" "g_arrCoEnvPerThread w = (\<lambda>_. None)(t := Some b)"
    "mains w (b + 1)"
  proof -
    obtain w2 where w2: "co_init_curr_thread_env efd tick (empty_world t b) = Some w2"
      "cos w2 = [b + 1 \<mapsto> main_co b]" "stacks w2 = [b + 2 \<mapsto> main_stack b]" "envs w2 = [b \<mapsto> main_env b]"
      "shares w2 = Map.empty" "bufs w2 = Map.empty" "tid w2 = t" "g_arrCoEnvPerThread w2 = (\<lambda>_. None)(t := Some b)"
      "brk w2 = b + 191079" "mem w2 = (\<lambda>_. 0)"
      using init_eq [OF assms(1,2)] .
    have "w2 = w" using w2(1) assms(3) by simp
    then show "envs w b = Some (main_env b)" "brk w = b + 191079" "tid w = t" "g_arrCoEnvPerThread w = (\<lambda>_. None)(t := Some b)"
      "mains w (b + 1)"
      using w2(2,4,7,8,9) by (simp_all add: mains_def main_co_def)
  qed
qed

lemma empty_wheel:
  assumes "repr m (\<lambda>_. [])" "0 < iItemSize t" "iItemSize t \<le> 2 ^ 30" "llStartIdx t = 0"
    and "\<And>k. is_slot t k \<Longrightarrow> is_link m k"
  shows "wheel_inv t m (\<lambda>_. [])"
  using assms by (simp add: wheel_inv_def)

lemma boot_ok:
  assumes "0 \<le> t" "t < 204800" "co_init_curr_thread_env efd tick (empty_world t b) = Some w"
  shows "sys_ok b (boot_ctx b) (boot_proc w, Map.empty)"
proof -
  note B = boot_epoll [OF assms]
  let ?p = "boot_proc w" and ?A = "\<lambda>_ :: addr. [] :: addr list"
  let ?t = "\<lparr>pItems = b + 131077, iItemSize = 60000, ullStart = tick, llStartIdx = 0\<rparr>"
  have "repr (tm w) ?A" by (auto simp: repr_def list_ok_def B)
  then have "wheel_inv ?t (tm w) ?A" by (rule empty_wheel) (simp_all add: is_slot_def is_link_def B)
  then have L: "loop_ok (boot_ctx b) ?p ?A"
    by (simp add: loop_ok_def boot_proc_def B boot_ctx_def is_link_def is_slot_def)
  have "repr (conds ?p) ?A" by (simp add: boot_proc_def repr_def)
  moreover have "curr_epoll w = epolls w (boot_ctx b)"
    using assms(1,2) B by (simp add: curr_epoll_def co_get_curr_thread_env_def boot_ctx_def main_env_def)
  ultimately have "cond_ok (boot_ctx b) ?p ?A ?A" using L by (simp add: cond_ok_def boot_proc_def)
  then have "rest_ok (boot_ctx b) ?p ?A ?A Map.empty"
    by (simp add: rest_ok_def objs_ok_def queues_ok_def woken_ok_def linked_def spans_ok_def fresh_above_def fresh_conds_def
        boot_proc_def B)
  then show ?thesis using init_inv(1) [OF assms] by (auto simp: sys_ok_def boot_proc_def parked_def)
qed

lemma reachable_ok:
  assumes "0 \<le> t" "t < 204800" "co_init_curr_thread_env efd tick (empty_world t b) = Some w" "sys_reachable ctl b w p W"
  shows "sys_ok b (boot_ctx b) (p, W)"
  by (rule sys.reached [OF assms(4) [unfolded sys_reachable_def] boot_ok [OF assms(1-3)]])


text \<open>
  C3: a woken coroutine runs. In every reachable state the first item of the active list belongs to a coroutine that
  waits; the turn of the loop resumes it, and the rest of its \<open>co_poll\<close> or \<open>co_cond_timedwait\<close> runs to its end, with the
  coroutine on top of the call stack and its waiter gone.
\<close>
theorem woken_coroutine_runs:
  assumes "0 \<le> t" "t < 204800" "co_init_curr_thread_env efd tick (empty_world t b) = Some w"
    and "sys_reachable ctl b w p W" and "first_active (boot_ctx b) p = Some x"
    and "length (thread_calls b (wd p)) < 128" "frame_ok fr (running b (wd p)) (wd p)"
  shows "\<exists>v q. W x = Some v \<and>
     serve (process_item fr (\<lambda>co. finish_wait ctl (boot_ctx b) x v)) (active_of (boot_ctx b) p) x p = Some q \<and>
     sys_reachable ctl b w q (W(x := None)) \<and> thread_calls b (wd q) = thread_calls b (wd p) @ [waiter_co v]"
proof -
  obtain v q where v: "W x = Some v"
     "serve (process_item fr (\<lambda>co. finish_wait ctl (boot_ctx b) x v)) (active_of (boot_ctx b) p) x p = Some q"
     "thread_calls b (wd q) = thread_calls b (wd p) @ [waiter_co v]"
    using turn_ok [OF reachable_ok [OF assms(1-4)] assms(6,7,5), of ctl] by blast
  have "sys_step ctl b (boot_ctx b) (p, W) (q, W(x := None))"
    by (rule sys_step.turn) (fact assms(6,7,5) v(1,2))+
  then have "sys_reachable ctl b w q (W(x := None))"
    using assms(4) unfolding sys_reachable_def by (rule rtranclp.rtrancl_into_rtrancl [rotated])
  then show ?thesis using v by blast
qed

text \<open>
  C4: nobody waits in vain. In every reachable state every waiting coroutine is alive, off the call stack and waits
  for one thing; a poll is on the active list or among the waiting items of the timer, which means that its timeout or
  an event will resume it; a waiter of a condition variable is there or in the variable's queue; and the lists
  hold nothing but the waiters.
\<close>
theorem waiters_are_queued:
  assumes "0 \<le> t" "t < 204800" "co_init_curr_thread_env efd tick (empty_world t b) = Some w"
    and "sys_reachable ctl b w p W"
  shows "\<exists>A C. loop_ok (boot_ctx b) p A \<and> repr (conds p) C \<and> thread_inv b (wd p) \<and>
     (\<forall>x v. W x = Some v \<longrightarrow> waiter_co v \<notin> set (thread_calls b (wd p)) \<and>
        (\<exists>r. cos (wd p) (waiter_co v) = Some r \<and> \<not> cEnd r) \<and>
        (x \<in> set (A (active_of (boot_ctx b) p)) \<or> x \<in> set (waiting (boot_ctx b) p A) \<or>
         (\<exists>s cc. v = CondWaiter s \<and> x \<in> set (C cc))) \<and>
        (\<forall>y u. W y = Some u \<longrightarrow> waiter_co u = waiter_co v \<longrightarrow> y = x)) \<and>
     (\<forall>k x. x \<in> set (A k) \<longrightarrow> W x \<noteq> None) \<and> (\<forall>cc x. x \<in> set (C cc) \<longrightarrow> (\<exists>s. W x = Some (CondWaiter s)))"
proof -
  obtain A C where rest: "rest_ok (boot_ctx b) p A C W" and pk: "parked b (wd p) W" and inv: "thread_inv b (wd p)"
    using reachable_ok [OF assms] by (auto simp: sys_ok_def)
  note D = rest_okD [OF rest]
  have "x \<in> set (A (active_of (boot_ctx b) p)) \<or> x \<in> set (waiting (boot_ctx b) p A) \<or>
         (\<exists>s cc. v = CondWaiter s \<and> x \<in> set (C cc))" if "W x = Some v" for x v
    using that D(10) unfolding queues_ok_def queued_def linked_def by blast
  moreover have "W x \<noteq> None" if "x \<in> set (A k)" for k x
    using that D(10) unfolding queues_ok_def linked_def by blast
  moreover have "\<exists>s. W x = Some (CondWaiter s)" if "x \<in> set (C cc)" for cc x
    using that D(10) unfolding queues_ok_def linked_def by blast
  ultimately show ?thesis
    using D(2,3) pk inv unfolding parked_def by (intro exI [of _ A] exI [of _ C]) blast
qed


section \<open>A run\<close>

text \<open>
  On a fresh thread: the main coroutine creates a coroutine and resumes it, and it polls descriptor 3 for 3
  milliseconds.
\<close>

lemma create_alive: "co_create_env env attr pfn arg w = Some (lp, w') \<Longrightarrow> \<exists>r. cos w' lp = Some r \<and> \<not> cEnd r"
proof -
  define spec where "spec = replicate 1024 (0 :: u64)"
  assume "co_create_env env attr pfn arg w = Some (lp, w')"
  then show ?thesis
    unfolding co_create_env_def spec_def [symmetric]
    by (auto simp: malloc_def Let_def bind_eq_Some_conv split: option.splits prod.splits if_split_asm)
qed

lemma frame_exists:
  assumes "thread_inv env w" "cos w c = Some r"
  shows "\<exists>fr. frame_ok fr c w"
proof -
  have "stacks_ok w" using assms(1) by (auto elim!: thread_invD dest: core_invD(1))
  then have "\<exists>a. \<forall>q s. stack_mem r = Some q \<longrightarrow> stacks w q = Some s \<longrightarrow> stack_buffer s \<le> a \<and> a \<le> stack_bp s"
    unfolding stacks_ok_def
    by (cases "stack_mem r"; cases "stacks w (the (stack_mem r))") (auto intro!: exI [of _ "stack_buffer _"])
  then obtain a where "\<forall>q s. stack_mem r = Some q \<longrightarrow> stacks w q = Some s \<longrightarrow> stack_buffer s \<le> a \<and> a \<le> stack_bp s" ..
  then have "frame_ok \<lparr>c_addr = a, call_regs = []\<rparr> c w" using assms(2) by (simp add: frame_ok_def)
  then show ?thesis ..
qed

definition fd3 :: "pollfd list" where
  "fd3 = [\<lparr>pfd = 3, pevents = 1, prevents = 0\<rparr>]"

lemma demo_run:
  obtains w p x s where "co_init_curr_thread_env 9 1000 (empty_world 7 100) = Some w"
    "sys_reachable ctl 100 w p [x \<mapsto> PollWaiter s fd3]"
    "wheel_of (boot_ctx 100) p = \<lparr>pItems = 131177, iItemSize = 60000, ullStart = 1000, llStartIdx = 0\<rparr>"
    "reportable p \<lparr>ev_events = 1, ev_ptr = Some (x + 1)\<rparr>" "thread_calls 100 (wd p) = [101]" "mains (wd p) 101"
proof -
  obtain w where w: "co_init_curr_thread_env 9 1000 (empty_world 7 100) = Some w"
    using init_eq [of 7 9 1000 100] by auto
  have t: "0 \<le> (7 :: int)" "(7 :: int) < 204800" by simp_all
  note B = boot_epoll [OF t w] and I = init_inv [OF t w]
  let ?c = "boot_ctx 100"
  have step1: "sys_reachable ctl 100 w (boot_proc w) Map.empty" by (simp add: sys_reachable_def)
  have at: "attr_ok w None" by (simp add: attr_ok_def)
  obtain lp w1 where w1: "co_create_env 100 None None 0 w = Some (lp, w1)" "thread_inv 100 w1" "thread_calls 100 w1 = thread_calls 100 w"
    by (rule create_ok [OF I(1) at, where pfn = None and arg = 0]) (rule that)
  have q1: "quiet w w1" "\<forall>c. c \<noteq> lp \<longrightarrow> cos w1 c = cos w c" "lp = brk w" by (rule quiet_create [OF w1(1)])+
  have st1: "thread_step 100 w w1" by (rule thread_step.create [OF at w1(1)])
  obtain r where r: "cos w1 lp = Some r" "\<not> cEnd r" using create_alive [OF w1(1)] by blast
  have calls1: "thread_calls 100 w1 = [101]" using w1(3) I(2) by simp
  have lp: "lp = 191179" using q1(3) B(6) by simp
  have main1: "mains w1 101" using B(9) q1(2) lp by (simp add: mains_def)
  define fr where "fr = \<lparr>c_addr = 0, call_regs = []\<rparr>"
  obtain w2 where w2: "co_resume fr lp w1 = Some w2" "thread_inv 100 w2" "thread_calls 100 w2 = [101, lp]" "kept w1 w2"
    using resume_from_main [OF w1(2) calls1 main1 _ r, of fr] lp by auto
  have "frame_ok fr (running 100 w1) w1" using main1 by (auto simp: frame_ok_def mains_def running_def calls1)
  then have "switch_step 100 fr w1 w2"
    using switch_step.resume [of w1 lp r 100 fr w2] r w2(1) lp by (simp add: calls1)
  then have st2: "thread_step 100 w1 w2" by (rule thread_step.switch)
  have u: "wd (boot_proc v) = v" "(boot_proc v)\<lparr>wd := v'\<rparr> = boot_proc v'" for v v' by (simp_all add: boot_proc_def)
  have threads: "sys_reachable ctl 100 w (boot_proc v') Map.empty"
    if "sys_reachable ctl 100 w (boot_proc v) Map.empty" "thread_step 100 v v'" for v v'
  proof -
    have "sys_step ctl 100 ?c (boot_proc v, Map.empty) ((boot_proc v)\<lparr>wd := v'\<rparr>, Map.empty)"
      by (rule sys_step.thread) (simp_all add: u that(2) waiting_cos_def)
    then show ?thesis using that(1) unfolding sys_reachable_def u by (rule rtranclp.rtrancl_into_rtrancl [rotated])
  qed
  have reach2: "sys_reachable ctl 100 w (boot_proc w2) Map.empty"
    by (rule threads [OF threads [OF step1 st1] st2])
  have q2: "quiet w w2" using q1(1) w2(4) kept_quiet quiet_trans by blast
  let ?p = "boot_proc w2"
  have wh: "wheel_of ?c ?p = \<lparr>pItems = 131177, iItemSize = 60000, ullStart = 1000, llStartIdx = 0\<rparr>"
    using q2 B(1,2) by (simp add: wheel_of_def boot_proc_def quiet_def boot_ctx_def)
  have clock: "clock_ok ?c ?p 1000" "fits_wheel ?c ?p 1000 (clamp_timeout 3)"
    by (simp_all add: clock_ok_def fits_wheel_def wh wheel_start_def clamp_timeout_def eMaxTimeout_def)
  have run: "running 100 (wd ?p) = lp" "thread_calls 100 (wd ?p) = [101, lp]" by (simp_all add: running_def w2(3) boot_proc_def)
  obtain r2 where "cos w2 lp = Some r2" using kept_alive [OF w2(4) r(1)] by blast
  then obtain fr2 where fr2: "frame_ok fr2 lp (wd ?p)" using frame_exists [OF w2(2)] by (auto simp: boot_proc_def)
  have ok: "sys_ok 100 ?c (?p, Map.empty)" by (rule reachable_ok [OF t w reach2])
  have inv2: "thread_inv 100 (wd ?p)" using w2(2) by (simp add: boot_proc_def)
  obtain A C where rest: "rest_ok ?c ?p A C Map.empty" using ok by (auto simp: sys_ok_def)
  let ?x = "brk (wd ?p)"
  have nof: "\<not> (length fd3 = 1 \<and> False)" by simp
  obtain q A' where q: "co_poll_enter ctl 1000 ?c fd3 3 False ?p = Some (PollYield ?x, q)"
     "rest_ok ?c q A' C [?x \<mapsto> PollWaiter lp fd3]"
     "wd q = (wd ?p)\<lparr>brk := ?x + (1 + max 1 (length fd3)), tm := tm (wd q), timeouts := timeouts (wd q)\<rparr>"
     "ctls q = rev (add_calls (iEpollFd (the (epolls (wd ?p) ?c))) (?x + 1) 0 fd3) @ ctls ?p"
     "wheel_of ?c q = wheel_start (wheel_of ?c ?p) 1000"
    using enter_rest [OF rest clock(1) _ clock(2) running_is_current(1,3) [OF inv2] nof, of ctl] unfolding run
    by (auto simp: add.assoc)
  have wq: "cos (wd q) = cos (wd ?p)" "stacks (wd q) = stacks (wd ?p)" "thread_calls 100 (wd q) = [101, lp]"
    "epolls (wd q) = epolls (wd ?p)"
    by (subst q(3), simp add: run)+
  have invq: "thread_inv 100 (wd q)" by (subst q(3)) (intro thread_quiet inv2)
  have frq: "frame_ok fr2 lp (wd q)" using fr2 by (simp add: frame_ok_def wq)
  obtain w3 where w3: "co_yield_env fr2 100 (wd q) = Some w3" "thread_calls 100 w3 = [101]" "kept (wd q) w3"
    using yield_to_main [OF invq wq(3) frq] by blast
  have "sys_step ctl 100 ?c (?p, Map.empty) (q\<lparr>wd := w3\<rparr>, [?x \<mapsto> PollWaiter (running 100 (wd ?p)) fd3])"
    by (rule sys_step.poll [OF _ _ clock(1) _ clock(2) nof q(1) w3(1)]) (simp_all add: run fr2)
  then have reach: "sys_reachable ctl 100 w (q\<lparr>wd := w3\<rparr>) [?x \<mapsto> PollWaiter lp fd3]"
    using reach2 unfolding sys_reachable_def run by (rule rtranclp.rtrancl_into_rtrancl [rotated])
  have "mains w2 101" by (rule kept_mains [OF w2(4) main1])
  then have "mains (wd q) 101" by (simp add: mains_def wq u)
  then have main: "mains w3 101" by (rule kept_mains [OF w3(3)])
  have rep: "reportable (q\<lparr>wd := w3\<rparr>) \<lparr>ev_events = 1, ev_ptr = Some (?x + 1)\<rparr>"
    unfolding reportable_def by (auto simp: q(4) boot_proc_def fd3_def)
  have "wheel_of ?c (q\<lparr>wd := w3\<rparr>) = wheel_of ?c q"
    using w3(3) by (intro loop_cong) (simp_all add: kept_def)
  then have wheel: "wheel_of ?c (q\<lparr>wd := w3\<rparr>) = \<lparr>pItems = 131177, iItemSize = 60000, ullStart = 1000, llStartIdx = 0\<rparr>"
    by (simp add: q(5) wh wheel_start_def)
  show thesis
    by (rule that [OF w reach wheel rep]) (simp_all add: w3(2) main)
qed

text \<open>The event arrives: the round puts the poll on the active list.\<close>

lemma demo_woken:
  obtains w q x s where "co_init_curr_thread_env 9 1000 (empty_world 7 100) = Some w"
    "sys_reachable ctl 100 w q [x \<mapsto> PollWaiter s fd3]" "first_active (boot_ctx 100) q \<noteq> None"
    "thread_calls 100 (wd q) = [101]" "mains (wd q) 101"
proof -
  obtain w p x s where w: "co_init_curr_thread_env 9 1000 (empty_world 7 100) = Some w"
    "sys_reachable ctl 100 w p [x \<mapsto> PollWaiter s fd3]"
    "wheel_of (boot_ctx 100) p = \<lparr>pItems = 131177, iItemSize = 60000, ullStart = 1000, llStartIdx = 0\<rparr>"
    "reportable p \<lparr>ev_events = 1, ev_ptr = Some (x + 1)\<rparr>" "thread_calls 100 (wd p) = [101]" "mains (wd p) 101"
    by (rule demo_run)
  let ?c = "boot_ctx 100" and ?e = "\<lparr>ev_events = 1, ev_ptr = Some (x + 1)\<rparr>"
  have clock: "clock_ok ?c p 1001" "ullStart (wheel_of ?c p) = 0 \<or> uint (1001 :: u64) - uint (ullStart (wheel_of ?c p)) < 2 ^ 31 - 1"
    by (simp_all add: clock_ok_def w(3))
  have evs: "\<forall>e \<in> set [?e]. reportable p e" using w(4) by simp
  obtain A C where rest: "rest_ok ?c p A C [x \<mapsto> PollWaiter s fd3]"
    using reachable_ok [OF _ _ w(1,2)] unfolding sys_ok_def by auto
  obtain q A' where q: "loop_collect ?c [?e] 1001 p = Some q" "rest_ok ?c q A' C [x \<mapsto> PollWaiter s fd3]"
    "poll_of p ?e \<in> set (A' (active_of ?c q))" "wd q = (wd p)\<lparr>tm := tm (wd q), timeouts := timeouts (wd q)\<rparr>"
    using collect_rest [OF rest clock evs] by auto
  have "sys_step ctl 100 ?c (p, [x \<mapsto> PollWaiter s fd3]) (q, [x \<mapsto> PollWaiter s fd3])"
    by (rule sys_step.collect [OF clock evs q(1)])
  then have reach: "sys_reachable ctl 100 w q [x \<mapsto> PollWaiter s fd3]"
    using w(2) unfolding sys_reachable_def by (rule rtranclp.rtrancl_into_rtrancl [rotated])
  have L: "repr (tm (wd q)) A'" "is_link (tm (wd q)) (active_of ?c q)"
    using loop_ok_active [OF rest_okD(2) [OF q(2)]] by simp_all
  then obtain l where l: "links (tm (wd q)) (active_of ?c q) = Some l" by (auto simp: is_link_def)
  have "head l \<noteq> None"
    using repr_list_ok [OF L(1) l] q(3) l by (cases "A' (active_of ?c q)") (auto simp: list_ok_def)
  then have "first_active ?c q \<noteq> None" by (simp add: first_active_def l)
  moreover have "thread_calls 100 (wd q) = [101]" "mains (wd q) 101"
    using w(5,6) by (subst q(4), simp add: mains_def)+
  ultimately show thesis using that [OF w(1) reach] by blast
qed


theorem woken_coroutine_runs_witness:
  "\<exists>w p W x fr v q. co_init_curr_thread_env 9 1000 (empty_world 7 100) = Some w \<and>
     sys_reachable (\<lambda>_. (0, 0)) 100 w p W \<and> W x = Some v \<and>
     serve (process_item fr (\<lambda>co. finish_wait (\<lambda>_. (0, 0)) (boot_ctx 100) x v)) (active_of (boot_ctx 100) p) x p = Some q \<and>
     sys_reachable (\<lambda>_. (0, 0)) 100 w q (W(x := None)) \<and> thread_calls 100 (wd q) = [101, waiter_co v]"
proof -
  obtain w p y s where w: "co_init_curr_thread_env 9 1000 (empty_world 7 100) = Some w"
    "sys_reachable (\<lambda>_. (0, 0)) 100 w p [y \<mapsto> PollWaiter s fd3]" "first_active (boot_ctx 100) p \<noteq> None"
    "thread_calls 100 (wd p) = [101]" "mains (wd p) 101"
    by (rule demo_woken)
  obtain x where x: "first_active (boot_ctx 100) p = Some x" using w(3) by blast
  define fr where "fr = \<lparr>c_addr = 0, call_regs = []\<rparr>"
  have fr: "frame_ok fr (running 100 (wd p)) (wd p)" using w(5) by (auto simp: frame_ok_def mains_def running_def w(4))
  have t: "0 \<le> (7 :: int)" "(7 :: int) < 204800" "length (thread_calls 100 (wd p)) < 128" by (simp_all add: w(4))
  obtain v q where "[y \<mapsto> PollWaiter s fd3] x = Some v"
    "serve (process_item fr (\<lambda>co. finish_wait (\<lambda>_. (0, 0)) (boot_ctx 100) x v)) (active_of (boot_ctx 100) p) x p = Some q"
    "sys_reachable (\<lambda>_. (0, 0)) 100 w q ([y \<mapsto> PollWaiter s fd3](x := None))"
    "thread_calls 100 (wd q) = [101, waiter_co v]"
    using woken_coroutine_runs [OF t(1,2) w(1,2) x t(3) fr] unfolding w(4) by auto
  then show ?thesis using w(1,2) by blast
qed


theorem waiters_are_queued_witness:
  "\<exists>w p W x s A. co_init_curr_thread_env 9 1000 (empty_world 7 100) = Some w \<and>
     sys_reachable (\<lambda>_. (0, 0)) 100 w p W \<and> W x = Some (PollWaiter s fd3) \<and> loop_ok (boot_ctx 100) p A \<and>
     (x \<in> set (A (active_of (boot_ctx 100) p)) \<or> x \<in> set (waiting (boot_ctx 100) p A))"
proof -
  obtain w p x s where w: "co_init_curr_thread_env 9 1000 (empty_world 7 100) = Some w"
    "sys_reachable (\<lambda>_. (0, 0)) 100 w p [x \<mapsto> PollWaiter s fd3]" by (rule demo_run)
  have t: "0 \<le> (7 :: int)" "(7 :: int) < 204800" by simp_all
  obtain A where "loop_ok (boot_ctx 100) p A" "x \<in> set (A (active_of (boot_ctx 100) p)) \<or> x \<in> set (waiting (boot_ctx 100) p A)"
  proof -
    have v: "[x \<mapsto> PollWaiter s fd3] x = Some (PollWaiter s fd3)" by simp
    obtain A C where A: "loop_ok (boot_ctx 100) p A" and "repr (conds p) C" and q: "\<forall>y v. [x \<mapsto> PollWaiter s fd3] y = Some v \<longrightarrow>
        waiter_co v \<notin> set (thread_calls 100 (wd p)) \<and> (\<exists>r. cos (wd p) (waiter_co v) = Some r \<and> \<not> cEnd r) \<and>
        (y \<in> set (A (active_of (boot_ctx 100) p)) \<or> y \<in> set (waiting (boot_ctx 100) p A) \<or>
         (\<exists>s cc. v = CondWaiter s \<and> y \<in> set (C cc))) \<and>
        (\<forall>z u. [x \<mapsto> PollWaiter s fd3] z = Some u \<longrightarrow> waiter_co u = waiter_co v \<longrightarrow> z = y)"
      using waiters_are_queued [OF t w] by (elim exE conjE) (rule that)
    from q [rule_format, OF v] have "x \<in> set (A (active_of (boot_ctx 100) p)) \<or> x \<in> set (waiting (boot_ctx 100) p A)"
      by (elim conjE disjE exE) simp_all
    with A show thesis by (rule that)
  qed
  moreover have "[x \<mapsto> PollWaiter s fd3] x = Some (PollWaiter s fd3)" by simp
  ultimately show ?thesis using w by blast
qed

end
