(* ===== verification/HookIO.thy ===== *)
theory HookIO
  imports Cond
begin

unbundle bit_operations_syntax

text \<open>
  The hooked system calls on sockets of \<open>src/libco/co_hook_sys_call.cpp\<close>: the table \<open>g_rpchook_socket_fd\<close>,
  \<open>socket\<close>, \<open>co_accept\<close>, \<open>connect\<close>, \<open>close\<close>, \<open>read\<close>, \<open>write\<close>, \<open>sendto\<close>, \<open>recvfrom\<close>, \<open>send\<close>, \<open>recv\<close>,
  \<open>poll\<close>, \<open>setsockopt\<close> and \<open>fcntl\<close>. The system calls themselves (\<open>g_sys_..._func\<close>, found by \<open>dlsym\<close>) are
  the fields of the record \<open>os\<close>. A system call gives its result, the value of \<open>errno\<close> if it sets it, and
  the new state of the kernel.
\<close>

section \<open>State\<close>

record timeval =
  tv_sec :: int
  tv_usec :: int

record rpchook_t =
  user_flag :: u32
  dest :: "byte list"
  domain :: int
  read_timeout :: timeval
  write_timeout :: timeval

text \<open>
  \<open>hp\<close> are the coroutines and \<open>errno\<close>, \<open>hooks\<close> the table by descriptor, \<open>kern\<close> the kernel. The table owns
  its entries, which nothing else points to between two calls.
\<close>

record 'k sys =
  hp :: proc
  hooks :: "int \<rightharpoonup> rpchook_t"
  kern :: 'k

type_synonym ('k, 'r) syscall = "'k \<Rightarrow> 'r \<times> int option \<times> 'k"

record 'k os =
  sys_socket :: "int \<Rightarrow> int \<Rightarrow> int \<Rightarrow> ('k, int) syscall"
  sys_accept :: "int \<Rightarrow> ('k, int) syscall"
  sys_connect :: "int \<Rightarrow> byte list \<Rightarrow> ('k, int) syscall"
  sys_getsockopt_error :: "int \<Rightarrow> ('k, int) syscall"
  sys_close :: "int \<Rightarrow> ('k, int) syscall"
  sys_read :: "int \<Rightarrow> nat \<Rightarrow> ('k, int \<times> byte list) syscall"
  sys_write :: "int \<Rightarrow> byte list \<Rightarrow> ('k, int) syscall"
  sys_sendto :: "int \<Rightarrow> byte list \<Rightarrow> int \<Rightarrow> byte list \<Rightarrow> ('k, int) syscall"
  sys_recvfrom :: "int \<Rightarrow> nat \<Rightarrow> int \<Rightarrow> ('k, int \<times> byte list \<times> byte list) syscall"
  sys_send :: "int \<Rightarrow> byte list \<Rightarrow> int \<Rightarrow> ('k, int) syscall"
  sys_recv :: "int \<Rightarrow> nat \<Rightarrow> int \<Rightarrow> ('k, int \<times> byte list) syscall"
  sys_poll :: "pollfd list \<Rightarrow> int \<Rightarrow> ('k, int \<times> pollfd list) syscall"
  sys_setsockopt :: "int \<Rightarrow> int \<Rightarrow> int \<Rightarrow> byte list \<Rightarrow> ('k, int) syscall"
  sys_fcntl :: "int \<Rightarrow> int \<Rightarrow> u64 option \<Rightarrow> ('k, int) syscall"

definition call :: "('k, 'r) syscall \<Rightarrow> 'k sys \<Rightarrow> 'r \<times> 'k sys" where
  "call f s = (let (r, e, k) = f (kern s) in
     (r, s\<lparr>kern := k, hp := (case e of None \<Rightarrow> hp s | Some en \<Rightarrow> (hp s)\<lparr>errno := en\<rparr>)\<rparr>))"

definition set_errno :: "int \<Rightarrow> 'k sys \<Rightarrow> 'k sys" where
  "set_errno e s = s\<lparr>hp := (hp s)\<lparr>errno := e\<rparr>\<rparr>"

definition hook_enabled :: "'k sys \<Rightarrow> bool option" where
  "hook_enabled s = co_is_enable_sys_hook (wd (hp s))"

text \<open>Constants of the Linux headers.\<close>

definition EAGAIN :: int where "EAGAIN = 11"
definition EINPROGRESS :: int where "EINPROGRESS = 115"
definition ETIMEDOUT :: int where "ETIMEDOUT = 110"
definition O_NONBLOCK :: u32 where "O_NONBLOCK = 0x800"
definition SOL_SOCKET :: int where "SOL_SOCKET = 1"
definition SO_RCVTIMEO :: int where "SO_RCVTIMEO = 20"
definition SO_SNDTIMEO :: int where "SO_SNDTIMEO = 21"
definition F_DUPFD :: int where "F_DUPFD = 0"
definition F_GETFD :: int where "F_GETFD = 1"
definition F_SETFD :: int where "F_SETFD = 2"
definition F_GETFL :: int where "F_GETFL = 3"
definition F_SETFL :: int where "F_SETFL = 4"
definition F_GETLK :: int where "F_GETLK = 5"
definition F_SETLK :: int where "F_SETLK = 6"
definition F_SETLKW :: int where "F_SETLKW = 7"
definition F_SETOWN :: int where "F_SETOWN = 8"
definition F_GETOWN :: int where "F_GETOWN = 9"

lemmas hook_consts = EAGAIN_def EINPROGRESS_def ETIMEDOUT_def O_NONBLOCK_def SOL_SOCKET_def
  SO_RCVTIMEO_def SO_SNDTIMEO_def F_DUPFD_def F_GETFD_def F_SETFD_def F_GETFL_def F_SETFL_def
  F_GETLK_def F_SETLK_def F_SETLKW_def F_SETOWN_def F_GETOWN_def

section \<open>The table\<close>

definition fd_slots :: int where "fd_slots = 102400"

definition get_by_fd :: "int \<Rightarrow> 'k sys \<Rightarrow> rpchook_t option" where
  "get_by_fd fd s = (if fd > - 1 \<and> fd < fd_slots then hooks s fd else None)"

definition new_rpchook :: rpchook_t where
  "new_rpchook = \<lparr>user_flag = 0, dest = [], domain = 0, read_timeout = \<lparr>tv_sec = 1, tv_usec = 0\<rparr>,
     write_timeout = \<lparr>tv_sec = 1, tv_usec = 0\<rparr>\<rparr>"

definition alloc_by_fd :: "int \<Rightarrow> 'k sys \<Rightarrow> rpchook_t option \<times> 'k sys" where
  "alloc_by_fd fd s = (if fd > - 1 \<and> fd < fd_slots
     then (Some new_rpchook, s\<lparr>hooks := (hooks s)(fd \<mapsto> new_rpchook)\<rparr>) else (None, s))"

definition free_by_fd :: "int \<Rightarrow> 'k sys \<Rightarrow> 'k sys" where
  "free_by_fd fd s = (if fd > - 1 \<and> fd < fd_slots
     then (case hooks s fd of None \<Rightarrow> s | Some _ \<Rightarrow> s\<lparr>hooks := (hooks s)(fd := None)\<rparr>) else s)"

definition set_hook :: "(rpchook_t \<Rightarrow> rpchook_t) \<Rightarrow> int \<Rightarrow> 'k sys \<Rightarrow> 'k sys" where
  "set_hook f fd s = s\<lparr>hooks := (hooks s)(fd := map_option f (hooks s fd))\<rparr>"

definition diff_ms :: "timeval \<Rightarrow> timeval \<Rightarrow> int option" where
  "diff_ms t0 t1 = (let u = tv_sec t1 - tv_sec t0; v = tv_usec t1 - tv_usec t0 in do {
     require (in_s64 u \<and> in_s64 (u * (1000 * 10)) \<and> in_s64 v);
     let r = u * (1000 * 10) + v sdiv 100;
     require (in_s64 r);
     Some r })"

text \<open>The conversion to milliseconds, in \<open>long\<close>, cut to an \<open>int\<close>.\<close>

definition timeout_ms :: "timeval \<Rightarrow> int" where
  "timeout_ms tv = to_s32 (tv_sec tv * 1000 + tv_usec tv sdiv 1000)"

section \<open>\<open>poll\<close>\<close>

text \<open>
  \<open>others\<close> is what the other coroutines and the event loop do from \<open>co_yield_env\<close> on until this coroutine
  runs again; \<open>now\<close>, \<open>efd\<close> and \<open>ctl\<close> are the clock, the result of \<open>co_epoll_create\<close> (needed when the thread
  has no environment yet) and the results of \<open>co_epoll_ctl\<close>.
\<close>

type_synonym 'k poll_fun = "pollfd list \<Rightarrow> int \<Rightarrow> 'k sys \<Rightarrow> (int \<times> pollfd list \<times> 'k sys) option"

definition sys_poll_call :: "'k os \<Rightarrow> 'k poll_fun" where
  "sys_poll_call os pfds timeout s = (let ((r, pfds), s) = call (sys_poll os pfds timeout) s in Some (r, pfds, s))"

definition hook_poll ::
  "'k os \<Rightarrow> kernel_ctl \<Rightarrow> ('k \<Rightarrow> u64) \<Rightarrow> int \<Rightarrow> frame \<Rightarrow> ('k sys \<Rightarrow> 'k sys option) \<Rightarrow> 'k poll_fun" where
  "hook_poll os ctl now efd fr others pfds timeout s = do {
     on \<leftarrow> hook_enabled s;
     if \<not> on then sys_poll_call os pfds timeout s
     else do {
       let t = now (kern s);
       (ctx, w) \<leftarrow> co_get_epoll_ct efd t (wd (hp s));
       ctx \<leftarrow> ctx;
       (r, p) \<leftarrow> co_poll_enter ctl t ctx pfds timeout True ((hp s)\<lparr>wd := w\<rparr>);
       (case r of
          PollFunc \<Rightarrow> sys_poll_call os pfds (if timeout > eMaxTimeout then eMaxTimeout else timeout) (s\<lparr>hp := p\<rparr>)
        | PollReturn ret \<Rightarrow> Some (ret, pfds, s\<lparr>hp := p\<rparr>)
        | PollYield arg \<Rightarrow> do {
            pl \<leftarrow> polls p arg;
            e \<leftarrow> co_get_curr_thread_env (wd p);
            env \<leftarrow> e;
            w \<leftarrow> co_yield_env fr env (wd p);
            s \<leftarrow> others (s\<lparr>hp := p\<lparr>wd := w\<rparr>\<rparr>);
            (ret, pfds, p) \<leftarrow> co_poll_leave ctl (poll_epfd pl) arg pfds (hp s);
            Some (ret, pfds, s\<lparr>hp := p\<rparr>) }) } }"

text \<open>
  The other functions call \<open>poll\<close>: they take it as the argument \<open>pollf\<close>, which is \<open>hook_poll\<close> in the
  program.
\<close>

definition poll_one :: "'k poll_fun \<Rightarrow> int \<Rightarrow> 16 word \<Rightarrow> int \<Rightarrow> 'k sys \<Rightarrow> (int \<times> 16 word \<times> 'k sys) option" where
  "poll_one pollf fd ev timeout s = do {
     (ret, pfds, s) \<leftarrow> pollf [\<lparr>pfd = fd, pevents = ev, prevents = 0\<rparr>] timeout s;
     require (pfds \<noteq> []);
     Some (ret, prevents (hd pfds), s) }"

definition POLL_READ :: "16 word" where "POLL_READ = POLLIN OR POLLERR OR POLLHUP"
definition POLL_WRITE :: "16 word" where "POLL_WRITE = POLLOUT OR POLLERR OR POLLHUP"

section \<open>\<open>fcntl\<close>\<close>

text \<open>
  The optional argument is the 64-bit register \<open>va_arg\<close> reads; as an \<open>int\<close> it is cut to 32 bits. A
  negative descriptor gives the \<open>__LINE__\<close> of the return statement, an unknown command -1.
\<close>

definition hook_fcntl :: "'k os \<Rightarrow> int \<Rightarrow> int \<Rightarrow> u64 \<Rightarrow> 'k sys \<Rightarrow> (int \<times> 'k sys) option" where
  "hook_fcntl os fildes cmd arg s = (
     let int_arg = ucast (ucast arg :: u32) in
     if fildes < 0 then Some (666, s)
     else let lp = get_by_fd fildes s in
       if cmd = F_DUPFD then Some (call (sys_fcntl os fildes cmd (Some int_arg)) s)
       else if cmd = F_GETFD then Some (call (sys_fcntl os fildes cmd None) s)
       else if cmd = F_SETFD then Some (call (sys_fcntl os fildes cmd (Some int_arg)) s)
       else if cmd = F_GETFL then Some (call (sys_fcntl os fildes cmd None) s)
       else if cmd = F_SETFL then do {
         let param = (ucast arg :: u32);
         on \<leftarrow> hook_enabled s;
         let flag = (if on \<and> lp \<noteq> None then param OR O_NONBLOCK else param);
         let (ret, s) = call (sys_fcntl os fildes cmd (Some (ucast flag))) s;
         Some (ret, if ret = 0 \<and> lp \<noteq> None then set_hook (user_flag_update (\<lambda>_. param)) fildes s else s) }
       else if cmd = F_GETOWN then Some (call (sys_fcntl os fildes cmd None) s)
       else if cmd = F_SETOWN then Some (call (sys_fcntl os fildes cmd (Some int_arg)) s)
       else if cmd = F_GETLK then Some (call (sys_fcntl os fildes cmd (Some arg)) s)
       else if cmd = F_SETLK then Some (call (sys_fcntl os fildes cmd (Some arg)) s)
       else if cmd = F_SETLKW then Some (call (sys_fcntl os fildes cmd (Some arg)) s)
       else Some (- 1, s))"

section \<open>Opening, connecting and closing\<close>

definition hook_socket :: "'k os \<Rightarrow> int \<Rightarrow> int \<Rightarrow> int \<Rightarrow> 'k sys \<Rightarrow> (int \<times> 'k sys) option" where
  "hook_socket os af typ protocol s = do {
     on \<leftarrow> hook_enabled s;
     if \<not> on then Some (call (sys_socket os af typ protocol) s)
     else do {
       let (fd, s) = call (sys_socket os af typ protocol) s;
       if fd < 0 then Some (fd, s)
       else do {
         let (lp, s) = alloc_by_fd fd s;
         _ \<leftarrow> lp;
         let s = set_hook (domain_update (\<lambda>_. af)) fd s;
         let (flags, s) = call (sys_fcntl os fd F_GETFL (Some 0)) s;
         (_, s) \<leftarrow> hook_fcntl os fd F_SETFL (word_of_int flags) s;
         Some (fd, s) } } }"

definition co_accept :: "'k os \<Rightarrow> int \<Rightarrow> 'k sys \<Rightarrow> int \<times> 'k sys" where
  "co_accept os fd s = (let (cli, s) = call (sys_accept os fd) s in
     if cli < 0 then (cli, s) else (let (_, s) = alloc_by_fd cli s in (cli, s)))"

text \<open>The loop of \<open>connect\<close>: up to \<open>n\<close> polls of 25 seconds; the last \<open>revents\<close>.\<close>

primrec connect_wait :: "'k poll_fun \<Rightarrow> nat \<Rightarrow> int \<Rightarrow> 16 word \<Rightarrow> 'k sys \<Rightarrow> (16 word \<times> 'k sys) option" where
  "connect_wait pollf 0 fd revents s = Some (revents, s)"
| "connect_wait pollf (Suc n) fd revents s = do {
     (pollret, revents, s) \<leftarrow> poll_one pollf fd POLL_WRITE 25000 s;
     if pollret = 1 then Some (revents, s) else connect_wait pollf n fd revents s }"

text \<open>\<open>sizeof(struct sockaddr_in)\<close> is 16.\<close>

definition hook_connect ::
  "'k os \<Rightarrow> 'k poll_fun \<Rightarrow> int \<Rightarrow> byte list \<Rightarrow> 'k sys \<Rightarrow> (int \<times> 'k sys) option" where
  "hook_connect os pollf fd address s = do {
     on \<leftarrow> hook_enabled s;
     if \<not> on then Some (call (sys_connect os fd address) s)
     else do {
       let (ret, s) = call (sys_connect os fd address) s;
       (case get_by_fd fd s of
          None \<Rightarrow> Some (ret, s)
        | Some lp \<Rightarrow> do {
            let s = (if length address \<le> 16
                     then set_hook (dest_update (\<lambda>d. address @ drop (length address) d)) fd s else s);
            if O_NONBLOCK AND user_flag lp \<noteq> 0 then Some (ret, s)
            else if \<not> (ret < 0 \<and> errno (hp s) = EINPROGRESS) then Some (ret, s)
            else do {
              (revents, s) \<leftarrow> connect_wait pollf 3 fd 0 s;
              if revents AND POLLOUT \<noteq> 0 then Some (0, set_errno 0 s)
              else do {
                let (err, s) = call (sys_getsockopt_error os fd) s;
                Some (ret, set_errno (if err \<noteq> 0 then err else ETIMEDOUT) s) } } }) } }"

definition hook_close :: "'k os \<Rightarrow> int \<Rightarrow> 'k sys \<Rightarrow> (int \<times> 'k sys) option" where
  "hook_close os fd s = do {
     on \<leftarrow> hook_enabled s;
     if \<not> on then Some (call (sys_close os fd) s)
     else Some (call (sys_close os fd) (free_by_fd fd s)) }"

section \<open>Reading\<close>

text \<open>\<open>!lp || (O_NONBLOCK & lp->user_flag)\<close>: the descriptor is left to the system call.\<close>

definition unhooked :: "rpchook_t option \<Rightarrow> bool" where
  "unhooked lp = (case lp of None \<Rightarrow> True | Some h \<Rightarrow> O_NONBLOCK AND user_flag h \<noteq> 0)"

definition hook_read ::
  "'k os \<Rightarrow> 'k poll_fun \<Rightarrow> int \<Rightarrow> nat \<Rightarrow> 'k sys \<Rightarrow> ((int \<times> byte list) \<times> 'k sys) option" where
  "hook_read os pollf fd nbyte s = do {
     on \<leftarrow> hook_enabled s;
     if \<not> on then Some (call (sys_read os fd nbyte) s)
     else do {
       let lp = get_by_fd fd s;
       if unhooked lp then Some (call (sys_read os fd nbyte) s)
       else do {
         h \<leftarrow> lp;
         (_, _, s) \<leftarrow> poll_one pollf fd POLL_READ (timeout_ms (read_timeout h)) s;
         Some (call (sys_read os fd nbyte) s) } } }"

definition hook_recvfrom ::
  "'k os \<Rightarrow> 'k poll_fun \<Rightarrow> int \<Rightarrow> nat \<Rightarrow> int \<Rightarrow> 'k sys \<Rightarrow> ((int \<times> byte list \<times> byte list) \<times> 'k sys) option" where
  "hook_recvfrom os pollf socket len flags s = do {
     on \<leftarrow> hook_enabled s;
     if \<not> on then Some (call (sys_recvfrom os socket len flags) s)
     else do {
       let lp = get_by_fd socket s;
       if unhooked lp then Some (call (sys_recvfrom os socket len flags) s)
       else do {
         h \<leftarrow> lp;
         (_, _, s) \<leftarrow> poll_one pollf socket POLL_READ (timeout_ms (read_timeout h)) s;
         Some (call (sys_recvfrom os socket len flags) s) } } }"

definition hook_recv ::
  "'k os \<Rightarrow> 'k poll_fun \<Rightarrow> int \<Rightarrow> nat \<Rightarrow> int \<Rightarrow> 'k sys \<Rightarrow> ((int \<times> byte list) \<times> 'k sys) option" where
  "hook_recv os pollf socket len flags s = do {
     on \<leftarrow> hook_enabled s;
     if \<not> on then Some (call (sys_recv os socket len flags) s)
     else do {
       let lp = get_by_fd socket s;
       if unhooked lp then Some (call (sys_recv os socket len flags) s)
       else do {
         h \<leftarrow> lp;
         (_, _, s) \<leftarrow> poll_one pollf socket POLL_READ (timeout_ms (read_timeout h)) s;
         Some (call (sys_recv os socket len flags) s) } } }"

section \<open>Writing\<close>

text \<open>The \<open>while\<close> loop of \<open>write\<close>: the last result of the system call and the bytes written.\<close>

function write_loop ::
  "'k os \<Rightarrow> 'k poll_fun \<Rightarrow> int \<Rightarrow> byte list \<Rightarrow> int \<Rightarrow> int \<Rightarrow> nat \<Rightarrow> 'k sys \<Rightarrow> (int \<times> nat \<times> 'k sys) option" where
  "write_loop os pollf fd buf timeout writeret wrotelen s = (
     if wrotelen < length buf then do {
       (_, _, s) \<leftarrow> poll_one pollf fd POLL_WRITE timeout s;
       let (writeret, s) = call (sys_write os fd (drop wrotelen buf)) s;
       if writeret \<le> 0 then Some (writeret, wrotelen, s)
       else write_loop os pollf fd buf timeout writeret (wrotelen + nat writeret) s }
     else Some (writeret, wrotelen, s))"
  by pat_completeness auto

termination
  by (relation "measure (\<lambda>(os, pollf, fd, buf, timeout, writeret, wrotelen, s). length buf - wrotelen)") auto

declare write_loop.simps [simp del]

definition hook_write ::
  "'k os \<Rightarrow> 'k poll_fun \<Rightarrow> int \<Rightarrow> byte list \<Rightarrow> 'k sys \<Rightarrow> (int \<times> 'k sys) option" where
  "hook_write os pollf fd buf s = do {
     on \<leftarrow> hook_enabled s;
     if \<not> on then Some (call (sys_write os fd buf) s)
     else do {
       let lp = get_by_fd fd s;
       if unhooked lp then Some (call (sys_write os fd buf) s)
       else do {
         h \<leftarrow> lp;
         let (writeret, s) = call (sys_write os fd buf) s;
         if writeret = 0 then Some (writeret, s)
         else do {
           (writeret, wrotelen, s) \<leftarrow>
             write_loop os pollf fd buf (timeout_ms (write_timeout h)) writeret (nat writeret) s;
           Some (if writeret \<le> 0 \<and> wrotelen = 0 then writeret else int wrotelen, s) } } } }"

function send_loop ::
  "'k os \<Rightarrow> 'k poll_fun \<Rightarrow> int \<Rightarrow> byte list \<Rightarrow> int \<Rightarrow> int \<Rightarrow> int \<Rightarrow> nat \<Rightarrow> 'k sys \<Rightarrow> (int \<times> nat \<times> 'k sys) option" where
  "send_loop os pollf socket buf flags timeout writeret wrotelen s = (
     if wrotelen < length buf then do {
       (_, _, s) \<leftarrow> poll_one pollf socket POLL_WRITE timeout s;
       let (writeret, s) = call (sys_send os socket (drop wrotelen buf) flags) s;
       if writeret \<le> 0 then Some (writeret, wrotelen, s)
       else send_loop os pollf socket buf flags timeout writeret (wrotelen + nat writeret) s }
     else Some (writeret, wrotelen, s))"
  by pat_completeness auto

termination
  by (relation "measure (\<lambda>(os, pollf, fd, buf, flags, timeout, writeret, wrotelen, s). length buf - wrotelen)") auto

declare send_loop.simps [simp del]

definition hook_send ::
  "'k os \<Rightarrow> 'k poll_fun \<Rightarrow> int \<Rightarrow> byte list \<Rightarrow> int \<Rightarrow> 'k sys \<Rightarrow> (int \<times> 'k sys) option" where
  "hook_send os pollf socket buf flags s = do {
     on \<leftarrow> hook_enabled s;
     if \<not> on then Some (call (sys_send os socket buf flags) s)
     else do {
       let lp = get_by_fd socket s;
       if unhooked lp then Some (call (sys_send os socket buf flags) s)
       else do {
         h \<leftarrow> lp;
         let (writeret, s) = call (sys_send os socket buf flags) s;
         if writeret = 0 then Some (writeret, s)
         else do {
           (writeret, wrotelen, s) \<leftarrow>
             send_loop os pollf socket buf flags (timeout_ms (write_timeout h)) writeret (nat writeret) s;
           Some (if writeret \<le> 0 \<and> wrotelen = 0 then writeret else int wrotelen, s) } } } }"

definition hook_sendto ::
  "'k os \<Rightarrow> 'k poll_fun \<Rightarrow> int \<Rightarrow> byte list \<Rightarrow> int \<Rightarrow> byte list \<Rightarrow> 'k sys \<Rightarrow> (int \<times> 'k sys) option" where
  "hook_sendto os pollf socket msg flags dest_addr s = do {
     on \<leftarrow> hook_enabled s;
     if \<not> on then Some (call (sys_sendto os socket msg flags dest_addr) s)
     else do {
       let lp = get_by_fd socket s;
       if unhooked lp then Some (call (sys_sendto os socket msg flags dest_addr) s)
       else do {
         h \<leftarrow> lp;
         let (ret, s) = call (sys_sendto os socket msg flags dest_addr) s;
         if ret < 0 \<and> EAGAIN = errno (hp s) then do {
           (_, _, s) \<leftarrow> poll_one pollf socket POLL_WRITE (timeout_ms (write_timeout h)) s;
           Some (call (sys_sendto os socket msg flags dest_addr) s) }
         else Some (ret, s) } } }"

section \<open>\<open>setsockopt\<close>\<close>

text \<open>The bytes of a \<open>struct timeval\<close>: two little-endian 64-bit integers.\<close>

definition le_int :: "byte list \<Rightarrow> int" where
  "le_int bs = foldr (\<lambda>b n. uint b + 256 * n) bs 0"

definition read_timeval :: "byte list \<Rightarrow> timeval option" where
  "read_timeval bs = do { require (16 \<le> length bs);
     Some \<lparr>tv_sec = to_s64 (le_int (take 8 bs)), tv_usec = to_s64 (le_int (take 8 (drop 8 bs)))\<rparr> }"

definition hook_setsockopt ::
  "'k os \<Rightarrow> int \<Rightarrow> int \<Rightarrow> int \<Rightarrow> byte list \<Rightarrow> 'k sys \<Rightarrow> (int \<times> 'k sys) option" where
  "hook_setsockopt os fd level option_name option_value s = do {
     on \<leftarrow> hook_enabled s;
     if \<not> on then Some (call (sys_setsockopt os fd level option_name option_value) s)
     else do {
       s \<leftarrow> (if get_by_fd fd s \<noteq> None \<and> SOL_SOCKET = level then
              if SO_RCVTIMEO = option_name then do {
                tv \<leftarrow> read_timeval option_value;
                Some (set_hook (read_timeout_update (\<lambda>_. tv)) fd s) }
              else if SO_SNDTIMEO = option_name then do {
                tv \<leftarrow> read_timeval option_value;
                Some (set_hook (write_timeout_update (\<lambda>_. tv)) fd s) }
              else Some s
            else Some s);
       Some (call (sys_setsockopt os fd level option_name option_value) s) } }"

section \<open>The loop of \<open>write\<close> and \<open>send\<close>\<close>

text \<open>
  The contracts: the kernel takes a prefix of what a \<open>write\<close> offers, \<open>sent\<close> is all it has taken; waiting
  returns and sends nothing.
\<close>

definition sink_ok :: "(byte list \<Rightarrow> ('k, int) syscall) \<Rightarrow> ('k \<Rightarrow> byte list) \<Rightarrow> bool" where
  "sink_ok put sent \<longleftrightarrow> (\<forall>bs k. case put bs k of (r, e, k') \<Rightarrow>
     r \<le> int (length bs) \<and> sent k' = sent k @ take (nat r) bs)"

lemma sink_okD: "sink_ok put sent \<Longrightarrow> put bs k = (r, e, k') \<Longrightarrow>
   r \<le> int (length bs) \<and> sent k' = sent k @ take (nat r) bs"
  unfolding sink_ok_def by (metis (mono_tags, lifting) case_prod_conv)

lemma call_sink:
  assumes "sink_ok put sent"
  obtains r s' where "call (put bs) s = (r, s')" "r \<le> int (length bs)"
    "sent (kern s') = sent (kern s) @ take (nat r) bs"
proof -
  obtain r e k where k: "put bs (kern s) = (r, e, k)" by (metis prod_cases3)
  with sink_okD [OF assms k] that show thesis by (simp add: call_def)
qed

text \<open>
  Both loops wait, offer the rest of the buffer and go on while the system call takes something.
\<close>

locale retry_loop =
  fixes put :: "byte list \<Rightarrow> ('k, int) syscall"
    and wait :: "'k sys \<Rightarrow> 'k sys option"
    and loop :: "byte list \<Rightarrow> int \<Rightarrow> nat \<Rightarrow> 'k sys \<Rightarrow> (int \<times> nat \<times> 'k sys) option"
  assumes loop_eq: "loop buf wr w s = (if w < length buf then do {
      s \<leftarrow> wait s;
      let (wr, s) = call (put (drop w buf)) s;
      if wr \<le> 0 then Some (wr, w, s) else loop buf wr (w + nat wr) s }
    else Some (wr, w, s))"
begin

lemma delivers:
  fixes sent :: "'k \<Rightarrow> byte list"
  assumes put: "sink_ok put sent"
    and wait: "\<forall>s. \<exists>s'. wait s = Some s' \<and> sent (kern s') = sent (kern s)"
    and w: "w \<le> length buf" "wr > 0 \<or> w < length buf"
  shows "\<exists>wr' w' s'. loop buf wr w s = Some (wr', w', s') \<and> w \<le> w' \<and> w' \<le> length buf \<and>
     sent (kern s') = sent (kern s) @ take (w' - w) (drop w buf) \<and>
     (w' = length buf \<and> wr' > 0 \<or> wr' \<le> 0)"
  using w
proof (induction "length buf - w" arbitrary: w wr s rule: less_induct)
  case less
  show ?case
  proof (cases "w < length buf")
    case False
    with less.prems show ?thesis by (subst loop_eq) simp
  next
    case True
    obtain s1 where s1: "wait s = Some s1" "sent (kern s1) = sent (kern s)"
      using wait by blast
    obtain r e k where k: "put (drop w buf) (kern s1) = (r, e, k)" by (metis prod_cases3)
    define s2 where "s2 = snd (call (put (drop w buf)) s1)"
    have c: "call (put (drop w buf)) s1 = (r, s2)" "kern s2 = k"
      using k by (simp_all add: s2_def call_def)
    have p: "r \<le> int (length buf - w)" "sent k = sent (kern s) @ take (nat r) (drop w buf)"
      using sink_okD [OF put k] s1(2) by simp_all
    show ?thesis
    proof (cases "r \<le> 0")
      case True
      then have "loop buf wr w s = Some (r, w, s2)"
        using \<open>w < length buf\<close> s1(1) c(1) by (subst loop_eq) simp
      with True p c(2) less.prems show ?thesis by simp
    next
      case False
      let ?w = "w + nat r"
      have "loop buf wr w s = loop buf r ?w s2"
        using \<open>w < length buf\<close> s1(1) c(1) False by (subst loop_eq) simp
      moreover have "length buf - ?w < length buf - w" "?w \<le> length buf"
        using False p(1) \<open>w < length buf\<close> by auto
      with less.hyps [of ?w r s2] False obtain wr' w' s' where
        IH: "loop buf r ?w s2 = Some (wr', w', s')" "?w \<le> w'" "w' \<le> length buf"
        "sent (kern s') = sent (kern s2) @ take (w' - ?w) (drop ?w buf)"
        "w' = length buf \<and> wr' > 0 \<or> wr' \<le> 0"
        by auto
      moreover have "take (nat r) (drop w buf) @ take (w' - ?w) (drop ?w buf) = take (w' - w) (drop w buf)"
        using IH(2) take_add [of "nat r" "w' - ?w" "drop w buf"] by (simp add: add.commute)
      ultimately show ?thesis
        using p(2) c(2) by (intro exI [of _ wr'] exI [of _ w'] exI [of _ s']) simp
    qed
  qed
qed

text \<open>The first attempt, the loop and the result, as \<open>write\<close> and \<open>send\<close> combine them.\<close>

lemma delivers_all:
  assumes "sink_ok put sent" "\<forall>s. \<exists>s'. wait s = Some s' \<and> sent (kern s') = sent (kern s)"
  shows "\<exists>r s'. (let (r, s) = call (put buf) s in
       if r = 0 then Some (r, s)
       else do { (wr, w, s) \<leftarrow> loop buf r (nat r) s; Some (if wr \<le> 0 \<and> w = 0 then wr else int w, s) }) = Some (r, s') \<and>
     r \<le> int (length buf) \<and> sent (kern s') = sent (kern s) @ take (nat r) buf"
proof -
  obtain r s1 where c: "call (put buf) s = (r, s1)" "r \<le> int (length buf)"
    "sent (kern s1) = sent (kern s) @ take (nat r) buf"
    using call_sink [OF assms(1)] .
  show ?thesis
  proof (cases "r = 0 \<or> nat r = length buf")
    case True
    have "loop buf r (length buf) s1 = Some (r, length buf, s1)"
      by (subst loop_eq) simp
    moreover have "int (length buf) = r" if "nat r = length buf" "r \<noteq> 0" "buf \<noteq> [] \<or> \<not> r \<le> 0"
      using that c(2) by (cases buf) auto
    ultimately show ?thesis using True c by (intro exI [of _ r] exI [of _ s1]) auto
  next
    case False
    with c(2) have n: "nat r < length buf" by linarith
    obtain wr' w' s' where l: "loop buf r (nat r) s1 = Some (wr', w', s')"
       "nat r \<le> w'" "w' \<le> length buf"
       "sent (kern s') = sent (kern s1) @ take (w' - nat r) (drop (nat r) buf)"
      using delivers [OF assms, of "nat r" buf r s1] n by auto
    have "take (nat r) buf @ take (w' - nat r) (drop (nat r) buf) = take w' buf"
      using l(2) take_add [of "nat r" "w' - nat r" buf] by simp
    then show ?thesis
      using l c False by (intro exI [of _ "if wr' \<le> 0 \<and> w' = 0 then wr' else int w'"] exI [of _ s']) auto
  qed
qed

end

definition poll_wait :: "'k poll_fun \<Rightarrow> int \<Rightarrow> 16 word \<Rightarrow> int \<Rightarrow> 'k sys \<Rightarrow> 'k sys option" where
  "poll_wait pollf fd ev t s = map_option (\<lambda>(_, _, s). s) (poll_one pollf fd ev t s)"

lemma poll_wait_bind:
  "(poll_one pollf fd ev t s \<bind> (\<lambda>(_, _, s). f s)) = (poll_wait pollf fd ev t s \<bind> f)"
  by (cases "poll_one pollf fd ev t s") (auto simp: poll_wait_def)

interpretation write_retry: retry_loop "sys_write os fd" "poll_wait pollf fd POLL_WRITE t"
  "\<lambda>buf. write_loop os pollf fd buf t" for os :: "'k os" and pollf fd t
  by unfold_locales (subst write_loop.simps, simp only: poll_wait_bind)

interpretation send_retry: retry_loop "\<lambda>bs. sys_send os fd bs flags" "poll_wait pollf fd POLL_WRITE t"
  "\<lambda>buf. send_loop os pollf fd buf flags t" for os :: "'k os" and pollf fd flags t
  by unfold_locales (subst send_loop.simps, simp only: poll_wait_bind)

definition wait_ok :: "'k poll_fun \<Rightarrow> int \<Rightarrow> ('k \<Rightarrow> byte list) \<Rightarrow> bool" where
  "wait_ok pollf fd sent \<longleftrightarrow> (\<forall>ev t s. \<exists>s'. poll_wait pollf fd ev t s = Some s' \<and> sent (kern s') = sent (kern s))"

section \<open>Hooked descriptors are non-blocking\<close>

text \<open>
  What the kernel documents of descriptors and their flags: \<open>opn\<close> are the open descriptors, \<open>nb\<close> those with
  \<open>O_NONBLOCK\<close> set.
\<close>

definition flags_ok :: "'k os \<Rightarrow> ('k \<Rightarrow> int \<Rightarrow> bool) \<Rightarrow> ('k \<Rightarrow> int \<Rightarrow> bool) \<Rightarrow> bool" where
  "flags_ok os opn nb \<longleftrightarrow>
     (\<forall>a b c k r e k'. sys_socket os a b c k = (r, e, k') \<longrightarrow>
        (\<forall>f. f \<noteq> r \<longrightarrow> nb k' f = nb k f \<and> opn k' f = opn k f) \<and> (0 \<le> r \<longrightarrow> opn k' r)) \<and>
     (\<forall>fd arg k r e k'. sys_fcntl os fd F_GETFL arg k = (r, e, k') \<longrightarrow> nb k' = nb k \<and> opn k' = opn k \<and>
        (opn k fd \<longrightarrow> ((word_of_int r :: u32) AND O_NONBLOCK \<noteq> 0) = nb k fd)) \<and>
     (\<forall>fd v k r e k'. sys_fcntl os fd F_SETFL (Some v) k = (r, e, k') \<longrightarrow> opn k' = opn k \<and>
        (opn k fd \<longrightarrow> r = 0) \<and>
        nb k' = (if r = 0 then (nb k)(fd := (ucast v :: u32) AND O_NONBLOCK \<noteq> 0) else nb k)) \<and>
     (\<forall>fd arg k r e k'. sys_fcntl os fd F_DUPFD arg k = (r, e, k') \<longrightarrow> (r < 0 \<or> \<not> opn k r) \<and>
        (\<forall>f. f \<noteq> r \<longrightarrow> nb k' f = nb k f \<and> opn k' f = opn k f)) \<and>
     (\<forall>fd cmd arg k r e k'. cmd \<noteq> F_SETFL \<longrightarrow> cmd \<noteq> F_DUPFD \<longrightarrow> sys_fcntl os fd cmd arg k = (r, e, k') \<longrightarrow>
        nb k' = nb k \<and> opn k' = opn k) \<and>
     (\<forall>fd k r e k'. sys_close os fd k = (r, e, k') \<longrightarrow>
        (\<forall>f. f \<noteq> fd \<longrightarrow> nb k' f = nb k f \<and> opn k' f = opn k f))"

lemma flags_okD:
  assumes "flags_ok os opn nb"
  shows "sys_socket os a b c k = (r, e, k') \<Longrightarrow>
      (\<forall>f. f \<noteq> r \<longrightarrow> nb k' f = nb k f \<and> opn k' f = opn k f) \<and> (0 \<le> r \<longrightarrow> opn k' r)"
    "sys_fcntl os fd F_GETFL arg k = (r, e, k') \<Longrightarrow> nb k' = nb k \<and> opn k' = opn k \<and>
        (opn k fd \<longrightarrow> ((word_of_int r :: u32) AND O_NONBLOCK \<noteq> 0) = nb k fd)"
    "sys_fcntl os fd F_SETFL (Some v) k = (r, e, k') \<Longrightarrow> opn k' = opn k \<and> (opn k fd \<longrightarrow> r = 0) \<and>
        nb k' = (if r = 0 then (nb k)(fd := (ucast v :: u32) AND O_NONBLOCK \<noteq> 0) else nb k)"
    "sys_fcntl os fd F_DUPFD arg k = (r, e, k') \<Longrightarrow> (r < 0 \<or> \<not> opn k r) \<and>
        (\<forall>f. f \<noteq> r \<longrightarrow> nb k' f = nb k f \<and> opn k' f = opn k f)"
    "cmd \<noteq> F_SETFL \<Longrightarrow> cmd \<noteq> F_DUPFD \<Longrightarrow> sys_fcntl os fd cmd arg k = (r, e, k') \<Longrightarrow> nb k' = nb k \<and> opn k' = opn k"
    "sys_close os fd k = (r, e, k') \<Longrightarrow> (\<forall>f. f \<noteq> fd \<longrightarrow> nb k' f = nb k f \<and> opn k' f = opn k f)"
  using assms unfolding flags_ok_def by metis+

definition hook_inv :: "('k \<Rightarrow> int \<Rightarrow> bool) \<Rightarrow> ('k \<Rightarrow> int \<Rightarrow> bool) \<Rightarrow> 'k sys \<Rightarrow> bool" where
  "hook_inv opn nb s \<longleftrightarrow> (\<forall>fd. hooks s fd \<noteq> None \<longrightarrow> 0 \<le> fd \<and> fd < fd_slots \<and> opn (kern s) fd \<and> nb (kern s) fd)"

lemma call_cases:
  obtains r e k' s' where "f (kern s) = (r, e, k')" "call f s = (r, s')" "kern s' = k'" "hooks s' = hooks s"
    "wd (hp s') = wd (hp s)"
proof -
  obtain r e k' where f: "f (kern s) = (r, e, k')" by (metis prod_cases3)
  then show thesis
    by (intro that [of r e k' "s\<lparr>kern := k', hp := (case e of None \<Rightarrow> hp s | Some en \<Rightarrow> (hp s)\<lparr>errno := en\<rparr>)\<rparr>"])
      (auto simp: call_def split: option.splits)
qed

lemma set_hook_simps [simp]: "kern (set_hook f fd s) = kern s" "hp (set_hook f fd s) = hp s"
  "hooks (set_hook f fd s) = (hooks s)(fd := map_option f (hooks s fd))"
  by (simp_all add: set_hook_def)

lemma or_nonblock: "((ucast (ucast (p OR O_NONBLOCK :: u32) :: u64) :: u32) AND O_NONBLOCK) \<noteq> 0"
proof -
  have "bit ((ucast (ucast (p OR O_NONBLOCK :: u32) :: u64) :: u32) AND O_NONBLOCK) 11"
    by (simp add: bit_simps O_NONBLOCK_def)
  then show ?thesis by auto
qed

lemma fcntl_inv:
  assumes K: "flags_ok os opn nb" and inv: "hook_inv opn nb s" and on: "hook_enabled s = Some True"
    and run: "hook_fcntl os fd cmd arg s = Some (r, s')"
  shows "hook_inv opn nb s'"
proof -
  have quiet: "hook_inv opn nb u" if "call (sys_fcntl os fd c a) s = (r', u)" "c \<noteq> F_SETFL" for c a r' u
  proof (cases rule: call_cases [of "sys_fcntl os fd c a" s])
    case (1 q e k' w)
    with that have u: "kern u = k'" "hooks u = hooks s" "r' = q" by auto
    show ?thesis
    proof (cases "c = F_DUPFD")
      case True
      with 1 flags_okD(4) [OF K, of fd a "kern s" q e k'] inv u show ?thesis
        unfolding hook_inv_def by (metis not_less)
    next
      case False
      with 1 that(2) flags_okD(5) [OF K, of c fd a "kern s" q e k'] inv u show ?thesis
        unfolding hook_inv_def by simp
    qed
  qed
  show ?thesis
  proof (cases "cmd = F_SETFL \<and> 0 \<le> fd")
    case True
    let ?param = "ucast arg :: u32"
    let ?flag = "if get_by_fd fd s \<noteq> None then ?param OR O_NONBLOCK else ?param"
    obtain q e k' w where c: "sys_fcntl os fd F_SETFL (Some (ucast ?flag)) (kern s) = (q, e, k')"
      "call (sys_fcntl os fd F_SETFL (Some (ucast ?flag))) s = (q, w)" "kern w = k'" "hooks w = hooks s"
      by (rule call_cases)
    have s': "kern s' = k'" "hooks s' fd' = None \<longleftrightarrow> hooks s fd' = None" for fd'
      using run True on c by (auto simp: hook_fcntl_def hook_consts Let_def split: if_splits)
    from flags_okD(3) [OF K c(1)] have k': "opn k' = opn (kern s)"
      "nb k' = (if q = 0 then (nb (kern s))(fd := (ucast (ucast ?flag :: u64) :: u32) AND O_NONBLOCK \<noteq> 0) else nb (kern s))"
      by blast+
    show ?thesis
      unfolding hook_inv_def
    proof (intro allI impI)
      fix f assume "hooks s' f \<noteq> None"
      then have f: "hooks s f \<noteq> None" using s' by simp
      with inv have i: "0 \<le> f" "f < fd_slots" "opn (kern s) f" "nb (kern s) f"
        unfolding hook_inv_def by blast+
      have "nb k' f"
      proof (cases "f = fd")
        case True
        with f i have "?flag = ?param OR O_NONBLOCK" by (simp add: get_by_fd_def)
        with k'(2) True i(4) or_nonblock [of ?param] show ?thesis by simp
      next
        case False
        with k'(2) i(4) show ?thesis by simp
      qed
      with i k'(1) s'(1) show "0 \<le> f \<and> f < fd_slots \<and> opn (kern s') f \<and> nb (kern s') f" by simp
    qed
  next
    case False
    then have "s' = s \<or> (\<exists>c a. call (sys_fcntl os fd c a) s = (r, s') \<and> c \<noteq> F_SETFL)"
      using run by (auto simp: hook_fcntl_def Let_def split: if_splits)
    then show ?thesis using quiet inv by blast
  qed
qed

lemma socket_inv:
  assumes K: "flags_ok os opn nb" and inv: "hook_inv opn nb s" and on: "hook_enabled s = Some True"
    and run: "hook_socket os a b c s = Some (r, s')"
  shows "hook_inv opn nb s'"
    "0 \<le> r \<Longrightarrow> \<exists>h. hooks s' r = Some h \<and> nb (kern s') r \<and> domain h = a \<and>
       read_timeout h = \<lparr>tv_sec = 1, tv_usec = 0\<rparr> \<and> write_timeout h = \<lparr>tv_sec = 1, tv_usec = 0\<rparr>"
proof -
  obtain fd e k1 s1 where c1: "sys_socket os a b c (kern s) = (fd, e, k1)" "call (sys_socket os a b c) s = (fd, s1)"
    "kern s1 = k1" "hooks s1 = hooks s" "wd (hp s1) = wd (hp s)" by (rule call_cases)
  note k1 = flags_okD(1) [OF K c1(1)]
  have *: "hook_inv opn nb s' \<and> (0 \<le> r \<longrightarrow> (\<exists>h. hooks s' r = Some h \<and> nb (kern s') r \<and> domain h = a \<and>
       read_timeout h = \<lparr>tv_sec = 1, tv_usec = 0\<rparr> \<and> write_timeout h = \<lparr>tv_sec = 1, tv_usec = 0\<rparr>))"
  proof (cases "fd < 0")
    case True
    with run on c1 have "r = fd" "s' = s1" by (auto simp: hook_socket_def)
    moreover have "hook_inv opn nb s1" unfolding hook_inv_def
    proof (intro allI impI)
      fix f assume "hooks s1 f \<noteq> None"
      with inv c1(4) have "0 \<le> f \<and> f < fd_slots \<and> opn (kern s) f \<and> nb (kern s) f"
        unfolding hook_inv_def by auto
      with True k1 c1(3) show "0 \<le> f \<and> f < fd_slots \<and> opn (kern s1) f \<and> nb (kern s1) f" by auto
    qed
    ultimately show ?thesis using True by simp
  next
    case False
    then have range: "fd < fd_slots"
      using run on c1 by (auto simp: hook_socket_def alloc_by_fd_def Let_def split: if_splits)
    let ?s2 = "set_hook (domain_update (\<lambda>_. a)) fd (s1\<lparr>hooks := (hooks s1)(fd \<mapsto> new_rpchook)\<rparr>)"
    have hk2: "hooks ?s2 = (hooks s)(fd \<mapsto> new_rpchook\<lparr>domain := a\<rparr>)" using c1(4) by simp
    obtain fl e2 k2 s3 where c2: "sys_fcntl os fd F_GETFL (Some 0) (kern ?s2) = (fl, e2, k2)"
      "call (sys_fcntl os fd F_GETFL (Some 0)) ?s2 = (fl, s3)" "kern s3 = k2" "hooks s3 = hooks ?s2"
      "wd (hp s3) = wd (hp ?s2)" by (rule call_cases)
    have k2: "nb k2 = nb k1" "opn k2 = opn k1" using flags_okD(2) [OF K c2(1)] c1(3) by simp_all
    let ?p = "ucast (word_of_int fl :: u64) :: u32"
    obtain q e3 k3 s4 where c3: "sys_fcntl os fd F_SETFL (Some (ucast (?p OR O_NONBLOCK))) (kern s3) = (q, e3, k3)"
      "call (sys_fcntl os fd F_SETFL (Some (ucast (?p OR O_NONBLOCK)))) s3 = (q, s4)" "kern s4 = k3"
      "hooks s4 = hooks s3" "wd (hp s4) = wd (hp s3)" by (rule call_cases)
    have on3: "hook_enabled s3 = Some True" using on c1(5) c2(5) by (simp add: hook_enabled_def)
    have lp3: "get_by_fd fd s3 \<noteq> None" using False range c2(4) hk2 by (simp add: get_by_fd_def)
    have "opn (kern s3) fd" using k1 False k2 c2(3) by simp
    with flags_okD(3) [OF K c3(1)] have q: "q = 0"
      "nb k3 = (nb (kern s3))(fd := (ucast (ucast (?p OR O_NONBLOCK) :: u64) :: u32) AND O_NONBLOCK \<noteq> 0)"
      "opn k3 = opn (kern s3)" by auto
    have fc: "hook_fcntl os fd F_SETFL (word_of_int fl) s3 = Some (0, set_hook (user_flag_update (\<lambda>_. ?p)) fd s4)"
      using False on3 lp3 c3(2) q(1) by (simp add: hook_fcntl_def hook_consts Let_def)
    have res: "r = fd" "s' = set_hook (user_flag_update (\<lambda>_. ?p)) fd s4"
      using run on c1(2) False range c2(2) fc by (auto simp: hook_socket_def alloc_by_fd_def Let_def)
    have nb3: "nb k3 = (nb k1)(fd := True)" using q(2) or_nonblock [of ?p] k2 c2(3) by simp
    have hk: "hooks s' = (hooks s)(fd \<mapsto> new_rpchook\<lparr>domain := a, user_flag := ?p\<rparr>)"
      using res c3(4) c2(4) hk2 by simp
    have "hook_inv opn nb s'" unfolding hook_inv_def
    proof (intro allI impI)
      fix f assume f: "hooks s' f \<noteq> None"
      show "0 \<le> f \<and> f < fd_slots \<and> opn (kern s') f \<and> nb (kern s') f"
      proof (cases "f = fd")
        case True
        with False range k1 k2(2) q(3) nb3 res(2) c3(3) c2(3) show ?thesis by simp
      next
        case f': False
        with f hk inv have "0 \<le> f \<and> f < fd_slots \<and> opn (kern s) f \<and> nb (kern s) f"
          unfolding hook_inv_def by auto
        with f' k1 k2 q(3) nb3 res c3(3) c2(3) show ?thesis by auto
      qed
    qed
    moreover have "\<exists>h. hooks s' r = Some h \<and> nb (kern s') r \<and> domain h = a \<and>
       read_timeout h = \<lparr>tv_sec = 1, tv_usec = 0\<rparr> \<and> write_timeout h = \<lparr>tv_sec = 1, tv_usec = 0\<rparr>"
      using hk nb3 res c3(3) by (simp add: new_rpchook_def)
    ultimately show ?thesis by blast
  qed
  then show "hook_inv opn nb s'" by blast
  show "0 \<le> r \<Longrightarrow> \<exists>h. hooks s' r = Some h \<and> nb (kern s') r \<and> domain h = a \<and>
       read_timeout h = \<lparr>tv_sec = 1, tv_usec = 0\<rparr> \<and> write_timeout h = \<lparr>tv_sec = 1, tv_usec = 0\<rparr>"
    using * by blast
qed

lemma close_inv:
  assumes K: "flags_ok os opn nb" and inv: "hook_inv opn nb s" and on: "hook_enabled s = Some True"
    and run: "hook_close os fd s = Some (r, s')"
  shows "hook_inv opn nb s'"
proof -
  obtain q e k1 s1 where c: "sys_close os fd (kern (free_by_fd fd s)) = (q, e, k1)"
    "call (sys_close os fd) (free_by_fd fd s) = (q, s1)" "kern s1 = k1" "hooks s1 = hooks (free_by_fd fd s)"
    by (rule call_cases)
  have s': "s' = s1" using run on c(2) by (simp add: hook_close_def)
  have f: "kern (free_by_fd fd s) = kern s" by (simp add: free_by_fd_def split: option.splits)
  have hk: "hooks (free_by_fd fd s) g \<noteq> None \<Longrightarrow> g \<noteq> fd \<and> hooks s g \<noteq> None" for g
    using inv unfolding hook_inv_def
    by (cases "g = fd") (auto simp: free_by_fd_def split: option.splits if_splits)
  show ?thesis
    unfolding hook_inv_def
  proof (intro allI impI)
    fix g assume "hooks s' g \<noteq> None"
    with s' c(4) hk [of g] have g: "g \<noteq> fd" "hooks s g \<noteq> None" by auto
    with inv have "0 \<le> g \<and> g < fd_slots \<and> opn (kern s) g \<and> nb (kern s) g" unfolding hook_inv_def by blast
    with flags_okD(6) [OF K c(1)] g(1) f s' c(3) show "0 \<le> g \<and> g < fd_slots \<and> opn (kern s') g \<and> nb (kern s') g"
      by auto
  qed
qed

text \<open>
  A run of the hooked functions that touch the table or the flags; \<open>quiet\<close> is anything that does not, as
  \<open>read\<close>, \<open>write\<close> or \<open>poll\<close>.
\<close>

inductive hook_run :: "'k os \<Rightarrow> ('k \<Rightarrow> int \<Rightarrow> bool) \<Rightarrow> ('k \<Rightarrow> int \<Rightarrow> bool) \<Rightarrow> 'k sys \<Rightarrow> 'k sys \<Rightarrow> bool"
  for os opn nb s where
  start: "hook_run os opn nb s s"
| socket: "hook_run os opn nb s t \<Longrightarrow> hook_enabled t = Some True \<Longrightarrow> hook_socket os a b c t = Some (r, u) \<Longrightarrow>
     hook_run os opn nb s u"
| fcntl: "hook_run os opn nb s t \<Longrightarrow> hook_enabled t = Some True \<Longrightarrow> hook_fcntl os fd cmd arg t = Some (r, u) \<Longrightarrow>
     hook_run os opn nb s u"
| close: "hook_run os opn nb s t \<Longrightarrow> hook_enabled t = Some True \<Longrightarrow> hook_close os fd t = Some (r, u) \<Longrightarrow>
     hook_run os opn nb s u"
| quiet: "hook_run os opn nb s t \<Longrightarrow> dom (hooks u) = dom (hooks t) \<Longrightarrow>
     (\<forall>fd. hooks t fd \<noteq> None \<longrightarrow> opn (kern u) fd = opn (kern t) fd \<and> nb (kern u) fd = nb (kern t) fd) \<Longrightarrow>
     hook_run os opn nb s u"

lemma hook_run_inv:
  assumes "hook_run os opn nb s t" "flags_ok os opn nb" "hook_inv opn nb s"
  shows "hook_inv opn nb t"
  using assms
proof (induction rule: hook_run.induct)
  case start
  then show ?case by simp
next
  case (socket t a b c r u)
  then show ?case using socket_inv(1) [OF socket.prems(1)] by blast
next
  case (fcntl t fd cmd arg r u)
  then show ?case using fcntl_inv [OF fcntl.prems(1)] by blast
next
  case (close t fd r u)
  then show ?case using close_inv [OF close.prems(1)] by blast
next
  case (quiet t u)
  then have "hook_inv opn nb t" by blast
  with quiet.hyps(2,3) show ?case unfolding hook_inv_def by (metis domIff)
qed

section \<open>The properties of the hooks\<close>

text \<open>
  A kernel for the witnesses: the bytes taken from descriptor 3, two at a time at most, and the flags;
  \<open>socket\<close> gives descriptor 3, or \<open>n\<close> when that is the argument.
\<close>

definition demo_os :: "int \<Rightarrow> (byte list \<times> (int \<Rightarrow> u32)) os" where
  "demo_os n = \<lparr>
     sys_socket = (\<lambda>a b c k. (n, None, k)),
     sys_accept = (\<lambda>fd k. (4, None, k)),
     sys_connect = (\<lambda>fd addr k. (- 1, Some EINPROGRESS, k)),
     sys_getsockopt_error = (\<lambda>fd k. (0, None, k)),
     sys_close = (\<lambda>fd k. (0, None, k)),
     sys_read = (\<lambda>fd n k. ((1, [7]), None, k)),
     sys_write = (\<lambda>fd bs k. (int (min 2 (length bs)), None, (fst k @ take 2 bs, snd k))),
     sys_sendto = (\<lambda>fd bs fl to k. (0, None, k)),
     sys_recvfrom = (\<lambda>fd n fl k. ((0, [], []), None, k)),
     sys_send = (\<lambda>fd bs fl k. (int (min 2 (length bs)), None, (fst k @ take 2 bs, snd k))),
     sys_recv = (\<lambda>fd n fl k. ((0, []), None, k)),
     sys_poll = (\<lambda>fds t k. ((0, fds), None, k)),
     sys_setsockopt = (\<lambda>fd lv nm v k. (0, None, k)),
     sys_fcntl = (\<lambda>fd cmd arg k.
       if cmd = F_SETFL then (0, None, (fst k, (snd k)(fd := ucast (the arg))))
       else if cmd = F_GETFL then (sint (snd k fd), None, k) else (- 1, Some EINVAL, k))\<rparr>"

definition demo_poll :: "'k poll_fun" where
  "demo_poll pfds t s = Some (1, pfds, s)"

definition demo_sys :: "(int \<rightharpoonup> rpchook_t) \<Rightarrow> (byte list \<times> (int \<Rightarrow> u32)) sys" where
  "demo_sys h = \<lparr>hp = demo_loop\<lparr>wd := (wd demo_loop)\<lparr>cos := [300 \<mapsto> (loop_co 301)\<lparr>cEnableSysHook := True\<rparr>]\<rparr>\<rparr>,
     hooks = h, kern = ([], \<lambda>_. 0)\<rparr>"

lemma demo_enabled: "hook_enabled (demo_sys h) = Some True"
  by (simp add: hook_enabled_def demo_sys_def co_is_enable_sys_hook_def GetCurrThreadCo_def demo_loop_def
      co_get_curr_thread_env_def GetCurrCo_def call_at_def)

lemma demo_sink: "sink_ok (sys_write (demo_os n) fd) fst" "sink_ok (\<lambda>bs. sys_send (demo_os n) fd bs fl) fst"
  by (auto simp: sink_ok_def demo_os_def min_def)

lemma demo_wait: "wait_ok demo_poll fd fst"
  by (simp add: wait_ok_def poll_wait_def poll_one_def demo_poll_def)

lemma demo_hooked: "\<not> unhooked (Some new_rpchook)"
  by (simp add: unhooked_def new_rpchook_def)

text \<open>
  C22: a hooked \<open>write\<close> on a descriptor libco has made non-blocking returns, provided waiting does; it has
  handed to the kernel, in order and each once, exactly the first bytes of the buffer, as many as it
  reports; an error is reported only when nothing has been taken.
\<close>

theorem hook_write_delivers:
  assumes "sink_ok (sys_write os fd) sent" "wait_ok pollf fd sent"
    and "hook_enabled s = Some True" "get_by_fd fd s = Some h" "\<not> unhooked (Some h)"
  shows "\<exists>r s'. hook_write os pollf fd buf s = Some (r, s') \<and> r \<le> int (length buf) \<and>
     sent (kern s') = sent (kern s) @ take (nat r) buf"
proof -
  have "\<forall>s. \<exists>s'. poll_wait pollf fd POLL_WRITE (timeout_ms (write_timeout h)) s = Some s' \<and> sent (kern s') = sent (kern s)"
    using assms(2) unfolding wait_ok_def by blast
  from write_retry.delivers_all [OF assms(1) this] assms(3-5) show ?thesis
    by (simp add: hook_write_def)
qed

theorem hook_write_delivers_witness:
  "\<exists>r s'. hook_write (demo_os 3) demo_poll 3 [1, 2, 3] (demo_sys [3 \<mapsto> new_rpchook]) = Some (r, s') \<and>
     r \<le> int (length [1, 2, 3 :: byte]) \<and>
     fst (kern s') = fst (kern (demo_sys [3 \<mapsto> new_rpchook])) @ take (nat r) [1, 2, 3]"
  by (rule hook_write_delivers [OF demo_sink(1) demo_wait demo_enabled _ demo_hooked])
    (simp add: get_by_fd_def demo_sys_def fd_slots_def)

text \<open>
  a hooked \<open>send\<close> on such a descriptor returns under the same conditions, having handed exactly the
  first bytes of the buffer to the kernel, as many as it reports.
\<close>

theorem hook_send_delivers:
  assumes "sink_ok (\<lambda>bs. sys_send os fd bs flags) sent" "wait_ok pollf fd sent"
    and "hook_enabled s = Some True" "get_by_fd fd s = Some h" "\<not> unhooked (Some h)"
  shows "\<exists>r s'. hook_send os pollf fd buf flags s = Some (r, s') \<and> r \<le> int (length buf) \<and>
     sent (kern s') = sent (kern s) @ take (nat r) buf"
proof -
  have "\<forall>s. \<exists>s'. poll_wait pollf fd POLL_WRITE (timeout_ms (write_timeout h)) s = Some s' \<and> sent (kern s') = sent (kern s)"
    using assms(2) unfolding wait_ok_def by blast
  from send_retry.delivers_all [OF assms(1) this] assms(3-5) show ?thesis
    by (simp add: hook_send_def)
qed

theorem hook_send_delivers_witness:
  "\<exists>r s'. hook_send (demo_os 3) demo_poll 3 [1, 2, 3] 0 (demo_sys [3 \<mapsto> new_rpchook]) = Some (r, s') \<and>
     r \<le> int (length [1, 2, 3 :: byte]) \<and>
     fst (kern s') = fst (kern (demo_sys [3 \<mapsto> new_rpchook])) @ take (nat r) [1, 2, 3]"
  by (rule hook_send_delivers [OF demo_sink(2) demo_wait demo_enabled _ demo_hooked])
    (simp add: get_by_fd_def demo_sys_def fd_slots_def)

text \<open>
  C23: non-blocking. With the hooks on, whatever sequence of hooked \<open>socket\<close>, \<open>fcntl\<close> and \<open>close\<close> calls runs,
  interleaved with anything that leaves the table and the flags of its descriptors alone, every
  descriptor in the table is open and has \<open>O_NONBLOCK\<close> set in the kernel, also after the user has cleared
  the flag with \<open>fcntl\<close>: the system calls the hooks make on it do not block the thread.
\<close>

theorem hooked_descriptors_nonblocking:
  assumes "hook_run os opn nb s t" "flags_ok os opn nb" "hook_inv opn nb s"
  shows "\<forall>fd. hooks t fd \<noteq> None \<longrightarrow> 0 \<le> fd \<and> fd < fd_slots \<and> opn (kern t) fd \<and> nb (kern t) fd"
  using hook_run_inv [OF assms] by (simp add: hook_inv_def)

definition demo_nb :: "byte list \<times> (int \<Rightarrow> u32) \<Rightarrow> int \<Rightarrow> bool" where
  "demo_nb k fd \<longleftrightarrow> snd k fd AND O_NONBLOCK \<noteq> 0"

lemma demo_flags: "flags_ok (demo_os 3) (\<lambda>_ fd. fd = 3) demo_nb"
  by (auto simp: flags_ok_def demo_os_def demo_nb_def hook_consts fun_eq_iff split: if_splits)

definition nonblocking_sys :: "(byte list \<times> (int \<Rightarrow> u32)) sys" where
  "nonblocking_sys = (demo_sys [3 \<mapsto> new_rpchook])\<lparr>kern := ([], \<lambda>_. O_NONBLOCK)\<rparr>"

lemma nonblocking_sys_ok:
  "hook_inv (\<lambda>_ fd. fd = 3) demo_nb nonblocking_sys" "hook_enabled nonblocking_sys = Some True"
  "get_by_fd 3 nonblocking_sys = Some new_rpchook"
  using demo_enabled
  by (simp_all add: nonblocking_sys_def get_by_fd_def demo_sys_def fd_slots_def hook_inv_def demo_nb_def
      O_NONBLOCK_def hook_enabled_def)

text \<open>The user clears the flag of descriptor 3.\<close>

lemma demo_clear_run:
  "hook_run (demo_os 3) (\<lambda>_ fd. fd = 3) demo_nb nonblocking_sys
     (snd (the (hook_fcntl (demo_os 3) 3 F_SETFL 0 nonblocking_sys)))"
proof -
  have "hook_fcntl (demo_os 3) 3 F_SETFL 0 nonblocking_sys \<noteq> None"
    using nonblocking_sys_ok(2) by (simp add: hook_fcntl_def hook_consts Let_def split: prod.splits)
  then obtain r u where run: "hook_fcntl (demo_os 3) 3 F_SETFL 0 nonblocking_sys = Some (r, u)" by auto
  show ?thesis
    using hook_run.fcntl [OF hook_run.start nonblocking_sys_ok(2) run] run by simp
qed

lemma demo_clear_hooked: "hooks (snd (the (hook_fcntl (demo_os 3) 3 F_SETFL 0 nonblocking_sys))) 3 \<noteq> None"
  using nonblocking_sys_ok(2,3)
  by (simp add: get_by_fd_def hook_fcntl_def hook_consts Let_def call_def set_hook_def demo_os_def split: prod.splits if_splits)

theorem hooked_descriptors_nonblocking_witness:
  "demo_nb (kern (snd (the (hook_fcntl (demo_os 3) 3 F_SETFL 0 nonblocking_sys)))) 3"
  using hooked_descriptors_nonblocking [OF demo_clear_run demo_flags nonblocking_sys_ok(1)] demo_clear_hooked
  by blast

text \<open>
  C38: the idiom \<open>fcntl(fd, F_SETFL, fcntl(fd, F_GETFL))\<close> on a hooked descriptor. \<open>F_GETFL\<close> shows the user the
  \<open>O_NONBLOCK\<close> libco has set; given back to \<open>F_SETFL\<close>, it is recorded as the user's own wish, and from then
  on the hooks leave the descriptor, which the user never made non-blocking, to the system calls.
\<close>

theorem fcntl_getfl_setfl_unhooks:
  assumes "flags_ok os opn nb" "hook_inv opn nb s" "hook_enabled s = Some True" "get_by_fd fd s = Some h"
  shows "\<exists>r s1 s2. hook_fcntl os fd F_GETFL 0 s = Some (r, s1) \<and>
     hook_fcntl os fd F_SETFL (word_of_int r) s1 = Some (0, s2) \<and> unhooked (get_by_fd fd s2)"
proof -
  have h: "hooks s fd = Some h" "fd > - 1" "fd < fd_slots"
    using assms(4) by (auto simp: get_by_fd_def split: if_splits)
  then have i: "opn (kern s) fd" "nb (kern s) fd"
    using assms(2) unfolding hook_inv_def by auto
  obtain r e k1 s1 where c1: "sys_fcntl os fd F_GETFL None (kern s) = (r, e, k1)"
    "call (sys_fcntl os fd F_GETFL None) s = (r, s1)" "kern s1 = k1" "hooks s1 = hooks s" "wd (hp s1) = wd (hp s)"
    by (rule call_cases)
  note k1 = flags_okD(2) [OF assms(1) c1(1)]
  let ?p = "ucast (word_of_int r :: u64) :: u32"
  have p: "?p = word_of_int r" by transfer (simp add: take_bit_eq_mod mod_mod_cancel)
  have on: "hook_enabled s1 = Some True" using assms(3) c1(5) by (simp add: hook_enabled_def)
  have lp: "get_by_fd fd s1 = Some h" using h c1(4) by (simp add: get_by_fd_def)
  obtain q e2 k2 s2 where c2: "sys_fcntl os fd F_SETFL (Some (ucast (?p OR O_NONBLOCK))) (kern s1) = (q, e2, k2)"
    "call (sys_fcntl os fd F_SETFL (Some (ucast (?p OR O_NONBLOCK)))) s1 = (q, s2)" "kern s2 = k2"
    "hooks s2 = hooks s1" by (rule call_cases)
  have "q = 0" using flags_okD(3) [OF assms(1) c2(1)] k1 i c1(3) by simp
  then have "hook_fcntl os fd F_SETFL (word_of_int r) s1 = Some (0, set_hook (user_flag_update (\<lambda>_. ?p)) fd s2)"
    using c2(2) on lp h(2) by (simp add: hook_fcntl_def hook_consts Let_def)
  moreover have "hook_fcntl os fd F_GETFL 0 s = Some (r, s1)"
    using c1(2) h(2) by (simp add: hook_fcntl_def hook_consts Let_def)
  moreover have "unhooked (get_by_fd fd (set_hook (user_flag_update (\<lambda>_. ?p)) fd s2))"
    using h c1(4) c2(4) k1 i p by (simp add: get_by_fd_def unhooked_def and.commute)
  ultimately show ?thesis by blast
qed

theorem fcntl_getfl_setfl_unhooks_witness:
  "\<exists>r s1 s2. hook_fcntl (demo_os 3) 3 F_GETFL 0 nonblocking_sys = Some (r, s1) \<and>
     hook_fcntl (demo_os 3) 3 F_SETFL (word_of_int r) s1 = Some (0, s2) \<and> unhooked (get_by_fd 3 s2)"
  by (rule fcntl_getfl_setfl_unhooks [OF demo_flags nonblocking_sys_ok])

text \<open>
  a hooked \<open>socket\<close> to which the kernel gives a descriptor beyond the table, 102400 or more, writes
  through the null pointer \<open>alloc_by_fd\<close> returns.
\<close>

theorem hook_socket_beyond_table:
  assumes "hook_enabled s = Some True" "sys_socket os af typ protocol (kern s) = (fd, e, k)" "fd_slots \<le> fd"
  shows "hook_socket os af typ protocol s = None"
  using assms by (simp add: hook_socket_def call_def alloc_by_fd_def fd_slots_def)

theorem hook_socket_beyond_table_witness:
  "hook_socket (demo_os 102400) 2 1 0 (demo_sys Map.empty) = None"
  by (rule hook_socket_beyond_table [OF demo_enabled, where fd = 102400 and e = None and k = "kern (demo_sys Map.empty)"])
    (simp_all add: demo_os_def fd_slots_def)

subsection \<open>Timeouts\<close>

definition le_bytes :: "nat \<Rightarrow> int \<Rightarrow> byte list" where
  "le_bytes n x = map (\<lambda>i. word_of_int (x div 256 ^ i)) [0..<n]"

lemma le_bytes_Suc: "le_bytes (Suc n) x = word_of_int x # le_bytes n (x div 256)"
  by (simp add: le_bytes_def upt_conv_Cons map_Suc_upt [symmetric] zdiv_zmult2_eq mult.commute del: upt_Suc)

lemma le_int_bytes: "le_int (le_bytes n x) = x mod 256 ^ n"
proof (induction n arbitrary: x)
  case 0
  then show ?case by (simp add: le_int_def le_bytes_def)
next
  case (Suc n)
  have "le_int (le_bytes (Suc n) x) = x mod 256 + 256 * (x div 256 mod 256 ^ n)"
    using Suc by (simp add: le_bytes_Suc) (simp add: le_int_def uint_word_of_int)
  also have "\<dots> = x mod 256 ^ Suc n"
    using mod_mult2_eq' [of x 256 "256 ^ n"] by (simp add: zmod_zmult2_eq)
  finally show ?case .
qed

lemma length_le_bytes [simp]: "length (le_bytes n x) = n"
  by (simp add: le_bytes_def)

lemma read_timeval_bytes:
  assumes "in_s64 sec" "in_s64 usec"
  shows "read_timeval (le_bytes 8 sec @ le_bytes 8 usec) = Some \<lparr>tv_sec = sec, tv_usec = usec\<rparr>"
proof -
  have "to_s64 (x mod 256 ^ 8) = x" if "in_s64 x" for x
  proof -
    have "to_s64 (x mod 256 ^ 8) = to_s64 x"
      by (simp add: to_s64_def signed_take_bit_eq_iff_take_bit_eq take_bit_eq_mod)
    with that show ?thesis by (simp add: to_s64_id)
  qed
  with assms show ?thesis by (simp add: read_timeval_def le_int_bytes)
qed

text \<open>
  \<open>setsockopt\<close> with \<open>SO_RCVTIMEO\<close> on a hooked descriptor records the timeout, so that a later \<open>read\<close>
  waits at most \<open>1000 * sec + usec / 1000\<close> milliseconds in \<open>poll\<close> before its system call; the zero
  timeout, which for the system call means no limit, makes it not wait at all.
\<close>

theorem setsockopt_sets_read_wait:
  assumes "hook_enabled s = Some True" "get_by_fd fd s = Some h" "\<not> unhooked (Some h)"
    and "0 \<le> sec" "sec < 2000000" "0 \<le> usec" "usec < 1000000"
  shows "\<exists>r s'. hook_setsockopt os fd SOL_SOCKET SO_RCVTIMEO (le_bytes 8 sec @ le_bytes 8 usec) s = Some (r, s') \<and>
     hook_read os pollf fd n s' = do {
       (_, _, u) \<leftarrow> poll_one pollf fd POLL_READ (1000 * sec + usec div 1000) s';
       Some (call (sys_read os fd n) u) }"
proof -
  let ?tv = "\<lparr>tv_sec = sec, tv_usec = usec\<rparr>"
  have tv: "read_timeval (le_bytes 8 sec @ le_bytes 8 usec) = Some ?tv"
    by (rule read_timeval_bytes) (use assms(4-7) in \<open>simp_all add: in_s64_def\<close>)
  let ?u = "set_hook (read_timeout_update (\<lambda>_. ?tv)) fd s"
  obtain r e k1 s1 where c: "sys_setsockopt os fd SOL_SOCKET SO_RCVTIMEO (le_bytes 8 sec @ le_bytes 8 usec) (kern ?u) = (r, e, k1)"
    "call (sys_setsockopt os fd SOL_SOCKET SO_RCVTIMEO (le_bytes 8 sec @ le_bytes 8 usec)) ?u = (r, s1)"
    "hooks s1 = hooks ?u" "wd (hp s1) = wd (hp ?u)" by (rule call_cases)
  have "hook_setsockopt os fd SOL_SOCKET SO_RCVTIMEO (le_bytes 8 sec @ le_bytes 8 usec) s = Some (r, s1)"
    using assms(1,2) tv c(2) by (simp add: hook_setsockopt_def)
  moreover have "usec sdiv 1000 = usec div 1000" using assms(6) by (cases "usec = 0") (simp_all add: signed_divide_int_def)
  then have "timeout_ms ?tv = 1000 * sec + usec div 1000"
    using assms(4-7) unfolding timeout_ms_def by (subst to_s32_id) (auto simp: in_s32_def)
  moreover have "get_by_fd fd s1 = Some (h\<lparr>read_timeout := ?tv\<rparr>)"
    using assms(2) c(3) by (auto simp: get_by_fd_def split: if_splits)
  moreover have "\<not> unhooked (Some (h\<lparr>read_timeout := ?tv\<rparr>))" using assms(3) by (simp add: unhooked_def)
  moreover have "hook_enabled s1 = Some True" using assms(1) c(4) by (simp add: hook_enabled_def)
  ultimately show ?thesis
    by (intro exI [of _ r] exI [of _ s1]) (simp add: hook_read_def)
qed

theorem setsockopt_sets_read_wait_witness:
  "\<exists>r s'. hook_setsockopt (demo_os 3) 3 SOL_SOCKET SO_RCVTIMEO (le_bytes 8 2 @ le_bytes 8 500000)
       (demo_sys [3 \<mapsto> new_rpchook]) = Some (r, s') \<and>
     hook_read (demo_os 3) demo_poll 3 10 s' = do {
       (_, _, u) \<leftarrow> poll_one demo_poll 3 POLL_READ (1000 * 2 + 500000 div 1000) s';
       Some (call (sys_read (demo_os 3) 3 10) u) }"
  by (rule setsockopt_sets_read_wait [OF demo_enabled _ demo_hooked])
    (simp_all add: get_by_fd_def demo_sys_def fd_slots_def)

end
