(* ===== verification/HookIOL.thy ===== *)
theory HookIOL
  imports HookIO
begin

unbundle bit_operations_syntax

text \<open>
  The hooked system calls of \<open>src/libco_l/co_hook_sys_call.cc\<close>, a rewritten copy of those of \<open>src/libco\<close>: each
  function with the prefix \<open>l_\<close>, on the state of \<open>HookIO\<close>. The directory has no \<open>co_poll_inner\<close>: its \<open>poll\<close> is
  the argument \<open>pollf\<close>. The lemmas say where the two agree and what the differences do.
\<close>

section \<open>The table\<close>

definition l_get_by_fd :: "int \<Rightarrow> 'k sys \<Rightarrow> rpchook_t option" where
  "l_get_by_fd fd s = (if fd > - 1 \<and> fd < fd_slots then hooks s fd else None)"

definition l_alloc_by_fd :: "int \<Rightarrow> 'k sys \<Rightarrow> rpchook_t option \<times> 'k sys" where
  "l_alloc_by_fd fd s = (if fd > - 1 \<and> fd < fd_slots
     then (Some new_rpchook, s\<lparr>hooks := (hooks s)(fd \<mapsto> new_rpchook)\<rparr>) else (None, s))"

definition l_free_by_fd :: "int \<Rightarrow> 'k sys \<Rightarrow> 'k sys" where
  "l_free_by_fd fd s = (if fd > - 1 \<and> fd < fd_slots
     then (case hooks s fd of None \<Rightarrow> s | Some _ \<Rightarrow> s\<lparr>hooks := (hooks s)(fd := None)\<rparr>) else s)"

definition l_diff_ms :: "timeval \<Rightarrow> timeval \<Rightarrow> int option" where
  "l_diff_ms t0 t1 = (let u = tv_sec t1 - tv_sec t0; v = tv_usec t1 - tv_usec t0 in do {
     require (in_s64 u \<and> in_s64 (u * (1000 * 10)) \<and> in_s64 v);
     let r = u * (1000 * 10) + v sdiv 100;
     require (in_s64 r);
     Some r })"

section \<open>\<open>poll\<close> and \<open>fcntl\<close>\<close>

text \<open>\<open>inner\<close> stands for \<open>co_poll_inner\<close> on the epoll object of the thread.\<close>

definition l_poll :: "'k os \<Rightarrow> 'k poll_fun \<Rightarrow> 'k poll_fun" where
  "l_poll os inner pfds timeout s = do {
     on \<leftarrow> hook_enabled s;
     if \<not> on then sys_poll_call os pfds timeout s else inner pfds timeout s }"

definition l_fcntl :: "'k os \<Rightarrow> int \<Rightarrow> int \<Rightarrow> u64 \<Rightarrow> 'k sys \<Rightarrow> (int \<times> 'k sys) option" where
  "l_fcntl os fildes cmd arg s = (
     let int_arg = ucast (ucast arg :: u32) in
     if fildes < 0 then Some (628, s)
     else let lp = l_get_by_fd fildes s in
       if cmd = F_DUPFD then Some (call (sys_fcntl os fildes cmd (Some int_arg)) s)
       else if cmd = F_GETFD then Some (call (sys_fcntl os fildes cmd None) s)
       else if cmd = F_SETFD then Some (call (sys_fcntl os fildes cmd (Some int_arg)) s)
       else if cmd = F_GETFL then Some (call (sys_fcntl os fildes cmd None) s)
       else if cmd = F_SETFL then do {
         let param = (ucast arg :: u32);
         on \<leftarrow> hook_enabled s;
         let flag = (if on then param OR O_NONBLOCK else param);
         let (ret, s) = call (sys_fcntl os fildes cmd (Some (ucast flag))) s;
         Some (ret, if ret = 0 \<and> lp \<noteq> None then set_hook (user_flag_update (\<lambda>_. param)) fildes s else s) }
       else if cmd = F_GETOWN then Some (call (sys_fcntl os fildes cmd None) s)
       else if cmd = F_SETOWN then Some (call (sys_fcntl os fildes cmd (Some int_arg)) s)
       else if cmd = F_GETLK then Some (call (sys_fcntl os fildes cmd (Some arg)) s)
       else if cmd = F_SETLK then Some (call (sys_fcntl os fildes cmd (Some arg)) s)
       else Some (- 1, s))"

section \<open>Opening, connecting and closing\<close>

definition l_socket :: "'k os \<Rightarrow> int \<Rightarrow> int \<Rightarrow> int \<Rightarrow> 'k sys \<Rightarrow> (int \<times> 'k sys) option" where
  "l_socket os af typ protocol s = do {
     on \<leftarrow> hook_enabled s;
     if \<not> on then Some (call (sys_socket os af typ protocol) s)
     else do {
       let (fd, s) = call (sys_socket os af typ protocol) s;
       if fd < 0 then Some (fd, s)
       else do {
         let (lp, s) = l_alloc_by_fd fd s;
         _ \<leftarrow> lp;
         let s = set_hook (domain_update (\<lambda>_. af)) fd s;
         let (flags, s) = call (sys_fcntl os fd F_GETFL (Some 0)) s;
         (_, s) \<leftarrow> l_fcntl os fd F_SETFL (word_of_int flags) s;
         Some (fd, s) } } }"

definition l_co_accept :: "'k os \<Rightarrow> int \<Rightarrow> 'k sys \<Rightarrow> int \<times> 'k sys" where
  "l_co_accept os fd s = (let (cli, s) = call (sys_accept os fd) s in
     if cli < 0 then (cli, s) else (let (_, s) = l_alloc_by_fd cli s in (cli, s)))"

text \<open>The loop of \<open>connect\<close>: up to \<open>n\<close> polls of 25 seconds; the last \<open>revents\<close>.\<close>

primrec l_connect_wait :: "'k poll_fun \<Rightarrow> nat \<Rightarrow> int \<Rightarrow> 16 word \<Rightarrow> 'k sys \<Rightarrow> (16 word \<times> 'k sys) option" where
  "l_connect_wait pollf 0 fd revents s = Some (revents, s)"
| "l_connect_wait pollf (Suc n) fd revents s = do {
     (pollret, revents, s) \<leftarrow> poll_one pollf fd POLL_WRITE 25000 s;
     if pollret = 1 then Some (revents, s) else l_connect_wait pollf n fd revents s }"

text \<open>\<open>sizeof(struct sockaddr_in)\<close> is 16.\<close>

definition l_connect ::
  "'k os \<Rightarrow> 'k poll_fun \<Rightarrow> int \<Rightarrow> byte list \<Rightarrow> 'k sys \<Rightarrow> (int \<times> 'k sys) option" where
  "l_connect os pollf fd address s = do {
     on \<leftarrow> hook_enabled s;
     if \<not> on then Some (call (sys_connect os fd address) s)
     else do {
       let (ret, s) = call (sys_connect os fd address) s;
       (case l_get_by_fd fd s of
          None \<Rightarrow> Some (ret, s)
        | Some lp \<Rightarrow> do {
            let s = (if length address \<le> 16
                     then set_hook (dest_update (\<lambda>d. address @ drop (length address) d)) fd s else s);
            if O_NONBLOCK AND user_flag lp \<noteq> 0 then Some (ret, s)
            else if \<not> (ret < 0 \<and> errno (hp s) = EINPROGRESS) then Some (ret, s)
            else do {
              (revents, s) \<leftarrow> l_connect_wait pollf 3 fd 0 s;
              if revents AND POLLOUT \<noteq> 0 then Some (0, set_errno 0 s)
              else do {
                let (err, s) = call (sys_getsockopt_error os fd) s;
                Some (ret, set_errno (if err \<noteq> 0 then err else ETIMEDOUT) s) } } }) } }"

definition l_close :: "'k os \<Rightarrow> int \<Rightarrow> 'k sys \<Rightarrow> (int \<times> 'k sys) option" where
  "l_close os fd s = do {
     on \<leftarrow> hook_enabled s;
     if \<not> on then Some (call (sys_close os fd) s)
     else Some (call (sys_close os fd) (l_free_by_fd fd s)) }"

section \<open>Reading\<close>

text \<open>\<open>recvfrom\<close> sets \<open>pf.fd\<close> to 0 and takes the microseconds of the write timeout.\<close>

definition l_read ::
  "'k os \<Rightarrow> 'k poll_fun \<Rightarrow> int \<Rightarrow> nat \<Rightarrow> 'k sys \<Rightarrow> ((int \<times> byte list) \<times> 'k sys) option" where
  "l_read os pollf fd nbyte s = do {
     on \<leftarrow> hook_enabled s;
     if \<not> on then Some (call (sys_read os fd nbyte) s)
     else do {
       let lp = l_get_by_fd fd s;
       if unhooked lp then Some (call (sys_read os fd nbyte) s)
       else do {
         h \<leftarrow> lp;
         (_, _, s) \<leftarrow> poll_one pollf fd POLL_READ (timeout_ms (read_timeout h)) s;
         Some (call (sys_read os fd nbyte) s) } } }"

definition l_recvfrom ::
  "'k os \<Rightarrow> 'k poll_fun \<Rightarrow> int \<Rightarrow> nat \<Rightarrow> int \<Rightarrow> 'k sys \<Rightarrow> ((int \<times> byte list \<times> byte list) \<times> 'k sys) option" where
  "l_recvfrom os pollf socket len flags s = do {
     on \<leftarrow> hook_enabled s;
     if \<not> on then Some (call (sys_recvfrom os socket len flags) s)
     else do {
       let lp = l_get_by_fd socket s;
       if unhooked lp then Some (call (sys_recvfrom os socket len flags) s)
       else do {
         h \<leftarrow> lp;
         (_, _, s) \<leftarrow> poll_one pollf 0 POLL_READ
           (timeout_ms \<lparr>tv_sec = tv_sec (read_timeout h), tv_usec = tv_usec (write_timeout h)\<rparr>) s;
         Some (call (sys_recvfrom os socket len flags) s) } } }"

definition l_recv ::
  "'k os \<Rightarrow> 'k poll_fun \<Rightarrow> int \<Rightarrow> nat \<Rightarrow> int \<Rightarrow> 'k sys \<Rightarrow> ((int \<times> byte list) \<times> 'k sys) option" where
  "l_recv os pollf socket len flags s = do {
     on \<leftarrow> hook_enabled s;
     if \<not> on then Some (call (sys_recv os socket len flags) s)
     else do {
       let lp = l_get_by_fd socket s;
       if unhooked lp then Some (call (sys_recv os socket len flags) s)
       else do {
         h \<leftarrow> lp;
         (_, _, s) \<leftarrow> poll_one pollf socket POLL_READ (timeout_ms (read_timeout h)) s;
         Some (call (sys_recv os socket len flags) s) } } }"

section \<open>Writing\<close>

text \<open>\<open>write\<close> and \<open>sendto\<close> wait for \<open>POLLIN\<close>; \<open>send\<close> ends with the test \<open>writeret == 0 <= 0 && wrotelen == 0\<close>.\<close>

function l_write_loop ::
  "'k os \<Rightarrow> 'k poll_fun \<Rightarrow> int \<Rightarrow> byte list \<Rightarrow> int \<Rightarrow> int \<Rightarrow> nat \<Rightarrow> 'k sys \<Rightarrow> (int \<times> nat \<times> 'k sys) option" where
  "l_write_loop os pollf fd buf timeout writeret wrotelen s = (
     if wrotelen < length buf then do {
       (_, _, s) \<leftarrow> poll_one pollf fd POLL_READ timeout s;
       let (writeret, s) = call (sys_write os fd (drop wrotelen buf)) s;
       if writeret \<le> 0 then Some (writeret, wrotelen, s)
       else l_write_loop os pollf fd buf timeout writeret (wrotelen + nat writeret) s }
     else Some (writeret, wrotelen, s))"
  by pat_completeness auto

termination
  by (relation "measure (\<lambda>(os, pollf, fd, buf, timeout, writeret, wrotelen, s). length buf - wrotelen)") auto

declare l_write_loop.simps [simp del]

definition l_write ::
  "'k os \<Rightarrow> 'k poll_fun \<Rightarrow> int \<Rightarrow> byte list \<Rightarrow> 'k sys \<Rightarrow> (int \<times> 'k sys) option" where
  "l_write os pollf fd buf s = do {
     on \<leftarrow> hook_enabled s;
     if \<not> on then Some (call (sys_write os fd buf) s)
     else do {
       let lp = l_get_by_fd fd s;
       if unhooked lp then Some (call (sys_write os fd buf) s)
       else do {
         h \<leftarrow> lp;
         let (writeret, s) = call (sys_write os fd buf) s;
         if writeret = 0 then Some (writeret, s)
         else do {
           (writeret, wrotelen, s) \<leftarrow>
             l_write_loop os pollf fd buf (timeout_ms (write_timeout h)) writeret (nat writeret) s;
           Some (if writeret \<le> 0 \<and> wrotelen = 0 then writeret else int wrotelen, s) } } } }"

function l_send_loop ::
  "'k os \<Rightarrow> 'k poll_fun \<Rightarrow> int \<Rightarrow> byte list \<Rightarrow> int \<Rightarrow> int \<Rightarrow> int \<Rightarrow> nat \<Rightarrow> 'k sys \<Rightarrow> (int \<times> nat \<times> 'k sys) option" where
  "l_send_loop os pollf socket buf flags timeout writeret wrotelen s = (
     if wrotelen < length buf then do {
       (_, _, s) \<leftarrow> poll_one pollf socket POLL_WRITE timeout s;
       let (writeret, s) = call (sys_send os socket (drop wrotelen buf) flags) s;
       if writeret \<le> 0 then Some (writeret, wrotelen, s)
       else l_send_loop os pollf socket buf flags timeout writeret (wrotelen + nat writeret) s }
     else Some (writeret, wrotelen, s))"
  by pat_completeness auto

termination
  by (relation "measure (\<lambda>(os, pollf, fd, buf, flags, timeout, writeret, wrotelen, s). length buf - wrotelen)") auto

declare l_send_loop.simps [simp del]

definition l_send ::
  "'k os \<Rightarrow> 'k poll_fun \<Rightarrow> int \<Rightarrow> byte list \<Rightarrow> int \<Rightarrow> 'k sys \<Rightarrow> (int \<times> 'k sys) option" where
  "l_send os pollf socket buf flags s = do {
     on \<leftarrow> hook_enabled s;
     if \<not> on then Some (call (sys_send os socket buf flags) s)
     else do {
       let lp = l_get_by_fd socket s;
       if unhooked lp then Some (call (sys_send os socket buf flags) s)
       else do {
         h \<leftarrow> lp;
         let (writeret, s) = call (sys_send os socket buf flags) s;
         if writeret = 0 then Some (writeret, s)
         else do {
           (writeret, wrotelen, s) \<leftarrow>
             l_send_loop os pollf socket buf flags (timeout_ms (write_timeout h)) writeret (nat writeret) s;
           Some (if of_bool (writeret = 0) \<le> (0 :: int) \<and> wrotelen = 0 then writeret else int wrotelen, s) } } } }"

definition l_sendto ::
  "'k os \<Rightarrow> 'k poll_fun \<Rightarrow> int \<Rightarrow> byte list \<Rightarrow> int \<Rightarrow> byte list \<Rightarrow> 'k sys \<Rightarrow> (int \<times> 'k sys) option" where
  "l_sendto os pollf socket msg flags dest_addr s = do {
     on \<leftarrow> hook_enabled s;
     if \<not> on then Some (call (sys_sendto os socket msg flags dest_addr) s)
     else do {
       let lp = l_get_by_fd socket s;
       if unhooked lp then Some (call (sys_sendto os socket msg flags dest_addr) s)
       else do {
         h \<leftarrow> lp;
         let (ret, s) = call (sys_sendto os socket msg flags dest_addr) s;
         if ret < 0 \<and> EAGAIN = errno (hp s) then do {
           (_, _, s) \<leftarrow> poll_one pollf socket POLL_READ (timeout_ms (write_timeout h)) s;
           Some (call (sys_sendto os socket msg flags dest_addr) s) }
         else Some (ret, s) } } }"

section \<open>\<open>setsockopt\<close>\<close>

definition l_setsockopt ::
  "'k os \<Rightarrow> int \<Rightarrow> int \<Rightarrow> int \<Rightarrow> byte list \<Rightarrow> 'k sys \<Rightarrow> (int \<times> 'k sys) option" where
  "l_setsockopt os fd level option_name option_value s = do {
     on \<leftarrow> hook_enabled s;
     if \<not> on then Some (call (sys_setsockopt os fd level option_name option_value) s)
     else do {
       s \<leftarrow> (if l_get_by_fd fd s \<noteq> None \<and> SOL_SOCKET = level then
              if SO_RCVTIMEO = option_name then do {
                tv \<leftarrow> read_timeval option_value;
                Some (set_hook (read_timeout_update (\<lambda>_. tv)) fd s) }
              else if SO_SNDTIMEO = option_name then do {
                tv \<leftarrow> read_timeval option_value;
                Some (set_hook (write_timeout_update (\<lambda>_. tv)) fd s) }
              else Some s
            else Some s);
       Some (call (sys_setsockopt os fd level option_name option_value) s) } }"

section \<open>Agreement with \<open>src/libco\<close>\<close>

lemma l_table [simp]:
  "l_get_by_fd = get_by_fd" "l_alloc_by_fd = alloc_by_fd" "l_free_by_fd = free_by_fd" "l_diff_ms = diff_ms"
  by (simp_all add: fun_eq_iff l_get_by_fd_def get_by_fd_def l_alloc_by_fd_def alloc_by_fd_def
      l_free_by_fd_def free_by_fd_def l_diff_ms_def diff_ms_def)

lemma l_connect_wait [simp]: "l_connect_wait = connect_wait"
proof (intro ext)
  fix pollf :: "'k poll_fun" and n fd rv s
  show "l_connect_wait pollf n fd rv s = connect_wait pollf n fd rv s"
    by (induction n arbitrary: rv s) (simp_all cong: if_cong)
qed

lemma l_send_loop: "l_send_loop os pollf fd buf flags t wr w s = send_loop os pollf fd buf flags t wr w s"
proof (induction "length buf - w" arbitrary: w wr s rule: less_induct)
  case less
  show ?case
  proof (cases "w < length buf")
    case True
    have "l_send_loop os pollf fd buf flags t r (w + nat r) u = send_loop os pollf fd buf flags t r (w + nat r) u"
      if "\<not> r \<le> 0" for r u
      using that True by (intro less.hyps) linarith
    then show ?thesis
      using True by (subst l_send_loop.simps, subst send_loop.simps) (auto simp: Let_def split: prod.splits intro!: Option.bind_cong)
  next
    case False
    then show ?thesis by (subst l_send_loop.simps, subst send_loop.simps) simp
  qed
qed

lemma l_fcntl_hooked:
  assumes "get_by_fd fd s \<noteq> None"
  shows "l_fcntl os fd F_SETFL arg s = (if fd < 0 then Some (628, s) else hook_fcntl os fd F_SETFL arg s)"
  using assms by (auto simp: l_fcntl_def hook_fcntl_def hook_consts Let_def intro!: Option.bind_cong)

text \<open>
  C27: \<open>socket\<close>, \<open>connect\<close>, \<open>close\<close>, \<open>read\<close>, \<open>recv\<close>, \<open>send\<close> and \<open>setsockopt\<close> of \<open>libco_l\<close> do what those of
  \<open>libco\<close> do: the missing test of the entry in its \<open>fcntl\<close> makes no difference to \<open>socket\<close>, whose descriptor
  has one, and the condition \<open>writeret == 0 <= 0\<close> of its \<open>send\<close> none to the result.
\<close>

theorem l_hooks_agree:
  "l_socket os = hook_socket os \<and> l_connect os pollf = hook_connect os pollf \<and> l_close os = hook_close os \<and>
   l_read os pollf = hook_read os pollf \<and> l_recv os pollf = hook_recv os pollf \<and>
   l_send os pollf = hook_send os pollf \<and> l_setsockopt os = hook_setsockopt os"
proof -
  have sock: "l_socket os a b c s = hook_socket os a b c s" for a b c s
  proof -
    obtain fd e k1 s1 where c1: "sys_socket os a b c (kern s) = (fd, e, k1)" "call (sys_socket os a b c) s = (fd, s1)"
      by (rule call_cases)
    show ?thesis
    proof (cases "0 \<le> fd \<and> fd < fd_slots")
      case True
      let ?s2 = "set_hook (domain_update (\<lambda>_. a)) fd (s1\<lparr>hooks := (hooks s1)(fd \<mapsto> new_rpchook)\<rparr>)"
      obtain fl e2 k2 s3 where c2: "sys_fcntl os fd F_GETFL (Some 0) (kern ?s2) = (fl, e2, k2)"
        "call (sys_fcntl os fd F_GETFL (Some 0)) ?s2 = (fl, s3)" "hooks s3 = hooks ?s2"
        by (rule call_cases)
      have "get_by_fd fd s3 \<noteq> None" using True c2(3) by (simp add: get_by_fd_def)
      from l_fcntl_hooked [OF this] True c1(2) c2(2) show ?thesis
        by (simp add: l_socket_def hook_socket_def alloc_by_fd_def Let_def cong: if_cong)
    next
      case False
      with c1(2) show ?thesis by (auto simp: l_socket_def hook_socket_def alloc_by_fd_def Let_def cong: if_cong)
    qed
  qed
  have send: "l_send os pollf fd buf flags s = hook_send os pollf fd buf flags s" for fd buf flags s
  proof -
    have res: "(if of_bool (wr = 0) \<le> (0 :: int) \<and> w = 0 then wr else int w) = (if wr \<le> 0 \<and> w = 0 then wr else int w)"
      if "w = 0 \<longrightarrow> wr \<le> 0" for wr :: int and w :: nat
      using that by auto
    have pos: "w' = 0 \<longrightarrow> wr' \<le> 0" if "send_loop os pollf fd buf flags t wr w u = Some (wr', w', u')"
      "w = 0 \<longrightarrow> wr \<le> 0" for t wr w u wr' w' u'
      using that
    proof (induction "length buf - w" arbitrary: w wr u rule: less_induct)
      case less
      show ?case
      proof (cases "w < length buf")
        case True
        note eq = less.prems(1) [unfolded send_loop.simps [of os pollf fd buf flags t wr w u]]
        from eq True obtain a b u1 where u1: "poll_one pollf fd POLL_WRITE t u = Some (a, b, u1)"
          by (auto simp: bind_eq_Some_conv)
        obtain r u2 where u2: "call (sys_send os fd (drop w buf) flags) u1 = (r, u2)" by fastforce
        from eq True u1 u2 have u:
          "(if r \<le> 0 then Some (r, w, u2) else send_loop os pollf fd buf flags t r (w + nat r) u2) = Some (wr', w', u')"
          by simp
        show ?thesis
        proof (cases "r \<le> 0")
          case True
          with u show ?thesis by simp
        next
          case False
          with u have "send_loop os pollf fd buf flags t r (w + nat r) u2 = Some (wr', w', u')" by simp
          with less.hyps [of "w + nat r" r u2] True False show ?thesis by auto
        qed
      next
        case False
        with less.prems send_loop.simps [of os pollf fd buf flags t wr w u] show ?thesis by auto
      qed
    qed
    have loop: "(send_loop os pollf fd buf flags t r (nat r) u \<bind> (\<lambda>(wr, w, s).
         Some (if of_bool (wr = 0) \<le> (0 :: int) \<and> w = 0 then wr else int w, s))) =
       (send_loop os pollf fd buf flags t r (nat r) u \<bind> (\<lambda>(wr, w, s). Some (if wr \<le> 0 \<and> w = 0 then wr else int w, s)))"
      for t r u
    proof (cases "send_loop os pollf fd buf flags t r (nat r) u")
      case (Some x)
      obtain wr w v where x: "x = (wr, w, v)" by (cases x)
      have "w = 0 \<longrightarrow> wr \<le> 0" using pos [of t r "nat r" u wr w v, OF Some [unfolded x]] by linarith
      from res [OF this] show ?thesis by (simp only: Some x bind.bind_lunit prod.case)
    qed (simp only: bind.bind_lzero)
    show ?thesis
      unfolding l_send_def hook_send_def l_send_loop loop l_table by (rule refl)
  qed
  have conn: "l_connect os pollf = hook_connect os pollf"
    by (intro ext) (simp only: l_connect_def hook_connect_def l_table l_connect_wait)
  have clos: "l_close os = hook_close os"
    by (intro ext) (simp only: l_close_def hook_close_def l_table)
  have rd: "l_read os pollf = hook_read os pollf" "l_recv os pollf = hook_recv os pollf"
    by (intro ext, simp only: l_read_def hook_read_def l_recv_def hook_recv_def l_table)+
  have opt: "l_setsockopt os = hook_setsockopt os"
    by (intro ext) (simp only: l_setsockopt_def hook_setsockopt_def l_table)
  have "l_socket os = hook_socket os" "l_send os pollf = hook_send os pollf"
    using sock send by (intro ext, simp)+
  with conn clos rd opt show ?thesis by simp
qed

section \<open>Differences\<close>

text \<open>Two \<open>poll\<close> functions that agree on the calls with a property.\<close>

definition same_polls :: "(int \<Rightarrow> 16 word \<Rightarrow> bool) \<Rightarrow> 'k poll_fun \<Rightarrow> 'k poll_fun \<Rightarrow> bool" where
  "same_polls P f g \<longleftrightarrow> (\<forall>fd ev t s. P fd ev \<longrightarrow> poll_one f fd ev t s = poll_one g fd ev t s)"

lemma l_write_loop_same:
  assumes "same_polls (\<lambda>_ ev. ev AND POLLOUT = 0) f g"
  shows "l_write_loop os f fd buf t wr w s = l_write_loop os g fd buf t wr w s"
proof (induction "length buf - w" arbitrary: w wr s rule: less_induct)
  case less
  have p: "poll_one f fd POLL_READ t s = poll_one g fd POLL_READ t s"
    using assms by (simp add: same_polls_def POLL_READ_def)
  show ?case
  proof (cases "w < length buf")
    case True
    have "l_write_loop os f fd buf t r (w + nat r) u = l_write_loop os g fd buf t r (w + nat r) u"
      if "\<not> r \<le> 0" for r u
      using that True by (intro less.hyps) linarith
    then show ?thesis
      using True by (subst (1 2) l_write_loop.simps) (auto simp: p Let_def split: prod.splits intro!: Option.bind_cong)
  next
    case False
    then show ?thesis by (subst (1 2) l_write_loop.simps) simp
  qed
qed

text \<open>
  C39: the waits of \<open>libco_l\<close> miss the event. Its \<open>write\<close> and \<open>sendto\<close> never ask \<open>poll\<close> for \<open>POLLOUT\<close>, so what
  \<open>poll\<close> says of a descriptor becoming writable cannot affect them; its \<open>recvfrom\<close> never asks for any
  descriptor but 0, so what \<open>poll\<close> says of the socket cannot affect it.
\<close>

theorem l_waits_miss_the_event:
  "(same_polls (\<lambda>_ ev. ev AND POLLOUT = 0) f g \<longrightarrow>
     l_write os f fd buf s = l_write os g fd buf s \<and>
     l_sendto os f fd buf flags addr s = l_sendto os g fd buf flags addr s) \<and>
   (same_polls (\<lambda>d _. d = 0) f g \<longrightarrow> l_recvfrom os f fd n flags s = l_recvfrom os g fd n flags s)"
proof (intro conjI impI)
  assume S: "same_polls (\<lambda>_ ev. ev AND POLLOUT = 0) f g"
  then have p: "poll_one f fd POLL_READ t s = poll_one g fd POLL_READ t s" for t s
    by (simp add: same_polls_def POLL_READ_def)
  show "l_write os f fd buf s = l_write os g fd buf s"
    unfolding l_write_def l_write_loop_same [OF S] by (rule refl)
  show "l_sendto os f fd buf flags addr s = l_sendto os g fd buf flags addr s"
    unfolding l_sendto_def p by (rule refl)
next
  assume "same_polls (\<lambda>d _. d = 0) f g"
  then have p: "poll_one f 0 ev t s = poll_one g 0 ev t s" for ev t s
    by (simp add: same_polls_def)
  show "l_recvfrom os f fd n flags s = l_recvfrom os g fd n flags s"
    unfolding l_recvfrom_def p by (rule refl)
qed

theorem l_waits_miss_the_event_witness:
  "l_write (demo_os 3) demo_poll 3 [1, 2, 3] (demo_sys [3 \<mapsto> new_rpchook]) =
     l_write (demo_os 3) (\<lambda>pfds t s. if pevents (hd pfds) AND POLLOUT = 0 then demo_poll pfds t s else None)
       3 [1, 2, 3] (demo_sys [3 \<mapsto> new_rpchook])"
  using l_waits_miss_the_event [of demo_poll
      "\<lambda>pfds t s. if pevents (hd pfds) AND POLLOUT = 0 then demo_poll pfds t s else None"
      "demo_os 3" 3 "[1, 2, 3]" "demo_sys [3 \<mapsto> new_rpchook]"]
  by (simp add: same_polls_def poll_one_def)

text \<open>
  \<open>fcntl\<close> of \<open>libco_l\<close> with the hooks on makes every descriptor non-blocking that the user passes to
  \<open>F_SETFL\<close>, also one libco knows nothing of, whose \<open>read\<close> and \<open>write\<close> it then leaves to the system calls; and
  it answers \<open>F_SETLKW\<close> with -1 without a system call. \<open>libco\<close> passes both on as they are.
\<close>

theorem l_fcntl_differs:
  assumes "hook_enabled s = Some True" "0 \<le> fd" "get_by_fd fd s = None"
  shows "l_fcntl os fd F_SETFL arg s =
       Some (call (sys_fcntl os fd F_SETFL (Some (ucast (ucast arg OR O_NONBLOCK)))) s) \<and>
     hook_fcntl os fd F_SETFL arg s = Some (call (sys_fcntl os fd F_SETFL (Some (ucast (ucast arg :: u32)))) s) \<and>
     l_fcntl os fd F_SETLKW arg s = Some (- 1, s) \<and>
     hook_fcntl os fd F_SETLKW arg s = Some (call (sys_fcntl os fd F_SETLKW (Some arg)) s)"
  using assms by (simp add: l_fcntl_def hook_fcntl_def hook_consts Let_def split: prod.splits)

theorem l_fcntl_differs_witness:
  "l_fcntl (demo_os 3) 5 F_SETFL 2 (demo_sys Map.empty) =
       Some (call (sys_fcntl (demo_os 3) 5 F_SETFL (Some (ucast (ucast (2 :: u64) OR O_NONBLOCK)))) (demo_sys Map.empty)) \<and>
     hook_fcntl (demo_os 3) 5 F_SETFL 2 (demo_sys Map.empty) =
       Some (call (sys_fcntl (demo_os 3) 5 F_SETFL (Some (ucast (ucast (2 :: u64) :: u32)))) (demo_sys Map.empty)) \<and>
     l_fcntl (demo_os 3) 5 F_SETLKW 2 (demo_sys Map.empty) = Some (- 1, demo_sys Map.empty) \<and>
     hook_fcntl (demo_os 3) 5 F_SETLKW 2 (demo_sys Map.empty) =
       Some (call (sys_fcntl (demo_os 3) 5 F_SETLKW (Some 2)) (demo_sys Map.empty))"
  by (rule l_fcntl_differs [OF demo_enabled]) (simp_all add: get_by_fd_def demo_sys_def)

end
