(* ===== verification/SysEnv.thy ===== *)
theory SysEnv
  imports Threads "HOL-Library.List_Lexorder" "HOL-Library.Char_ord"
begin

text \<open>
  The environment variables private to a coroutine, of \<open>src/libco/co_hook_sys_call.cpp\<close>: \<open>co_set_env_list\<close>,
  \<open>setenv\<close>, \<open>unsetenv\<close>, \<open>getenv\<close>, and the versions of \<open>src/libco_l/co_hook_sys_call.cc\<close>. Strings are lists of
  characters in the order of \<open>strcmp\<close>; \<open>qsort\<close> sorts, \<open>bsearch\<close> is the binary search of the C library.
\<close>

section \<open>State\<close>

record stCoSysEnv_t =
  env_name :: string
  env_value :: "string option"

text \<open>
  \<open>g_co_sysenv\<close> is \<open>None\<close> while its \<open>data\<close> is \<open>NULL\<close>; \<open>env_arrs\<close> holds the copies the \<open>pvEnv\<close> of coroutines
  point to; \<open>environ\<close> is the environment of the process.
\<close>

record envst =
  ew :: world
  g_co_sysenv :: "stCoSysEnv_t list option"
  env_arrs :: "addr \<rightharpoonup> stCoSysEnv_t list"
  environ :: "string \<rightharpoonup> string"

section \<open>\<open>co_set_env_list\<close>\<close>

definition co_sysenv_comp :: "stCoSysEnv_t \<Rightarrow> stCoSysEnv_t \<Rightarrow> int" where
  "co_sysenv_comp a b = (if env_name a < env_name b then - 1 else if env_name a = env_name b then 0 else 1)"

text \<open>The entries for the names that are not \<open>NULL\<close> and not empty.\<close>

definition given_entries :: "string option list \<Rightarrow> stCoSysEnv_t list" where
  "given_entries names = map (\<lambda>n. \<lparr>env_name = the n, env_value = None\<rparr>)
     (filter (\<lambda>n. n \<noteq> None \<and> the n \<noteq> []) names)"

text \<open>A round of the loop that drops repeated names: \<open>lp\<close> and the array; \<open>lq\<close> is \<open>i\<close>.\<close>

definition dedup_step :: "nat \<Rightarrow> nat \<times> stCoSysEnv_t list \<Rightarrow> nat \<times> stCoSysEnv_t list" where
  "dedup_step lq = (\<lambda>(lp, d). if env_name (d ! lp) \<noteq> env_name (d ! lq)
     then (lp + 1, if lq \<noteq> lp + 1 then d[lp + 1 := d ! lq] else d) else (lp, d))"

definition dedup :: "stCoSysEnv_t list \<Rightarrow> stCoSysEnv_t list" where
  "dedup d = (let (lp, d) = fold dedup_step [1..<length d] (0, d) in take (lp + 1) d)"

definition co_set_env_list :: "string option list \<Rightarrow> stCoSysEnv_t list option \<Rightarrow> stCoSysEnv_t list option" where
  "co_set_env_list names g = (case g of
     Some _ \<Rightarrow> g
   | None \<Rightarrow> let d = given_entries names
       in Some (if length d > 1 then dedup (sort_key env_name d) else d))"

section \<open>Lookup\<close>

function bsearch :: "string \<Rightarrow> stCoSysEnv_t list \<Rightarrow> nat \<Rightarrow> nat \<Rightarrow> nat option" where
  "bsearch n arr l u = (if l < u then
       let idx = (l + u) div 2; c = co_sysenv_comp \<lparr>env_name = n, env_value = None\<rparr> (arr ! idx) in
       if c < 0 then bsearch n arr l idx
       else if c > 0 then bsearch n arr (idx + 1) u
       else Some idx
     else None)"
  by pat_completeness auto

termination
  by (relation "measure (\<lambda>(n, arr, l, u). u - l)") auto

declare bsearch.simps [simp del]

section \<open>\<open>setenv\<close>, \<open>unsetenv\<close> and \<open>getenv\<close>\<close>

text \<open>The functions of the C library on the environment of the process.\<close>

definition sys_setenv :: "string \<Rightarrow> string option \<Rightarrow> int \<Rightarrow> envst \<Rightarrow> (int \<times> envst) option" where
  "sys_setenv n v overwrite s = (if n = [] \<or> CHR ''='' \<in> set n then Some (- 1, s)
     else if environ s n \<noteq> None \<and> overwrite = 0 then Some (0, s)
     else map_option (\<lambda>v. (0, s\<lparr>environ := (environ s)(n \<mapsto> v)\<rparr>)) v)"

definition sys_unsetenv :: "string \<Rightarrow> envst \<Rightarrow> int \<times> envst" where
  "sys_unsetenv n s = (if n = [] \<or> CHR ''='' \<in> set n then (- 1, s)
     else (0, s\<lparr>environ := (environ s)(n := None)\<rparr>))"

text \<open>\<open>dup_co_sysenv_arr\<close>: a copy of the array at a fresh address.\<close>

definition dup_co_sysenv_arr :: "stCoSysEnv_t list \<Rightarrow> envst \<Rightarrow> addr \<times> envst" where
  "dup_co_sysenv_arr arr s = (let (a, w) = malloc 1 (ew s)
     in (a, s\<lparr>ew := w, env_arrs := (env_arrs s)(a \<mapsto> arr)\<rparr>))"

text \<open>The array of the coroutine, made on first use.\<close>

definition env_of_co :: "addr \<Rightarrow> stCoSysEnv_t list \<Rightarrow> envst \<Rightarrow> (addr \<times> stCoSysEnv_t list \<times> envst) option" where
  "env_of_co self g s = do {
     c \<leftarrow> cos (ew s) self;
     (a, s) \<leftarrow> (case pvEnv c of
         Some a \<Rightarrow> Some (a, s)
       | None \<Rightarrow> do {
           let (a, s) = dup_co_sysenv_arr g s;
           w \<leftarrow> set_co (pvEnv_update (\<lambda>_. Some a)) self (ew s);
           Some (a, s\<lparr>ew := w\<rparr>) });
     arr \<leftarrow> env_arrs s a;
     Some (a, arr, s) }"

definition hook_setenv :: "string \<Rightarrow> string option \<Rightarrow> int \<Rightarrow> envst \<Rightarrow> (int \<times> envst) option" where
  "hook_setenv n v overwrite s = do {
     on \<leftarrow> co_is_enable_sys_hook (ew s);
     self \<leftarrow> co_self (ew s);
     (case (g_co_sysenv s, self) of
        (Some g, Some co) \<Rightarrow> if on then do {
            (a, arr, s) \<leftarrow> env_of_co co g s;
            (case bsearch n arr 0 (length arr) of
               Some i \<Rightarrow> Some (0, if overwrite \<noteq> 0 \<or> env_value (arr ! i) = None
                 then s\<lparr>env_arrs := (env_arrs s)(a \<mapsto> arr[i := (arr ! i)\<lparr>env_value := v\<rparr>])\<rparr> else s)
             | None \<Rightarrow> sys_setenv n v overwrite s) }
          else sys_setenv n v overwrite s
      | _ \<Rightarrow> sys_setenv n v overwrite s) }"

definition hook_unsetenv :: "string \<Rightarrow> envst \<Rightarrow> (int \<times> envst) option" where
  "hook_unsetenv n s = do {
     on \<leftarrow> co_is_enable_sys_hook (ew s);
     self \<leftarrow> co_self (ew s);
     (case (g_co_sysenv s, self) of
        (Some g, Some co) \<Rightarrow> if on then do {
            (a, arr, s) \<leftarrow> env_of_co co g s;
            (case bsearch n arr 0 (length arr) of
               Some i \<Rightarrow> Some (0, if env_value (arr ! i) \<noteq> None
                 then s\<lparr>env_arrs := (env_arrs s)(a \<mapsto> arr[i := (arr ! i)\<lparr>env_value := None\<rparr>])\<rparr> else s)
             | None \<Rightarrow> Some (sys_unsetenv n s)) }
          else Some (sys_unsetenv n s)
      | _ \<Rightarrow> Some (sys_unsetenv n s)) }"

definition hook_getenv :: "string \<Rightarrow> envst \<Rightarrow> (string option \<times> envst) option" where
  "hook_getenv n s = do {
     on \<leftarrow> co_is_enable_sys_hook (ew s);
     (case g_co_sysenv s of
        Some g \<Rightarrow> if on then do {
            self \<leftarrow> co_self (ew s);
            co \<leftarrow> self;
            (a, arr, s) \<leftarrow> env_of_co co g s;
            (case bsearch n arr 0 (length arr) of
               Some i \<Rightarrow> Some (env_value (arr ! i), s)
             | None \<Rightarrow> Some (environ s n, s)) }
          else Some (environ s n, s)
      | None \<Rightarrow> Some (environ s n, s)) }"

section \<open>The versions of \<open>src/libco_l\<close>\<close>

text \<open>
  The loop of \<open>co_set_env_list\<close> there advances \<open>lp\<close> where \<open>libco\<close> advances \<open>lq\<close>, which stays at the second
  entry. \<open>cap\<close> is the number of entries allocated; names beyond \<open>length d\<close> are null. The result is the
  array and the new count.
\<close>

definition l_dedup_step :: "nat \<Rightarrow> nat \<Rightarrow> nat \<times> stCoSysEnv_t list \<Rightarrow> (nat \<times> stCoSysEnv_t list) option" where
  "l_dedup_step cap i = (\<lambda>(lp, d). do {
     require (lp < length d \<and> 1 < length d);
     if env_name (d ! lp) \<noteq> env_name (d ! 1) then do {
       let lp = lp + 1;
       d \<leftarrow> (if lp \<noteq> 1 then do { require (lp < cap);
              Some (if lp < length d then d[lp := d ! 1] else d @ [d ! 1]) } else Some d);
       Some (lp + 1, d) }
     else Some (lp + 1, d) })"

definition l_co_set_env_list ::
  "string option list \<Rightarrow> (stCoSysEnv_t list \<times> nat) option \<Rightarrow> (stCoSysEnv_t list \<times> nat) option option" where
  "l_co_set_env_list names g = (case g of
     Some _ \<Rightarrow> Some g
   | None \<Rightarrow> let d = given_entries names in
       if length d > 1 then do {
         (lp, d) \<leftarrow> foldM (l_dedup_step (length names)) [1..<length d] (0, sort_key env_name d);
         Some (Some (d, lp + 1)) }
       else Some (Some (d, length d)))"

text \<open>
  \<open>setenv\<close> there has the body of \<open>unsetenv\<close>. As in the functions above the array is as long as its count,
  which \<open>l_co_set_env_list\<close> achieves for at most one name only.
\<close>

definition l_setenv :: "string \<Rightarrow> string option \<Rightarrow> int \<Rightarrow> envst \<Rightarrow> (int \<times> envst) option" where
  "l_setenv n v overwrite s = do {
     on \<leftarrow> co_is_enable_sys_hook (ew s);
     self \<leftarrow> co_self (ew s);
     (case (g_co_sysenv s, self) of
        (Some g, Some co) \<Rightarrow> if on then do {
            (a, arr, s) \<leftarrow> env_of_co co g s;
            (case bsearch n arr 0 (length arr) of
               Some i \<Rightarrow> Some (0, if env_value (arr ! i) \<noteq> None
                 then s\<lparr>env_arrs := (env_arrs s)(a \<mapsto> arr[i := (arr ! i)\<lparr>env_value := None\<rparr>])\<rparr> else s)
             | None \<Rightarrow> Some (sys_unsetenv n s)) }
          else Some (sys_unsetenv n s)
      | _ \<Rightarrow> Some (sys_unsetenv n s)) }"

definition l_getenv :: "string \<Rightarrow> envst \<Rightarrow> (string option \<times> envst) option" where
  "l_getenv n s = do {
     on \<leftarrow> co_is_enable_sys_hook (ew s);
     (case g_co_sysenv s of
        Some g \<Rightarrow> if on then do {
            self \<leftarrow> co_self (ew s);
            co \<leftarrow> self;
            (a, arr, s) \<leftarrow> env_of_co co g s;
            (case bsearch n arr 0 (length arr) of
               Some i \<Rightarrow> Some (env_value (arr ! i), s)
             | None \<Rightarrow> Some (environ s n, s)) }
          else Some (environ s n, s)
      | None \<Rightarrow> Some (environ s n, s)) }"

lemma l_getenv_eq: "l_getenv = hook_getenv"
  by (intro ext) (simp add: l_getenv_def hook_getenv_def)

section \<open>The list of names\<close>

definition env_sorted :: "stCoSysEnv_t list \<Rightarrow> bool" where
  "env_sorted d \<longleftrightarrow> sorted_wrt (<) (map env_name d)"

text \<open>Between two rounds, the entries up to \<open>lp\<close> are the different names of the first \<open>i\<close>.\<close>

lemma dedup_loop:
  assumes "sorted (map env_name d)" "i \<le> length d" "1 \<le> i"
  shows "\<exists>lp e. fold dedup_step [1..<i] (0, d) = (lp, e) \<and> lp < i \<and> length e = length d \<and>
     (\<forall>j. i \<le> j \<longrightarrow> j < length d \<longrightarrow> e ! j = d ! j) \<and>
     env_sorted (take (lp + 1) e) \<and> env_name ` set (take (lp + 1) e) = env_name ` set (take i d) \<and>
     env_name (e ! lp) = env_name (d ! (i - 1))"
  using assms(3,2)
proof (induction i rule: dec_induct)
  case base
  then show ?case by (intro exI [of _ 0] exI [of _ d]) (cases d, auto simp: env_sorted_def)
next
  case (step i)
  then obtain lp e where IH: "fold dedup_step [1..<i] (0, d) = (lp, e)" "lp < i" "length e = length d"
     "\<forall>j. i \<le> j \<longrightarrow> j < length d \<longrightarrow> e ! j = d ! j"
     "env_sorted (take (lp + 1) e)" "env_name ` set (take (lp + 1) e) = env_name ` set (take i d)"
     "env_name (e ! lp) = env_name (d ! (i - 1))" by auto
  have i: "i < length d" using step by simp
  have ei: "e ! i = d ! i" using IH(4) i by simp
  have fold: "fold dedup_step [1..<Suc i] (0, d) = dedup_step i (lp, e)"
    using step.hyps IH(1) by simp
  have take_i: "env_name ` set (take (Suc i) d) = insert (env_name (d ! i)) (env_name ` set (take i d))"
    using i by (simp add: take_Suc_conv_app_nth)
  show ?case
  proof (cases "env_name (e ! lp) = env_name (e ! i)")
    case True
    have "env_name (d ! i) \<in> env_name ` set (take (lp + 1) e)"
      using True ei IH(2,3) i by (auto simp: take_Suc_conv_app_nth)
    moreover have "dedup_step i (lp, e) = (lp, e)"
      using True by (simp add: dedup_step_def)
    moreover have "env_name (e ! lp) = env_name (d ! (Suc i - 1))"
      using True ei by simp
    ultimately show ?thesis
      unfolding fold using IH(2-6) take_i
      by (intro exI [of _ lp] exI [of _ e] conjI) (simp_all add: insert_absorb)
  next
    case False
    define e2 where "e2 = (if i \<noteq> lp + 1 then e[lp + 1 := e ! i] else e)"
    have lt: "env_name (d ! (i - 1)) < env_name (d ! i)"
      using False IH(7) ei assms(1) i step.hyps
      by (simp add: sorted_iff_nth_mono order.strict_iff_order)
    have e': "e2 ! (lp + 1) = d ! i" "length e2 = length d" "take (lp + 1) e2 = take (lp + 1) e"
      using IH(2,3) i ei by (auto simp: e2_def)
    have tk: "take (lp + 1 + 1) e2 = take (lp + 1) e @ [d ! i]"
      using e' IH(2) i take_Suc_conv_app_nth [of "lp + 1" e2] by simp
    have last: "x \<le> env_name (e ! lp)" if "x \<in> env_name ` set (take (lp + 1) e)" for x
    proof -
      from that obtain k where k: "k \<le> lp" "x = env_name (e ! k)"
        using IH(2,3) i by (auto simp: in_set_conv_nth less_Suc_eq_le)
      have "sorted (map env_name (take (lp + 1) e))"
        using IH(5) by (simp add: env_sorted_def strict_sorted_imp_sorted)
      then have "map env_name (take (lp + 1) e) ! k \<le> map env_name (take (lp + 1) e) ! lp"
        using k(1) IH(2,3) i by (intro sorted_nth_mono) auto
      with k IH(2,3) i show ?thesis by simp
    qed
    have le: "x < env_name (d ! i)" if "x \<in> env_name ` set (take (lp + 1) e)" for x
      using last [OF that] lt IH(7) by (simp add: le_less_trans)
    have "sorted_wrt (<) (map env_name (take (lp + 1) e) @ [env_name (d ! i)])"
      unfolding sorted_wrt_append using IH(5) le by (simp add: env_sorted_def)
    then have "env_sorted (take (lp + 1 + 1) e2)"
      unfolding tk by (simp only: env_sorted_def map_append list.map)
    moreover have "dedup_step i (lp, e) = (lp + 1, e2)"
      using False by (simp add: dedup_step_def e2_def)
    moreover have "\<forall>j. Suc i \<le> j \<longrightarrow> j < length d \<longrightarrow> e2 ! j = d ! j"
      using IH(2,4) by (auto simp: e2_def)
    moreover have "env_name ` set (take (lp + 1 + 1) e2) = env_name ` set (take (Suc i) d)"
      unfolding tk take_i using IH(6) by simp
    moreover have "lp + 1 < Suc i" "env_name (e2 ! (lp + 1)) = env_name (d ! (Suc i - 1))"
      using IH(2) e'(1) by simp_all
    ultimately show ?thesis
      unfolding fold using e'(2) by (intro exI [of _ "lp + 1"] exI [of _ e2] conjI)
  qed
qed

lemma dedup_sorted:
  assumes "sorted (map env_name d)" "d \<noteq> []"
  shows "env_sorted (dedup d)" "env_name ` set (dedup d) = env_name ` set d"
proof -
  have "1 \<le> length d" using assms(2) by (cases d) auto
  from dedup_loop [OF assms(1) order_refl this] obtain lp e where
    "fold dedup_step [1..<length d] (0, d) = (lp, e)" "env_sorted (take (lp + 1) e)"
    "env_name ` set (take (lp + 1) e) = env_name ` set (take (length d) d)" by auto
  then show "env_sorted (dedup d)" "env_name ` set (dedup d) = env_name ` set d"
    by (simp_all add: dedup_def)
qed

lemma dedup_values: "x \<in> set (dedup d) \<Longrightarrow> d \<noteq> [] \<Longrightarrow> x \<in> set d"
proof -
  have "set (snd (fold dedup_step is (lp, e))) \<subseteq> set d \<and> length (snd (fold dedup_step is (lp, e))) = length d"
    if "set e \<subseteq> set d" "length e = length d" "\<forall>i\<in>set is. i < length d" for "is" lp e
    using that
  proof (induction "is" arbitrary: lp e)
    case (Cons i "is")
    have "set (e[lp + 1 := e ! i]) \<subseteq> set d"
      using Cons.prems nth_mem [of i e] by (intro order_trans [OF set_update_subset_insert]) auto
    with Cons show ?case by (simp add: dedup_step_def)
  qed simp
  from this [of d "[1..<length d]" 0]
  show "x \<in> set (dedup d) \<Longrightarrow> d \<noteq> [] \<Longrightarrow> x \<in> set d"
    by (cases "fold dedup_step [1..<length d] (0, d)") (auto simp: dedup_def dest: in_set_takeD)
qed

section \<open>Lookup in a sorted array\<close>

lemma env_sorted_nth_less:
  assumes "env_sorted d" "i < j" "j < length d"
  shows "env_name (d ! i) < env_name (d ! j)"
  using assms by (simp add: env_sorted_def sorted_wrt_iff_nth_less)

lemma bsearch_cases:
  assumes "env_sorted arr" "u \<le> length arr"
  shows "case bsearch n arr l u of
     Some i \<Rightarrow> l \<le> i \<and> i < u \<and> env_name (arr ! i) = n
   | None \<Rightarrow> (\<forall>i. l \<le> i \<longrightarrow> i < u \<longrightarrow> env_name (arr ! i) \<noteq> n)"
  using assms
proof (induction n arr l u rule: bsearch.induct)
  case (1 n arr l u)
  let ?m = "(l + u) div 2"
  let ?c = "co_sysenv_comp \<lparr>env_name = n, env_value = None\<rparr> (arr ! ?m)"
  show ?case
  proof (cases "l < u")
    case False
    then show ?thesis by (simp add: bsearch.simps)
  next
    case lu: True
    consider "n < env_name (arr ! ?m)" | "n = env_name (arr ! ?m)" | "env_name (arr ! ?m) < n"
      by fastforce
    then show ?thesis
    proof cases
      case less: 1
      have c: "?c = - 1" using less by (simp add: co_sysenv_comp_def)
      have out: "env_name (arr ! i) \<noteq> n" if "?m \<le> i" "i < u" for i
        using env_sorted_nth_less [OF "1.prems"(1), of ?m i] less that "1.prems"(2)
        by (cases "i = ?m") auto
      have "?m \<le> length arr" using lu "1.prems"(2) by simp
      from "1.IH"(1) [OF lu refl refl _ "1.prems"(1) this] c
      have IH: "case bsearch n arr l ?m of Some i \<Rightarrow> l \<le> i \<and> i < ?m \<and> env_name (arr ! i) = n
          | None \<Rightarrow> (\<forall>i. l \<le> i \<longrightarrow> i < ?m \<longrightarrow> env_name (arr ! i) \<noteq> n)" by simp
      have "bsearch n arr l u = bsearch n arr l ?m"
        using lu c by (subst bsearch.simps) (simp add: Let_def)
      with IH out lu show ?thesis
        by (cases "bsearch n arr l ?m") (auto simp: not_le [symmetric])
    next
      case 2
      then show ?thesis using lu by (subst bsearch.simps) (auto simp: co_sysenv_comp_def)
    next
      case gr: 3
      have c: "?c = 1" using gr by (auto simp: co_sysenv_comp_def)
      have out: "env_name (arr ! i) \<noteq> n" if "l \<le> i" "i < ?m + 1" for i
      proof (cases "i = ?m")
        case False
        then have "env_name (arr ! i) < env_name (arr ! ?m)"
          using env_sorted_nth_less [OF "1.prems"(1), of i ?m] that lu "1.prems"(2) by simp
        with gr show ?thesis by auto
      qed (use gr in auto)
      from "1.IH"(2) [OF lu refl refl _ _ "1.prems"] c
      have IH: "case bsearch n arr (?m + 1) u of Some i \<Rightarrow> ?m + 1 \<le> i \<and> i < u \<and> env_name (arr ! i) = n
          | None \<Rightarrow> (\<forall>i. ?m + 1 \<le> i \<longrightarrow> i < u \<longrightarrow> env_name (arr ! i) \<noteq> n)" by simp
      have "bsearch n arr l u = bsearch n arr (?m + 1) u"
        using lu c by (subst bsearch.simps) (simp add: Let_def)
      with IH out lu show ?thesis
        by (cases "bsearch n arr (?m + 1) u") (auto simp: not_le [symmetric])
    qed
  qed
qed

definition entries :: "stCoSysEnv_t list \<Rightarrow> string \<rightharpoonup> string option" where
  "entries d = map_of (map (\<lambda>x. (env_name x, env_value x)) d)"

lemma entries_nth:
  assumes "env_sorted d" "i < length d"
  shows "entries d (env_name (d ! i)) = Some (env_value (d ! i))"
proof -
  have "distinct (map env_name d)"
    using assms(1) by (simp add: env_sorted_def strict_sorted_iff)
  then have "distinct (map fst (map (\<lambda>x. (env_name x, env_value x)) d))" by (simp add: comp_def)
  with assms(2) show ?thesis
    unfolding entries_def by (intro map_of_is_SomeI) auto
qed

lemma entries_None: "entries d n = None \<longleftrightarrow> n \<notin> env_name ` set d"
  by (force simp: entries_def map_of_eq_None_iff)

lemma bsearch_entries:
  assumes "env_sorted arr"
  shows "(case bsearch n arr 0 (length arr) of Some i \<Rightarrow> Some (env_value (arr ! i)) | None \<Rightarrow> None) = entries arr n"
    and "bsearch n arr 0 (length arr) = Some i \<Longrightarrow> i < length arr \<and> env_name (arr ! i) = n"
    and "bsearch n arr 0 (length arr) = None \<longleftrightarrow> n \<notin> env_name ` set arr"
proof -
  note c = bsearch_cases [OF assms order_refl, where n = n and l = 0]
  show "bsearch n arr 0 (length arr) = Some i \<Longrightarrow> i < length arr \<and> env_name (arr ! i) = n"
    using c by simp
  show e: "bsearch n arr 0 (length arr) = None \<longleftrightarrow> n \<notin> env_name ` set arr"
    using c nth_mem [of _ arr] by (auto simp: image_iff in_set_conv_nth split: option.splits)
  show "(case bsearch n arr 0 (length arr) of Some i \<Rightarrow> Some (env_value (arr ! i)) | None \<Rightarrow> None) = entries arr n"
    using c entries_nth [OF assms] e entries_None [of arr n] by (fastforce split: option.splits)
qed

lemma entries_update:
  assumes "env_sorted d" "i < length d"
  shows "env_sorted (d[i := (d ! i)\<lparr>env_value := v\<rparr>])"
    and "entries (d[i := (d ! i)\<lparr>env_value := v\<rparr>]) = (entries d)(env_name (d ! i) \<mapsto> v)"
proof -
  let ?d = "d[i := (d ! i)\<lparr>env_value := v\<rparr>]"
  have names: "map env_name ?d = map env_name d"
    using assms(2) by (intro nth_equalityI) (auto simp: nth_list_update)
  show s: "env_sorted ?d" using assms(1) names by (simp add: env_sorted_def)
  show "entries ?d = (entries d)(env_name (d ! i) \<mapsto> v)"
  proof
    fix n
    have set_eq: "env_name ` set ?d = env_name ` set d"
      using arg_cong [OF names, of set] by simp
    show "entries ?d n = ((entries d)(env_name (d ! i) \<mapsto> v)) n"
    proof (cases "n \<in> env_name ` set d")
      case False
      moreover have "env_name (d ! i) \<in> env_name ` set d" using assms(2) by simp
      ultimately show ?thesis
        using entries_None [of ?d n] entries_None [of d n] set_eq by auto
    next
      case True
      then obtain j where j: "j < length d" "n = env_name (d ! j)" by (auto simp: in_set_conv_nth)
      have "env_name (?d ! j) = n" using j assms(2) by (simp add: nth_list_update)
      then have "entries ?d n = Some (env_value (?d ! j))"
        using entries_nth [OF s, of j] j by simp
      moreover have "entries d n = Some (env_value (d ! j))" using entries_nth [OF assms(1)] j by simp
      moreover have "env_name (d ! j) = env_name (d ! i) \<longleftrightarrow> i = j"
        using env_sorted_nth_less [OF assms(1), of i j] env_sorted_nth_less [OF assms(1), of j i] j assms(2)
        by (metis less_irrefl nat_neq_iff)
      ultimately show ?thesis using j assms(2) by (auto simp: nth_list_update)
    qed
  qed
qed


section \<open>The environment a coroutine sees\<close>

text \<open>\<open>co_arr\<close>: its array, or the empty template it will copy; \<open>env_view\<close>: what \<open>getenv\<close> looks up.\<close>

definition co_arr :: "envst \<Rightarrow> addr \<Rightarrow> stCoSysEnv_t list" where
  "co_arr s p = (case cos (ew s) p of
     None \<Rightarrow> the (g_co_sysenv s)
   | Some c \<Rightarrow> (case pvEnv c of None \<Rightarrow> the (g_co_sysenv s) | Some a \<Rightarrow> the (env_arrs s a)))"

definition env_view :: "envst \<Rightarrow> addr \<Rightarrow> string \<Rightarrow> string option" where
  "env_view s p n = (case entries (co_arr s p) n of Some v \<Rightarrow> v | None \<Rightarrow> environ s n)"

definition env_ok :: "envst \<Rightarrow> bool" where
  "env_ok s \<longleftrightarrow> (\<exists>g. g_co_sysenv s = Some g \<and> env_sorted g \<and>
     (\<forall>p c a. cos (ew s) p = Some c \<longrightarrow> pvEnv c = Some a \<longrightarrow>
        a < brk (ew s) \<and> (\<exists>arr. env_arrs s a = Some arr \<and> env_sorted arr \<and>
          env_name ` set arr = env_name ` set g)) \<and>
     (\<forall>p q c d. cos (ew s) p = Some c \<longrightarrow> cos (ew s) q = Some d \<longrightarrow>
        pvEnv c \<noteq> None \<longrightarrow> pvEnv c = pvEnv d \<longrightarrow> p = q))"

text \<open>The coroutine that runs, with the hooks on.\<close>

definition env_running :: "envst \<Rightarrow> addr \<Rightarrow> bool" where
  "env_running s p \<longleftrightarrow> co_is_enable_sys_hook (ew s) = Some True \<and> co_self (ew s) = Some (Some p) \<and>
     (\<exists>c. cos (ew s) p = Some c)"

lemma co_arr_names:
  assumes "env_ok s" "g_co_sysenv s = Some g"
  shows "env_sorted (co_arr s p)" "env_name ` set (co_arr s p) = env_name ` set g"
  using assms unfolding env_ok_def co_arr_def by (fastforce split: option.splits)+

lemma env_of_co_ok:
  assumes ok: "env_ok s" and g: "g_co_sysenv s = Some g" and c: "cos (ew s) p = Some c"
  shows "\<exists>a s'. env_of_co p g s = Some (a, co_arr s p, s') \<and> env_ok s' \<and> g_co_sysenv s' = Some g \<and>
    environ s' = environ s \<and> (\<forall>q. co_arr s' q = co_arr s q) \<and>
    (\<exists>c. cos (ew s') p = Some c \<and> pvEnv c = Some a)"
proof (cases "pvEnv c")
  case (Some a)
  with ok g c obtain arr where "env_arrs s a = Some arr" unfolding env_ok_def by blast
  with Some c g ok show ?thesis
    by (intro exI [of _ a] exI [of _ s]) (simp add: env_of_co_def co_arr_def)
next
  case None
  let ?w = "ew s" and ?a = "brk (ew s)"
  let ?w' = "?w\<lparr>brk := brk ?w + 1, cos := (cos ?w)(p \<mapsto> c\<lparr>pvEnv := Some ?a\<rparr>)\<rparr>"
  let ?s = "s\<lparr>ew := ?w', env_arrs := (env_arrs s)(?a \<mapsto> g)\<rparr>"
  have arr: "co_arr s p = g" using None c g by (simp add: co_arr_def)
  have run: "env_of_co p g s = Some (?a, g, ?s)"
    using None c by (simp add: env_of_co_def dup_co_sysenv_arr_def malloc_def set_co_def Let_def)
  have fresh: "pvEnv d \<noteq> Some ?a" if "cos ?w q = Some d" for q d
    using ok g that unfolding env_ok_def by (metis less_irrefl)
  have "env_ok ?s"
    unfolding env_ok_def
  proof (rule exI [of _ g], intro conjI allI impI)
    show "g_co_sysenv ?s = Some g" "env_sorted g" using ok g by (simp_all add: env_ok_def)
  next
    fix q d b assume "cos (ew ?s) q = Some d" "pvEnv d = Some b"
    with ok g fresh show "b < brk (ew ?s)"
        "\<exists>arr. env_arrs ?s b = Some arr \<and> env_sorted arr \<and> env_name ` set arr = env_name ` set g"
      unfolding env_ok_def by (fastforce split: if_splits)+
  next
    fix q r d e assume "cos (ew ?s) q = Some d" "cos (ew ?s) r = Some e" "pvEnv d \<noteq> None" "pvEnv d = pvEnv e"
    with ok g fresh show "q = r"
      unfolding env_ok_def by (fastforce split: if_splits)
  qed
  moreover have "co_arr ?s q = co_arr s q" for q
    using fresh [of q] None c g by (auto simp: co_arr_def split: option.splits)
  ultimately show ?thesis
    using run arr g by (intro exI [of _ ?a] exI [of _ ?s]) simp
qed

text \<open>Writing a value into the array of a coroutine changes what this coroutine sees, and nothing else.\<close>

lemma env_write:
  fixes v :: "string option"
  assumes ok: "env_ok s" and c: "cos (ew s) p = Some c" "pvEnv c = Some a"
    and i: "i < length (co_arr s p)" and n: "env_name (co_arr s p ! i) = n"
  defines "s' \<equiv> s\<lparr>env_arrs := (env_arrs s)(a \<mapsto> (co_arr s p)[i := (co_arr s p ! i)\<lparr>env_value := v\<rparr>])\<rparr>"
  shows "env_ok s'" "environ s' = environ s" "env_view s' p = (env_view s p)(n := v)"
    "q \<noteq> p \<Longrightarrow> env_view s' q = env_view s q"
proof -
  obtain g where g: "g_co_sysenv s = Some g" using ok unfolding env_ok_def by blast
  note up = entries_update [OF co_arr_names(1) [OF ok g] i]
  have names: "env_name ` set ((co_arr s p)[i := (co_arr s p ! i)\<lparr>env_value := v\<rparr>]) = env_name ` set g"
  proof -
    have "map env_name ((co_arr s p)[i := (co_arr s p ! i)\<lparr>env_value := v\<rparr>]) = map env_name (co_arr s p)"
      using i by (intro nth_equalityI) (auto simp: nth_list_update)
    then show ?thesis using co_arr_names(2) [OF ok g, of p] by (metis set_map)
  qed
  have other: "pvEnv d \<noteq> Some a" if "cos (ew s) q = Some d" "q \<noteq> p" for q d
    using ok that c unfolding env_ok_def by (metis option.distinct(1))
  show "env_ok s'"
    using ok g up(1) names unfolding env_ok_def s'_def by (simp split: if_splits) blast
  show env: "environ s' = environ s" by (simp add: s'_def)
  have "co_arr s' p = (co_arr s p)[i := (co_arr s p ! i)\<lparr>env_value := v\<rparr>]"
    unfolding s'_def co_arr_def [of "env_arrs_update _ _"] using c by simp
  then have "entries (co_arr s' p) = (entries (co_arr s p))(n \<mapsto> v)" using up(2) n by simp
  then show "env_view s' p = (env_view s p)(n := v)"
    by (intro ext) (simp add: env_view_def env split: option.split)
  assume "q \<noteq> p"
  then have "co_arr s' q = co_arr s q"
    using other [of q] by (auto simp: co_arr_def s'_def split: option.splits)
  then show "env_view s' q = env_view s q"
    by (intro ext) (simp add: env_view_def env split: option.split)
qed



text \<open>For the witnesses: coroutine 10 runs with its hooks on, and there is a list of two names.\<close>

definition demo_envst :: envst where
  "demo_envst = \<lparr>ew = demo_world\<lparr>cos := map_option (cEnableSysHook_update (\<lambda>_. True)) \<circ> cos demo_world\<rparr>,
     g_co_sysenv = co_set_env_list [Some ''PATH'', None, Some ''HOME'', Some ''PATH''] None,
     env_arrs = (\<lambda>_. None), environ = [''PATH'' \<mapsto> ''bin'']\<rparr>"

lemma demo_g: "g_co_sysenv demo_envst = Some [\<lparr>env_name = ''HOME'', env_value = None\<rparr>,
    \<lparr>env_name = ''PATH'', env_value = None\<rparr>]"
  by code_simp

lemma demo_env_ok: "env_ok demo_envst"
  unfolding env_ok_def demo_g
  by (auto simp: env_sorted_def demo_envst_def demo_world_def demo_co_def split: if_splits)

lemma demo_env_running: "env_running demo_envst 10"
  by (simp add: env_running_def demo_envst_def demo_world_def demo_co_def co_is_enable_sys_hook_def
      co_self_def GetCurrThreadCo_def co_get_curr_thread_env_def GetCurrCo_def call_at_def)

lemma demo_env_view: "env_view demo_envst 10 ''PATH'' = None" "env_view demo_envst 10 ''TERM'' = None"
proof -
  have "co_arr demo_envst 10 = the (g_co_sysenv demo_envst)"
    unfolding co_arr_def demo_g by (simp add: demo_envst_def demo_world_def demo_co_def)
  then have e: "env_view demo_envst 10 n = (if n = ''HOME'' \<or> n = ''PATH'' then None else environ demo_envst n)" for n
    by (simp add: env_view_def entries_def demo_g)
  show "env_view demo_envst 10 ''PATH'' = None" "env_view demo_envst 10 ''TERM'' = None"
    unfolding e by (simp_all add: demo_envst_def)
qed

text \<open>
  C25: \<open>co_set_env_list\<close> called the first time leaves an array with strictly increasing names, which are
  the given names that are neither \<open>NULL\<close> nor empty, each once and without a value; called again it
  changes nothing.
\<close>
theorem co_set_env_list_sorted:
  "\<exists>d. co_set_env_list names None = Some d \<and> env_sorted d \<and>
     env_name ` set d = {n. Some n \<in> set names \<and> n \<noteq> []} \<and>
     env_value ` set d \<subseteq> {None} \<and> co_set_env_list names' (Some d) = Some d"
proof -
  let ?e = "given_entries names"
  have names: "env_name ` set ?e = {n. Some n \<in> set names \<and> n \<noteq> []}"
    by (force simp: given_entries_def)
  have vals: "\<forall>e\<in>set ?e. env_value e = None" by (auto simp: given_entries_def)
  let ?d = "if length ?e > 1 then dedup (sort_key env_name ?e) else ?e"
  have "env_sorted ?d \<and> env_name ` set ?d = env_name ` set ?e \<and> (\<forall>e\<in>set ?d. env_value e = None)"
  proof (cases "length ?e > 1")
    case True
    then have ne: "sort_key env_name ?e \<noteq> []" by (metis length_sort list.size(3) not_one_less_zero)
    have "sorted (map env_name (sort_key env_name ?e))" by simp
    from dedup_sorted [OF this ne] dedup_values [OF _ ne] vals True show ?thesis by auto
  next
    case False
    then have "env_sorted ?e"
      unfolding env_sorted_def by (cases ?e; cases "tl ?e") auto
    with False vals show ?thesis by simp
  qed
  with names show ?thesis
    by (intro exI [of _ ?d]) (simp add: co_set_env_list_def Let_def image_subset_iff)
qed

text \<open>
  C24: With the hooks on, \<open>setenv\<close> of a name on the list inside a coroutine follows the specification of
  \<open>setenv\<close> on the environment this coroutine sees: the variable gets the value if it had none or
  \<open>overwrite\<close> is set; the environment of every other coroutine and of the process stays as it was.
\<close>
theorem setenv_private:
  assumes "env_ok s" "env_running s p" "g_co_sysenv s = Some g" "n \<in> env_name ` set g"
  shows "\<exists>s'. hook_setenv n v overwrite s = Some (0, s') \<and> env_ok s' \<and>
    env_view s' p = (if overwrite \<noteq> 0 \<or> env_view s p n = None then (env_view s p)(n := v) else env_view s p) \<and>
    (\<forall>q. q \<noteq> p \<longrightarrow> env_view s' q = env_view s q) \<and> environ s' = environ s"
proof -
  obtain c where on: "co_is_enable_sys_hook (ew s) = Some True" and self: "co_self (ew s) = Some (Some p)"
    and c: "cos (ew s) p = Some c" using assms(2) unfolding env_running_def by blast
  obtain a t d where t: "env_of_co p g s = Some (a, co_arr s p, t)" "env_ok t" "g_co_sysenv t = Some g"
    and same: "environ t = environ s" "\<forall>q. co_arr t q = co_arr s q"
    and d: "cos (ew t) p = Some d" "pvEnv d = Some a"
    using env_of_co_ok [OF assms(1,3) c] by blast
  have view: "env_view t q = env_view s q" for q using same by (intro ext) (simp add: env_view_def split: option.split)
  note names = co_arr_names [OF assms(1,3), of p]
  obtain i where i: "bsearch n (co_arr s p) 0 (length (co_arr s p)) = Some i"
    using bsearch_entries(3) [OF names(1), of n] names(2) assms(4) by auto
  note j = bsearch_entries(2) [OF names(1) i]
  have val: "env_view s p n = env_value (co_arr s p ! i)"
    using bsearch_entries(1) [OF names(1), of n] i by (auto simp: env_view_def split: option.split)
  note w = env_write [OF t(2) d, where i = i and n = n and v = v] same(2)
  show ?thesis
  proof (cases "overwrite \<noteq> 0 \<or> env_view s p n = None")
    case True
    let ?t = "t\<lparr>env_arrs := (env_arrs t)(a \<mapsto> (co_arr s p)[i := (co_arr s p ! i)\<lparr>env_value := v\<rparr>])\<rparr>"
    have "hook_setenv n v overwrite s = Some (0, ?t)"
      using on self assms(3) t(1) i True val by (simp add: hook_setenv_def)
    with w j True view same(1) show ?thesis by (intro exI [of _ ?t]) simp
  next
    case False
    then have "hook_setenv n v overwrite s = Some (0, t)"
      using on self assms(3) t(1) i val by (auto simp: hook_setenv_def)
    with False t(2) view same(1) show ?thesis by (intro exI [of _ t]) auto
  qed
qed

theorem setenv_private_witness:
  "\<exists>s'. hook_setenv ''PATH'' (Some ''mine'') 0 demo_envst = Some (0, s') \<and>
     env_view s' 10 ''PATH'' = Some ''mine'' \<and> environ s' ''PATH'' = Some ''bin''"
  using setenv_private [OF demo_env_ok demo_env_running demo_g, of "''PATH''" "Some ''mine''" 0] demo_env_view(1)
  by (auto simp: demo_envst_def)

text \<open>
  With the hooks on, \<open>getenv\<close> inside a coroutine returns what the coroutine sees under the name: its own
  value for a name on the list, also when it has none, and the value of the process for any other name;
  it changes the environment of no coroutine.
\<close>
theorem getenv_reads_view:
  assumes "env_ok s" "env_running s p"
  shows "\<exists>s'. hook_getenv n s = Some (env_view s p n, s') \<and> env_ok s' \<and> environ s' = environ s \<and>
    (\<forall>q. env_view s' q = env_view s q)"
proof -
  obtain g where g: "g_co_sysenv s = Some g" using assms(1) unfolding env_ok_def by blast
  obtain c where on: "co_is_enable_sys_hook (ew s) = Some True" and self: "co_self (ew s) = Some (Some p)"
    and c: "cos (ew s) p = Some c" using assms(2) unfolding env_running_def by blast
  obtain a t where t: "env_of_co p g s = Some (a, co_arr s p, t)" "env_ok t" "environ t = environ s"
    "\<forall>q. co_arr t q = co_arr s q"
    using env_of_co_ok [OF assms(1) g c] by blast
  have view: "env_view t q = env_view s q" for q using t(3,4) by (intro ext) (simp add: env_view_def split: option.split)
  have "hook_getenv n s = Some (env_view s p n, t)"
    using on self g t(1,3) bsearch_entries(1) [OF co_arr_names(1) [OF assms(1) g, of p], of n]
    by (auto simp: hook_getenv_def env_view_def split: option.splits)
  with t(2,3) view show ?thesis by (intro exI [of _ t]) simp
qed


theorem getenv_reads_view_witness:
  "\<exists>s'. hook_getenv ''PATH'' demo_envst = Some (None, s')"
  using getenv_reads_view [OF demo_env_ok demo_env_running, of "''PATH''"] demo_env_view(1) by auto

text \<open>
  With the hooks on, \<open>unsetenv\<close> of a name on the list removes it from the environment this coroutine sees,
  and from no other. In \<open>libco_l\<close>, \<open>setenv\<close> does just this, whatever value it is given.
\<close>
theorem unsetenv_private:
  assumes "env_ok s" "env_running s p" "g_co_sysenv s = Some g" "n \<in> env_name ` set g"
  shows "\<exists>s'. hook_unsetenv n s = Some (0, s') \<and> l_setenv n v overwrite s = Some (0, s') \<and> env_ok s' \<and>
    env_view s' p = (env_view s p)(n := None) \<and>
    (\<forall>q. q \<noteq> p \<longrightarrow> env_view s' q = env_view s q) \<and> environ s' = environ s"
proof -
  obtain c where on: "co_is_enable_sys_hook (ew s) = Some True" and self: "co_self (ew s) = Some (Some p)"
    and c: "cos (ew s) p = Some c" using assms(2) unfolding env_running_def by blast
  obtain a t d where t: "env_of_co p g s = Some (a, co_arr s p, t)" "env_ok t"
    and same: "environ t = environ s" "\<forall>q. co_arr t q = co_arr s q"
    and d: "cos (ew t) p = Some d" "pvEnv d = Some a"
    using env_of_co_ok [OF assms(1,3) c] by blast
  have view: "env_view t q = env_view s q" for q
    using same by (intro ext) (simp add: env_view_def split: option.split)
  note names = co_arr_names [OF assms(1,3), of p]
  obtain i where i: "bsearch n (co_arr s p) 0 (length (co_arr s p)) = Some i"
    using bsearch_entries(3) [OF names(1), of n] names(2) assms(4) by auto
  note j = bsearch_entries(2) [OF names(1) i]
  have val: "env_view s p n = env_value (co_arr s p ! i)"
    using bsearch_entries(1) [OF names(1), of n] i by (auto simp: env_view_def split: option.split)
  have same_l: "l_setenv n v overwrite s = hook_unsetenv n s"
    by (simp add: l_setenv_def hook_unsetenv_def)
  show ?thesis
  proof (cases "env_view s p n = None")
    case False
    let ?t = "t\<lparr>env_arrs := (env_arrs t)(a \<mapsto> (co_arr s p)[i := (co_arr s p ! i)\<lparr>env_value := None\<rparr>])\<rparr>"
    have "hook_unsetenv n s = Some (0, ?t)"
      using on self assms(3) t(1) i False val by (simp add: hook_unsetenv_def)
    with env_write [OF t(2) d, where i = i and n = n and v = None] same j view same_l show ?thesis
      by (intro exI [of _ ?t]) simp
  next
    case True
    then have "hook_unsetenv n s = Some (0, t)"
      using on self assms(3) t(1) i val by (simp add: hook_unsetenv_def)
    moreover have "(env_view s p)(n := None) = env_view s p" using True by auto
    ultimately show ?thesis using t(2) view same(1) same_l by (intro exI [of _ t]) simp
  qed
qed

theorem unsetenv_private_witness:
  "\<exists>s'. l_setenv ''PATH'' (Some ''mine'') 1 demo_envst = Some (0, s') \<and> env_view s' 10 ''PATH'' = None"
  using unsetenv_private [OF demo_env_ok demo_env_running demo_g, of "''PATH''" "Some ''mine''" 1] by auto

text \<open>
  The list of names of \<open>libco_l\<close> is wrong for any two different names: it holds two entries and its count
  is 3, so that \<open>bsearch\<close> reads the entry behind the array; \<open>libco\<close> counts two.
\<close>
theorem l_env_list_miscounts:
  assumes "a \<noteq> b" "a \<noteq> []" "b \<noteq> []"
  shows "\<exists>d. l_co_set_env_list [Some a, Some b] None = Some (Some (d, 3)) \<and> length d = 2 \<and>
    co_set_env_list [Some a, Some b] None = Some d"
proof -
  let ?e = "sort_key env_name [\<lparr>env_name = a, env_value = None\<rparr>, \<lparr>env_name = b, env_value = None\<rparr>]"
  have given: "given_entries [Some a, Some b] = [\<lparr>env_name = a, env_value = None\<rparr>, \<lparr>env_name = b, env_value = None\<rparr>]"
    using assms by (simp add: given_entries_def)
  obtain x y where xy: "?e = [x, y]" "env_name x \<noteq> env_name y"
    using assms(1) by (cases "a \<le> b") (auto simp: insort_key.simps)
  have "co_set_env_list [Some a, Some b] None = Some [x, y]"
    using xy(2) by (simp only: co_set_env_list_def given option.case Let_def xy(1)) (simp add: dedup_def dedup_step_def)
  moreover have "l_co_set_env_list [Some a, Some b] None = Some (Some ([x, y], 3))"
    using xy(2) by (simp only: l_co_set_env_list_def given option.case Let_def xy(1)) (simp add: l_dedup_step_def)
  ultimately show ?thesis by (intro exI [of _ "[x, y]"]) simp
qed

theorem l_env_list_miscounts_witness:
  "\<exists>d. l_co_set_env_list [Some ''PATH'', Some ''HOME''] None = Some (Some (d, 3)) \<and> length d = 2"
  using l_env_list_miscounts [of "''PATH''" "''HOME''"] by auto

end
