(* ===== verification/Epoll.thy ===== *)
theory Epoll
  imports EventLoop
begin

unbundle bit_operations_syntax

text \<open>
  \<open>src/libco/co_epoll.cpp\<close>: the interface of \<open>epoll\<close> on top of \<open>kqueue\<close>, for the systems without \<open>epoll\<close>, and
  the buffers of results. On Linux the other functions are those of the system. The kernel is the record
  \<open>kq\<close>, a parameter: \<open>kq_change\<close> is \<open>kevent\<close> with one change and no room for events, \<open>kq_wait\<close> is
  \<open>kevent\<close> without a change.
\<close>

section \<open>\<open>clsFdMap\<close>\<close>

record clsFdMap =
  m_pp :: "nat \<rightharpoonup> ptr list"

definition new_fd_map :: clsFdMap where
  "new_fd_map = \<lparr>m_pp = Map.empty\<rparr>"

definition new_row :: "ptr list" where
  "new_row = replicate 1024 None"

text \<open>The \<open>assert(__LINE__ == 0)\<close> fails; a negative remainder is an index outside the row.\<close>

definition fdmap_set :: "int \<Rightarrow> ptr \<Rightarrow> clsFdMap \<Rightarrow> clsFdMap option" where
  "fdmap_set fd p m = do {
     let idx = fd sdiv 1024;
     require (0 \<le> idx \<and> idx < 1024);
     let row = (case m_pp m (nat idx) of None \<Rightarrow> new_row | Some r \<Rightarrow> r);
     require (0 \<le> fd smod 1024);
     Some (m\<lparr>m_pp := (m_pp m)(nat idx \<mapsto> row[nat (fd smod 1024) := p])\<rparr>) }"

definition fdmap_get :: "int \<Rightarrow> clsFdMap \<Rightarrow> ptr option" where
  "fdmap_get fd m = (let idx = fd sdiv 1024 in
     if idx < 0 \<or> 1024 \<le> idx then Some None
     else (case m_pp m (nat idx) of
        None \<Rightarrow> Some None
      | Some lp \<Rightarrow> do { require (0 \<le> fd smod 1024); Some (lp ! nat (fd smod 1024)) }))"

section \<open>State\<close>

record kevent_pair_t =
  fire_idx :: int
  pair_events :: u32
  pair_u64 :: u64

record kevent =
  ident :: int
  kfilter :: int
  kflags :: int
  udata :: ptr

text \<open>\<open>struct epoll_event\<close> with the member \<open>u64\<close> of its union.\<close>

record ep_event =
  e_events :: u32
  e_u64 :: u64

record co_epoll_res =
  res_size :: int
  res_events :: "ep_event list"
  res_eventlist :: "kevent list"

record 'k kq =
  kq_change :: "int \<Rightarrow> kevent \<Rightarrow> 'k \<Rightarrow> int \<times> 'k"
  kq_wait :: "int \<Rightarrow> int \<Rightarrow> (int \<times> int) option \<Rightarrow> 'k \<Rightarrow> int \<times> kevent list \<times> 'k"

text \<open>\<open>s_fd_map\<close> is the thread's map, \<open>pairs\<close> the allocated \<open>kevent_pair_t\<close>.\<close>

record 'k eps =
  s_fd_map :: "clsFdMap option"
  pairs :: "addr \<rightharpoonup> kevent_pair_t"
  pair_brk :: addr
  ep_errno :: int
  ep_kern :: 'k

abbreviation "EVFILT_READ \<equiv> (- 1 :: int)"
abbreviation "EVFILT_WRITE \<equiv> (- 2 :: int)"
abbreviation "EV_ADD \<equiv> (1 :: int)"
abbreviation "EV_DELETE \<equiv> (2 :: int)"
abbreviation "EEXIST \<equiv> (17 :: int)"
abbreviation "ENOENT \<equiv> (2 :: int)"

definition get_fd_map :: "'k eps \<Rightarrow> clsFdMap \<times> 'k eps" where
  "get_fd_map s = (case s_fd_map s of
     Some m \<Rightarrow> (m, s)
   | None \<Rightarrow> (new_fd_map, s\<lparr>s_fd_map := Some new_fd_map\<rparr>))"

text \<open>\<open>get_fd_map()->get(fd)\<close> and \<open>get_fd_map()->set(fd, p)\<close>; \<open>clear(fd)\<close> is \<open>set(fd, NULL)\<close>.\<close>

definition fd_get :: "int \<Rightarrow> 'k eps \<Rightarrow> (ptr \<times> 'k eps) option" where
  "fd_get fd s = (let (m, s) = get_fd_map s in map_option (\<lambda>p. (p, s)) (fdmap_get fd m))"

definition fd_set :: "int \<Rightarrow> ptr \<Rightarrow> 'k eps \<Rightarrow> 'k eps option" where
  "fd_set fd p s = (let (m, s) = get_fd_map s in map_option (\<lambda>m. s\<lparr>s_fd_map := Some m\<rparr>) (fdmap_set fd p m))"

definition kchange :: "'k kq \<Rightarrow> int \<Rightarrow> int \<Rightarrow> int \<Rightarrow> int \<Rightarrow> ptr \<Rightarrow> 'k eps \<Rightarrow> int \<times> 'k eps" where
  "kchange q epfd fd flt fl ud s =
     (let (r, k) = kq_change q epfd \<lparr>ident = fd, kfilter = flt, kflags = fl, udata = ud\<rparr> (ep_kern s)
      in (r, s\<lparr>ep_kern := k\<rparr>))"

section \<open>\<open>co_epoll_ctl\<close>\<close>

definition co_epoll_del :: "'k kq \<Rightarrow> int \<Rightarrow> int \<Rightarrow> 'k eps \<Rightarrow> (int \<times> 'k eps) option" where
  "co_epoll_del q epfd fd s = do {
     (p, s) \<leftarrow> fd_get fd s;
     (case p of
        None \<Rightarrow> Some (0, s)
      | Some p \<Rightarrow> do {
          pr \<leftarrow> pairs s p;
          let s = (if EPOLLIN AND pair_events pr \<noteq> 0 then snd (kchange q epfd fd EVFILT_READ EV_DELETE None s) else s);
          let s = (if EPOLLOUT AND pair_events pr \<noteq> 0 then snd (kchange q epfd fd EVFILT_WRITE EV_DELETE None s) else s);
          s \<leftarrow> fd_set fd None s;
          Some (0, s\<lparr>pairs := (pairs s)(p := None)\<rparr>) }) }"

text \<open>The entry of the descriptor, made when there is none.\<close>

definition pair_of_fd :: "int \<Rightarrow> 'k eps \<Rightarrow> (addr \<times> 'k eps) option" where
  "pair_of_fd fd s = do {
     (p, s) \<leftarrow> fd_get fd s;
     (case p of
        Some p \<Rightarrow> Some (p, s)
      | None \<Rightarrow> do {
          let p = pair_brk s;
          s \<leftarrow> fd_set fd (Some p) (s\<lparr>pairs := (pairs s)(p \<mapsto> \<lparr>fire_idx = 0, pair_events = 0, pair_u64 = 0\<rparr>),
                 pair_brk := p + 1\<rparr>);
          Some (p, s) }) }"

text \<open>The deletions before \<open>EPOLL_CTL_MOD\<close>; \<open>ret\<close> is what the second one returns.\<close>

definition drop_filters :: "'k kq \<Rightarrow> int \<Rightarrow> int \<Rightarrow> u32 \<Rightarrow> 'k eps \<Rightarrow> int \<times> 'k eps" where
  "drop_filters q epfd fd events s =
     (let s = (if events AND EPOLLIN \<noteq> 0 then snd (kchange q epfd fd EVFILT_READ EV_DELETE None s) else s)
      in if events AND EPOLLOUT \<noteq> 0 then kchange q epfd fd EVFILT_WRITE EV_DELETE None s else (0, s))"

definition add_filters :: "'k kq \<Rightarrow> int \<Rightarrow> int \<Rightarrow> u32 \<Rightarrow> addr \<Rightarrow> int \<times> 'k eps \<Rightarrow> int \<times> 'k eps" where
  "add_filters q epfd fd events p = (\<lambda>(ret, s).
     let (ret, stop, s) = (if events AND EPOLLIN \<noteq> 0
           then (let (ret, s) = kchange q epfd fd EVFILT_READ EV_ADD (Some p) s in (ret, ret \<noteq> 0, s))
           else (ret, False, s))
     in if \<not> stop \<and> events AND EPOLLOUT \<noteq> 0 then kchange q epfd fd EVFILT_WRITE EV_ADD (Some p) s else (ret, s))"

definition co_epoll_ctl :: "'k kq \<Rightarrow> int \<Rightarrow> ctl_op \<Rightarrow> int \<Rightarrow> ep_event \<Rightarrow> 'k eps \<Rightarrow> (int \<times> 'k eps) option" where
  "co_epoll_ctl q epfd op fd ev s = (
     if op = EPOLL_CTL_DEL then co_epoll_del q epfd fd s
     else if e_events ev AND NOT (EPOLLIN OR EPOLLOUT OR EPOLLERR OR EPOLLHUP) \<noteq> 0 then Some (- 1, s)
     else do {
       (p, s) \<leftarrow> fd_get fd s;
       if op = EPOLL_CTL_ADD \<and> p \<noteq> None then Some (- 1, s\<lparr>ep_errno := EEXIST\<rparr>)
       else if op = EPOLL_CTL_MOD \<and> p = None then Some (- 1, s\<lparr>ep_errno := ENOENT\<rparr>)
       else do {
         (p, s) \<leftarrow> pair_of_fd fd s;
         pr \<leftarrow> pairs s p;
         let (ret, s) = add_filters q epfd fd (e_events ev) p
               (if op = EPOLL_CTL_MOD then drop_filters q epfd fd (pair_events pr) s else (0, s));
         if ret \<noteq> 0 then do {
           s \<leftarrow> fd_set fd None s;
           Some (ret, s\<lparr>pairs := (pairs s)(p := None)\<rparr>) }
         else Some (ret, s\<lparr>pairs := (pairs s)(p \<mapsto> pr\<lparr>pair_events := e_events ev, pair_u64 := e_u64 ev\<rparr>)\<rparr>) } })"

section \<open>\<open>co_epoll_wait\<close>\<close>

definition filter_bit :: "kevent \<Rightarrow> u32" where
  "filter_bit kev = (if EVFILT_READ = kfilter kev then EPOLLIN else if EVFILT_WRITE = kfilter kev then EPOLLOUT else 0)"

text \<open>A round of the loop over the events of the kernel: \<open>j\<close>, the array \<open>events\<close> and the entries.\<close>

definition wait_step ::
  "kevent list \<Rightarrow> nat \<Rightarrow> int \<times> ep_event list \<times> (addr \<rightharpoonup> kevent_pair_t)
    \<Rightarrow> (int \<times> ep_event list \<times> (addr \<rightharpoonup> kevent_pair_t)) option" where
  "wait_step ks i = (\<lambda>(j, evs, ps). do {
     require (i < length ks \<and> i < length evs);
     let kev = ks ! i;
     p \<leftarrow> udata kev;
     pr \<leftarrow> ps p;
     let (j, evs, pr, e) = (if fire_idx pr = 0
          then (j + 1, evs[i := \<lparr>e_events = 0, e_u64 = 0\<rparr>], pr\<lparr>fire_idx := int i + 1\<rparr>, int i)
          else (j, evs, pr, fire_idx pr - 1));
     require (0 \<le> e \<and> e < int (length evs));
     let ev = evs ! nat e;
     Some (j, evs[nat e := ev\<lparr>e_events := e_events ev OR filter_bit kev, e_u64 := pair_u64 pr\<rparr>], ps(p \<mapsto> pr)) })"

definition reset_step :: "kevent list \<Rightarrow> nat \<Rightarrow> (addr \<rightharpoonup> kevent_pair_t) \<Rightarrow> (addr \<rightharpoonup> kevent_pair_t) option" where
  "reset_step ks i ps = do {
     p \<leftarrow> udata (ks ! i);
     pr \<leftarrow> ps p;
     Some (ps(p \<mapsto> pr\<lparr>fire_idx := 0\<rparr>)) }"

text \<open>The kernel overwrites the first entries of \<open>eventlist\<close>; the timeout is put into \<open>tv_sec\<close>.\<close>

definition co_epoll_wait ::
  "'k kq \<Rightarrow> int \<Rightarrow> co_epoll_res \<Rightarrow> int \<Rightarrow> int \<Rightarrow> 'k eps \<Rightarrow> (int \<times> co_epoll_res \<times> 'k eps) option" where
  "co_epoll_wait q epfd res maxevents timeout s = do {
     let (ret, new, k) = kq_wait q epfd maxevents
           (if - 1 = timeout then None else Some (if timeout > 0 then timeout else 0, 0)) (ep_kern s);
     require (length new \<le> length (res_eventlist res));
     let ks = new @ drop (length new) (res_eventlist res);
     (j, evs, ps) \<leftarrow> foldM (wait_step ks) [0..<nat ret] (0, res_events res, pairs s);
     ps \<leftarrow> foldM (reset_step ks) [0..<nat ret] ps;
     Some (j, res\<lparr>res_events := evs, res_eventlist := ks\<rparr>, s\<lparr>pairs := ps, ep_kern := k\<rparr>) }"

text \<open>\<open>calloc\<close> of \<open>n * sizeof(...)\<close> bytes, for a positive \<open>n\<close>.\<close>

definition co_epoll_res_alloc :: "int \<Rightarrow> co_epoll_res" where
  "co_epoll_res_alloc n = \<lparr>res_size = n, res_events = replicate (nat n) \<lparr>e_events = 0, e_u64 = 0\<rparr>,
     res_eventlist = replicate (nat n) \<lparr>ident = 0, kfilter = 0, kflags = 0, udata = None\<rparr>\<rparr>"

section \<open>The map of descriptors\<close>

text \<open>What a table of descriptors promises, and what follows for any sequence of insertions.\<close>

locale fd_table =
  fixes get :: "int \<Rightarrow> 'm \<Rightarrow> ptr option"
    and put :: "int \<Rightarrow> ptr \<Rightarrow> 'm \<Rightarrow> 'm option"
    and ok :: "'m \<Rightarrow> bool"
    and valid :: "int \<Rightarrow> bool"
    and new :: 'm
  assumes ok_new: "ok new"
    and get_new: "valid fd \<Longrightarrow> get fd new = Some None"
    and get_ok: "ok m \<Longrightarrow> valid fd \<Longrightarrow> \<exists>p. get fd m = Some p"
    and put_ok: "ok m \<Longrightarrow> valid fd \<Longrightarrow> \<exists>m'. put fd p m = Some m' \<and> ok m' \<and>
       (\<forall>fd'. valid fd' \<longrightarrow> get fd' m' = (if fd' = fd then Some p else get fd' m))"
begin

lemma puts:
  assumes "\<forall>x\<in>set xs. valid (fst x)"
  shows "\<exists>m. foldM (\<lambda>(fd, p). put fd p) xs new = Some m \<and> ok m \<and>
     (\<forall>fd. valid fd \<longrightarrow> get fd m = Some (case map_of (rev xs) fd of None \<Rightarrow> None | Some p \<Rightarrow> p))"
  using assms
proof (induction xs rule: rev_induct)
  case Nil
  then show ?case using ok_new get_new by simp
next
  case (snoc x xs)
  obtain fd p where x: "x = (fd, p)" by (cases x)
  from snoc obtain m where m: "foldM (\<lambda>(fd, p). put fd p) xs new = Some m" "ok m"
    "\<forall>fd. valid fd \<longrightarrow> get fd m = Some (case map_of (rev xs) fd of None \<Rightarrow> None | Some p \<Rightarrow> p)" by auto
  have "valid fd" using snoc.prems x by simp
  from put_ok [OF m(2) this, of p] obtain m' where "put fd p m = Some m'" "ok m'"
    "\<forall>fd'. valid fd' \<longrightarrow> get fd' m' = (if fd' = fd then Some p else get fd' m)" by blast
  with m x show ?case by (intro exI [of _ m']) (simp add: foldM_append)
qed

end

definition valid_fd :: "int \<Rightarrow> bool" where
  "valid_fd fd \<longleftrightarrow> 0 \<le> fd \<and> fd < 1024 * 1024"

definition fdmap_ok :: "clsFdMap \<Rightarrow> bool" where
  "fdmap_ok m \<longleftrightarrow> (\<forall>i r. m_pp m i = Some r \<longrightarrow> length r = 1024)"

text \<open>The row and the column of a descriptor.\<close>

lemma valid_fd_idx:
  assumes "valid_fd fd"
  obtains i j where "fd = 1024 * int i + int j" "i < 1024" "j < 1024" "fd sdiv 1024 = int i" "fd smod 1024 = int j"
proof
  have nonneg: "0 \<le> fd" and less: "fd < 1024 * 1024" using assms by (simp_all add: valid_fd_def)
  show "fd = 1024 * int (nat (fd div 1024)) + int (nat (fd mod 1024))"
    using nonneg by (simp add: pos_imp_zdiv_nonneg_iff)
  show "nat (fd div 1024) < 1024" "nat (fd mod 1024) < 1024" using less by auto
  show "fd sdiv 1024 = int (nat (fd div 1024))" "fd smod 1024 = int (nat (fd mod 1024))"
    using nonneg by (cases "fd = 0"; simp add: signed_divide_int_def signed_modulo_int_def pos_imp_zdiv_nonneg_iff)+
qed

lemma new_row_simps [simp]: "length new_row = 1024" "i < 1024 \<Longrightarrow> new_row ! i = None"
  by (simp_all only: new_row_def length_replicate nth_replicate)

definition fd_row :: "clsFdMap \<Rightarrow> nat \<Rightarrow> ptr list" where
  "fd_row m i = (case m_pp m i of None \<Rightarrow> new_row | Some r \<Rightarrow> r)"

lemma fd_row_length: "fdmap_ok m \<Longrightarrow> length (fd_row m i) = 1024"
  by (simp add: fd_row_def fdmap_ok_def split: option.split)

lemma fdmap_get_row:
  assumes "fd sdiv 1024 = int i" "fd smod 1024 = int j" "i < 1024" "j < 1024"
  shows "fdmap_get fd m = Some (fd_row m i ! j)"
  using assms by (simp add: fdmap_get_def fd_row_def split: option.split)

lemma fdmap_put_get:
  assumes "fdmap_ok m" "valid_fd fd"
  shows "\<exists>m'. fdmap_set fd p m = Some m' \<and> fdmap_ok m' \<and>
     (\<forall>fd'. valid_fd fd' \<longrightarrow> fdmap_get fd' m' = (if fd' = fd then Some p else fdmap_get fd' m))"
proof -
  from assms(2) obtain i j where f: "fd = 1024 * int i + int j" "i < 1024" "j < 1024"
    "fd sdiv 1024 = int i" "fd smod 1024 = int j" by (rule valid_fd_idx)
  let ?m = "m\<lparr>m_pp := (m_pp m)(i \<mapsto> (fd_row m i)[j := p])\<rparr>"
  have set: "fdmap_set fd p m = Some ?m"
    using f(2-5) by (simp add: fdmap_set_def fd_row_def)
  have ok: "fdmap_ok ?m"
    using assms(1) fd_row_length [OF assms(1)] by (simp add: fdmap_ok_def)
  have "fdmap_get fd' ?m = (if fd' = fd then Some p else fdmap_get fd' m)" if v: "valid_fd fd'" for fd'
  proof -
    from v obtain i' j' where f': "fd' = 1024 * int i' + int j'" "i' < 1024" "j' < 1024"
      "fd' sdiv 1024 = int i'" "fd' smod 1024 = int j'" by (rule valid_fd_idx)
    note get = fdmap_get_row [OF f'(4,5,2,3)]
    have row: "fd_row ?m i' = (if i' = i then (fd_row m i)[j := p] else fd_row m i')"
      by (simp add: fd_row_def)
    show ?thesis
    proof (cases "i' = i")
      case True
      then have "fd' = fd \<longleftrightarrow> j' = j" using f(1) f'(1) by simp
      with True show ?thesis
        unfolding get row using fd_row_length [OF assms(1), of i] f(3) by simp
    next
      case False
      have "fd' \<noteq> fd"
      proof
        assume "fd' = fd"
        then have "int i' = int i" using f(4) f'(4) by simp
        with False show False by simp
      qed
      with False show ?thesis unfolding get row by simp
    qed
  qed
  with set ok show ?thesis by blast
qed

interpretation fdm: fd_table fdmap_get fdmap_set fdmap_ok valid_fd new_fd_map
proof unfold_locales
  show "fdmap_ok new_fd_map" by (simp add: fdmap_ok_def new_fd_map_def)
next
  fix fd assume "valid_fd fd"
  then obtain i j where "i < 1024" "j < 1024" "fd sdiv 1024 = int i" "fd smod 1024 = int j"
    by (rule valid_fd_idx)
  then show "fdmap_get fd new_fd_map = Some None"
    using fdmap_get_row by (simp add: fd_row_def new_fd_map_def)
next
  fix m fd assume "fdmap_ok m" "valid_fd fd"
  from this(2) obtain i j where "i < 1024" "j < 1024" "fd sdiv 1024 = int i" "fd smod 1024 = int j"
    by (rule valid_fd_idx)
  then show "\<exists>p. fdmap_get fd m = Some p" using fdmap_get_row by blast
next
  fix m fd p assume "fdmap_ok m" "valid_fd fd"
  then show "\<exists>m'. fdmap_set fd p m = Some m' \<and> fdmap_ok m' \<and>
     (\<forall>fd'. valid_fd fd' \<longrightarrow> fdmap_get fd' m' = (if fd' = fd then Some p else fdmap_get fd' m))"
    by (rule fdmap_put_get)
qed

section \<open>The interest list of \<open>epoll\<close>\<close>

text \<open>
  What \<open>kqueue\<close> documents, for the queue \<open>epfd\<close>: \<open>flts\<close> are its filters with their user data; \<open>EV_ADD\<close> adds
  or replaces a filter or fails, \<open>EV_DELETE\<close> removes it, and succeeds if it is there.
\<close>

definition kq_ok :: "'k kq \<Rightarrow> int \<Rightarrow> ('k \<Rightarrow> int \<times> int \<Rightarrow> ptr) \<Rightarrow> bool" where
  "kq_ok q epfd flts \<longleftrightarrow>
     (\<forall>fd flt p k r k'. kq_change q epfd \<lparr>ident = fd, kfilter = flt, kflags = EV_ADD, udata = Some p\<rparr> k = (r, k') \<longrightarrow>
        (if r = 0 then flts k' = (flts k)((fd, flt) := Some p) else r = - 1 \<and> flts k' = flts k)) \<and>
     (\<forall>fd flt k r k'. kq_change q epfd \<lparr>ident = fd, kfilter = flt, kflags = EV_DELETE, udata = None\<rparr> k = (r, k') \<longrightarrow>
        flts k' = (flts k)((fd, flt) := None) \<and> (flts k (fd, flt) \<noteq> None \<longrightarrow> r = 0))"

text \<open>The entry of a descriptor, and the interest \<open>epoll\<close> would have in it.\<close>

definition owner :: "'k eps \<Rightarrow> int \<Rightarrow> ptr" where
  "owner s fd = (case s_fd_map s of None \<Rightarrow> None | Some m \<Rightarrow> the (fdmap_get fd m))"

definition interest :: "'k eps \<Rightarrow> int \<Rightarrow> (u32 \<times> u64) option" where
  "interest s fd = (if valid_fd fd then owner s fd \<bind> pairs s \<bind> (\<lambda>pr. Some (pair_events pr, pair_u64 pr)) else None)"

definition map_ok :: "'k eps \<Rightarrow> bool" where
  "map_ok s \<longleftrightarrow> (\<forall>m. s_fd_map s = Some m \<longrightarrow> fdmap_ok m)"

text \<open>The filters of a descriptor are those its entry asks for, and point to it.\<close>

definition fd_ok :: "('k \<Rightarrow> int \<times> int \<Rightarrow> ptr) \<Rightarrow> 'k eps \<Rightarrow> int \<Rightarrow> bool" where
  "fd_ok flts s fd \<longleftrightarrow> (case owner s fd of
      None \<Rightarrow> flts (ep_kern s) (fd, EVFILT_READ) = None \<and> flts (ep_kern s) (fd, EVFILT_WRITE) = None
    | Some p \<Rightarrow> \<exists>pr. pairs s p = Some pr \<and> fire_idx pr = 0 \<and>
        flts (ep_kern s) (fd, EVFILT_READ) = (if pair_events pr AND EPOLLIN \<noteq> 0 then Some p else None) \<and>
        flts (ep_kern s) (fd, EVFILT_WRITE) = (if pair_events pr AND EPOLLOUT \<noteq> 0 then Some p else None))"

definition ep_inv :: "('k \<Rightarrow> int \<times> int \<Rightarrow> ptr) \<Rightarrow> 'k eps \<Rightarrow> bool" where
  "ep_inv flts s \<longleftrightarrow> map_ok s \<and> (\<forall>p. pairs s p \<noteq> None \<longrightarrow> p < pair_brk s) \<and>
     (\<forall>fd fd' p. valid_fd fd \<longrightarrow> valid_fd fd' \<longrightarrow> owner s fd = Some p \<longrightarrow> owner s fd' = Some p \<longrightarrow> fd = fd') \<and>
     (\<forall>fd. valid_fd fd \<longrightarrow> fd_ok flts s fd)"

lemma owner_pairs [simp]: "owner (s\<lparr>pairs := ps\<rparr>) = owner s" "map_ok (s\<lparr>pairs := ps\<rparr>) = map_ok s"
  by (simp_all add: owner_def map_ok_def fun_eq_iff)

lemma fd_get_ok:
  assumes "map_ok s" "valid_fd fd"
  shows "\<exists>s'. fd_get fd s = Some (owner s fd, s') \<and> map_ok s' \<and> pairs s' = pairs s \<and> pair_brk s' = pair_brk s \<and> ep_kern s' = ep_kern s \<and>
    (\<forall>fd'. valid_fd fd' \<longrightarrow> owner s' fd' = owner s fd')"
proof (cases "s_fd_map s")
  case None
  then show ?thesis using assms(2) fdm.ok_new fdm.get_new
    by (intro exI [of _ "s\<lparr>s_fd_map := Some new_fd_map\<rparr>"])
      (simp add: fd_get_def get_fd_map_def owner_def map_ok_def)
next
  case (Some m)
  then obtain p where "fdmap_get fd m = Some p" using assms fdm.get_ok unfolding map_ok_def by blast
  with Some assms(1) show ?thesis
    by (intro exI [of _ s]) (simp add: fd_get_def get_fd_map_def owner_def)
qed

lemma fd_set_ok:
  assumes "map_ok s" "valid_fd fd"
  shows "\<exists>s'. fd_set fd p s = Some s' \<and> map_ok s' \<and> pairs s' = pairs s \<and> pair_brk s' = pair_brk s \<and> ep_kern s' = ep_kern s \<and>
    (\<forall>fd'. valid_fd fd' \<longrightarrow> owner s' fd' = (if fd' = fd then p else owner s fd'))"
proof -
  define m where "m = (case s_fd_map s of None \<Rightarrow> new_fd_map | Some m \<Rightarrow> m)"
  have m: "fdmap_ok m" using assms(1) fdm.ok_new by (simp add: m_def map_ok_def split: option.split)
  have owner: "owner s fd' = the (fdmap_get fd' m)" if "valid_fd fd'" for fd'
    using fdm.get_new [OF that] by (simp add: owner_def m_def split: option.split)
  from fdm.put_ok [OF m assms(2), of p] obtain m' where m': "fdmap_set fd p m = Some m'" "fdmap_ok m'"
    "\<forall>fd'. valid_fd fd' \<longrightarrow> fdmap_get fd' m' = (if fd' = fd then Some p else fdmap_get fd' m)" by blast
  have "fd_set fd p s = Some (s\<lparr>s_fd_map := Some m'\<rparr>)"
    using m'(1) by (auto simp: fd_set_def get_fd_map_def m_def split: option.splits)
  with m' owner show ?thesis
    by (intro exI [of _ "s\<lparr>s_fd_map := Some m'\<rparr>"]) (simp add: owner_def map_ok_def)
qed


lemma kchange_state:
  assumes "kchange q epfd fd flt fl ud s = (r, s')"
  shows "s_fd_map s' = s_fd_map s" "pairs s' = pairs s" "pair_brk s' = pair_brk s"
    "kq_change q epfd \<lparr>ident = fd, kfilter = flt, kflags = fl, udata = ud\<rparr> (ep_kern s) = (r, ep_kern s')"
  using assms by (auto simp: kchange_def split: prod.splits)

lemma kchange_add:
  assumes "kq_ok q epfd flts" "kchange q epfd fd flt EV_ADD (Some p) s = (r, s')"
  shows "if r = 0 then flts (ep_kern s') = (flts (ep_kern s))((fd, flt) := Some p)
     else r = - 1 \<and> flts (ep_kern s') = flts (ep_kern s)"
  using assms(1) kchange_state(4) [OF assms(2)] unfolding kq_ok_def by blast

lemma kchange_del:
  assumes "kq_ok q epfd flts" "kchange q epfd fd flt EV_DELETE None s = (r, s')"
  shows "flts (ep_kern s') = (flts (ep_kern s))((fd, flt) := None)"
    "flts (ep_kern s) (fd, flt) \<noteq> None \<Longrightarrow> r = 0"
  using assms(1) kchange_state(4) [OF assms(2)] unfolding kq_ok_def by blast+

text \<open>A run of changes that leaves the filters \<open>rd\<close> and \<open>wr\<close> on the descriptor.\<close>

definition only_fd :: "('k \<Rightarrow> int \<times> int \<Rightarrow> ptr) \<Rightarrow> int \<Rightarrow> ptr \<Rightarrow> ptr \<Rightarrow> 'k eps \<Rightarrow> 'k eps \<Rightarrow> bool" where
  "only_fd flts fd rd wr s s' \<longleftrightarrow> s_fd_map s' = s_fd_map s \<and> pairs s' = pairs s \<and> pair_brk s' = pair_brk s \<and>
     flts (ep_kern s') = (flts (ep_kern s))((fd, EVFILT_READ) := rd, (fd, EVFILT_WRITE) := wr)"

lemma drop_filters_ok:
  assumes "kq_ok q epfd flts"
    and "flts (ep_kern s) (fd, EVFILT_READ) = (if events AND EPOLLIN \<noteq> 0 then Some p else None)"
    and "flts (ep_kern s) (fd, EVFILT_WRITE) = (if events AND EPOLLOUT \<noteq> 0 then Some p else None)"
  shows "\<exists>s'. drop_filters q epfd fd events s = (0, s') \<and> only_fd flts fd None None s s'"
proof -
  obtain r t where rd: "kchange q epfd fd EVFILT_READ EV_DELETE None s = (r, t)" by fastforce
  define u where "u = (if events AND EPOLLIN \<noteq> 0 then t else s)"
  obtain r' v where wr: "kchange q epfd fd EVFILT_WRITE EV_DELETE None u = (r', v)" by fastforce
  have u: "s_fd_map u = s_fd_map s" "pairs u = pairs s" "pair_brk u = pair_brk s"
    "flts (ep_kern u) = (flts (ep_kern s))((fd, EVFILT_READ) := None)"
    using kchange_state [OF rd] kchange_del(1) [OF assms(1) rd] assms(2) by (auto simp: u_def)
  define x where "x = (if events AND EPOLLOUT \<noteq> 0 then (r', v) else (0, u))"
  have "drop_filters q epfd fd events s = x"
    by (simp add: drop_filters_def x_def u_def [symmetric] rd wr cong: if_cong)
  moreover have "fst x = 0"
    using kchange_del(2) [OF assms(1) wr] assms(3) u(4) by (simp add: x_def)
  moreover have "only_fd flts fd None None s (snd x)"
    using kchange_state [OF wr] kchange_del(1) [OF assms(1) wr] assms(3) u
    by (auto simp: x_def only_fd_def fun_eq_iff)
  ultimately show ?thesis by (cases x) auto
qed

lemma add_filters_ok:
  assumes "kq_ok q epfd flts"
    and "flts (ep_kern s) (fd, EVFILT_READ) = None" "flts (ep_kern s) (fd, EVFILT_WRITE) = None"
  shows "\<exists>r s' rd wr. add_filters q epfd fd events p (0, s) = (r, s') \<and> only_fd flts fd rd wr s s' \<and>
     (if r = 0 then rd = (if events AND EPOLLIN \<noteq> 0 then Some p else None) \<and>
         wr = (if events AND EPOLLOUT \<noteq> 0 then Some p else None) else r = - 1)"
proof -
  obtain r t where rd: "kchange q epfd fd EVFILT_READ EV_ADD (Some p) s = (r, t)" by fastforce
  note rd' = kchange_state [OF rd] kchange_add [OF assms(1) rd]
  define u where "u = (if events AND EPOLLIN \<noteq> 0 then t else s)"
  obtain r' v where wr: "kchange q epfd fd EVFILT_WRITE EV_ADD (Some p) u = (r', v)" by fastforce
  note wr' = kchange_state [OF wr] kchange_add [OF assms(1) wr]
  show ?thesis
  proof (cases "events AND EPOLLIN \<noteq> 0 \<and> r \<noteq> 0")
    case True
    then have "add_filters q epfd fd events p (0, s) = (r, t)"
      by (simp add: add_filters_def rd)
    moreover have "only_fd flts fd None None s t"
      using rd' True assms(2,3) by (simp add: only_fd_def fun_eq_iff)
    ultimately show ?thesis using True rd' by (metis (full_types))
  next
    case False
    let ?rd = "if events AND EPOLLIN \<noteq> 0 then Some p else None"
    have u: "s_fd_map u = s_fd_map s" "pairs u = pairs s" "pair_brk u = pair_brk s"
      "flts (ep_kern u) = (flts (ep_kern s))((fd, EVFILT_READ) := ?rd)"
      using rd' False assms(2) by (auto simp: u_def fun_eq_iff)
    have run: "add_filters q epfd fd events p (0, s) = (if events AND EPOLLOUT \<noteq> 0 then (r', v) else (0, u))"
      using False wr by (auto simp: add_filters_def rd u_def)
    show ?thesis
    proof (cases "events AND EPOLLOUT \<noteq> 0")
      case True
      have "only_fd flts fd ?rd (if r' = 0 then Some p else None) s v"
        using u wr' assms(3) by (auto simp: only_fd_def fun_eq_iff)
      then show ?thesis
        using True run wr' by (intro exI [of _ r'] exI [of _ v] exI [of _ ?rd] exI [of _ "if r' = 0 then Some p else None"]) simp
    next
      case out: False
      have "only_fd flts fd ?rd None s u" using u assms(3) by (auto simp: only_fd_def fun_eq_iff)
      then show ?thesis using out run by (intro exI [of _ 0] exI [of _ u] exI [of _ ?rd] exI [of _ None]) simp
    qed
  qed
qed


text \<open>Only the entry and the filters of one descriptor differ.\<close>

definition frame :: "('k \<Rightarrow> int \<times> int \<Rightarrow> ptr) \<Rightarrow> int \<Rightarrow> 'k eps \<Rightarrow> 'k eps \<Rightarrow> bool" where
  "frame flts fd s t \<longleftrightarrow> map_ok t \<and> (\<forall>p. pairs t p \<noteq> None \<longrightarrow> p < pair_brk t) \<and>
     (\<forall>fd'. valid_fd fd' \<longrightarrow> fd' \<noteq> fd \<longrightarrow> owner t fd' = owner s fd' \<and>
        (\<forall>p. owner s fd' = Some p \<longrightarrow> owner t fd \<noteq> Some p \<and> pairs t p = pairs s p) \<and>
        (\<forall>flt. flts (ep_kern t) (fd', flt) = flts (ep_kern s) (fd', flt)))"

lemma frame_interest:
  assumes "frame flts fd s t" "fd' \<noteq> fd"
  shows "interest t fd' = interest s fd'"
  using assms unfolding frame_def interest_def
  by (cases "owner s fd'") auto

lemma frame_fd_ok:
  assumes "frame flts fd s t" "valid_fd fd'" "fd' \<noteq> fd" "fd_ok flts s fd'"
  shows "fd_ok flts t fd'"
  using assms unfolding frame_def fd_ok_def
  by (cases "owner s fd'") auto

lemma frame_inv:
  assumes inv: "ep_inv flts s" and fr: "frame flts fd s t" and fd: "fd_ok flts t fd"
  shows "ep_inv flts t"
  unfolding ep_inv_def
proof (intro conjI allI impI)
  show "map_ok t" using fr unfolding frame_def by simp
  show "p < pair_brk t" if "pairs t p \<noteq> None" for p using fr that unfolding frame_def by simp
  show "fd_ok flts t fd'" if "valid_fd fd'" for fd'
    using frame_fd_ok [OF fr that] fd inv that unfolding ep_inv_def by (cases "fd' = fd") auto
  show "fd1 = fd2" if "valid_fd fd1" "valid_fd fd2" "owner t fd1 = Some p" "owner t fd2 = Some p" for fd1 fd2 p
    using fr inv that unfolding frame_def ep_inv_def by metis
qed

lemma interest_entry:
  assumes "ep_inv flts s" "valid_fd fd"
  shows "interest s fd = None \<longleftrightarrow> owner s fd = None"
proof -
  have "fd_ok flts s fd" using assms by (simp add: ep_inv_def)
  then show ?thesis using assms(2) by (cases "owner s fd") (auto simp: interest_def fd_ok_def)
qed

lemma fd_ok_cong:
  assumes "owner t fd = owner s fd" "pairs t = pairs s" "ep_kern t = ep_kern s"
  shows "fd_ok flts t fd = fd_ok flts s fd"
  unfolding fd_ok_def assms ..

text \<open>The entry of a descriptor is found, or made with no events.\<close>

lemma pair_of_fd_ok:
  assumes inv: "ep_inv flts s" and fd: "valid_fd fd"
  shows "\<exists>p t pr. pair_of_fd fd s = Some (p, t) \<and> frame flts fd s t \<and> owner t fd = Some p \<and>
    pairs t p = Some pr \<and> fd_ok flts t fd \<and> (owner s fd = None \<longrightarrow> pair_events pr = 0)"
proof -
  have ok: "map_ok s" "fd_ok flts s fd" using inv fd by (simp_all add: ep_inv_def)
  obtain u where u: "fd_get fd s = Some (owner s fd, u)" "map_ok u" "pairs u = pairs s" "pair_brk u = pair_brk s"
    "ep_kern u = ep_kern s" "\<forall>fd'. valid_fd fd' \<longrightarrow> owner u fd' = owner s fd'"
    using fd_get_ok [OF ok(1) fd] by blast
  have inj: "fd' = fd" if "valid_fd fd'" "owner s fd' = Some p" "owner s fd = Some p" for fd' p
    using inv fd that unfolding ep_inv_def by blast
  show ?thesis
  proof (cases "owner s fd")
    case (Some p)
    then obtain pr where pr: "pairs s p = Some pr" using ok(2) by (auto simp: fd_ok_def)
    have "frame flts fd s u"
      using u inj Some inv fd unfolding frame_def ep_inv_def by auto
    moreover have "fd_ok flts u fd" using ok(2) u fd fd_ok_cong [of u fd s] by simp
    ultimately show ?thesis using Some u fd pr
      by (intro exI [of _ p] exI [of _ u] exI [of _ pr]) (simp add: pair_of_fd_def)
  next
    case None
    let ?p = "pair_brk u" and ?pr = "\<lparr>fire_idx = 0, pair_events = 0, pair_u64 = 0\<rparr>"
    let ?u = "u\<lparr>pairs := (pairs u)(?p \<mapsto> ?pr), pair_brk := ?p + 1\<rparr>"
    have own_u: "owner ?u = owner u" by (rule ext) (simp add: owner_def)
    have "map_ok ?u" using u(2) by (simp add: map_ok_def)
    from fd_set_ok [OF this fd, of "Some ?p"] obtain t where t: "fd_set fd (Some ?p) ?u = Some t" "map_ok t"
      "pairs t = pairs ?u" "pair_brk t = ?p + 1" "ep_kern t = ep_kern u"
      "\<forall>fd'. valid_fd fd' \<longrightarrow> owner t fd' = (if fd' = fd then Some ?p else owner u fd')"
      unfolding own_u by auto
    have below: "p < ?p" if "valid_fd fd'" "owner s fd' = Some p" for fd' p
    proof -
      have "fd_ok flts s fd'" using inv that by (simp add: ep_inv_def)
      then have "pairs s p \<noteq> None" using that by (auto simp: fd_ok_def)
      with inv u(4) show ?thesis by (simp add: ep_inv_def)
    qed
    have "frame flts fd s t"
      unfolding frame_def
    proof (intro conjI allI impI)
      show "map_ok t" by (rule t(2))
      show "p < pair_brk t" if "pairs t p \<noteq> None" for p
        using that t u inv by (auto simp: ep_inv_def less_Suc_eq split: if_splits)
    next
      fix fd' assume fd': "valid_fd fd'" "fd' \<noteq> fd"
      show "owner t fd' = owner s fd'" using t(6) u(6) fd' by simp
      show "owner t fd \<noteq> Some p" "pairs t p = pairs s p" if "owner s fd' = Some p" for p
        using below [OF fd'(1) that] t u fd by auto
      show "flts (ep_kern t) (fd', flt) = flts (ep_kern s) (fd', flt)" for flt using t u by simp
    qed
    moreover have "fd_ok flts t fd"
      using ok(2) None t u fd by (simp add: fd_ok_def)
    ultimately show ?thesis using None u t fd
      by (intro exI [of _ ?p] exI [of _ t] exI [of _ ?pr]) (simp add: pair_of_fd_def Let_def)
  qed
qed


text \<open>
  What \<open>epoll\<close> documents of its interest list: the result, \<open>errno\<close> if it is set, the list. As in the code,
  removing a descriptor that is not there succeeds.
\<close>

definition epoll_spec ::
  "ctl_op \<Rightarrow> int \<Rightarrow> ep_event \<Rightarrow> (int \<Rightarrow> (u32 \<times> u64) option) \<Rightarrow> int \<times> int option \<times> (int \<Rightarrow> (u32 \<times> u64) option)" where
  "epoll_spec op fd ev T = (
     if op = EPOLL_CTL_DEL then (0, None, T(fd := None))
     else if e_events ev AND NOT (EPOLLIN OR EPOLLOUT OR EPOLLERR OR EPOLLHUP) \<noteq> 0 then (- 1, None, T)
     else if op = EPOLL_CTL_ADD \<and> T fd \<noteq> None then (- 1, Some EEXIST, T)
     else if op = EPOLL_CTL_MOD \<and> T fd = None then (- 1, Some ENOENT, T)
     else (0, None, T(fd \<mapsto> (e_events ev, e_u64 ev))))"

text \<open>The state is the same but for the map, which may have been made.\<close>

lemma same_inv:
  assumes "ep_inv flts s" "map_ok t" "pairs t = pairs s" "pair_brk t = pair_brk s" "ep_kern t = ep_kern s"
    and own: "\<forall>fd'. valid_fd fd' \<longrightarrow> owner t fd' = owner s fd'"
  shows "ep_inv flts t" "interest t = interest s"
proof -
  have "fd_ok flts t fd" if "valid_fd fd" for fd
    using assms(1) that fd_ok_cong [of t fd s flts] assms(3,5) own by (simp add: ep_inv_def)
  then show "ep_inv flts t"
    using assms own unfolding ep_inv_def by simp
  show "interest t = interest s"
    using own assms(3) by (auto simp: interest_def fun_eq_iff)
qed

lemma co_epoll_del_ok:
  assumes kq: "kq_ok q epfd flts" and inv: "ep_inv flts s" and fd: "valid_fd fd"
  shows "\<exists>s'. co_epoll_del q epfd fd s = Some (0, s') \<and> ep_inv flts s' \<and> interest s' = (interest s)(fd := None)"
proof -
  have ok: "map_ok s" "fd_ok flts s fd" using inv fd by (simp_all add: ep_inv_def)
  obtain u where u: "fd_get fd s = Some (owner s fd, u)" "map_ok u" "pairs u = pairs s" "pair_brk u = pair_brk s"
    "ep_kern u = ep_kern s" "\<forall>fd'. valid_fd fd' \<longrightarrow> owner u fd' = owner s fd'"
    using fd_get_ok [OF ok(1) fd] by blast
  note same = same_inv [OF inv u(2-6)]
  show ?thesis
  proof (cases "owner s fd")
    case None
    then have "interest s fd = None" using interest_entry [OF inv fd] by simp
    then have "(interest s)(fd := None) = interest s" by auto
    with None same u(1) show ?thesis by (intro exI [of _ u]) (simp add: co_epoll_del_def)
  next
    case (Some p)
    with ok(2) obtain pr where pr: "pairs s p = Some pr"
      "flts (ep_kern s) (fd, EVFILT_READ) = (if pair_events pr AND EPOLLIN \<noteq> 0 then Some p else None)"
      "flts (ep_kern s) (fd, EVFILT_WRITE) = (if pair_events pr AND EPOLLOUT \<noteq> 0 then Some p else None)"
      by (auto simp: fd_ok_def)
    obtain v where v: "drop_filters q epfd fd (pair_events pr) u = (0, v)" "only_fd flts fd None None u v"
      using drop_filters_ok [OF kq, of u fd "pair_events pr" p] pr u by auto
    have drop: "(if EPOLLOUT AND pair_events pr \<noteq> 0 then snd (kchange q epfd fd EVFILT_WRITE EV_DELETE None
         (if EPOLLIN AND pair_events pr \<noteq> 0 then snd (kchange q epfd fd EVFILT_READ EV_DELETE None u) else u))
       else (if EPOLLIN AND pair_events pr \<noteq> 0 then snd (kchange q epfd fd EVFILT_READ EV_DELETE None u) else u)) = v"
      using v(1) by (auto simp: drop_filters_def Let_def and.commute split: if_splits)
    have v': "s_fd_map v = s_fd_map u" "pairs v = pairs u" "pair_brk v = pair_brk u"
      "flts (ep_kern v) = (flts (ep_kern u))((fd, EVFILT_READ) := None, (fd, EVFILT_WRITE) := None)"
      using v(2) by (simp_all add: only_fd_def)
    have own_v: "owner v = owner u" using v'(1) by (simp add: owner_def fun_eq_iff)
    have "map_ok v" using u(2) v'(1) by (simp add: map_ok_def)
    from fd_set_ok [OF this fd, of None] obtain t where t: "fd_set fd None v = Some t" "map_ok t"
      "pairs t = pairs v" "pair_brk t = pair_brk v" "ep_kern t = ep_kern v"
      "\<forall>fd'. valid_fd fd' \<longrightarrow> owner t fd' = (if fd' = fd then None else owner u fd')"
      unfolding own_v by blast
    let ?t = "t\<lparr>pairs := (pairs t)(p := None)\<rparr>"
    have own_t: "owner ?t = owner t" by (simp add: owner_def fun_eq_iff)
    have run: "co_epoll_del q epfd fd s = Some (0, ?t)"
      using u(1,3) Some pr(1) t(1) by (simp add: co_epoll_del_def drop Let_def)
    have inj: "owner s fd' \<noteq> Some p" if "valid_fd fd'" "fd' \<noteq> fd" for fd'
      using inv fd Some that unfolding ep_inv_def by blast
    have "frame flts fd s ?t"
      unfolding frame_def own_t
    proof (intro conjI allI impI)
      show "map_ok ?t" using t(2) by (simp add: map_ok_def)
      show "p' < pair_brk ?t" if "pairs ?t p' \<noteq> None" for p'
        using that t v' u inv by (auto simp: ep_inv_def split: if_splits)
    next
      fix fd' assume fd': "valid_fd fd'" "fd' \<noteq> fd"
      show "owner t fd' = owner s fd'" using t(6) u(6) fd' by simp
      show "owner t fd \<noteq> Some p'" for p' using t(6) fd by simp
      show "pairs ?t p' = pairs s p'" if "owner s fd' = Some p'" for p'
        using inj [OF fd'] that t v' u by auto
      show "flts (ep_kern ?t) (fd', flt) = flts (ep_kern s) (fd', flt)" for flt
        using fd' t v' u by simp
    qed
    moreover have fd_t: "owner ?t fd = None" unfolding own_t using t(6) fd by simp
    then have "fd_ok flts ?t fd" using t v' by (simp add: fd_ok_def)
    ultimately have inv': "ep_inv flts ?t" and fr: "frame flts fd s ?t" using frame_inv [OF inv] by blast+
    have "interest ?t = (interest s)(fd := None)"
      using frame_interest [OF fr] interest_entry [OF inv' fd] fd_t by (auto simp: fun_eq_iff)
    with run inv' show ?thesis by blast
  qed
qed


lemma only_fd_frame:
  assumes inv: "ep_inv flts s" and fr: "frame flts fd s t" and only: "only_fd flts fd rd wr t w"
    and x: "map_ok x" "pair_brk x = pair_brk w" "ep_kern x = ep_kern w"
    and own: "\<forall>fd'. valid_fd fd' \<longrightarrow> owner x fd' = (if fd' = fd then a else owner w fd')"
    and a: "a = owner t fd \<or> a = None" and p: "owner t fd = Some p" "pairs t p \<noteq> None" "valid_fd fd"
    and ps: "pairs x = (pairs w)(p := b)"
  shows "frame flts fd s x"
proof -
  have w: "pairs w = pairs t" "pair_brk w = pair_brk t"
    "flts (ep_kern w) = (flts (ep_kern t))((fd, EVFILT_READ) := rd, (fd, EVFILT_WRITE) := wr)"
    using only by (simp_all add: only_fd_def)
  have own_w: "owner w = owner t" using only by (simp add: only_fd_def owner_def fun_eq_iff)
  show ?thesis
    unfolding frame_def
  proof (intro conjI allI impI)
    show "map_ok x" by fact
    show "p' < pair_brk x" if "pairs x p' \<noteq> None" for p'
      using that fr p(2) x w ps unfolding frame_def by (auto split: if_splits)
  next
    fix fd' assume fd': "valid_fd fd'" "fd' \<noteq> fd"
    show "owner x fd' = owner s fd'" using fr fd' own own_w unfolding frame_def by simp
    fix p' assume p': "owner s fd' = Some p'"
    then have "owner t fd \<noteq> Some p'" "pairs t p' = pairs s p'" using fr fd' unfolding frame_def by blast+
    then show "owner x fd \<noteq> Some p'" "pairs x p' = pairs s p'"
      using own p a ps w by auto
  next
    fix fd' flt assume fd': "valid_fd fd'" "fd' \<noteq> fd"
    then show "flts (ep_kern x) (fd', flt) = flts (ep_kern s) (fd', flt)"
      using fr x w unfolding frame_def by simp
  qed
qed

lemma co_epoll_add_ok:
  assumes kq: "kq_ok q epfd flts" and inv: "ep_inv flts s" and fd: "valid_fd fd"
    and op: "op = EPOLL_CTL_ADD \<and> interest s fd = None \<or> op = EPOLL_CTL_MOD \<and> interest s fd \<noteq> None"
    and mask: "e_events ev AND NOT (EPOLLIN OR EPOLLOUT OR EPOLLERR OR EPOLLHUP) = 0"
  shows "\<exists>r s' p v w. co_epoll_ctl q epfd op fd ev s = Some (r, s') \<and>
    add_filters q epfd fd (e_events ev) p (0, v) = (r, w) \<and> ep_kern s' = ep_kern w \<and>
    (r = 0 \<and> ep_inv flts s' \<and> interest s' = (interest s)(fd \<mapsto> (e_events ev, e_u64 ev)) \<or>
     r = - 1 \<and> interest s' = (interest s)(fd := None) \<and> pairs s' p = None)"
proof -
  have "map_ok s" using inv by (simp add: ep_inv_def)
  then obtain u where u: "fd_get fd s = Some (owner s fd, u)" "map_ok u" "pairs u = pairs s" "pair_brk u = pair_brk s"
    "ep_kern u = ep_kern s" "\<forall>fd'. valid_fd fd' \<longrightarrow> owner u fd' = owner s fd'"
    using fd_get_ok [OF _ fd] by blast
  note same = same_inv [OF inv u(2-6)]
  obtain p t pr where t: "pair_of_fd fd u = Some (p, t)" "frame flts fd u t" "owner t fd = Some p"
    "pairs t p = Some pr" "fd_ok flts t fd" "owner u fd = None \<longrightarrow> pair_events pr = 0"
    using pair_of_fd_ok [OF same(1) fd] by (elim exE conjE) (erule (5) that)
  have filters: "flts (ep_kern t) (fd, EVFILT_READ) = (if pair_events pr AND EPOLLIN \<noteq> 0 then Some p else None)"
    "flts (ep_kern t) (fd, EVFILT_WRITE) = (if pair_events pr AND EPOLLOUT \<noteq> 0 then Some p else None)"
    "fire_idx pr = 0"
    using t(3-5) by (simp_all add: fd_ok_def)
  have entry: "interest s fd = None \<longleftrightarrow> owner s fd = None" using interest_entry [OF inv fd] .
  have "\<exists>v. (if op = EPOLL_CTL_MOD then drop_filters q epfd fd (pair_events pr) t else (0, t)) = (0, v) \<and>
      only_fd flts fd None None t v"
  proof (cases "op = EPOLL_CTL_MOD")
    case True
    then show ?thesis using drop_filters_ok [OF kq filters(1,2)] by simp
  next
    case False
    then have "pair_events pr = 0" using op entry t(6) u(6) fd by simp
    with filters False show ?thesis by (intro exI [of _ t]) (auto simp: only_fd_def fun_eq_iff)
  qed
  then obtain v where v: "(if op = EPOLL_CTL_MOD then drop_filters q epfd fd (pair_events pr) t else (0, t)) = (0, v)"
    "only_fd flts fd None None t v" by blast
  then have "flts (ep_kern v) (fd, EVFILT_READ) = None" "flts (ep_kern v) (fd, EVFILT_WRITE) = None"
    by (simp_all add: only_fd_def)
  from add_filters_ok [OF kq this, of "e_events ev" p] obtain r w rd wr where
    w: "add_filters q epfd fd (e_events ev) p (0, v) = (r, w)" "only_fd flts fd rd wr v w"
    and r: "if r = 0 then rd = (if e_events ev AND EPOLLIN \<noteq> 0 then Some p else None) \<and>
         wr = (if e_events ev AND EPOLLOUT \<noteq> 0 then Some p else None) else r = - 1" by blast
  have only: "only_fd flts fd rd wr t w"
    using v(2) w(2) by (auto simp: only_fd_def)
  have pw: "pairs w = pairs t" using only by (simp add: only_fd_def)
  have not_del: "op \<noteq> EPOLL_CTL_DEL" "\<not> (op = EPOLL_CTL_ADD \<and> owner s fd \<noteq> None)"
    "\<not> (op = EPOLL_CTL_MOD \<and> owner s fd = None)" using op entry by auto
  have own_w: "owner w = owner t" using only by (simp add: only_fd_def owner_def fun_eq_iff)
  have map_w: "map_ok w" using t(2) only by (simp add: frame_def only_fd_def map_ok_def)
  have run: "co_epoll_ctl q epfd op fd ev s = (if r \<noteq> 0 then do {
       s \<leftarrow> fd_set fd None w; Some (r, s\<lparr>pairs := (pairs s)(p := None)\<rparr>) }
     else Some (r, w\<lparr>pairs := (pairs w)(p \<mapsto> pr\<lparr>pair_events := e_events ev, pair_u64 := e_u64 ev\<rparr>)\<rparr>))"
    using u(1) t(1,4) v(1) w(1) not_del mask by (auto simp: co_epoll_ctl_def)
  show ?thesis
  proof (cases "r = 0")
    case True
    let ?x = "w\<lparr>pairs := (pairs w)(p \<mapsto> pr\<lparr>pair_events := e_events ev, pair_u64 := e_u64 ev\<rparr>)\<rparr>"
    have own_x: "owner ?x = owner w" by (simp add: owner_def fun_eq_iff)
    have fr: "frame flts fd u ?x"
      by (rule only_fd_frame [OF same(1) t(2) only, where a = "Some p" and p = p])
        (use map_w own_w t(3,4) fd in \<open>simp_all\<close>)
    have "fd_ok flts ?x fd"
      using own_x own_w t(3) r True only filters(3) by (simp add: fd_ok_def only_fd_def)
    with frame_inv [OF same(1) fr] have inv': "ep_inv flts ?x" .
    have "interest ?x fd = Some (e_events ev, e_u64 ev)"
      using own_x own_w t(3) fd by (simp add: interest_def)
    then have "interest ?x = (interest s)(fd \<mapsto> (e_events ev, e_u64 ev))"
      using frame_interest [OF fr] same(2) by (auto simp: fun_eq_iff)
    with run True inv' w(1) show ?thesis
      by (intro exI [of _ r] exI [of _ ?x] exI [of _ p] exI [of _ v] exI [of _ w]) simp
  next
    case False
    from fd_set_ok [OF map_w fd, of None] obtain z where z: "fd_set fd None w = Some z" "map_ok z"
      "pairs z = pairs w" "pair_brk z = pair_brk w" "ep_kern z = ep_kern w"
      "\<forall>fd'. valid_fd fd' \<longrightarrow> owner z fd' = (if fd' = fd then None else owner w fd')" by blast
    let ?x = "z\<lparr>pairs := (pairs z)(p := None)\<rparr>"
    have own_x: "owner ?x = owner z" by (simp add: owner_def fun_eq_iff)
    have fr: "frame flts fd u ?x"
      by (rule only_fd_frame [OF same(1) t(2) only, where a = None and p = p])
        (use z t(3,4) fd in \<open>simp_all\<close>)
    have "interest ?x fd = None" using own_x z(6) by (simp add: interest_def)
    then have "interest ?x = (interest s)(fd := None)"
      using frame_interest [OF fr] same(2) by (auto simp: fun_eq_iff)
    moreover have "r = - 1" using False r by simp
    ultimately show ?thesis
      using run w(1) z(1,5)
      by (intro exI [of _ r] exI [of _ ?x] exI [of _ p] exI [of _ v] exI [of _ w]) simp
  qed
qed


section \<open>The events of the kernel\<close>

text \<open>The bits the kernel reports for an entry, and the first event of an entry.\<close>

definition fired :: "kevent list \<Rightarrow> ptr \<Rightarrow> u32" where
  "fired ks p = fold (\<lambda>k b. b OR filter_bit k) (filter (\<lambda>k. udata k = p) ks) 0"

definition first_of :: "kevent list \<Rightarrow> nat \<Rightarrow> bool" where
  "first_of ks m \<longleftrightarrow> udata (ks ! m) \<notin> udata ` set (take m ks)"

definition pos_of :: "kevent list \<Rightarrow> addr \<Rightarrow> nat" where
  "pos_of ks p = length (takeWhile (\<lambda>k. udata k \<noteq> Some p) ks)"

lemma fired_snoc: "fired (ks @ [k]) p = (if udata k = p then fired ks p OR filter_bit k else fired ks p)"
  by (simp add: fired_def)

lemma fired_none: "p \<notin> udata ` set ks \<Longrightarrow> fired ks p = 0"
  unfolding fired_def by (subst filter_False) auto

lemma nth_in_take: "m < n \<Longrightarrow> m < length ks \<Longrightarrow> f (ks ! m) \<in> f ` set (take n ks)"
  by (rule imageI) (metis length_take min_less_iff_conj nth_mem nth_take)

lemma pos_of_first:
  assumes "Some p \<in> udata ` set (take i ks)"
  shows "pos_of ks p < i" "pos_of ks p < length ks" "udata (ks ! pos_of ks p) = Some p" "first_of ks (pos_of ks p)"
proof -
  let ?P = "\<lambda>k. udata k \<noteq> Some p"
  obtain m where m: "m < i" "m < length ks" "udata (ks ! m) = Some p"
    using assms by (auto simp: in_set_conv_nth)
  have "\<not> (\<forall>k\<in>set (take (Suc m) ks). ?P k)"
    using m by (auto simp: take_Suc_conv_app_nth)
  have le: "pos_of ks p \<le> m"
  proof (rule ccontr)
    assume "\<not> pos_of ks p \<le> m"
    then have lt: "m < length (takeWhile ?P ks)" by (simp add: pos_of_def)
    then have "takeWhile ?P ks ! m \<in> set (takeWhile ?P ks)" by (rule nth_mem)
    then have "?P (ks ! m)" using set_takeWhileD takeWhile_nth [OF lt] by metis
    with m(3) show False by simp
  qed
  then show "pos_of ks p < i" and len: "pos_of ks p < length ks" using m by simp_all
  from nth_length_takeWhile [of ?P ks] len show u: "udata (ks ! pos_of ks p) = Some p"
    by (simp add: pos_of_def)
  have "take (pos_of ks p) ks = takeWhile ?P ks"
    unfolding pos_of_def by (metis takeWhile_eq_take)
  then show "first_of ks (pos_of ks p)"
    unfolding first_of_def u by (auto dest: set_takeWhileD)
qed

lemma first_of_unique:
  assumes "first_of ks m" "first_of ks n" "udata (ks ! m) = udata (ks ! n)" "m < length ks" "n < length ks"
  shows "m = n"
proof -
  have "\<not> m < n" if "first_of ks n" "udata (ks ! m) = udata (ks ! n)" "m < length ks" for m n
    using that nth_in_take [of m n ks udata] by (auto simp: first_of_def)
  from this [of n m] this [of m n] assms show ?thesis by (metis nat_neq_iff)
qed

text \<open>After \<open>i\<close> rounds: the events of the entries met so far stand where each of them was met first.\<close>

definition wait_inv ::
  "kevent list \<Rightarrow> ep_event list \<Rightarrow> (addr \<rightharpoonup> kevent_pair_t) \<Rightarrow> nat \<Rightarrow>
    int \<times> ep_event list \<times> (addr \<rightharpoonup> kevent_pair_t) \<Rightarrow> bool" where
  "wait_inv ks evs0 ps0 i = (\<lambda>(j, evs, ps). j = int (card (udata ` set (take i ks))) \<and> length evs = length evs0 \<and>
     (\<forall>m<length evs0. evs ! m = (if m < i \<and> first_of ks m
        then \<lparr>e_events = fired (take i ks) (udata (ks ! m)), e_u64 = pair_u64 (the (ps0 (the (udata (ks ! m)))))\<rparr>
        else evs0 ! m)) \<and>
     ps = (\<lambda>p. if Some p \<in> udata ` set (take i ks)
        then map_option (fire_idx_update (\<lambda>_. int (pos_of ks p) + 1)) (ps0 p) else ps0 p))"

text \<open>The kernel fills the buffer with events of entries that exist and are between two calls.\<close>

definition kevents_ok :: "kevent list \<Rightarrow> ep_event list \<Rightarrow> (addr \<rightharpoonup> kevent_pair_t) \<Rightarrow> bool" where
  "kevents_ok ks evs0 ps0 \<longleftrightarrow> length ks \<le> length evs0 \<and>
     (\<forall>m<length ks. \<exists>p pr. udata (ks ! m) = Some p \<and> ps0 p = Some pr \<and> fire_idx pr = 0)"

lemma wait_step_inv:
  assumes ok: "kevents_ok ks evs0 ps0" and i: "i < length ks" and inv: "wait_inv ks evs0 ps0 i (j, evs, ps)"
    and all: "length ks \<le> length all" "take (length ks) all = ks"
  shows "\<exists>x. wait_step all i (j, evs, ps) = Some x \<and> wait_inv ks evs0 ps0 (Suc i) x"
proof -
  obtain p pr where p: "udata (ks ! i) = Some p" "ps0 p = Some pr" "fire_idx pr = 0"
    using ok i unfolding kevents_ok_def by blast
  have len: "length evs = length evs0" "i < length evs0" "length ks \<le> length evs0"
    using inv ok i by (auto simp: wait_inv_def kevents_ok_def)
  have all_i: "all ! i = ks ! i" "i < length all" using all i by (metis nth_take) (use all i in simp)
  have take_i: "take (Suc i) ks = take i ks @ [ks ! i]" using i by (rule take_Suc_conv_app_nth)
  have set_i: "udata ` set (take (Suc i) ks) = insert (Some p) (udata ` set (take i ks))"
    using p(1) take_i by simp
  have evs: "evs ! m = (if m < i \<and> first_of ks m
        then \<lparr>e_events = fired (take i ks) (udata (ks ! m)), e_u64 = pair_u64 (the (ps0 (the (udata (ks ! m)))))\<rparr>
        else evs0 ! m)" if "m < length evs0" for m
    using inv that by (simp add: wait_inv_def)
  have ps: "ps = (\<lambda>p. if Some p \<in> udata ` set (take i ks)
        then map_option (fire_idx_update (\<lambda>_. int (pos_of ks p) + 1)) (ps0 p) else ps0 p)"
    and j: "j = int (card (udata ` set (take i ks)))"
    using inv by (simp_all add: wait_inv_def)
  have fired_i: "fired (take (Suc i) ks) q = (if Some p = q then fired (take i ks) q OR filter_bit (ks ! i) else fired (take i ks) q)" for q
    unfolding take_i fired_snoc p(1) ..
  show ?thesis
  proof (cases "Some p \<in> udata ` set (take i ks)")
    case False
    have first: "first_of ks i" using False p(1) by (simp add: first_of_def)
    have pos: "pos_of ks p = i"
    proof -
      have in_i: "Some p \<in> udata ` set (take (Suc i) ks)" using set_i by simp
      from pos_of_first [OF in_i] first p(1) i show ?thesis by (metis first_of_unique)
    qed
    let ?e = "\<lparr>e_events = filter_bit (ks ! i), e_u64 = pair_u64 pr\<rparr>"
    let ?x = "(j + 1, evs[i := ?e], ps(p \<mapsto> pr\<lparr>fire_idx := int i + 1\<rparr>))"
    have "wait_step all i (j, evs, ps) = Some ?x"
      using False p ps len all_i by (simp add: wait_step_def Let_def)
    moreover have "wait_inv ks evs0 ps0 (Suc i) ?x"
      unfolding wait_inv_def prod.case
    proof (intro conjI allI impI)
      show "j + 1 = int (card (udata ` set (take (Suc i) ks)))"
        using False j set_i by simp
      show "length (evs[i := ?e]) = length evs0" using len by simp
      show "ps(p \<mapsto> pr\<lparr>fire_idx := int i + 1\<rparr>) = (\<lambda>q. if Some q \<in> udata ` set (take (Suc i) ks)
          then map_option (fire_idx_update (\<lambda>_. int (pos_of ks q) + 1)) (ps0 q) else ps0 q)"
        unfolding set_i ps using pos p(2) by (auto simp: fun_eq_iff)
    next
      fix m assume m: "m < length evs0"
      have other: "udata (ks ! m) \<noteq> Some p" if "m < i"
        using False that i nth_in_take [of m i ks udata] by auto
      show "evs[i := ?e] ! m = (if m < Suc i \<and> first_of ks m
        then \<lparr>e_events = fired (take (Suc i) ks) (udata (ks ! m)), e_u64 = pair_u64 (the (ps0 (the (udata (ks ! m)))))\<rparr>
        else evs0 ! m)"
      proof (cases "m = i")
        case True
        then show ?thesis using first p len False by (simp add: fired_i fired_none)
      next
        case ne: False
        then have "evs[i := ?e] ! m = evs ! m" by simp
        with ne other evs [OF m] show ?thesis by (auto simp: fired_i less_Suc_eq)
      qed
    qed
    ultimately show ?thesis by blast
  next
    case True
    note pos = pos_of_first [OF True]
    have not_first: "\<not> first_of ks i" using True p(1) by (simp add: first_of_def)
    let ?m = "pos_of ks p"
    let ?e = "\<lparr>e_events = fired (take i ks) (Some p) OR filter_bit (ks ! i), e_u64 = pair_u64 pr\<rparr>"
    let ?x = "(j, evs[?m := ?e], ps(p \<mapsto> pr\<lparr>fire_idx := int ?m + 1\<rparr>))"
    have "ps p = Some (pr\<lparr>fire_idx := int ?m + 1\<rparr>)" using True p ps by simp
    moreover have "evs ! ?m = \<lparr>e_events = fired (take i ks) (Some p), e_u64 = pair_u64 pr\<rparr>"
      using evs [of ?m] pos len p(2) by simp
    ultimately have "wait_step all i (j, evs, ps) = Some ?x"
      using p(1) len all_i pos by (simp add: wait_step_def Let_def)
    moreover have "wait_inv ks evs0 ps0 (Suc i) ?x"
      unfolding wait_inv_def prod.case
    proof (intro conjI allI impI)
      show "j = int (card (udata ` set (take (Suc i) ks)))"
        using True j set_i by (simp add: insert_absorb)
      show "length (evs[?m := ?e]) = length evs0" using len by simp
      show "ps(p \<mapsto> pr\<lparr>fire_idx := int ?m + 1\<rparr>) = (\<lambda>q. if Some q \<in> udata ` set (take (Suc i) ks)
          then map_option (fire_idx_update (\<lambda>_. int (pos_of ks q) + 1)) (ps0 q) else ps0 q)"
        unfolding set_i ps using True p(2) by (auto simp: fun_eq_iff)
    next
      fix m assume m: "m < length evs0"
      show "evs[?m := ?e] ! m = (if m < Suc i \<and> first_of ks m
        then \<lparr>e_events = fired (take (Suc i) ks) (udata (ks ! m)), e_u64 = pair_u64 (the (ps0 (the (udata (ks ! m)))))\<rparr>
        else evs0 ! m)"
      proof (cases "m = ?m")
        case True
        then show ?thesis using pos len p(2) by (simp add: fired_i)
      next
        case ne: False
        have other: "udata (ks ! m) \<noteq> Some p" if "m < i" "first_of ks m"
          using first_of_unique [OF that(2) pos(4)] that(1) i pos ne by auto
        have old: "evs[?m := ?e] ! m = evs ! m" using ne by simp
        show ?thesis
        proof (cases "m < i \<and> first_of ks m")
          case True
          then show ?thesis unfolding old evs [OF m] fired_i using other by auto
        next
          case f: False
          then have n: "\<not> (m < Suc i \<and> first_of ks m)" using not_first by (auto simp: less_Suc_eq)
          show ?thesis unfolding old evs [OF m] if_not_P [OF f] if_not_P [OF n] ..
        qed
      qed
    qed
    ultimately show ?thesis by blast
  qed
qed


lemma wait_loop:
  assumes ok: "kevents_ok ks evs0 ps0" and all: "length ks \<le> length all" "take (length ks) all = ks"
    and i: "i \<le> length ks"
  shows "\<exists>x. foldM (wait_step all) [0..<i] (0, evs0, ps0) = Some x \<and> wait_inv ks evs0 ps0 i x"
  using i
proof (induction i)
  case 0
  then show ?case by (simp add: wait_inv_def)
next
  case (Suc i)
  then obtain j evs ps where x: "foldM (wait_step all) [0..<i] (0, evs0, ps0) = Some (j, evs, ps)"
    "wait_inv ks evs0 ps0 i (j, evs, ps)" by auto
  have "i < length ks" using Suc.prems by simp
  from wait_step_inv [OF ok this x(2) all] obtain y where
    y: "wait_step all i (j, evs, ps) = Some y" "wait_inv ks evs0 ps0 (Suc i) y" by blast
  then show ?case using x(1) by (intro exI [of _ y]) (simp add: foldM_append)
qed

text \<open>The second loop restores every entry.\<close>

lemma reset_loop:
  assumes ok: "kevents_ok ks evs0 ps0" and all: "length ks \<le> length all" "take (length ks) all = ks"
    and ps: "\<forall>p. map_option (fire_idx_update (\<lambda>_. 0)) (ps p) = map_option (fire_idx_update (\<lambda>_. 0)) (ps0 p)"
    and i: "i \<le> length ks"
  shows "\<exists>qs. foldM (reset_step all) [0..<i] ps = Some qs \<and>
    (\<forall>p. qs p = (if Some p \<in> udata ` set (take i ks) then ps0 p else ps p))"
  using i
proof (induction i)
  case 0
  then show ?case by simp
next
  case (Suc i)
  then obtain qs where qs: "foldM (reset_step all) [0..<i] ps = Some qs"
    "\<forall>p. qs p = (if Some p \<in> udata ` set (take i ks) then ps0 p else ps p)" by auto
  have lt: "i < length ks" using Suc.prems by simp
  with ok obtain p pr where p: "udata (ks ! i) = Some p" "ps0 p = Some pr" "fire_idx pr = 0"
    unfolding kevents_ok_def by blast
  have all_i: "all ! i = ks ! i" using all(2) lt by (metis nth_take)
  obtain pr' where pr': "qs p = Some pr'" "pr'\<lparr>fire_idx := 0\<rparr> = pr\<lparr>fire_idx := 0\<rparr>"
    using qs(2) ps p(2) by (metis (no_types, lifting) map_option_eq_Some option.simps(9))
  have "pr'\<lparr>fire_idx := 0\<rparr> = pr" using pr'(2) p(3) by (cases pr) simp
  then have step: "reset_step all i qs = Some (qs(p \<mapsto> pr))"
    using all_i p(1) pr'(1) by (simp add: reset_step_def)
  have set_i: "udata ` set (take (Suc i) ks) = insert (Some p) (udata ` set (take i ks))"
    using p(1) lt by (simp add: take_Suc_conv_app_nth)
  show ?case
    using qs step p(2) unfolding set_i by (intro exI [of _ "qs(p \<mapsto> pr)"]) (auto simp: foldM_append fun_eq_iff)
qed

section \<open>Properties\<close>

text \<open>
  \<open>clsFdMap\<close> is a map on the descriptors below 1024 * 1024: after any sequence of \<open>set\<close> calls \<open>get\<close> gives
  the last pointer set for the descriptor, or \<open>NULL\<close>. For larger descriptors \<open>set\<close> fails its assertion
  and \<open>get\<close> gives \<open>NULL\<close>.
\<close>
theorem clsFdMap_is_map:
  assumes "\<forall>x\<in>set xs. valid_fd (fst x)"
  shows "\<exists>m. foldM (\<lambda>(fd, p). fdmap_set fd p) xs new_fd_map = Some m \<and>
    (\<forall>fd. valid_fd fd \<longrightarrow> fdmap_get fd m = Some (case map_of (rev xs) fd of None \<Rightarrow> None | Some p \<Rightarrow> p)) \<and>
    (\<forall>fd p. 1024 * 1024 \<le> fd \<longrightarrow> fdmap_set fd p m = None \<and> fdmap_get fd m = Some None)"
proof -
  obtain m where m: "foldM (\<lambda>(fd, p). fdmap_set fd p) xs new_fd_map = Some m"
    "\<forall>fd. valid_fd fd \<longrightarrow> fdmap_get fd m = Some (case map_of (rev xs) fd of None \<Rightarrow> None | Some p \<Rightarrow> p)"
    using fdm.puts [OF assms] by blast
  have "1024 \<le> fd sdiv 1024" if "1024 * 1024 \<le> fd" for fd :: int
    using that zdiv_mono1 [of "1024 * 1024" fd 1024] by (simp add: signed_divide_int_def)
  then have "\<forall>fd p. 1024 * 1024 \<le> fd \<longrightarrow> fdmap_set fd p m = None \<and> fdmap_get fd m = Some None"
    by (fastforce simp: fdmap_set_def fdmap_get_def)
  with m show ?thesis by blast
qed

theorem clsFdMap_is_map_witness:
  "\<exists>m. foldM (\<lambda>(fd, p). fdmap_set fd p) [(3, Some 7), (1027, Some 8), (3, Some 9)] new_fd_map = Some m \<and>
     fdmap_get 3 m = Some (Some 9) \<and> fdmap_get 1027 m = Some (Some 8)"
proof -
  have "\<forall>x\<in>set [(3, Some 7), (1027, Some 8), (3, Some (9 :: nat))]. valid_fd (fst x)"
    by (simp add: valid_fd_def)
  from clsFdMap_is_map [OF this] obtain m where
    "foldM (\<lambda>(fd, p). fdmap_set fd p) [(3, Some 7), (1027, Some 8), (3, Some 9)] new_fd_map = Some m"
    "\<forall>fd. valid_fd fd \<longrightarrow> fdmap_get fd m =
       Some (case map_of (rev [(3, Some 7), (1027, Some 8), (3, Some 9)]) fd of None \<Rightarrow> None | Some p \<Rightarrow> p)"
    by blast
  then show ?thesis by (intro exI [of _ m]) (simp add: valid_fd_def)
qed



text \<open>
  A queue for the witnesses: the filters and whether it refuses to watch for writing; \<open>kq_wait\<close> reports what
  is in the second component.
\<close>

definition demo_kq :: "bool \<Rightarrow> ((int \<times> int \<Rightarrow> ptr) \<times> kevent list) kq" where
  "demo_kq refuse = \<lparr>
     kq_change = (\<lambda>epfd c k. if kflags c = EV_DELETE then (0, ((fst k)((ident c, kfilter c) := None), snd k))
        else if refuse \<and> kfilter c = EVFILT_WRITE then (- 1, k)
        else (0, ((fst k)((ident c, kfilter c) := udata c), snd k))),
     kq_wait = (\<lambda>epfd n t k. (int (length (snd k)), snd k, k))\<rparr>"

definition demo_eps :: "((int \<times> int \<Rightarrow> ptr) \<times> kevent list) eps" where
  "demo_eps = \<lparr>s_fd_map = None, pairs = Map.empty, pair_brk = 50, ep_errno = 0, ep_kern = (\<lambda>_. None, [])\<rparr>"

lemma demo_kq_ok: "kq_ok (demo_kq b) epfd fst"
  by (auto simp: kq_ok_def demo_kq_def split: if_splits)

lemma demo_ep_inv: "ep_inv fst demo_eps"
  by (simp add: ep_inv_def map_ok_def demo_eps_def fd_ok_def owner_def)

lemma demo_interest: "interest demo_eps fd = None"
  by (simp add: interest_def demo_eps_def owner_def)


text \<open>
  C40: A failed \<open>EPOLL_CTL_ADD\<close> leaves the kernel a pointer to freed memory. When the kernel takes the filter for
  reading and refuses the one for writing, \<open>co_epoll_ctl\<close> frees the entry of the descriptor and does
  not remove the first filter, whose events \<open>co_epoll_wait\<close> follows to the entry.
\<close>
theorem co_epoll_ctl_dangling:
  assumes "kq_ok q epfd flts" "ep_inv flts s" "valid_fd fd" "interest s fd = None"
    and mask: "e_events ev AND NOT (EPOLLIN OR EPOLLOUT OR EPOLLERR OR EPOLLHUP) = 0"
    and both: "e_events ev AND EPOLLIN \<noteq> 0" "e_events ev AND EPOLLOUT \<noteq> 0"
    and rd: "\<And>p k. fst (kq_change q epfd \<lparr>ident = fd, kfilter = EVFILT_READ, kflags = EV_ADD, udata = Some p\<rparr> k) = 0"
    and wr: "\<And>p k. fst (kq_change q epfd \<lparr>ident = fd, kfilter = EVFILT_WRITE, kflags = EV_ADD, udata = Some p\<rparr> k) = - 1"
  shows "\<exists>s' p. co_epoll_ctl q epfd EPOLL_CTL_ADD fd ev s = Some (- 1, s') \<and> interest s' fd = None \<and>
    flts (ep_kern s') (fd, EVFILT_READ) = Some p \<and> pairs s' p = None"
proof -
  have add: "fst (add_filters q epfd fd (e_events ev) p (0, v)) = - 1 \<and>
     flts (ep_kern (snd (add_filters q epfd fd (e_events ev) p (0, v)))) (fd, EVFILT_READ) = Some p" for p v
  proof -
    obtain r t where t: "kchange q epfd fd EVFILT_READ EV_ADD (Some p) v = (r, t)" by fastforce
    obtain r' w where w: "kchange q epfd fd EVFILT_WRITE EV_ADD (Some p) t = (r', w)" by fastforce
    have r: "r = 0" using rd [of p "ep_kern v"] kchange_state(4) [OF t] by simp
    have r': "r' = - 1" using wr [of p "ep_kern t"] kchange_state(4) [OF w] by simp
    have "add_filters q epfd fd (e_events ev) p (0, v) = (- 1, w)"
      using both t w r r' by (simp add: add_filters_def)
    moreover have "flts (ep_kern t) = (flts (ep_kern v))((fd, EVFILT_READ) := Some p)"
      using kchange_add [OF assms(1) t] unfolding r if_P [OF refl] .
    moreover have "flts (ep_kern w) = flts (ep_kern t)"
      using kchange_add [OF assms(1) w] unfolding r' by simp
    ultimately show ?thesis by simp
  qed
  have op: "EPOLL_CTL_ADD = EPOLL_CTL_ADD \<and> interest s fd = None \<or> EPOLL_CTL_ADD = EPOLL_CTL_MOD \<and> interest s fd \<noteq> None"
    using assms(4) by simp
  obtain r s' p v w where run: "co_epoll_ctl q epfd EPOLL_CTL_ADD fd ev s = Some (r, s')"
    and w: "add_filters q epfd fd (e_events ev) p (0, v) = (r, w)" "ep_kern s' = ep_kern w"
    and r: "r = 0 \<or> interest s' = (interest s)(fd := None) \<and> pairs s' p = None"
    using co_epoll_add_ok [OF assms(1-3) op mask] by metis
  have "r = - 1" "flts (ep_kern s') (fd, EVFILT_READ) = Some p" using add [of p v] w by simp_all
  with run r show ?thesis by (intro exI [of _ s'] exI [of _ p]) simp
qed

theorem co_epoll_ctl_dangling_witness:
  "\<exists>s' p. co_epoll_ctl (demo_kq True) 5 EPOLL_CTL_ADD 3 \<lparr>e_events = EPOLLIN OR EPOLLOUT, e_u64 = 9\<rparr> demo_eps = Some (- 1, s') \<and>
     fst (ep_kern s') (3, EVFILT_READ) = Some p \<and> pairs s' p = None"
proof -
  have v: "valid_fd 3" by (simp add: valid_fd_def)
  have "\<exists>s' p. co_epoll_ctl (demo_kq True) 5 EPOLL_CTL_ADD 3 \<lparr>e_events = EPOLLIN OR EPOLLOUT, e_u64 = 9\<rparr> demo_eps = Some (- 1, s') \<and>
     interest s' 3 = None \<and> fst (ep_kern s') (3, EVFILT_READ) = Some p \<and> pairs s' p = None"
    by (rule co_epoll_ctl_dangling [OF demo_kq_ok demo_ep_inv v demo_interest]) (simp_all add: demo_kq_def)
  then show ?thesis by blast
qed

text \<open>
  \<open>co_epoll_wait\<close> on \<open>kqueue\<close> merges the events of one entry into one \<open>epoll_event\<close>, with all the bits the
  kernel reported for the entry and its user data, at the place of the first of them; it returns the
  number of different entries and restores the entries. The places of the other events keep what they
  held, so that with a repeated entry the first \<open>n\<close> places need not hold the \<open>n\<close> events. The timeout,
  in milliseconds everywhere else, goes to the kernel as seconds.
\<close>
theorem co_epoll_wait_merges:
  assumes wait: "kq_wait q epfd n (if - 1 = timeout then None else Some (if timeout > 0 then timeout else 0, 0)) (ep_kern s) =
      (int (length ks), ks, k)"
    and ok: "kevents_ok ks (res_events res) (pairs s)" "length ks \<le> length (res_eventlist res)"
  shows "\<exists>res' s'. co_epoll_wait q epfd res n timeout s = Some (int (card (udata ` set ks)), res', s') \<and>
    pairs s' = pairs s \<and> s_fd_map s' = s_fd_map s \<and> length (res_events res') = length (res_events res) \<and>
    (\<forall>m<length (res_events res). res_events res' ! m = (if m < length ks \<and> first_of ks m
        then \<lparr>e_events = fired ks (udata (ks ! m)), e_u64 = pair_u64 (the (pairs s (the (udata (ks ! m)))))\<rparr>
        else res_events res ! m))"
proof -
  let ?all = "ks @ drop (length ks) (res_eventlist res)"
  have all: "length ks \<le> length ?all" "take (length ks) ?all = ks" by simp_all
  obtain j evs ps where x: "foldM (wait_step ?all) [0..<length ks] (0, res_events res, pairs s) = Some (j, evs, ps)"
    "wait_inv ks (res_events res) (pairs s) (length ks) (j, evs, ps)"
    using wait_loop [OF ok(1) all order_refl] by auto
  have ps: "ps = (\<lambda>p. if Some p \<in> udata ` set ks
        then map_option (fire_idx_update (\<lambda>_. int (pos_of ks p) + 1)) (pairs s p) else pairs s p)"
    and j: "j = int (card (udata ` set ks))" and len: "length evs = length (res_events res)"
    and evs: "\<forall>m<length (res_events res). evs ! m = (if m < length ks \<and> first_of ks m
        then \<lparr>e_events = fired ks (udata (ks ! m)), e_u64 = pair_u64 (the (pairs s (the (udata (ks ! m)))))\<rparr>
        else res_events res ! m)"
    using x(2) by (simp_all add: wait_inv_def)
  have "\<forall>p. map_option (fire_idx_update (\<lambda>_. 0)) (ps p) = map_option (fire_idx_update (\<lambda>_. 0)) (pairs s p)"
    unfolding ps by (simp add: option.map_comp comp_def)
  from reset_loop [OF ok(1) all this order_refl] obtain qs where qs: "foldM (reset_step ?all) [0..<length ks] ps = Some qs"
    "\<forall>p. qs p = (if Some p \<in> udata ` set ks then pairs s p else ps p)" by auto
  have "qs = pairs s" using qs(2) by (auto simp: ps fun_eq_iff)
  with x(1) qs(1) wait ok(2) evs len j show ?thesis
    by (intro exI [of _ "res\<lparr>res_events := evs, res_eventlist := ?all\<rparr>"] exI [of _ "s\<lparr>pairs := qs, ep_kern := k\<rparr>"])
      (simp add: co_epoll_wait_def)
qed


text \<open>Descriptor 3 is readable and writable, descriptor 4 readable: the event of 4 is at place 2, behind the two counted.\<close>

definition demo_fired :: "kevent list" where
  "demo_fired = [\<lparr>ident = 3, kfilter = EVFILT_READ, kflags = 0, udata = Some 50\<rparr>,
     \<lparr>ident = 3, kfilter = EVFILT_WRITE, kflags = 0, udata = Some 50\<rparr>,
     \<lparr>ident = 4, kfilter = EVFILT_READ, kflags = 0, udata = Some 51\<rparr>]"

definition demo_waiting :: "((int \<times> int \<Rightarrow> ptr) \<times> kevent list) eps" where
  "demo_waiting = \<lparr>s_fd_map = None, pairs = [50 \<mapsto> \<lparr>fire_idx = 0, pair_events = EPOLLIN OR EPOLLOUT, pair_u64 = 30\<rparr>,
       51 \<mapsto> \<lparr>fire_idx = 0, pair_events = EPOLLIN, pair_u64 = 40\<rparr>],
     pair_brk = 52, ep_errno = 0, ep_kern = (\<lambda>_. None, demo_fired)\<rparr>"

theorem co_epoll_wait_merges_witness:
  "\<exists>res' s'. co_epoll_wait (demo_kq False) 5 (co_epoll_res_alloc 4) 4 1 demo_waiting = Some (2, res', s') \<and>
     res_events res' ! 0 = \<lparr>e_events = EPOLLIN OR EPOLLOUT, e_u64 = 30\<rparr> \<and>
     res_events res' ! 1 = \<lparr>e_events = 0, e_u64 = 0\<rparr> \<and>
     res_events res' ! 2 = \<lparr>e_events = EPOLLIN, e_u64 = 40\<rparr>"
proof -
  have alloc: "res_events (co_epoll_res_alloc 4) = replicate 4 \<lparr>e_events = 0, e_u64 = 0\<rparr>"
    "length (res_eventlist (co_epoll_res_alloc 4)) = 4"
    by (simp_all add: co_epoll_res_alloc_def)
  have ok: "kevents_ok demo_fired (res_events (co_epoll_res_alloc 4)) (pairs demo_waiting)"
    by (auto simp: kevents_ok_def demo_fired_def demo_waiting_def alloc less_Suc_eq numeral_3_eq_3 nth_Cons split: nat.splits)
  have kernel: "kq_wait (demo_kq False) 5 4 (if - 1 = (1 :: int) then None else Some (if (1 :: int) > 0 then 1 else 0, 0))
      (ep_kern demo_waiting) = (int (length demo_fired), demo_fired, (\<lambda>_. None, demo_fired))"
    by (simp add: demo_kq_def demo_waiting_def)
  have le: "length demo_fired \<le> length (res_eventlist (co_epoll_res_alloc 4))"
    by (simp add: alloc demo_fired_def)
  from co_epoll_wait_merges [OF kernel ok le] obtain res' s' where
    run: "co_epoll_wait (demo_kq False) 5 (co_epoll_res_alloc 4) 4 1 demo_waiting = Some (int (card (udata ` set demo_fired)), res', s')"
    and evs: "\<forall>m<4. res_events res' ! m = (if m < length demo_fired \<and> first_of demo_fired m
        then \<lparr>e_events = fired demo_fired (udata (demo_fired ! m)),
              e_u64 = pair_u64 (the (pairs demo_waiting (the (udata (demo_fired ! m)))))\<rparr>
        else res_events (co_epoll_res_alloc 4) ! m)"
    by (auto simp: alloc)
  have "card (udata ` set demo_fired) = 2" by (simp add: demo_fired_def)
  with run evs [rule_format, of 0] evs [rule_format, of 1] evs [rule_format, of 2] show ?thesis
    by (intro exI [of _ res'] exI [of _ s'])
      (simp add: alloc demo_fired_def demo_waiting_def first_of_def fired_def filter_bit_def numeral_2_eq_2)
qed

end
