(* ===== verification/Schedule.thy ===== *)
theory Schedule
  imports Prelude
begin

unbundle bit_operations_syntax

text \<open>
  The scheduler of \<open>src/coroutine/coroutine.c\<close>: coroutines that run on one stack, the array \<open>stack\<close> of the
  scheduler, and copy their part of it to the heap when they yield. The register contexts of
  \<open>ucontext\<close> are of any type \<open>'r\<close>; \<open>makecontext\<close> is a parameter. \<open>None\<close> is a failed \<open>assert\<close> or an
  access outside an object.
\<close>

section \<open>State\<close>

datatype costatus = COROUTINE_DEAD | COROUTINE_READY | COROUTINE_RUNNING | COROUTINE_SUSPEND

text \<open>\<open>sch\<close> is the one scheduler of the state.\<close>

record 'r coroutine =
  func :: addr
  ud :: addr
  ctx :: "'r option"
  ccap :: int
  csize :: int
  cstatus :: costatus
  cstack :: "byte list option"

text \<open>
  \<open>stk\<close> are the bytes of \<open>stack\<close> by index, \<open>smain\<close> is \<open>main\<close>, \<open>sco\<close> the array \<open>co\<close> with \<open>scap\<close> entries; \<open>cors\<close>
  are the allocated coroutines and \<open>cpu\<close> the registers.
\<close>

record 'r schedule =
  stk :: "nat \<Rightarrow> byte"
  smain :: "'r option"
  nco :: int
  scap :: int
  srunning :: int
  sco :: "ptr list"
  cors :: "addr \<rightharpoonup> 'r coroutine"
  sbrk :: addr
  cpu :: 'r

definition STACK_SIZE :: nat where
  "STACK_SIZE = 1024 * 1024"

section \<open>Operations\<close>

definition co_new :: "addr \<Rightarrow> addr \<Rightarrow> 'r schedule \<Rightarrow> addr \<times> 'r schedule" where
  "co_new f u s = (sbrk s, s\<lparr>sbrk := sbrk s + 1, cors := (cors s)(sbrk s \<mapsto>
     \<lparr>func = f, ud = u, ctx = None, ccap = 0, csize = 0, cstatus = COROUTINE_READY, cstack = None\<rparr>)\<rparr>)"

definition co_delete :: "addr \<Rightarrow> 'r schedule \<Rightarrow> 'r schedule option" where
  "co_delete p s = do { c \<leftarrow> cors s p; Some (s\<lparr>cors := (cors s)(p := None)\<rparr>) }"

text \<open>The bytes of the stack and the registers are whatever they were.\<close>

definition coroutine_open :: "(nat \<Rightarrow> byte) \<Rightarrow> 'r \<Rightarrow> 'r schedule" where
  "coroutine_open m r = \<lparr>stk = m, smain = None, nco = 0, scap = 16, srunning = - 1, sco = replicate 16 None,
     cors = Map.empty, sbrk = 0, cpu = r\<rparr>"

text \<open>Afterwards only what was not freed is left.\<close>

definition coroutine_close :: "'r schedule \<Rightarrow> (addr \<rightharpoonup> 'r coroutine) option" where
  "coroutine_close s = do {
     require (0 \<le> scap s \<and> scap s \<le> int (length (sco s)));
     s \<leftarrow> foldM (\<lambda>i s. case sco s ! i of None \<Rightarrow> Some s | Some p \<Rightarrow> co_delete p s) [0..<nat (scap s)] s;
     Some (cors s) }"

text \<open>The search for a free entry, from \<open>nco\<close> on.\<close>

definition free_slot :: "'r schedule \<Rightarrow> nat option" where
  "free_slot s = map_option (\<lambda>i. nat ((int i + nco s) smod scap s))
     (find (\<lambda>i. sco s ! nat ((int i + nco s) smod scap s) = None) [0..<nat (scap s)])"

definition coroutine_new :: "addr \<Rightarrow> addr \<Rightarrow> 'r schedule \<Rightarrow> (int \<times> 'r schedule) option" where
  "coroutine_new f u s = (let (p, s) = co_new f u s in
     if nco s \<ge> scap s then do {
       let cid = scap s;
       require (in_s32 (scap s * 2));
       Some (cid, s\<lparr>sco := (sco s @ replicate (nat (scap s)) None)[nat (scap s) := Some p], scap := scap s * 2,
                   nco := nco s + 1\<rparr>) }
     else (case free_slot s of
         None \<Rightarrow> None
       | Some cid \<Rightarrow> Some (int cid, s\<lparr>sco := (sco s)[cid := Some p], nco := nco s + 1\<rparr>)))"

text \<open>The pointer to the scheduler goes to \<open>mainfunc\<close> in two halves.\<close>

definition ptr_halves :: "u64 \<Rightarrow> u32 \<times> u32" where
  "ptr_halves p = (ucast p, ucast (drop_bit 32 p))"

definition mainfunc_ptr :: "u32 \<Rightarrow> u32 \<Rightarrow> u64" where
  "mainfunc_ptr low32 hi32 = ucast low32 OR push_bit 32 (ucast hi32)"

text \<open>
  \<open>mainfunc\<close> up to the call of \<open>func\<close>, with its locals \<open>id\<close> and \<open>C\<close>, and after it; then the context of \<open>uc_link\<close>
  is entered.
\<close>

definition mainfunc_start :: "'r schedule \<Rightarrow> (int \<times> addr \<times> addr \<times> addr) option" where
  "mainfunc_start s = do {
     let cid = srunning s;
     require (0 \<le> cid \<and> cid < int (length (sco s)));
     p \<leftarrow> sco s ! nat cid;
     c \<leftarrow> cors s p;
     Some (cid, p, func c, ud c) }"

definition mainfunc_end :: "int \<Rightarrow> addr \<Rightarrow> 'r schedule \<Rightarrow> 'r schedule option" where
  "mainfunc_end cid p s = do {
     s \<leftarrow> co_delete p s;
     require (0 \<le> cid \<and> cid < int (length (sco s)));
     m \<leftarrow> smain s;
     Some (s\<lparr>sco := (sco s)[nat cid := None], nco := nco s - 1, srunning := - 1, cpu := m\<rparr>) }"

text \<open>
  \<open>coroutine_resume\<close> down to the \<open>swapcontext\<close>, after whose return nothing is left to do; \<open>r\<close> are the registers it saves,
  \<open>sp\<close> the address of the scheduler, \<open>mk\<close> is \<open>makecontext\<close> on the stack \<open>stack\<close>.
\<close>

definition coroutine_resume ::
  "('r \<Rightarrow> u32 \<Rightarrow> u32 \<Rightarrow> 'r) \<Rightarrow> u64 \<Rightarrow> 'r \<Rightarrow> int \<Rightarrow> 'r schedule \<Rightarrow> 'r schedule option" where
  "coroutine_resume mk sp r cid s = do {
     require (srunning s = - 1);
     require (0 \<le> cid \<and> cid < scap s);
     require (cid < int (length (sco s)));
     (case sco s ! nat cid of
        None \<Rightarrow> Some s
      | Some p \<Rightarrow> do {
          c \<leftarrow> cors s p;
          (case cstatus c of
             COROUTINE_READY \<Rightarrow> do {
               let (low, hi) = ptr_halves sp;
               let x = mk (cpu s) low hi;
               Some (s\<lparr>srunning := cid, cors := (cors s)(p \<mapsto> c\<lparr>cstatus := COROUTINE_RUNNING, ctx := Some x\<rparr>),
                       smain := Some r, cpu := x\<rparr>) }
           | COROUTINE_SUSPEND \<Rightarrow> do {
               bs \<leftarrow> cstack c;
               x \<leftarrow> ctx c;
               require (0 \<le> csize c \<and> csize c \<le> int (length bs) \<and> csize c \<le> int STACK_SIZE);
               let n = nat (csize c);
               Some (s\<lparr>stk := (\<lambda>i. if STACK_SIZE - n \<le> i \<and> i < STACK_SIZE then bs ! (i - (STACK_SIZE - n)) else stk s i),
                       srunning := cid, cors := (cors s)(p \<mapsto> c\<lparr>cstatus := COROUTINE_RUNNING\<rparr>),
                       smain := Some r, cpu := x\<rparr>) }
           | _ \<Rightarrow> None) }) }"

text \<open>\<open>dummy\<close> is at index \<open>d\<close> of \<open>stack\<close>.\<close>

definition save_stack :: "int \<Rightarrow> (nat \<Rightarrow> byte) \<Rightarrow> 'r coroutine \<Rightarrow> 'r coroutine option" where
  "save_stack d m c = do {
     let n = int STACK_SIZE - d;
     require (n \<le> int STACK_SIZE \<and> 0 \<le> n);
     let c = (if ccap c < n then c\<lparr>ccap := n, cstack := Some (replicate (nat n) 0)\<rparr> else c);
     let c = c\<lparr>csize := n\<rparr>;
     bs \<leftarrow> cstack c;
     require (n \<le> int (length bs));
     Some (c\<lparr>cstack := Some (map m [nat d..<STACK_SIZE] @ drop (nat n) bs)\<rparr>) }"

text \<open>The local \<open>C\<close> is at index \<open>ca\<close>; \<open>r\<close> are the registers \<open>swapcontext\<close> saves.\<close>

definition coroutine_yield :: "int \<Rightarrow> int \<Rightarrow> 'r \<Rightarrow> 'r schedule \<Rightarrow> 'r schedule option" where
  "coroutine_yield ca d r s = do {
     let cid = srunning s;
     require (0 \<le> cid \<and> cid < int (length (sco s)));
     p \<leftarrow> sco s ! nat cid;
     require (ca > 0);
     c \<leftarrow> cors s p;
     c \<leftarrow> save_stack d (stk s) c;
     m \<leftarrow> smain s;
     Some (s\<lparr>cors := (cors s)(p \<mapsto> c\<lparr>cstatus := COROUTINE_SUSPEND, ctx := Some r\<rparr>), srunning := - 1, cpu := m\<rparr>) }"

definition coroutine_status :: "int \<Rightarrow> 'r schedule \<Rightarrow> costatus option" where
  "coroutine_status cid s = do {
     require (0 \<le> cid \<and> cid < scap s);
     require (cid < int (length (sco s)));
     (case sco s ! nat cid of None \<Rightarrow> Some COROUTINE_DEAD | Some p \<Rightarrow> map_option cstatus (cors s p)) }"

definition coroutine_running :: "'r schedule \<Rightarrow> int" where
  "coroutine_running s = srunning s"

section \<open>Runs\<close>

text \<open>What the program does between two calls: it creates, resumes, yields, ends a coroutine, or computes.\<close>

datatype act = New | Resume int | Yield | Finish | Work

inductive sched_step :: "('r \<Rightarrow> u32 \<Rightarrow> u32 \<Rightarrow> 'r) \<Rightarrow> u64 \<Rightarrow> act \<Rightarrow> 'r schedule \<Rightarrow> 'r schedule \<Rightarrow> bool"
  for mk sp where
  new: "coroutine_new f u s = Some (cid, t) \<Longrightarrow> sched_step mk sp New s t"
| resume: "coroutine_resume mk sp r cid s = Some t \<Longrightarrow> sched_step mk sp (Resume cid) s t"
| yield: "coroutine_yield ca d r s = Some t \<Longrightarrow> d < int STACK_SIZE \<Longrightarrow> sched_step mk sp Yield s t"
| finish: "mainfunc_start s = Some (cid, p, f, u) \<Longrightarrow> mainfunc_end cid p s = Some t \<Longrightarrow> sched_step mk sp Finish s t"
| work: "sched_step mk sp Work s (s\<lparr>stk := m, cpu := r\<rparr>)"

inductive_cases sched_stepE: "sched_step mk sp a s t"

inductive sched_run :: "('r \<Rightarrow> u32 \<Rightarrow> u32 \<Rightarrow> 'r) \<Rightarrow> u64 \<Rightarrow> act list \<Rightarrow> 'r schedule \<Rightarrow> 'r schedule \<Rightarrow> bool"
  for mk sp where
  start: "sched_run mk sp [] s s"
| more: "sched_run mk sp as s t \<Longrightarrow> sched_step mk sp a t u \<Longrightarrow> sched_run mk sp (as @ [a]) s u"

section \<open>The invariant\<close>

text \<open>A coroutine, and whether it is the running one.\<close>

definition cor_ok :: "bool \<Rightarrow> 'r coroutine \<Rightarrow> bool" where
  "cor_ok run c \<longleftrightarrow> (run \<longleftrightarrow> cstatus c = COROUTINE_RUNNING) \<and> cstatus c \<noteq> COROUTINE_DEAD \<and>
     0 \<le> csize c \<and> csize c \<le> ccap c \<and> ccap c \<le> int STACK_SIZE \<and>
     (case cstack c of None \<Rightarrow> ccap c = 0 | Some bs \<Rightarrow> int (length bs) = ccap c) \<and>
     (cstatus c = COROUTINE_SUSPEND \<longrightarrow> ctx c \<noteq> None \<and> cstack c \<noteq> None)"

definition sched_inv :: "'r schedule \<Rightarrow> bool" where
  "sched_inv s \<longleftrightarrow> scap s = int (length (sco s)) \<and> 0 < length (sco s) \<and>
     nco s = int (length (filter (\<lambda>x. x \<noteq> None) (sco s))) \<and>
     (\<forall>p. Some p \<in> set (sco s) \<longleftrightarrow> cors s p \<noteq> None) \<and> (\<forall>p. cors s p \<noteq> None \<longrightarrow> p < sbrk s) \<and>
     (\<forall>i j. i < length (sco s) \<longrightarrow> j < length (sco s) \<longrightarrow> sco s ! i \<noteq> None \<longrightarrow> sco s ! i = sco s ! j \<longrightarrow> i = j) \<and>
     (\<forall>i p c. i < length (sco s) \<longrightarrow> sco s ! i = Some p \<longrightarrow> cors s p = Some c \<longrightarrow> cor_ok (srunning s = int i) c) \<and>
     (srunning s = - 1 \<or> 0 \<le> srunning s \<and> srunning s < scap s \<and> sco s ! nat (srunning s) \<noteq> None \<and> smain s \<noteq> None)"

lemma open_inv: "sched_inv (coroutine_open m r)"
  by (simp add: sched_inv_def coroutine_open_def)

text \<open>The number of entries in use.\<close>

lemma count_update:
  assumes "i < length xs"
  shows "length (filter (\<lambda>x. x \<noteq> None) (xs[i := y])) + (if xs ! i = None then 0 else 1) =
    length (filter (\<lambda>x. x \<noteq> None) xs) + (if y = None then 0 else 1)"
proof -
  let ?P = "\<lambda>x. x \<noteq> None"
  have xs: "filter ?P xs = filter ?P (take i xs) @ filter ?P [xs ! i] @ filter ?P (drop (Suc i) xs)"
    using assms by (metis append_Cons append_Nil filter_append id_take_nth_drop)
  have ys: "filter ?P (xs[i := y]) = filter ?P (take i xs) @ filter ?P [y] @ filter ?P (drop (Suc i) xs)"
    using assms by (metis append_Cons append_Nil filter_append upd_conv_take_nth_drop)
  show ?thesis unfolding xs ys by simp
qed

lemma inv_slot:
  assumes "sched_inv s" "i < length (sco s)" "sco s ! i = Some p"
  obtains c where "cors s p = Some c" "cor_ok (srunning s = int i) c"
  using assms unfolding sched_inv_def by (metis nth_mem not_None_eq)

text \<open>One coroutine changes, becoming the running one or ceasing to be it.\<close>

lemma inv_update:
  assumes inv: "sched_inv s" and i: "i < length (sco s)" "sco s ! i = Some p"
    and t: "sco t = sco s" "scap t = scap s" "nco t = nco s" "sbrk t = sbrk s" "cors t = (cors s)(p \<mapsto> c)"
    and c: "cor_ok (srunning t = int i) c"
    and run: "srunning s = - 1 \<and> srunning t = int i \<and> smain t \<noteq> None \<or> srunning s = int i \<and> srunning t = - 1"
  shows "sched_inv t"
proof -
  have p: "cors s p \<noteq> None" "p < sbrk s" using inv i unfolding sched_inv_def by (metis nth_mem)+
  have other: "sco s ! j \<noteq> Some p" if "j < length (sco s)" "j \<noteq> i" for j
    using inv i that unfolding sched_inv_def by (metis option.distinct(1))
  have cors: "cor_ok (srunning t = int j) c'" if "j < length (sco s)" "sco s ! j = Some p'" "cors t p' = Some c'" for j p' c'
  proof (cases "j = i")
    case True
    with that i t(5) c show ?thesis by simp
  next
    case False
    then have "p' \<noteq> p" using other [OF that(1)] that(2) by auto
    then have "cors s p' = Some c'" using that(3) t(5) by simp
    then have "cor_ok (srunning s = int j) c'" using inv that unfolding sched_inv_def by blast
    moreover have "(srunning s = int j) = (srunning t = int j)" using run False by auto
    ultimately show ?thesis by simp
  qed
  have "srunning t = - 1 \<or> 0 \<le> srunning t \<and> srunning t < scap t \<and> sco t ! nat (srunning t) \<noteq> None \<and> smain t \<noteq> None"
    using run i t inv by (auto simp: sched_inv_def)
  with inv t p cors show ?thesis
    unfolding sched_inv_def by (auto split: if_splits)
qed

lemma inv_running:
  assumes "sched_inv s" "0 \<le> srunning s"
  obtains i p c where "srunning s = int i" "i < length (sco s)" "sco s ! i = Some p" "cors s p = Some c"
    "cstatus c = COROUTINE_RUNNING" "cor_ok True c" "smain s \<noteq> None"
proof -
  have r: "srunning s < scap s" "sco s ! nat (srunning s) \<noteq> None" "smain s \<noteq> None" "scap s = int (length (sco s))"
    using assms unfolding sched_inv_def by auto
  then obtain p where p: "sco s ! nat (srunning s) = Some p" by auto
  have i: "nat (srunning s) < length (sco s)" using r assms(2) by simp
  obtain c where "cors s p = Some c" "cor_ok (srunning s = int (nat (srunning s))) c"
    using inv_slot [OF assms(1) i p] .
  with that [of "nat (srunning s)" p c] assms(2) i p r(3) show ?thesis by (simp add: cor_ok_def)
qed

section \<open>The operations keep the invariant\<close>

lemma save_stack_ok:
  assumes "save_stack d m c = Some c'" "cor_ok True c" "d < int STACK_SIZE"
  shows "0 \<le> d" "csize c' = int STACK_SIZE - d" "ctx c' = ctx c" "cor_ok False (c'\<lparr>cstatus := COROUTINE_SUSPEND, ctx := Some r\<rparr>)"
    "\<exists>bs. cstack c' = Some (map m [nat d..<STACK_SIZE] @ bs)"
  using assms by (auto simp: save_stack_def cor_ok_def Let_def bind_eq_Some_conv split: if_splits option.splits)

lemma yield_step:
  assumes "sched_inv s" "coroutine_yield ca d r s = Some t" "d < int STACK_SIZE"
  obtains i p c c' where "srunning s = int i" "i < length (sco s)" "sco s ! i = Some p" "cors s p = Some c"
    "save_stack d (stk s) c = Some c'" "cor_ok True c"
    "t = s\<lparr>cors := (cors s)(p \<mapsto> c'\<lparr>cstatus := COROUTINE_SUSPEND, ctx := Some r\<rparr>), srunning := - 1, cpu := the (smain s)\<rparr>"
proof -
  have "0 \<le> srunning s" using assms(2) by (auto simp: coroutine_yield_def Let_def split: if_splits)
  from inv_running [OF assms(1) this] obtain i p c where ipc: "srunning s = int i" "i < length (sco s)"
    "sco s ! i = Some p" "cors s p = Some c" "cstatus c = COROUTINE_RUNNING" "cor_ok True c" "smain s \<noteq> None" .
  then obtain c' where "save_stack d (stk s) c = Some c'"
    "t = s\<lparr>cors := (cors s)(p \<mapsto> c'\<lparr>cstatus := COROUTINE_SUSPEND, ctx := Some r\<rparr>), srunning := - 1, cpu := the (smain s)\<rparr>"
    using assms(2) by (auto simp: coroutine_yield_def Let_def bind_eq_Some_conv split: if_splits)
  with that ipc show ?thesis by blast
qed

lemma yield_inv:
  assumes "sched_inv s" "coroutine_yield ca d r s = Some t" "d < int STACK_SIZE"
  shows "sched_inv t"
proof -
  from yield_step [OF assms] obtain i p c c' where y: "srunning s = int i" "i < length (sco s)" "sco s ! i = Some p"
    "save_stack d (stk s) c = Some c'" "cor_ok True c"
    "t = s\<lparr>cors := (cors s)(p \<mapsto> c'\<lparr>cstatus := COROUTINE_SUSPEND, ctx := Some r\<rparr>), srunning := - 1, cpu := the (smain s)\<rparr>" .
  show ?thesis
    by (rule inv_update [OF assms(1) y(2,3)]) (use y save_stack_ok(4) [OF y(4,5) assms(3)] in simp_all)
qed

lemma resume_inv:
  assumes inv: "sched_inv s" and run: "coroutine_resume mk sp r cid s = Some t"
  shows "sched_inv t"
proof -
  have cid: "srunning s = - 1" "0 \<le> cid" "nat cid < length (sco s)"
    using run by (auto simp: coroutine_resume_def split: if_splits)
  show ?thesis
  proof (cases "sco s ! nat cid")
    case None
    with run inv show ?thesis by (auto simp: coroutine_resume_def split: if_splits)
  next
    case (Some p)
    from inv_slot [OF inv cid(3) Some] obtain c where c: "cors s p = Some c" "cor_ok (srunning s = int (nat cid)) c" .
    show ?thesis
    proof (cases "cstatus c")
      case COROUTINE_READY
      then obtain x where t: "t = s\<lparr>srunning := cid, cors := (cors s)(p \<mapsto> c\<lparr>cstatus := COROUTINE_RUNNING, ctx := Some x\<rparr>),
          smain := Some r, cpu := x\<rparr>"
        using run Some c by (auto simp: coroutine_resume_def Let_def split: if_splits prod.splits)
      show ?thesis
        by (rule inv_update [OF inv cid(3) Some]) (use t c(2) cid COROUTINE_READY in \<open>auto simp: cor_ok_def split: option.splits\<close>)
    next
      case COROUTINE_SUSPEND
      then obtain m x where t: "t = s\<lparr>stk := m, srunning := cid, cors := (cors s)(p \<mapsto> c\<lparr>cstatus := COROUTINE_RUNNING\<rparr>),
          smain := Some r, cpu := x\<rparr>"
        using run Some c by (auto simp: coroutine_resume_def Let_def bind_eq_Some_conv split: if_splits)
      show ?thesis
        by (rule inv_update [OF inv cid(3) Some]) (use t c(2) cid COROUTINE_SUSPEND in \<open>auto simp: cor_ok_def split: option.splits\<close>)
    qed (use run Some c in \<open>auto simp: coroutine_resume_def split: if_splits\<close>)
  qed
qed


text \<open>A new coroutine at a free place of an array that may have grown.\<close>

lemma inv_place:
  assumes inv: "sched_inv s" and xs: "xs = sco s @ replicate n None" and i: "i < length xs" "xs ! i = None"
    and t: "sco t = xs[i := Some (sbrk s)]" "scap t = int (length xs)" "nco t = nco s + 1" "sbrk t = sbrk s + 1"
      "srunning t = srunning s" "smain t = smain s"
    and c: "cors t = (cors s)(sbrk s \<mapsto> c)" "cor_ok False c"
  shows "sched_inv t"
proof -
  let ?P = "\<lambda>x :: ptr. x \<noteq> None"
  have fresh: "cors s (sbrk s) = None" using inv unfolding sched_inv_def by (metis less_irrefl)
  then have notin: "Some (sbrk s) \<notin> set xs" using inv xs unfolding sched_inv_def by auto
  have old: "xs ! j = (if j < length (sco s) then sco s ! j else None)" if "j < length xs" for j
    using that xs by (simp add: nth_append)
  have "length (filter ?P xs) = length (filter ?P (sco s))" by (simp add: xs)
  then have count: "nco t = int (length (filter ?P (sco t)))"
    using count_update [OF i(1), of "Some (sbrk s)"] i(2) inv t by (simp add: sched_inv_def)
  have elems: "Some p \<in> set (sco t) \<longleftrightarrow> cors t p \<noteq> None" for p
  proof -
    have "set (xs[i := Some (sbrk s)]) - {None} = insert (Some (sbrk s)) (set xs) - {None}"
    proof -
      have "xs = take i xs @ None # drop (Suc i) xs" using i by (metis id_take_nth_drop)
      then have "set xs = insert None (set (take i xs) \<union> set (drop (Suc i) xs))"
        by (metis Un_insert_right list.set(2) set_append)
      moreover have "set (xs[i := Some (sbrk s)]) = insert (Some (sbrk s)) (set (take i xs) \<union> set (drop (Suc i) xs))"
        using i(1) by (simp add: upd_conv_take_nth_drop)
      ultimately show ?thesis by auto
    qed
    then have "Some p \<in> set (sco t) \<longleftrightarrow> p = sbrk s \<or> Some p \<in> set xs" unfolding t by blast
    also have "Some p \<in> set xs \<longleftrightarrow> Some p \<in> set (sco s)" by (auto simp: xs)
    also have "Some p \<in> set (sco s) \<longleftrightarrow> cors s p \<noteq> None" using inv by (simp add: sched_inv_def)
    finally show ?thesis using c(1) by auto
  qed
  have below: "p < sbrk t" if "cors t p \<noteq> None" for p
    using that inv c(1) t(4) by (auto simp: sched_inv_def less_Suc_eq split: if_splits)
  have inj: "j = k" if jk: "j < length (sco t)" "k < length (sco t)" "sco t ! j \<noteq> None" "sco t ! j = sco t ! k" for j k
  proof -
    have other: "sco t ! m = xs ! m \<and> xs ! m \<noteq> Some (sbrk s)" if "m < length (sco t)" "m \<noteq> i" for m
      using that t(1) notin by (metis length_list_update nth_list_update_neq nth_mem)
    have at_i: "sco t ! i = Some (sbrk s)" using t(1) i(1) by simp
    show ?thesis
    proof (cases "j = i \<or> k = i")
      case True
      with other at_i jk show ?thesis by metis
    next
      case False
      then have "xs ! j \<noteq> None" "xs ! j = xs ! k" using other jk by auto
      moreover have "j < length xs" "k < length xs" using jk t(1) by simp_all
      ultimately show ?thesis using old inv unfolding sched_inv_def by (metis (full_types))
    qed
  qed
  have cors: "cor_ok (srunning t = int j) c'" if j: "j < length (sco t)" "sco t ! j = Some p" "cors t p = Some c'" for j p c'
  proof (cases "j = i")
    case True
    then have "c' = c" using j t(1) c(1) i(1) by simp
    moreover have "srunning s \<noteq> int i"
    proof
      assume "srunning s = int i"
      then have "i < length (sco s)" "sco s ! i \<noteq> None" using inv by (auto simp: sched_inv_def)
      with i old show False by simp
    qed
    ultimately show ?thesis using c(2) True t(5) by simp
  next
    case False
    then have x: "xs ! j = Some p" "j < length xs" using j t(1) by simp_all
    then have "j < length (sco s)" "sco s ! j = Some p" using old by (auto split: if_splits)
    moreover have "p \<noteq> sbrk s" using x notin nth_mem [OF x(2)] by auto
    then have "cors s p = Some c'" using j(3) c(1) by simp
    ultimately show ?thesis using inv t(5) unfolding sched_inv_def by simp
  qed
  have run: "srunning t = - 1 \<or> 0 \<le> srunning t \<and> srunning t < scap t \<and> sco t ! nat (srunning t) \<noteq> None \<and> smain t \<noteq> None"
  proof (cases "srunning s = - 1")
    case False
    then have r: "0 \<le> srunning s" "srunning s < scap s" "sco s ! nat (srunning s) \<noteq> None" "smain s \<noteq> None"
      "scap s = int (length (sco s))" using inv unfolding sched_inv_def by auto
    have "nat (srunning s) \<noteq> i \<and> xs ! nat (srunning s) = sco s ! nat (srunning s) \<and> int (length (sco s)) \<le> int (length xs)"
      using r i old [of "nat (srunning s)"] xs by auto
    with r t show ?thesis by simp
  qed (use t in simp)
  have len: "scap t = int (length (sco t))" "0 < length (sco t)" using t i(1) by auto
  show ?thesis
    unfolding sched_inv_def using len count elems below inj cors run by blast
qed


text \<open>When there is room, the search finds a place.\<close>

lemma free_slot_ok:
  assumes "scap s = int (length (sco s))" "0 < length (sco s)"
    and "0 \<le> nco s" "nco s < scap s" "nco s = int (length (filter (\<lambda>x. x \<noteq> None) (sco s)))"
  obtains i where "free_slot s = Some i" "i < length (sco s)" "sco s ! i = None"
proof -
  let ?n = "length (sco s)"
  define k where "k = nat (nco s)"
  have idx: "nat ((int i + nco s) smod scap s) = (i + k) mod ?n" for i
    using assms(1-3) by (simp add: smod_nonneg_eq_mod k_def nat_mod_distrib nat_add_distrib)
  have "\<exists>j<?n. sco s ! j = None"
  proof (rule ccontr)
    assume "\<not> (\<exists>j<?n. sco s ! j = None)"
    then have "filter (\<lambda>x. x \<noteq> None) (sco s) = sco s" by (intro filter_True) (auto simp: in_set_conv_nth)
    with assms(1,4,5) show False by simp
  qed
  then obtain j where j: "j < ?n" "sco s ! j = None" by blast
  have kn: "k < ?n" using assms(1,3,4) by (simp add: k_def)
  define i where "i = (if k \<le> j then j - k else j + ?n - k)"
  have "i < ?n" using j(1) kn by (auto simp: i_def)
  moreover have "(i + k) mod ?n = j"
    using j(1) kn by (cases "k \<le> j") (auto simp: i_def)
  ultimately have "\<exists>i<?n. sco s ! ((i + k) mod ?n) = None" using j(2) by auto
  then have "find (\<lambda>i. sco s ! ((i + k) mod ?n) = None) [0..<?n] \<noteq> None"
    by (auto simp: find_None_iff)
  then obtain m where m: "find (\<lambda>i. sco s ! ((i + k) mod ?n) = None) [0..<?n] = Some m" by auto
  then have "sco s ! ((m + k) mod ?n) = None" by (auto simp: find_Some_iff)
  moreover have "free_slot s = Some ((m + k) mod ?n)"
    unfolding free_slot_def idx using m assms(1) by simp
  ultimately show ?thesis using that [of "(m + k) mod ?n"] assms(2) by simp
qed

lemma new_ok:
  assumes inv: "sched_inv s" and small: "scap s < 2 ^ 30"
  shows "\<exists>i t. coroutine_new f u s = Some (int i, t) \<and> sched_inv t \<and> (i < length (sco s) \<longrightarrow> sco s ! i = None) \<and>
    i < length (sco t) \<and> sco t ! i = Some (sbrk s) \<and>
    (\<forall>j<length (sco s). j \<noteq> i \<longrightarrow> sco t ! j = sco s ! j) \<and> length (sco s) \<le> length (sco t) \<and>
    cors t = (cors s)(sbrk s \<mapsto> \<lparr>func = f, ud = u, ctx = None, ccap = 0, csize = 0, cstatus = COROUTINE_READY, cstack = None\<rparr>) \<and>
    srunning t = srunning s \<and> stk t = stk s \<and> cpu t = cpu s \<and> smain t = smain s"
proof -
  let ?c = "\<lparr>func = f, ud = u, ctx = None, ccap = 0, csize = 0, cstatus = COROUTINE_READY, cstack = None\<rparr>"
  have c: "cor_ok False ?c" by (simp add: cor_ok_def)
  have len: "scap s = int (length (sco s))" "0 < length (sco s)"
    and count: "nco s = int (length (filter (\<lambda>x. x \<noteq> None) (sco s)))" using inv by (simp_all add: sched_inv_def)
  let ?s = "s\<lparr>sbrk := sbrk s + 1, cors := (cors s)(sbrk s \<mapsto> ?c)\<rparr>"
  show ?thesis
  proof (cases "scap s \<le> nco s")
    case True
    let ?n = "length (sco s)"
    let ?xs = "sco s @ replicate ?n None"
    let ?t = "?s\<lparr>sco := ?xs[?n := Some (sbrk s)], scap := scap s * 2, nco := nco s + 1\<rparr>"
    have "coroutine_new f u s = Some (int ?n, ?t)"
      using True len small by (simp add: coroutine_new_def co_new_def Let_def in_s32_def)
    moreover have "sched_inv ?t"
      by (rule inv_place [OF inv refl, of ?n]) (use len c in \<open>simp_all add: nth_append\<close>)
    ultimately show ?thesis using len by (intro exI [of _ ?n] exI [of _ ?t]) (simp add: nth_append)
  next
    case False
    have "scap ?s = int (length (sco ?s))" "0 < length (sco ?s)" "0 \<le> nco ?s" "nco ?s < scap ?s"
      "nco ?s = int (length (filter (\<lambda>x. x \<noteq> None) (sco ?s)))"
      using False len count by simp_all
    from free_slot_ok [OF this] obtain i where i: "free_slot ?s = Some i" "i < length (sco s)" "sco s ! i = None"
      by auto
    let ?t = "?s\<lparr>sco := (sco s)[i := Some (sbrk s)], nco := nco s + 1\<rparr>"
    have "coroutine_new f u s = Some (int i, ?t)"
      using False i by (simp add: coroutine_new_def co_new_def Let_def)
    moreover have "sched_inv ?t"
      by (rule inv_place [OF inv, of "sco s" 0 i]) (use len c i in simp_all)
    ultimately show ?thesis using i by (intro exI [of _ i] exI [of _ ?t]) simp
  qed
qed

lemma new_inv:
  assumes "sched_inv s" "coroutine_new f u s = Some (cid, t)"
  shows "sched_inv t"
proof (cases "scap s < 2 ^ 30")
  case True
  from new_ok [OF assms(1) this, of f u] assms(2) show ?thesis by auto
next
  case False
  let ?c = "\<lparr>func = f, ud = u, ctx = None, ccap = 0, csize = 0, cstatus = COROUTINE_READY, cstack = None\<rparr>"
  let ?s = "s\<lparr>sbrk := sbrk s + 1, cors := (cors s)(sbrk s \<mapsto> ?c)\<rparr>"
  have len: "scap s = int (length (sco s))" "0 < length (sco s)" "0 \<le> nco s"
    and count: "nco s = int (length (filter (\<lambda>x. x \<noteq> None) (sco s)))" using assms(1) by (simp_all add: sched_inv_def)
  have room: "nco s < scap s"
    using assms(2) False by (auto simp: coroutine_new_def co_new_def Let_def in_s32_def split: if_splits)
  have "scap ?s = int (length (sco ?s))" "0 < length (sco ?s)" "0 \<le> nco ?s" "nco ?s < scap ?s"
    "nco ?s = int (length (filter (\<lambda>x. x \<noteq> None) (sco ?s)))"
    using room len count by simp_all
  from free_slot_ok [OF this] obtain i where i: "free_slot ?s = Some i" "i < length (sco s)" "sco s ! i = None"
    by auto
  then have "t = ?s\<lparr>sco := (sco s)[i := Some (sbrk s)], nco := nco s + 1\<rparr>"
    using room assms(2) by (simp add: coroutine_new_def co_new_def Let_def)
  then show ?thesis
    using inv_place [OF assms(1), of "sco s" 0 i t ?c] i len by (simp add: cor_ok_def)
qed


lemma finish_step:
  assumes inv: "sched_inv s" and "mainfunc_start s = Some (cid, p, f, u)" "mainfunc_end cid p s = Some t"
  obtains i c where "srunning s = int i" "cid = int i" "i < length (sco s)" "sco s ! i = Some p" "cors s p = Some c"
    "t = s\<lparr>cors := (cors s)(p := None), sco := (sco s)[i := None], nco := nco s - 1, srunning := - 1, cpu := the (smain s)\<rparr>"
proof -
  have "0 \<le> srunning s" using assms(2) by (auto simp: mainfunc_start_def Let_def split: if_splits)
  from inv_running [OF inv this] obtain i q c where q: "srunning s = int i" "i < length (sco s)" "sco s ! i = Some q"
    "cors s q = Some c" "smain s \<noteq> None" by metis
  have "cid = int i" "p = q"
    using assms(2) q by (auto simp: mainfunc_start_def Let_def bind_eq_Some_conv split: if_splits)
  with that q assms(3) show ?thesis
    by (auto simp: mainfunc_end_def co_delete_def bind_eq_Some_conv split: if_splits)
qed

lemma finish_inv:
  assumes inv: "sched_inv s" and "mainfunc_start s = Some (cid, p, f, u)" "mainfunc_end cid p s = Some t"
  shows "sched_inv t"
proof -
  from finish_step [OF assms] obtain i c where i: "srunning s = int i" "i < length (sco s)" "sco s ! i = Some p"
    "cors s p = Some c"
    and t: "t = s\<lparr>cors := (cors s)(p := None), sco := (sco s)[i := None], nco := nco s - 1, srunning := - 1,
        cpu := the (smain s)\<rparr>" .
  have other: "sco s ! j \<noteq> Some p" if "j < length (sco s)" "j \<noteq> i" for j
    using inv i that unfolding sched_inv_def by (metis option.distinct(1))
  have count: "nco t = int (length (filter (\<lambda>x. x \<noteq> None) (sco t)))"
    using count_update [OF i(2), of None] i(3) inv t by (simp add: sched_inv_def)
  have elems: "Some q \<in> set (sco t) \<longleftrightarrow> cors t q \<noteq> None" for q
  proof -
    have "Some q \<in> set ((sco s)[i := None]) \<longleftrightarrow> q \<noteq> p \<and> Some q \<in> set (sco s)"
    proof
      assume "Some q \<in> set ((sco s)[i := None])"
      then obtain j where j: "j < length (sco s)" "(sco s)[i := None] ! j = Some q" by (auto simp: in_set_conv_nth)
      then have "j \<noteq> i" by (cases "j = i") (auto simp: i)
      with j other show "q \<noteq> p \<and> Some q \<in> set (sco s)" by (metis nth_list_update_neq nth_mem)
    next
      assume q: "q \<noteq> p \<and> Some q \<in> set (sco s)"
      then obtain j where "j < length (sco s)" "sco s ! j = Some q" by (auto simp: in_set_conv_nth)
      with q i show "Some q \<in> set ((sco s)[i := None])"
        by (metis length_list_update nth_list_update_neq nth_mem option.inject)
    qed
    then show ?thesis using inv t by (simp add: sched_inv_def)
  qed
  have rest: "cor_ok (srunning t = int j) c'" if "j < length (sco t)" "sco t ! j = Some q" "cors t q = Some c'" for j q c'
  proof -
    have "j \<noteq> i" using that t i by (cases "j = i") auto
    then have "sco s ! j = Some q" "j < length (sco s)" "cors s q = Some c'" using that t by (auto split: if_splits)
    then have "cor_ok (srunning s = int j) c'" using inv unfolding sched_inv_def by blast
    with \<open>j \<noteq> i\<close> i t show ?thesis by simp
  qed
  have inj: "j = k" if "j < length (sco t)" "k < length (sco t)" "sco t ! j \<noteq> None" "sco t ! j = sco t ! k" for j k
  proof -
    have "j \<noteq> i" "k \<noteq> i" using that t i by auto
    then have "sco s ! j \<noteq> None" "sco s ! j = sco s ! k" "j < length (sco s)" "k < length (sco s)"
      using that t by auto
    with inv show ?thesis unfolding sched_inv_def by blast
  qed
  have below: "q < sbrk t" if "cors t q \<noteq> None" for q
    using that inv t by (auto simp: sched_inv_def split: if_splits)
  have len: "scap t = int (length (sco t))" "0 < length (sco t)" "srunning t = - 1"
    using inv t by (simp_all add: sched_inv_def)
  show ?thesis
    unfolding sched_inv_def using len count elems below inj rest by blast
qed

lemma work_inv: "sched_inv (s\<lparr>stk := m, cpu := r\<rparr>) = sched_inv s"
  by (simp add: sched_inv_def)

lemma sched_step_inv:
  assumes "sched_step mk sp a s t" "sched_inv s"
  shows "sched_inv t"
  using assms
proof (induction rule: sched_step.induct)
  case (new f u s cid t)
  then show ?case by (blast intro: new_inv)
next
  case (resume r cid s t)
  then show ?case by (blast intro: resume_inv)
next
  case (yield ca d r s t)
  then show ?case by (blast intro: yield_inv)
next
  case (finish s cid p f u t)
  then show ?case by (blast intro: finish_inv)
next
  case (work s m r)
  then show ?case by (simp only: work_inv)
qed

lemma sched_run_inv:
  assumes "sched_run mk sp as s t" "sched_inv s"
  shows "sched_inv t"
  using assms by (induction rule: sched_run.induct) (auto dest: sched_step_inv)

section \<open>A suspended coroutine\<close>

lemma new_keeps:
  assumes "coroutine_new f u s = Some (cid, t)" "i < length (sco s)" "sco s ! i = Some p" "scap s = int (length (sco s))"
  shows "i < length (sco t) \<and> sco t ! i = Some p"
proof (cases "scap s \<le> nco s")
  case True
  then show ?thesis
    using assms by (auto simp: coroutine_new_def co_new_def Let_def nth_append nth_list_update split: if_splits)
next
  case False
  let ?s = "snd (co_new f u s)"
  obtain k where k: "free_slot ?s = Some k" "t = ?s\<lparr>sco := (sco s)[k := Some (sbrk s)], nco := nco s + 1\<rparr>"
    using assms(1) False by (auto simp: coroutine_new_def co_new_def Let_def split: option.splits)
  have "sco ?s ! k = None"
    using k(1) unfolding free_slot_def by (auto simp: find_Some_iff)
  then have "k \<noteq> i" using assms(3) by (auto simp: co_new_def)
  with k(2) assms show ?thesis by (simp add: co_new_def)
qed

text \<open>Only its own resume touches a suspended coroutine.\<close>

definition suspended_as :: "nat \<Rightarrow> addr \<Rightarrow> 'r coroutine \<Rightarrow> 'r schedule \<Rightarrow> bool" where
  "suspended_as i p c s \<longleftrightarrow> sched_inv s \<and> i < length (sco s) \<and> sco s ! i = Some p \<and> cors s p = Some c \<and>
     cstatus c = COROUTINE_SUSPEND"

lemma suspended_other:
  assumes "suspended_as i p c s" "j < length (sco s)" "sco s ! j = Some q" "j \<noteq> i"
  shows "q \<noteq> p"
  using assms unfolding suspended_as_def sched_inv_def by (metis option.distinct(1))

lemma suspended_not_running:
  assumes "suspended_as i p c s"
  shows "srunning s \<noteq> int i"
proof
  assume r: "srunning s = int i"
  have "cor_ok (srunning s = int i) c" using assms unfolding suspended_as_def sched_inv_def by blast
  with r assms show False by (simp add: cor_ok_def suspended_as_def)
qed

lemma suspended_step:
  assumes step: "sched_step mk sp a s t" and sus: "suspended_as i p c s" and a: "a \<noteq> Resume (int i)"
  shows "suspended_as i p c t"
proof -
  have inv: "sched_inv s" and i: "i < length (sco s)" "sco s ! i = Some p" "cors s p = Some c"
    using sus by (simp_all add: suspended_as_def)
  have inv': "sched_inv t" using sched_step_inv [OF step inv] .
  have "i < length (sco t) \<and> sco t ! i = Some p \<and> cors t p = Some c"
    using step
  proof cases
    case (new f u cid)
    have p: "p < sbrk s" using inv i(3) by (simp add: sched_inv_def)
    from new(2) have "cors t = (cors s)(sbrk s \<mapsto> \<lparr>func = f, ud = u, ctx = None, ccap = 0, csize = 0,
        cstatus = COROUTINE_READY, cstack = None\<rparr>)"
      by (auto simp: coroutine_new_def co_new_def Let_def split: if_splits option.splits)
    moreover have "i < length (sco t) \<and> sco t ! i = Some p"
      using new_keeps [OF new(2) i(1,2)] inv by (simp add: sched_inv_def)
    ultimately show ?thesis using i(3) p by simp
  next
    case (resume r cid)
    have cid: "nat cid < length (sco s)" "nat cid \<noteq> i"
      using resume a by (auto simp: coroutine_resume_def split: if_splits)
    show ?thesis
    proof (cases "sco s ! nat cid")
      case None
      with resume i show ?thesis by (auto simp: coroutine_resume_def split: if_splits)
    next
      case (Some q)
      then have "q \<noteq> p" using suspended_other [OF sus cid(1)] cid(2) by blast
      moreover obtain y where y: "cors s q = Some y"
        using resume Some by (auto simp: coroutine_resume_def bind_eq_Some_conv split: if_splits)
      ultimately show ?thesis
        using resume Some i
        by (cases "cstatus y") (auto simp: coroutine_resume_def ptr_halves_def Let_def bind_eq_Some_conv split: if_splits)
    qed
  next
    case (yield ca d r)
    from yield_step [OF inv yield(2,3)] obtain j q c1 c2 where y: "srunning s = int j" "j < length (sco s)"
      "sco s ! j = Some q"
      "t = s\<lparr>cors := (cors s)(q \<mapsto> c2\<lparr>cstatus := COROUTINE_SUSPEND, ctx := Some r\<rparr>), srunning := - 1, cpu := the (smain s)\<rparr>"
      by metis
    then have "q \<noteq> p" using suspended_other [OF sus y(2,3)] suspended_not_running [OF sus] by auto
    with y i show ?thesis by simp
  next
    case (finish cid q f u)
    from finish_step [OF inv finish(2,3)] obtain j c1 where y: "srunning s = int j" "j < length (sco s)" "sco s ! j = Some q"
      "t = s\<lparr>cors := (cors s)(q := None), sco := (sco s)[j := None], nco := nco s - 1, srunning := - 1, cpu := the (smain s)\<rparr>"
      by metis
    then have "q \<noteq> p" "j \<noteq> i" using suspended_other [OF sus y(2,3)] suspended_not_running [OF sus] by auto
    with y i show ?thesis by simp
  next
    case (work m r)
    with i show ?thesis by simp
  qed
  with inv' sus show ?thesis by (simp add: suspended_as_def)
qed

lemma suspended_run:
  assumes "sched_run mk sp as s t" "suspended_as i p c s" "Resume (int i) \<notin> set as"
  shows "suspended_as i p c t"
  using assms by (induction rule: sched_run.induct) (auto dest: suspended_step)


section \<open>Closing\<close>

lemma close_loop:
  assumes inv: "sched_inv s" and "n \<le> length (sco s)"
  shows "\<exists>t. foldM (\<lambda>i s. case sco s ! i of None \<Rightarrow> Some s | Some p \<Rightarrow> co_delete p s) [0..<n] s = Some t \<and>
    sco t = sco s \<and> cors t = (\<lambda>p. if Some p \<in> set (take n (sco s)) then None else cors s p)"
  using assms(2)
proof (induction n)
  case 0
  then show ?case by simp
next
  case (Suc n)
  then obtain t where t: "foldM (\<lambda>i s. case sco s ! i of None \<Rightarrow> Some s | Some p \<Rightarrow> co_delete p s) [0..<n] s = Some t"
    "sco t = sco s" "cors t = (\<lambda>p. if Some p \<in> set (take n (sco s)) then None else cors s p)" by auto
  have n: "n < length (sco s)" using Suc.prems by simp
  have set: "set (take (Suc n) (sco s)) = insert (sco s ! n) (set (take n (sco s)))"
    using n by (simp add: take_Suc_conv_app_nth)
  show ?case
  proof (cases "sco s ! n")
    case None
    with t set show ?thesis by (intro exI [of _ t]) (simp add: foldM_append)
  next
    case (Some p)
    have "Some p \<notin> set (take n (sco s))"
    proof
      assume "Some p \<in> set (take n (sco s))"
      then obtain j where "j < n" "sco s ! j = Some p" by (auto simp: in_set_conv_nth)
      with inv n Some show False unfolding sched_inv_def by (metis less_trans nat_neq_iff option.distinct(1))
    qed
    moreover have "cors s p \<noteq> None" using inv n Some unfolding sched_inv_def by (metis nth_mem)
    ultimately obtain c where "cors t p = Some c" using t(3) by auto
    then have "co_delete p t = Some (t\<lparr>cors := (cors t)(p := None)\<rparr>)" by (simp add: co_delete_def)
    with t Some set show ?thesis
      by (intro exI [of _ "t\<lparr>cors := (cors t)(p := None)\<rparr>"]) (auto simp: foldM_append fun_eq_iff)
  qed
qed

lemma close_ok:
  assumes "sched_inv s"
  shows "coroutine_close s = Some Map.empty"
proof -
  have len: "scap s = int (length (sco s))" using assms by (simp add: sched_inv_def)
  from close_loop [OF assms order_refl] obtain t where
    t: "foldM (\<lambda>i s. case sco s ! i of None \<Rightarrow> Some s | Some p \<Rightarrow> co_delete p s) [0..<length (sco s)] s = Some t"
    "cors t = (\<lambda>p. if Some p \<in> set (sco s) then None else cors s p)" by auto
  have "cors t = Map.empty" using t(2) assms by (auto simp: sched_inv_def fun_eq_iff)
  with t(1) len show ?thesis by (simp add: coroutine_close_def)
qed

section \<open>Properties\<close>

text \<open>
  For the witnesses: coroutine 0 runs and coroutine 1 is new; the first yields, the second overwrites
  the stack with zeros and yields.
\<close>

definition demo_sched :: "nat schedule" where
  "demo_sched = \<lparr>stk = of_nat, smain = Some 0, nco = 2, scap = 2, srunning = 0, sco = [Some 5, Some 6],
     cors = [5 \<mapsto> \<lparr>func = 1, ud = 2, ctx = Some 3, ccap = 0, csize = 0, cstatus = COROUTINE_RUNNING, cstack = None\<rparr>,
       6 \<mapsto> \<lparr>func = 1, ud = 4, ctx = None, ccap = 0, csize = 0, cstatus = COROUTINE_READY, cstack = None\<rparr>],
     sbrk = 7, cpu = 3\<rparr>"

definition demo_sched1 :: "nat schedule" where
  "demo_sched1 = the (coroutine_yield 1048576 1048574 42 demo_sched)"

definition demo_sched2 :: "nat schedule" where
  "demo_sched2 = (the (coroutine_resume (\<lambda>_ _ _. 9) 0 0 1 demo_sched1))\<lparr>stk := (\<lambda>_. 0), cpu := 10\<rparr>"

definition demo_sched3 :: "nat schedule" where
  "demo_sched3 = the (coroutine_yield 1048576 1048575 43 demo_sched2)"

lemma demo_sched_inv: "sched_inv demo_sched"
  by (auto simp: sched_inv_def demo_sched_def cor_ok_def STACK_SIZE_def less_Suc_eq nth_Cons split: nat.splits if_splits)

lemma demo_yield: "coroutine_yield 1048576 1048574 42 demo_sched = Some demo_sched1"
  unfolding demo_sched1_def
  by (simp add: coroutine_yield_def demo_sched_def save_stack_def STACK_SIZE_def Let_def)

lemma demo_resume:
  "coroutine_resume (\<lambda>_ _ _. 9) 0 0 1 demo_sched1 = Some (the (coroutine_resume (\<lambda>_ _ _. 9) 0 0 1 demo_sched1))"
  unfolding demo_sched1_def
  by (simp add: coroutine_resume_def coroutine_yield_def demo_sched_def save_stack_def STACK_SIZE_def ptr_halves_def Let_def)

lemma demo_yield2: "coroutine_yield 1048576 1048575 43 demo_sched2 = Some demo_sched3"
  unfolding demo_sched3_def demo_sched2_def demo_sched1_def
  by (simp add: coroutine_resume_def coroutine_yield_def demo_sched_def save_stack_def STACK_SIZE_def ptr_halves_def Let_def)

lemma demo_sched_run: "sched_run (\<lambda>_ _ _. 9) 0 ((([] @ [Resume 1]) @ [Work]) @ [Yield]) demo_sched1 demo_sched3"
proof (intro sched_run.more)
  show "sched_run (\<lambda>_ _ _. 9) 0 [] demo_sched1 demo_sched1" by (rule sched_run.start)
  show "sched_step (\<lambda>_ _ _. 9) 0 (Resume 1) demo_sched1 (the (coroutine_resume (\<lambda>_ _ _. 9) 0 0 1 demo_sched1))"
    by (rule sched_step.resume [OF demo_resume])
  show "sched_step (\<lambda>_ _ _. 9) 0 Work (the (coroutine_resume (\<lambda>_ _ _. 9) 0 0 1 demo_sched1)) demo_sched2"
    unfolding demo_sched2_def by (rule sched_step.work)
  show "sched_step (\<lambda>_ _ _. 9) 0 Yield demo_sched2 demo_sched3"
    by (rule sched_step.yield [OF demo_yield2]) (simp add: STACK_SIZE_def)
qed

lemma yield_idle: "coroutine_yield ca d r s = Some t \<Longrightarrow> srunning t = - 1"
  by (auto simp: coroutine_yield_def Let_def bind_eq_Some_conv split: if_splits)

lemmas demo_idle = yield_idle [OF demo_yield2]

text \<open>
  C13: A coroutine finds its stack and its registers as it left them. Whatever the program does between the
  \<open>coroutine_yield\<close> of a coroutine and the \<open>coroutine_resume\<close> that continues it, with other coroutines
  running on the same stack and new ones being created, that resume succeeds, enters the saved
  registers and finds every byte from \<open>dummy\<close> to the end of the stack as it was at the yield.
\<close>
theorem coroutine_stack_restored:
  assumes inv: "sched_inv s" and r: "srunning s = int i" and d: "d < int STACK_SIZE"
    and yield: "coroutine_yield ca d x s = Some t"
    and run: "sched_run mk sp as t u" "Resume (int i) \<notin> set as" and idle: "srunning u = - 1"
  shows "\<exists>v. coroutine_resume mk sp x' (int i) u = Some v \<and> cpu v = x \<and> srunning v = int i \<and>
    (\<forall>k. nat d \<le> k \<longrightarrow> k < STACK_SIZE \<longrightarrow> stk v k = stk s k)"
proof -
  from yield_step [OF inv yield d] obtain j p c c' where y: "srunning s = int j" "j < length (sco s)"
    "sco s ! j = Some p" "save_stack d (stk s) c = Some c'" "cor_ok True c"
    "t = s\<lparr>cors := (cors s)(p \<mapsto> c'\<lparr>cstatus := COROUTINE_SUSPEND, ctx := Some x\<rparr>), srunning := - 1, cpu := the (smain s)\<rparr>"
    by metis
  have ji: "j = i" using y(1) r by simp
  let ?c = "c'\<lparr>cstatus := COROUTINE_SUSPEND, ctx := Some x\<rparr>"
  note save = save_stack_ok [OF y(4,5) d]
  have "suspended_as i p ?c t"
    using yield_inv [OF inv yield d] y ji by (simp add: suspended_as_def)
  from suspended_run [OF run(1) this run(2)] have sus: "suspended_as i p ?c u" .
  then have u: "scap u = int (length (sco u))" "i < length (sco u)" "sco u ! i = Some p" "cors u p = Some ?c"
    by (simp_all add: suspended_as_def sched_inv_def)
  from save(5) obtain bs where bs: "cstack c' = Some (map (stk s) [nat d..<STACK_SIZE] @ bs)" by blast
  let ?bs = "map (stk s) [nat d..<STACK_SIZE] @ bs"
  have n: "nat (csize c') = STACK_SIZE - nat d" "nat d < STACK_SIZE" "csize c' = int STACK_SIZE - d"
    using save(1,2) d by auto
  let ?n = "nat (csize c')"
  let ?v = "u\<lparr>stk := (\<lambda>k. if STACK_SIZE - ?n \<le> k \<and> k < STACK_SIZE then ?bs ! (k - (STACK_SIZE - ?n)) else stk u k),
     srunning := int i, cors := (cors u)(p \<mapsto> ?c\<lparr>cstatus := COROUTINE_RUNNING\<rparr>), smain := Some x', cpu := x\<rparr>"
  have req: "0 \<le> csize c' \<and> csize c' \<le> int (length ?bs) \<and> csize c' \<le> int STACK_SIZE"
    using n(3) save(1) d by (auto simp: of_nat_diff)
  have "coroutine_resume mk sp x' (int i) u = Some ?v"
    using idle u bs req by (simp add: coroutine_resume_def Let_def)
  moreover have "stk ?v k = stk s k" if "nat d \<le> k" "k < STACK_SIZE" for k
  proof -
    have "STACK_SIZE - ?n = nat d" using n by simp
    moreover have "k - nat d < STACK_SIZE - nat d" using that by (simp add: diff_less_mono)
    ultimately show ?thesis using that by (simp add: nth_append)
  qed
  ultimately show ?thesis by (intro exI [of _ ?v]) simp
qed

theorem coroutine_stack_restored_witness:
  "\<exists>v. coroutine_resume (\<lambda>_ _ _. 9) 0 0 0 demo_sched3 = Some v \<and> cpu v = 42 \<and> stk v 1048575 = 255"
proof -
  have r: "srunning demo_sched = int 0" by (simp add: demo_sched_def)
  have d: "(1048574 :: int) < int STACK_SIZE" by (simp add: STACK_SIZE_def)
  have n: "Resume (int 0) \<notin> set ((([] @ [Resume 1]) @ [Work]) @ [Yield])" by simp
  from coroutine_stack_restored [OF demo_sched_inv r d demo_yield demo_sched_run n demo_idle, of 0]
  obtain v where v: "coroutine_resume (\<lambda>_ _ _. 9) 0 0 0 demo_sched3 = Some v" "cpu v = 42"
    "\<forall>k. nat 1048574 \<le> k \<longrightarrow> k < STACK_SIZE \<longrightarrow> stk v k = stk demo_sched k" by auto
  have "stk v 1048575 = stk demo_sched 1048575" using v(3) by (simp add: STACK_SIZE_def)
  also have "\<dots> = 255" by (simp add: demo_sched_def)
  finally show ?thesis using v by blast
qed

text \<open>
  C14: The scheduler is sound: in every state a program reaches from \<open>coroutine_open\<close>, \<open>nco\<close> counts the
  coroutines, every entry of \<open>co\<close> points to an allocated coroutine of its own, no coroutine is allocated
  that has no entry, exactly the running one is marked running, and the saved stacks fit their buffers.
\<close>
theorem reachable_schedule_ok:
  assumes "sched_run mk sp as (coroutine_open m r) s"
  shows "sched_inv s"
  using sched_run_inv [OF assms open_inv] .

theorem reachable_schedule_ok_witness:
  "\<exists>s. coroutine_new 1 2 (coroutine_open (\<lambda>_. 0) (0 :: nat)) = Some (0, s) \<and> nco s = 1 \<and> sched_inv s"
proof -
  have "\<exists>s. coroutine_new 1 2 (coroutine_open (\<lambda>_. 0) (0 :: nat)) = Some (0, s) \<and> nco s = 1"
    by (simp add: coroutine_new_def co_new_def free_slot_def coroutine_open_def Let_def upt_rec
        signed_modulo_int_def signed_divide_int_def)
  then obtain s where s: "coroutine_new 1 2 (coroutine_open (\<lambda>_. 0) (0 :: nat)) = Some (0, s)" "nco s = 1" by blast
  from reachable_schedule_ok [OF sched_run.more [OF sched_run.start sched_step.new [OF s(1)]]]
  have "sched_inv s" .
  with s show ?thesis by blast
qed

text \<open>
  \<open>coroutine_new\<close> always finds a place while the table is below 2^30 entries: it returns the index of an
  entry that was free or new, holding the new coroutine, ready to run, and keeps all other entries.
\<close>
theorem coroutine_new_places:
  assumes "sched_inv s" "scap s < 2 ^ 30"
  shows "\<exists>i t. coroutine_new f u s = Some (int i, t) \<and> coroutine_status (int i) t = Some COROUTINE_READY \<and>
    (i < length (sco s) \<longrightarrow> sco s ! i = None) \<and> nco t = nco s + 1 \<and>
    (\<forall>j. j < length (sco s) \<longrightarrow> j \<noteq> i \<longrightarrow> sco t ! j = sco s ! j \<and>
       coroutine_status (int j) t = coroutine_status (int j) s)"
proof -
  from new_ok [OF assms, of f u] obtain i t where t: "coroutine_new f u s = Some (int i, t)" "sched_inv t"
    "i < length (sco s) \<longrightarrow> sco s ! i = None" "i < length (sco t)" "sco t ! i = Some (sbrk s)"
    "\<forall>j<length (sco s). j \<noteq> i \<longrightarrow> sco t ! j = sco s ! j" "length (sco s) \<le> length (sco t)"
    "cors t = (cors s)(sbrk s \<mapsto> \<lparr>func = f, ud = u, ctx = None, ccap = 0, csize = 0, cstatus = COROUTINE_READY, cstack = None\<rparr>)"
    by blast
  have cap: "scap t = int (length (sco t))" "scap s = int (length (sco s))"
    using t(2) assms(1) by (simp_all add: sched_inv_def)
  have "nco t = nco s + 1"
    using t(1) by (auto simp: coroutine_new_def co_new_def Let_def split: if_splits option.splits)
  moreover have "coroutine_status (int i) t = Some COROUTINE_READY"
    using t(4,5,8) cap by (simp add: coroutine_status_def)
  moreover have "coroutine_status (int j) t = coroutine_status (int j) s" if j: "j < length (sco s)" "j \<noteq> i" for j
  proof -
    have "q \<noteq> sbrk s" if "sco s ! j = Some q" for q
      using assms(1) j that unfolding sched_inv_def by (metis less_irrefl nth_mem)
    then show ?thesis
      using t(6-8) j cap by (auto simp: coroutine_status_def split: option.split)
  qed
  ultimately show ?thesis using t(1,3,6) by blast
qed

theorem coroutine_new_places_witness:
  "\<exists>i t. coroutine_new 1 2 demo_sched = Some (int i, t) \<and> coroutine_status (int i) t = Some COROUTINE_READY \<and>
     coroutine_status 0 t = Some COROUTINE_RUNNING"
proof -
  have "scap demo_sched < 2 ^ 30" by (simp add: demo_sched_def)
  from coroutine_new_places [OF demo_sched_inv this, of 1 2] obtain i t where
    t: "coroutine_new 1 2 demo_sched = Some (int i, t)" "coroutine_status (int i) t = Some COROUTINE_READY"
    "i < length (sco demo_sched) \<longrightarrow> sco demo_sched ! i = None"
    "\<forall>j. j < length (sco demo_sched) \<longrightarrow> j \<noteq> i \<longrightarrow> coroutine_status (int j) t = coroutine_status (int j) demo_sched"
    by blast
  have "i \<noteq> 0" using t(3) by (cases i) (simp_all add: demo_sched_def)
  then have "coroutine_status 0 t = coroutine_status 0 demo_sched"
    using t(4) [rule_format, of 0] by (simp add: demo_sched_def)
  also have "\<dots> = Some COROUTINE_RUNNING" by (simp add: coroutine_status_def demo_sched_def)
  finally show ?thesis using t(1,2) by blast
qed

text \<open>
  The pointer to the scheduler that \<open>coroutine_resume\<close> cuts into two \<open>uint32_t\<close> for \<open>makecontext\<close> is the one
  \<open>mainfunc\<close> puts together.
\<close>
theorem mainfunc_ptr_roundtrip:
  "(case ptr_halves p of (low, hi) \<Rightarrow> mainfunc_ptr low hi) = p"
  unfolding ptr_halves_def mainfunc_ptr_def prod.case
  by (rule bit_word_eqI) (auto simp: bit_simps)


text \<open>
  \<open>coroutine_close\<close> frees every coroutine of the scheduler, finished or not, exactly once.
\<close>
theorem coroutine_close_frees_all:
  assumes "sched_inv s"
  shows "coroutine_close s = Some Map.empty"
  using assms by (rule close_ok)

theorem coroutine_close_frees_all_witness:
  "coroutine_close demo_sched = Some Map.empty"
  by (rule coroutine_close_frees_all [OF demo_sched_inv])

end
