(* ===== verification/SchedMain.thy ===== *)
theory SchedMain
  imports Schedule
begin

text \<open>
  The program \<open>src/coroutine/main.c\<close> on the scheduler: two coroutines that print and yield five times. The
  locals of \<open>foo\<close> and \<open>mainfunc\<close> are in the registers, \<open>args\<close> is the member \<open>n\<close> of the arguments by address;
  the output is the list of the pairs of numbers printed by \<open>foo\<close>.
\<close>

section \<open>The program\<close>

text \<open>The registers in \<open>main\<close>, at the entry of \<open>mainfunc\<close>, and in \<open>foo\<close> with \<open>id\<close>, \<open>C\<close>, \<open>start\<close> and \<open>i\<close>.\<close>

datatype regs = In_main | At_mainfunc | In_foo int addr int nat

definition foo_loop :: "int \<Rightarrow> int \<Rightarrow> int \<Rightarrow> addr \<Rightarrow> int \<Rightarrow> nat \<Rightarrow> regs schedule \<Rightarrow> ((int \<times> int) list \<times> regs schedule) option" where
  "foo_loop ca d cid p st i s = (if i < 5 then do {
       let out = (coroutine_running s, st + int i);
       s \<leftarrow> coroutine_yield ca d (In_foo cid p st i) s;
       Some ([out], s) }
     else do { s \<leftarrow> mainfunc_end cid p s; Some ([], s) })"

text \<open>What runs when a coroutine gets control, until it gives it back.\<close>

definition foo_turn :: "(addr \<Rightarrow> int) \<Rightarrow> int \<Rightarrow> int \<Rightarrow> regs schedule \<Rightarrow> ((int \<times> int) list \<times> regs schedule) option" where
  "foo_turn args ca d s = (case cpu s of
     At_mainfunc \<Rightarrow> do {
       (cid, p, f, u) \<leftarrow> mainfunc_start s;
       foo_loop ca d cid p (args u) 0 s }
   | In_foo cid p st i \<Rightarrow> foo_loop ca d cid p st (i + 1) s
   | In_main \<Rightarrow> None)"

text \<open>\<open>coroutine_resume\<close> and what it runs; it returns at once when there is no coroutine.\<close>

definition resume_turn ::
  "(addr \<Rightarrow> int) \<Rightarrow> int \<Rightarrow> int \<Rightarrow> u64 \<Rightarrow> int \<Rightarrow> regs schedule \<Rightarrow> ((int \<times> int) list \<times> regs schedule) option" where
  "resume_turn args ca d sp cid s = do {
     s \<leftarrow> coroutine_resume (\<lambda>_ _ _. At_mainfunc) sp In_main cid s;
     if srunning s = - 1 then Some ([], s) else foo_turn args ca d s }"

partial_function (option) test_loop ::
  "(addr \<Rightarrow> int) \<Rightarrow> int \<Rightarrow> int \<Rightarrow> u64 \<Rightarrow> int \<Rightarrow> int \<Rightarrow> (int \<times> int) list \<Rightarrow> regs schedule
    \<Rightarrow> ((int \<times> int) list \<times> regs schedule) option" where
  "test_loop args ca d sp co1 co2 out s = do {
     st1 \<leftarrow> coroutine_status co1 s;
     st2 \<leftarrow> (if st1 \<noteq> COROUTINE_DEAD then coroutine_status co2 s else Some COROUTINE_DEAD);
     if st1 \<noteq> COROUTINE_DEAD \<and> st2 \<noteq> COROUTINE_DEAD then do {
       (o1, s) \<leftarrow> resume_turn args ca d sp co1 s;
       (o2, s) \<leftarrow> resume_turn args ca d sp co2 s;
       test_loop args ca d sp co1 co2 (out @ o1 @ o2) s }
     else Some (out, s) }"

definition test_prog ::
  "(addr \<Rightarrow> int) \<Rightarrow> addr \<Rightarrow> addr \<Rightarrow> addr \<Rightarrow> int \<Rightarrow> int \<Rightarrow> u64 \<Rightarrow> regs schedule
    \<Rightarrow> ((int \<times> int) list \<times> regs schedule) option" where
  "test_prog args foo a1 a2 ca d sp s = do {
     (co1, s) \<leftarrow> coroutine_new foo a1 s;
     (co2, s) \<leftarrow> coroutine_new foo a2 s;
     test_loop args ca d sp co1 co2 [] s }"

text \<open>\<open>main\<close>: the output and the coroutines that are still allocated at the end.\<close>

definition main_prog ::
  "(addr \<Rightarrow> int) \<Rightarrow> addr \<Rightarrow> addr \<Rightarrow> addr \<Rightarrow> int \<Rightarrow> int \<Rightarrow> u64 \<Rightarrow> (nat \<Rightarrow> byte)
    \<Rightarrow> ((int \<times> int) list \<times> (addr \<rightharpoonup> regs coroutine)) option" where
  "main_prog args foo a1 a2 ca d sp m = do {
     let s = coroutine_open m In_main;
     (out, s) \<leftarrow> test_prog args foo a1 a2 ca d sp s;
     left \<leftarrow> coroutine_close s;
     Some (out, left) }"

section \<open>A turn\<close>

lemma save_stack_total:
  assumes "cor_ok True c" "0 \<le> d" "d < int STACK_SIZE"
  shows "\<exists>c'. save_stack d m c = Some c' \<and> ud c' = ud c"
proof (cases "ccap c < int STACK_SIZE - d")
  case True
  with assms show ?thesis by (simp add: save_stack_def Let_def)
next
  case False
  with assms obtain bs where "cstack c = Some bs" "int (length bs) = ccap c"
    by (cases "cstack c") (auto simp: cor_ok_def)
  with False assms show ?thesis by (simp add: save_stack_def Let_def)
qed

text \<open>Coroutine \<open>i\<close>, with argument \<open>a\<close>, has printed \<open>k\<close> times and waits.\<close>

definition ready_for :: "(addr \<Rightarrow> int) \<Rightarrow> addr \<Rightarrow> nat \<Rightarrow> nat \<Rightarrow> addr \<Rightarrow> regs coroutine \<Rightarrow> bool" where
  "ready_for args a i k p c \<longleftrightarrow> ud c = a \<and>
     (if k = 0 then cstatus c = COROUTINE_READY
      else cstatus c = COROUTINE_SUSPEND \<and> ctx c = Some (In_foo (int i) p (args a) (k - 1)))"

definition waits :: "(addr \<Rightarrow> int) \<Rightarrow> addr \<Rightarrow> nat \<Rightarrow> nat \<Rightarrow> regs schedule \<Rightarrow> bool" where
  "waits args a i k s \<longleftrightarrow> i < length (sco s) \<and> (\<exists>p c. sco s ! i = Some p \<and> cors s p = Some c \<and> ready_for args a i k p c)"

lemma resume_waiting:
  assumes inv: "sched_inv s" and idle: "srunning s = - 1" and w: "waits args a i k s"
  obtains p c v where "sco s ! i = Some p" "coroutine_resume (\<lambda>_ _ _. At_mainfunc) sp In_main (int i) s = Some v"
    "sched_inv v" "srunning v = int i" "sco v = sco s" "cors v = (cors s)(p \<mapsto> c)" "ud c = a" "cor_ok True c"
    "smain v = Some In_main" "scap v = scap s" "nco v = nco s"
    "cpu v = (if k = 0 then At_mainfunc else In_foo (int i) p (args a) (k - 1))"
proof -
  from w obtain p c where p: "i < length (sco s)" "sco s ! i = Some p" "cors s p = Some c" "ud c = a"
    "if k = 0 then cstatus c = COROUTINE_READY
      else cstatus c = COROUTINE_SUSPEND \<and> ctx c = Some (In_foo (int i) p (args a) (k - 1))"
    unfolding waits_def ready_for_def by blast
  have cap: "scap s = int (length (sco s))" and c: "cor_ok False c"
    using inv inv_slot [OF inv p(1,2)] idle p(3) by (auto simp: sched_inv_def)
  have "\<exists>v c'. coroutine_resume (\<lambda>_ _ _. At_mainfunc) sp In_main (int i) s = Some v \<and> srunning v = int i \<and>
      sco v = sco s \<and> cors v = (cors s)(p \<mapsto> c') \<and> ud c' = a \<and> smain v = Some In_main \<and> scap v = scap s \<and>
      nco v = nco s \<and> cpu v = (if k = 0 then At_mainfunc else In_foo (int i) p (args a) (k - 1))"
  proof (cases "k = 0")
    case True
    let ?c = "c\<lparr>cstatus := COROUTINE_RUNNING, ctx := Some At_mainfunc\<rparr>"
    let ?v = "s\<lparr>srunning := int i, cors := (cors s)(p \<mapsto> ?c), smain := Some In_main, cpu := At_mainfunc\<rparr>"
    have "coroutine_resume (\<lambda>_ _ _. At_mainfunc) sp In_main (int i) s = Some ?v"
      using True p cap idle by (simp add: coroutine_resume_def ptr_halves_def Let_def)
    with True p(4) show ?thesis by (intro exI [of _ ?v] exI [of _ ?c]) simp
  next
    case False
    with p(5) c obtain bs where "cstack c = Some bs" "int (length bs) = ccap c" "cstatus c = COROUTINE_SUSPEND"
      "ctx c = Some (In_foo (int i) p (args a) (k - 1))" "0 \<le> csize c" "csize c \<le> ccap c" "ccap c \<le> int STACK_SIZE"
      by (auto simp: cor_ok_def)
    then obtain m where "coroutine_resume (\<lambda>_ _ _. At_mainfunc) sp In_main (int i) s =
        Some (s\<lparr>stk := m, srunning := int i, cors := (cors s)(p \<mapsto> c\<lparr>cstatus := COROUTINE_RUNNING\<rparr>),
          smain := Some In_main, cpu := In_foo (int i) p (args a) (k - 1)\<rparr>)"
      using p(1-3) cap idle by (simp add: coroutine_resume_def Let_def)
    with False p(4) show ?thesis
      by (intro exI [of _ "s\<lparr>stk := m, srunning := int i, cors := (cors s)(p \<mapsto> c\<lparr>cstatus := COROUTINE_RUNNING\<rparr>),
          smain := Some In_main, cpu := In_foo (int i) p (args a) (k - 1)\<rparr>"]
        exI [of _ "c\<lparr>cstatus := COROUTINE_RUNNING\<rparr>"]) simp
  qed
  then obtain v c' where v: "coroutine_resume (\<lambda>_ _ _. At_mainfunc) sp In_main (int i) s = Some v" "srunning v = int i"
      "sco v = sco s" "cors v = (cors s)(p \<mapsto> c')" "ud c' = a" "smain v = Some In_main" "scap v = scap s"
      "nco v = nco s" "cpu v = (if k = 0 then At_mainfunc else In_foo (int i) p (args a) (k - 1))" by blast
  have inv': "sched_inv v" by (rule resume_inv [OF inv v(1)])
  have "cor_ok True c'"
    using inv_slot [OF inv', of i p] v p by auto
  with that p(2) v inv' show ?thesis by blast
qed

lemma waits_other:
  assumes "sched_inv s" "sco s ! i = Some p" "i < length (sco s)" "waits args a j k s" "j \<noteq> i"
    and "length (sco t) = length (sco s)" "sco t ! j = sco s ! j" "\<forall>q. q \<noteq> p \<longrightarrow> cors t q = cors s q"
  shows "waits args a j k t"
proof -
  have "sco s ! j \<noteq> Some p" using assms(1-5) unfolding sched_inv_def waits_def by (metis option.distinct(1))
  with assms(4,6-8) show ?thesis unfolding waits_def by auto
qed

lemma turn_prints:
  assumes inv: "sched_inv s" and idle: "srunning s = - 1" and w: "waits args a i k s" and k: "k < 5"
    and d: "0 < ca" "0 \<le> d" "d < int STACK_SIZE"
  shows "\<exists>t. resume_turn args ca d sp (int i) s = Some ([(int i, args a + int k)], t) \<and> sched_inv t \<and>
    srunning t = - 1 \<and> waits args a i (Suc k) t \<and> (\<forall>b j l. j \<noteq> i \<longrightarrow> waits args b j l s \<longrightarrow> waits args b j l t)"
proof -
  from resume_waiting [OF inv idle w, of sp] obtain p c v where v: "sco s ! i = Some p"
    "coroutine_resume (\<lambda>_ _ _. At_mainfunc) sp In_main (int i) s = Some v"
    "sched_inv v" "srunning v = int i" "sco v = sco s" "cors v = (cors s)(p \<mapsto> c)" "ud c = a" "cor_ok True c"
    "smain v = Some In_main"
    "cpu v = (if k = 0 then At_mainfunc else In_foo (int i) p (args a) (k - 1))" by metis
  have i: "i < length (sco s)" using w by (simp add: waits_def)
  obtain c' where c': "save_stack d (stk v) c = Some c'" "ud c' = a"
    using save_stack_total [OF v(8) d(2,3)] v(7) by metis
  let ?c = "c'\<lparr>cstatus := COROUTINE_SUSPEND, ctx := Some (In_foo (int i) p (args a) k)\<rparr>"
  let ?t = "v\<lparr>cors := (cors v)(p \<mapsto> ?c), srunning := - 1, cpu := In_main\<rparr>"
  have y: "coroutine_yield ca d (In_foo (int i) p (args a) k) v = Some ?t"
    using v i c' d(1) by (simp add: coroutine_yield_def Let_def)
  have loop: "foo_loop ca d (int i) p (args a) k v = Some ([(int i, args a + int k)], ?t)"
    using k y v(4) by (simp add: foo_loop_def coroutine_running_def Let_def)
  have "foo_turn args ca d v = Some ([(int i, args a + int k)], ?t)"
  proof (cases "k = 0")
    case True
    have "mainfunc_start v = Some (int i, p, func c, a)"
      using v i by (simp add: mainfunc_start_def Let_def)
    with True loop v(10) show ?thesis by (simp add: foo_turn_def)
  next
    case False
    with loop v(10) show ?thesis by (simp add: foo_turn_def)
  qed
  with v(2,4) have "resume_turn args ca d sp (int i) s = Some ([(int i, args a + int k)], ?t)"
    by (simp add: resume_turn_def)
  moreover have "sched_inv ?t" by (rule yield_inv [OF v(3) y d(3)])
  moreover have "waits args a i (Suc k) ?t" using v(1,5) i c'(2) by (simp add: waits_def ready_for_def)
  moreover have "waits args b j l ?t" if "j \<noteq> i" "waits args b j l s" for b j l
    by (rule waits_other [OF inv v(1) i that(2,1)]) (simp_all add: v(5,6))
  ultimately show ?thesis by (intro exI [of _ ?t]) simp
qed

lemma turn_ends:
  assumes inv: "sched_inv s" and idle: "srunning s = - 1" and w: "waits args a i 5 s"
  shows "\<exists>t. resume_turn args ca d sp (int i) s = Some ([], t) \<and> sched_inv t \<and> srunning t = - 1 \<and>
    sco t = (sco s)[i := None] \<and> (\<forall>b j l. j \<noteq> i \<longrightarrow> waits args b j l s \<longrightarrow> waits args b j l t)"
proof -
  from resume_waiting [OF inv idle w, of sp] obtain p c v where v: "sco s ! i = Some p"
    "coroutine_resume (\<lambda>_ _ _. At_mainfunc) sp In_main (int i) s = Some v"
    "sched_inv v" "srunning v = int i" "sco v = sco s" "cors v = (cors s)(p \<mapsto> c)"
    "smain v = Some In_main" "scap v = scap s" "cpu v = (if (5 :: nat) = 0 then At_mainfunc else In_foo (int i) p (args a) (5 - 1))"
    by metis
  have i: "i < length (sco s)" and cap: "scap s = int (length (sco s))"
    using w inv by (simp_all add: waits_def sched_inv_def)
  let ?t = "v\<lparr>cors := (cors v)(p := None), sco := (sco v)[i := None], nco := nco v - 1, srunning := - 1, cpu := In_main\<rparr>"
  have e: "mainfunc_end (int i) p v = Some ?t"
    using v i by (simp add: mainfunc_end_def co_delete_def)
  have "mainfunc_start v = Some (int i, p, func c, ud c)"
    using v i by (simp add: mainfunc_start_def Let_def)
  from finish_inv [OF v(3) this e] have "sched_inv ?t" .
  moreover have "resume_turn args ca d sp (int i) s = Some ([], ?t)"
    using v(2,4,9) e by (simp add: resume_turn_def foo_turn_def foo_loop_def)
  moreover have "sco ?t = (sco s)[i := None]" using v(5) by simp
  moreover have "waits args b j l ?t" if "j \<noteq> i" "waits args b j l s" for b j l
    by (rule waits_other [OF inv v(1) i that(2,1)]) (use that in \<open>simp_all add: v(5,6)\<close>)
  ultimately show ?thesis by (intro exI [of _ ?t]) simp
qed

lemma waits_status:
  assumes "sched_inv s" "waits args a i k s"
  shows "\<exists>st. coroutine_status (int i) s = Some st \<and> st \<noteq> COROUTINE_DEAD"
  using assms by (auto simp: waits_def ready_for_def coroutine_status_def sched_inv_def split: if_splits)

section \<open>The loop of \<open>test\<close>\<close>

lemma test_loop_prints:
  assumes "sched_inv s" "srunning s = - 1" "waits args a i k s" "waits args b j k s" "i \<noteq> j" "k \<le> 5"
    and d: "0 < ca" "0 \<le> d" "d < int STACK_SIZE"
  shows "\<exists>t. test_loop args ca d sp (int i) (int j) out s =
      Some (out @ concat (map (\<lambda>n. [(int i, args a + int n), (int j, args b + int n)]) [k..<5]), t) \<and> sched_inv t"
  using assms(1-6)
proof (induction "5 - k" arbitrary: k s out)
  case 0
  then have k: "k = 5" by simp
  from turn_ends [OF 0(2,3) 0(4) [unfolded k], of ca d sp] obtain t where
    t: "resume_turn args ca d sp (int i) s = Some ([], t)" "sched_inv t" "srunning t = - 1"
    "sco t = (sco s)[i := None]" "waits args b j 5 t" using 0(5,6) k by metis
  from turn_ends [OF t(2,3,5), of ca d sp] obtain u where
    u: "resume_turn args ca d sp (int j) t = Some ([], u)" "sched_inv u" "sco u = (sco t)[j := None]" by blast
  have i: "i < length (sco s)" using 0(4) by (simp add: waits_def)
  have "sco u ! i = None" "length (sco u) = length (sco s)" using t(4) u(3) i 0(6) by simp_all
  then have dead: "coroutine_status (int i) u = Some COROUTINE_DEAD"
    using u(2) i by (simp add: coroutine_status_def sched_inv_def)
  obtain st1 st2 where st: "coroutine_status (int i) s = Some st1" "st1 \<noteq> COROUTINE_DEAD"
    "coroutine_status (int j) s = Some st2" "st2 \<noteq> COROUTINE_DEAD"
    using waits_status [OF 0(2,4)] waits_status [OF 0(2,5)] by blast
  have stop: "test_loop args ca d sp (int i) (int j) out u = Some (out, u)"
    using dead by (subst test_loop.simps) simp
  have "test_loop args ca d sp (int i) (int j) out s = Some (out, u)"
    using st t(1) u(1) stop by (subst test_loop.simps) simp
  with u(2) k show ?case by simp
next
  case (Suc m)
  then have k: "k < 5" by simp
  from turn_prints [OF Suc(3,4,5) k d, of sp] obtain t where
    t: "resume_turn args ca d sp (int i) s = Some ([(int i, args a + int k)], t)" "sched_inv t" "srunning t = - 1"
    "waits args a i (Suc k) t" "waits args b j k t" using Suc(6,7) by metis
  from turn_prints [OF t(2,3,5) k d, of sp] obtain u where
    u: "resume_turn args ca d sp (int j) t = Some ([(int j, args b + int k)], u)" "sched_inv u" "srunning u = - 1"
    "waits args b j (Suc k) u" "waits args a i (Suc k) u" using t(4) Suc(7) by metis
  let ?out = "out @ [(int i, args a + int k), (int j, args b + int k)]"
  have "5 - Suc k = m" "Suc k \<le> 5" using Suc(2) k by simp_all
  from Suc(1) [OF this(1) [symmetric] u(2,3,5,4) Suc(7) this(2), of ?out] obtain v where
    v: "test_loop args ca d sp (int i) (int j) ?out u =
      Some (?out @ concat (map (\<lambda>n. [(int i, args a + int n), (int j, args b + int n)]) [Suc k..<5]), v)" "sched_inv v"
    by blast
  obtain st1 st2 where st: "coroutine_status (int i) s = Some st1" "st1 \<noteq> COROUTINE_DEAD"
    "coroutine_status (int j) s = Some st2" "st2 \<noteq> COROUTINE_DEAD"
    using waits_status [OF Suc(3,5)] waits_status [OF Suc(3,6)] by blast
  have "[k..<5] = k # [Suc k..<5]" using k by (simp add: upt_conv_Cons)
  with v st t(1) u(1) show ?case by (subst test_loop.simps) simp
qed


section \<open>The property\<close>

text \<open>
  C28: \<open>main.c\<close> ends. Its coroutines take turns and print \<open>n, n + 1, ..., n + 4\<close> each from its own argument \<open>n\<close>, and
  when \<open>main\<close> returns no coroutine is left allocated, wherever on the stack \<open>foo\<close> yields.
\<close>
theorem main_prog_alternates:
  assumes "0 < ca" "0 \<le> d" "d < int STACK_SIZE"
  shows "main_prog args foo a1 a2 ca d sp m =
    Some (concat (map (\<lambda>n. [(0, args a1 + int n), (1, args a2 + int n)]) [0..<5]), Map.empty)"
proof -
  let ?s = "coroutine_open m In_main"
  have slots: "free_slot (s\<lparr>sbrk := x, cors := y\<rparr>) = free_slot s" for s :: "regs schedule" and x y
    by (simp add: free_slot_def)
  have open_s: "scap ?s = 16" "nco ?s = 0" "sco ?s = replicate 16 None" "srunning ?s = - 1" "sbrk ?s = 0" "cors ?s = Map.empty"
    by (simp_all add: coroutine_open_def)
  let ?c = "\<lambda>a. \<lparr>func = foo, ud = a, ctx = None, ccap = 0, csize = 0, cstatus = COROUTINE_READY, cstack = None\<rparr> :: regs coroutine"
  let ?t = "?s\<lparr>sbrk := 1, cors := [0 \<mapsto> ?c a1], sco := (replicate 16 None)[0 := Some 0], nco := 1\<rparr>"
  let ?u = "?t\<lparr>sbrk := 2, cors := [0 \<mapsto> ?c a1, 1 \<mapsto> ?c a2], sco := (replicate 16 None)[0 := Some 0, 1 := Some 1], nco := 2\<rparr>"
  have new1: "coroutine_new foo a1 ?s = Some (0, ?t)"
    by (simp add: coroutine_new_def co_new_def free_slot_def coroutine_open_def Let_def upt_rec signed_modulo_int_def signed_divide_int_def)
  have new2: "coroutine_new foo a2 ?t = Some (1, ?u)"
    by (simp add: coroutine_new_def co_new_def free_slot_def coroutine_open_def Let_def upt_rec signed_modulo_int_def signed_divide_int_def)
  have inv: "sched_inv ?u" using new_inv [OF new_inv [OF open_inv new1] new2] .
  have "waits args a1 0 0 ?u" "waits args a2 1 0 ?u" "srunning ?u = - 1"
    by (simp_all add: waits_def ready_for_def coroutine_open_def)
  from test_loop_prints [OF inv this(3,1,2) _ _ assms, of sp "[]"] obtain v where
    v: "test_loop args ca d sp (int 0) (int 1) [] ?u =
      Some ([] @ concat (map (\<lambda>n. [(int 0, args a1 + int n), (int 1, args a2 + int n)]) [0..<5]), v)" "sched_inv v"
    by auto
  show ?thesis
    using new1 new2 v close_ok [OF v(2)] by (simp add: main_prog_def test_prog_def Let_def)
qed

theorem main_prog_alternates_witness:
  "main_prog (\<lambda>a. if a = 1 then 0 else 100) 7 1 2 1048500 1048400 0x7F0012345678 (\<lambda>_. 0) =
    Some ([(0, 0), (1, 100), (0, 1), (1, 101), (0, 2), (1, 102), (0, 3), (1, 103), (0, 4), (1, 104)], Map.empty)"
  using main_prog_alternates [where ca = 1048500 and d = 1048400 and args = "\<lambda>a. if a = 1 then 0 else 100"
      and foo = 7 and ?a1.0 = 1 and ?a2.0 = 2 and sp = "0x7F0012345678" and m = "\<lambda>_. 0"]
  by (simp add: STACK_SIZE_def upt_rec)

end
