(* ===== verification/Specific.thy ===== *)
theory Specific
  imports Threads
begin

text \<open>
  Variables of which every coroutine has its own: \<open>operator->\<close> of the macro \<open>CO_ROUTINE_SPECIFIC\<close>
  (\<open>src/libco/co_routine_specific.h\<close>), and \<open>gethostbyname\<close> of \<open>src/libco/co_hook_sys_call.cpp\<close> and
  \<open>src/libco_l/co_hook_sys_call.cc\<close>, which keeps its buffer in such a variable.
\<close>

section \<open>\<open>CO_ROUTINE_SPECIFIC\<close>\<close>

text \<open>
  \<open>spec_init\<close> and \<open>spec_key\<close> are the statics \<open>_routine_init_\<close> and \<open>_routine_key_\<close>, the key \<open>None\<close> before
  \<open>pthread_once\<close> has run; \<open>spec_ps\<close> are the values of the thread itself and \<open>objs\<close> the allocated
  objects, of type \<open>'d\<close>.
\<close>

record 'd specst =
  sw :: world
  spec_init :: bool
  spec_key :: "nat option"
  spec_ps :: "nat \<Rightarrow> u64"
  objs :: "u64 \<rightharpoonup> 'd"

text \<open>\<open>newkey\<close> is the key \<open>pthread_key_create\<close> gives.\<close>

definition routine_key :: "nat \<Rightarrow> 'd specst \<Rightarrow> nat \<times> 'd specst" where
  "routine_key newkey s = (
     let s = (if \<not> spec_init s
       then s\<lparr>spec_init := True, spec_key := Some (case spec_key s of None \<Rightarrow> newkey | Some k \<Rightarrow> k)\<rparr> else s)
     in (case spec_key s of None \<Rightarrow> 0 | Some k \<Rightarrow> k, s))"

text \<open>\<open>a\<close> is what \<open>calloc\<close> returns, 0 for \<open>NULL\<close>, and \<open>zero\<close> an object of zero bytes.\<close>

definition spec_ptr :: "nat \<Rightarrow> 'd \<Rightarrow> u64 \<Rightarrow> 'd specst \<Rightarrow> (u64 \<times> 'd specst) option" where
  "spec_ptr newkey zero a s = do {
     let (key, s) = routine_key newkey s;
     p \<leftarrow> co_getspecific key (spec_ps s) (sw s);
     if p \<noteq> 0 then Some (p, s)
     else do {
       let s = (if a \<noteq> 0 then s\<lparr>objs := (objs s)(a \<mapsto> zero)\<rparr> else s);
       (ret, ps, w) \<leftarrow> co_setspecific key a (spec_ps s) (sw s);
       let s = s\<lparr>spec_ps := ps, sw := w\<rparr>;
       if ret \<noteq> 0 then Some (0, s\<lparr>objs := (objs s)(a := None)\<rparr>) else Some (a, s) } }"

section \<open>\<open>gethostbyname\<close>\<close>

text \<open>The member \<open>buffer\<close> is the size of its allocation.\<close>

record 'h hostbuf_wrap =
  host :: 'h
  buffer :: "u64 option"
  iBufferSize :: u64
  host_errno :: int

abbreviation "NETDB_INTERNAL \<equiv> (- 1 :: int)"
abbreviation "ERANGE \<equiv> (34 :: int)"

text \<open>
  \<open>gethostbyname_r\<close> on a name and the size of the buffer: the return value, whether \<open>result\<close> is \<open>host\<close>,
  \<open>h_errno\<close> and what it writes to \<open>host\<close>.
\<close>

type_synonym 'h resolver = "string \<Rightarrow> u64 \<Rightarrow> int \<times> bool \<times> int \<times> 'h"

definition resolve :: "'h resolver \<Rightarrow> string \<Rightarrow> 'h hostbuf_wrap \<Rightarrow> (int \<times> bool \<times> 'h hostbuf_wrap) option" where
  "resolve r name hb = do {
     require (buffer hb = Some (iBufferSize hb));
     let (e, res, he, h) = r name (iBufferSize hb);
     Some (e, res, hb\<lparr>host := h, host_errno := he\<rparr>) }"

definition grow :: "'h hostbuf_wrap \<Rightarrow> 'h hostbuf_wrap" where
  "grow hb = (let n = iBufferSize hb * 2 in hb\<lparr>iBufferSize := n, buffer := Some n\<rparr>)"

text \<open>In \<open>libco\<close> the condition of the loop assigns the value of \<open>... == ERANGE && ...\<close> to \<open>ret\<close>.\<close>

partial_function (option) host_loop ::
  "'h resolver \<Rightarrow> string \<Rightarrow> 'h hostbuf_wrap \<Rightarrow> (int \<times> bool \<times> 'h hostbuf_wrap) option" where
  "host_loop r name hb = do {
     (e, res, hb) \<leftarrow> resolve r name hb;
     let ret = (if e = ERANGE \<and> host_errno hb = NETDB_INTERNAL then 1 else 0);
     if ret \<noteq> 0 then host_loop r name (grow hb) else Some (ret, res, hb) }"

definition co_gethostbyname ::
  "'h resolver \<Rightarrow> string option \<Rightarrow> 'h hostbuf_wrap \<Rightarrow> ('h option \<times> 'h hostbuf_wrap) option" where
  "co_gethostbyname r name hb = (case name of
     None \<Rightarrow> Some (None, hb)
   | Some name \<Rightarrow> do {
       let hb = (if buffer hb \<noteq> None \<and> iBufferSize hb > 1024 then hb\<lparr>buffer := None\<rparr> else hb);
       let hb = (if buffer hb = None then hb\<lparr>buffer := Some 1024, iBufferSize := 1024\<rparr> else hb);
       (ret, res, hb) \<leftarrow> host_loop r name hb;
       Some (if ret = 0 \<and> res then Some (host hb) else None, hb) })"

partial_function (option) l_host_loop ::
  "'h resolver \<Rightarrow> string \<Rightarrow> 'h hostbuf_wrap \<Rightarrow> (int \<times> bool \<times> 'h hostbuf_wrap) option" where
  "l_host_loop r name hb = do {
     (ret, res, hb) \<leftarrow> resolve r name hb;
     if ret = ERANGE \<and> host_errno hb = NETDB_INTERNAL then l_host_loop r name (grow hb) else Some (ret, res, hb) }"

definition l_co_gethostbyname ::
  "'h resolver \<Rightarrow> string option \<Rightarrow> 'h hostbuf_wrap \<Rightarrow> ('h option \<times> 'h hostbuf_wrap) option" where
  "l_co_gethostbyname r name hb = (case name of
     None \<Rightarrow> Some (None, hb)
   | Some name \<Rightarrow> do {
       let hb = (if buffer hb \<noteq> None \<and> iBufferSize hb \<noteq> 0 then hb\<lparr>buffer := None\<rparr> else hb);
       let hb = (if buffer hb = None then hb\<lparr>buffer := Some 1024, iBufferSize := 1024\<rparr> else hb);
       (ret, res, hb) \<leftarrow> l_host_loop r name hb;
       Some (if ret = 0 \<and> res then Some (host hb) else None, hb) })"

text \<open>
  The hook: \<open>sys\<close> is what the function of the system returns. The first \<open>operator->\<close> gives the object of
  the coroutine and every later one the same.
\<close>

definition hook_gethostbyname ::
  "(string option \<Rightarrow> 'h option) \<Rightarrow> 'h resolver \<Rightarrow> nat \<Rightarrow> 'h hostbuf_wrap \<Rightarrow> u64 \<Rightarrow> string option \<Rightarrow>
    'h hostbuf_wrap specst \<Rightarrow> ('h option \<times> 'h hostbuf_wrap specst) option" where
  "hook_gethostbyname sys r newkey zero a name s = do {
     on \<leftarrow> co_is_enable_sys_hook (sw s);
     if \<not> on then Some (sys name, s)
     else if name = None then Some (None, s)
     else do {
       (p, s) \<leftarrow> spec_ptr newkey zero a s;
       hb \<leftarrow> objs s p;
       (h, hb) \<leftarrow> co_gethostbyname r name hb;
       Some (h, s\<lparr>objs := (objs s)(p \<mapsto> hb)\<rparr>) } }"

text \<open>\<open>__res_state\<close>: the state of the system, or the coroutine's own.\<close>

definition hook_res_state :: "u64 \<Rightarrow> nat \<Rightarrow> 'd \<Rightarrow> u64 \<Rightarrow> 'd specst \<Rightarrow> (u64 \<times> 'd specst) option" where
  "hook_res_state sys newkey zero a s = do {
     on \<leftarrow> co_is_enable_sys_hook (sw s);
     if \<not> on then Some (sys, s) else spec_ptr newkey zero a s }"

section \<open>The loop finds the size\<close>

text \<open>\<open>fits r name n\<close>: the buffer is large enough.\<close>

definition fits :: "'h resolver \<Rightarrow> string \<Rightarrow> u64 \<Rightarrow> bool" where
  "fits r name n \<longleftrightarrow> (case r name n of (e, res, he, h) \<Rightarrow> \<not> (e = ERANGE \<and> he = NETDB_INTERNAL))"

lemma loops_return:
  assumes "buffer hb = Some (iBufferSize hb)" "fits r name (iBufferSize hb * 2 ^ k)"
    and "\<forall>j<k. \<not> fits r name (iBufferSize hb * 2 ^ j)"
  shows "\<exists>e res he h hb'. r name (iBufferSize hb * 2 ^ k) = (e, res, he, h) \<and> host hb' = h \<and>
    iBufferSize hb' = iBufferSize hb * 2 ^ k \<and> buffer hb' = Some (iBufferSize hb') \<and>
    host_loop r name hb = Some (0, res, hb') \<and> l_host_loop r name hb = Some (e, res, hb')"
  using assms
proof (induction k arbitrary: hb)
  case 0
  obtain e res he h where r: "r name (iBufferSize hb) = (e, res, he, h)" by (metis prod_cases4)
  have "\<not> (e = ERANGE \<and> he = NETDB_INTERNAL)" using 0(2) r by (simp add: fits_def)
  then show ?case
    using 0(1) r by (subst host_loop.simps, subst l_host_loop.simps) (auto simp: resolve_def)
next
  case (Suc k)
  obtain e res he h where r: "r name (iBufferSize hb) = (e, res, he, h)" by (metis prod_cases4)
  have bad: "e = ERANGE" "he = NETDB_INTERNAL"
    using Suc.prems(3) [rule_format, of 0] r by (simp_all add: fits_def)
  let ?hb = "grow (hb\<lparr>host := h, host_errno := he\<rparr>)"
  have size: "iBufferSize ?hb = iBufferSize hb * 2" "buffer ?hb = Some (iBufferSize ?hb)"
    by (simp_all add: grow_def Let_def)
  have "fits r name (iBufferSize ?hb * 2 ^ k)"
    using Suc.prems(2) size(1) by (simp add: mult.assoc)
  moreover have "\<forall>j<k. \<not> fits r name (iBufferSize ?hb * 2 ^ j)"
  proof (intro allI impI)
    fix j assume "j < k"
    then have "\<not> fits r name (iBufferSize hb * 2 ^ Suc j)" using Suc.prems(3) [rule_format, of "Suc j"] by simp
    then show "\<not> fits r name (iBufferSize ?hb * 2 ^ j)" using size(1) by (simp add: mult.assoc)
  qed
  ultimately have IH: "\<exists>e res he h hb'. r name (iBufferSize ?hb * 2 ^ k) = (e, res, he, h) \<and> host hb' = h \<and>
    iBufferSize hb' = iBufferSize ?hb * 2 ^ k \<and> buffer hb' = Some (iBufferSize hb') \<and>
    host_loop r name ?hb = Some (0, res, hb') \<and> l_host_loop r name ?hb = Some (e, res, hb')"
    using Suc.IH size(2) by blast
  have "host_loop r name hb = host_loop r name ?hb"
    using Suc.prems(1) r bad by (subst host_loop.simps) (simp add: resolve_def)
  moreover have "l_host_loop r name hb = l_host_loop r name ?hb"
    using Suc.prems(1) r bad by (subst l_host_loop.simps) (simp add: resolve_def)
  ultimately show ?case using IH size(1) by (simp add: mult.assoc)
qed


text \<open>Between two calls: no buffer, or one of at least 1024 bytes.\<close>

definition hb_ok :: "'h hostbuf_wrap \<Rightarrow> bool" where
  "hb_ok hb \<longleftrightarrow> buffer hb = None \<or> buffer hb = Some (iBufferSize hb) \<and> 1024 \<le> iBufferSize hb"

text \<open>The answer for the first size of the buffer that is enough.\<close>

definition answer :: "'h resolver \<Rightarrow> string \<Rightarrow> nat \<Rightarrow> 'h option" where
  "answer r name k = (case r name (1024 * 2 ^ k) of (e, res, he, h) \<Rightarrow> if e = 0 \<and> res then Some h else None)"

definition first_fit :: "'h resolver \<Rightarrow> string \<Rightarrow> nat \<Rightarrow> bool" where
  "first_fit r name k \<longleftrightarrow> fits r name (1024 * 2 ^ k) \<and> (\<forall>j<k. \<not> fits r name (1024 * 2 ^ j))"

lemma first_fit_exists:
  assumes "fits r name (1024 * 2 ^ k)"
  shows "\<exists>m\<le>k. first_fit r name m"
proof -
  have "fits r name (1024 * 2 ^ (LEAST m. fits r name (1024 * 2 ^ m)))"
    using assms by (rule LeastI)
  moreover have "(LEAST m. fits r name (1024 * 2 ^ m)) \<le> k" using assms by (rule Least_le)
  moreover have "\<not> fits r name (1024 * 2 ^ j)" if "j < (LEAST m. fits r name (1024 * 2 ^ m))" for j
    using that by (rule not_less_Least)
  ultimately show ?thesis unfolding first_fit_def by blast
qed

lemma size_pow_ge:
  assumes "k \<le> 53"
  shows "(1024 :: u64) \<le> 1024 * 2 ^ k"
proof -
  have "(1024 :: nat) * 2 ^ k \<le> 1024 * 2 ^ 53" using assms by (intro mult_left_mono power_increasing) simp_all
  also have "\<dots> < 2 ^ 64" by simp
  finally have small: "(1024 :: nat) * 2 ^ k < 2 ^ 64" .
  have "(1024 :: u64) * 2 ^ k = of_nat (1024 * 2 ^ k)" by simp
  then have "unat ((1024 :: u64) * 2 ^ k) = 1024 * 2 ^ k"
    using small by (simp only: unat_of_nat len_num1 len_num0 len_bit0) (simp add: take_bit_nat_eq_self)
  then show ?thesis by (simp add: word_le_nat_alt)
qed

lemma gethostbyname_cases:
  assumes ok: "hb_ok hb" and k: "first_fit r name k" "k \<le> 53"
    and res: "\<forall>n e h he. r name n = (e, True, he, h) \<longrightarrow> e = 0"
  shows "\<exists>hb' hb''. co_gethostbyname r (Some name) hb = Some (answer r name k, hb') \<and> hb_ok hb' \<and>
    (\<forall>h. answer r name k = Some h \<longrightarrow> host hb' = h) \<and> l_co_gethostbyname r (Some name) hb = Some (answer r name k, hb'') \<and> hb_ok hb''"
proof -
  let ?a = "hb\<lparr>buffer := Some 1024, iBufferSize := 1024\<rparr>"
  have fit: "fits r name (1024 * 2 ^ k)" "\<forall>j<k. \<not> fits r name (1024 * 2 ^ j)"
    using k(1) by (simp_all add: first_fit_def)
  have both: "\<exists>e res he h x. r name (1024 * 2 ^ k) = (e, res, he, h) \<and> host x = h \<and> hb_ok x \<and>
    host_loop r name b = Some (0, res, x) \<and> l_host_loop r name b = Some (e, res, x)"
    if "buffer b = Some 1024" "iBufferSize b = 1024" for b
    using loops_return [of b r name k] that fit size_pow_ge [OF k(2)] by (auto simp: hb_ok_def)
  define b where "b = (if buffer hb = None \<or> iBufferSize hb > 1024 then ?a else hb)"
  have b: "buffer b = Some 1024" "iBufferSize b = 1024"
    using ok by (auto simp: b_def hb_ok_def)
  obtain e re he h x where x: "r name (1024 * 2 ^ k) = (e, re, he, h)" "host x = h" "hb_ok x"
    "host_loop r name b = Some (0, re, x)" using both [OF b] by blast
  have c: "co_gethostbyname r (Some name) hb = Some (if re then Some h else None, x)"
    using ok x by (auto simp: co_gethostbyname_def b_def hb_ok_def Let_def split: if_splits)
  have ca: "(if re then Some h else None) = answer r name k"
    using x(1) res by (cases re) (auto simp: answer_def)
  obtain e' re' he' h' y where y: "r name (1024 * 2 ^ k) = (e', re', he', h')" "host y = h'" "hb_ok y"
    "l_host_loop r name ?a = Some (e', re', y)" using both [of ?a] by auto
  have l: "l_co_gethostbyname r (Some name) hb = Some (if e' = 0 \<and> re' then Some h' else None, y)"
    using ok y by (auto simp: l_co_gethostbyname_def hb_ok_def Let_def)
  have la: "(if e' = 0 \<and> re' then Some h' else None) = answer r name k"
    using y(1) by (simp add: answer_def)
  have h: "answer r name k = Some d \<Longrightarrow> host x = d" for d
    using x(1,2) by (auto simp: answer_def split: if_splits)
  show ?thesis
    by (intro exI [of _ x] exI [of _ y]) (use h in \<open>auto simp: c ca l la x(3) y(3)\<close>)
qed

section \<open>Every coroutine has its own\<close>

text \<open>
  The value of the coroutine \<open>p\<close> under the key \<open>K\<close> and the object it points to. The main coroutine has
  the values of the thread.
\<close>

definition spec_slot :: "nat \<Rightarrow> 'd specst \<Rightarrow> addr \<Rightarrow> u64" where
  "spec_slot K s p = (case cos (sw s) p of None \<Rightarrow> 0
     | Some c \<Rightarrow> if cIsMain c then spec_ps s K else aSpec c ! K)"

definition spec_view :: "nat \<Rightarrow> 'd specst \<Rightarrow> addr \<Rightarrow> 'd option" where
  "spec_view K s p = (if spec_slot K s p = 0 then None else objs s (spec_slot K s p))"

text \<open>
  \<open>K\<close> is the key \<open>pthread_key_create\<close> gives. Every value points to an object, those of different
  coroutines to different ones, and every object satisfies \<open>P\<close>.
\<close>

definition spec_ok :: "nat \<Rightarrow> ('d \<Rightarrow> bool) \<Rightarrow> 'd specst \<Rightarrow> bool" where
  "spec_ok K P s \<longleftrightarrow> K < 1024 \<and> spec_key s = (if spec_init s then Some K else None) \<and>
     (\<forall>p c. cos (sw s) p = Some c \<longrightarrow> length (aSpec c) = 1024) \<and>
     (\<forall>p q. mains (sw s) p \<longrightarrow> mains (sw s) q \<longrightarrow> p = q) \<and>
     (\<forall>p. spec_slot K s p \<noteq> 0 \<longrightarrow> objs s (spec_slot K s p) \<noteq> None) \<and>
     (\<forall>p q. spec_slot K s p \<noteq> 0 \<longrightarrow> spec_slot K s p = spec_slot K s q \<longrightarrow> p = q) \<and>
     (\<forall>x d. objs s x = Some d \<longrightarrow> P d)"

lemma spec_slot_cong: "\<lbrakk>sw t = sw s; spec_ps t = spec_ps s\<rbrakk> \<Longrightarrow> spec_slot K t = spec_slot K s"
  by (auto simp: fun_eq_iff spec_slot_def split: option.split)

text \<open>\<open>p\<close> is the coroutine that runs.\<close>

definition runs_co :: "addr \<Rightarrow> stCoRoutine_t \<Rightarrow> 'd specst \<Rightarrow> bool" where
  "runs_co p c s \<longleftrightarrow> GetCurrThreadCo (sw s) = Some (Some p) \<and> cos (sw s) p = Some c"

lemma GetCurrThreadCo_cong:
  "\<lbrakk>envs w' = envs w; g_arrCoEnvPerThread w' = g_arrCoEnvPerThread w; tid w' = tid w\<rbrakk> \<Longrightarrow>
     GetCurrThreadCo w' = GetCurrThreadCo w"
  by (auto simp: GetCurrThreadCo_def GetCurrCo_def [abs_def] co_get_curr_thread_env_def split: option.split)

text \<open>\<open>co_getspecific\<close> reads the slot of the coroutine that runs and \<open>co_setspecific\<close> writes it.\<close>

lemma getspecific_slot:
  assumes "spec_ok K P s" "runs_co p c s"
  shows "co_getspecific K (spec_ps s) (sw s) = Some (spec_slot K s p)"
  using assms by (auto simp: co_getspecific_def runs_co_def spec_ok_def spec_slot_def)

lemma setspecific_slot:
  assumes "spec_ok K P s" "runs_co p c s"
  shows "\<exists>ps w. co_setspecific K v (spec_ps s) (sw s) = Some (0, ps, w) \<and>
    (let s' = s\<lparr>spec_ps := ps, sw := w\<rparr> in spec_slot K s' = (spec_slot K s)(p := v) \<and>
       (\<exists>c'. runs_co p c' s' \<and> cEnableSysHook c' = cEnableSysHook c) \<and> (\<forall>q. mains w q = mains (sw s) q) \<and>
       (\<forall>q c. cos w q = Some c \<longrightarrow> length (aSpec c) = 1024))"
proof (cases "cIsMain c")
  case True
  have "spec_slot K (s\<lparr>spec_ps := (spec_ps s)(K := v), sw := sw s\<rparr>) = (spec_slot K s)(p := v)"
  proof
    fix q
    show "spec_slot K (s\<lparr>spec_ps := (spec_ps s)(K := v), sw := sw s\<rparr>) q = ((spec_slot K s)(p := v)) q"
      using assms True by (auto simp: spec_slot_def spec_ok_def runs_co_def mains_def split: option.split)
  qed
  moreover have "co_setspecific K v (spec_ps s) (sw s) = Some (0, (spec_ps s)(K := v), sw s)"
    using assms True by (simp add: co_setspecific_def runs_co_def)
  ultimately show ?thesis using assms by (auto simp: Let_def spec_ok_def runs_co_def)
next
  case False
  let ?w = "(sw s)\<lparr>cos := (cos (sw s))(p \<mapsto> c\<lparr>aSpec := (aSpec c)[K := v]\<rparr>)\<rparr>"
  have K: "K < length (aSpec c)" "K < 1024" using assms by (auto simp: spec_ok_def runs_co_def)
  have set: "co_setspecific K v (spec_ps s) (sw s) = Some (0, spec_ps s, ?w)"
    using assms(2) False K by (simp add: co_setspecific_def runs_co_def set_co_def)
  have slot: "spec_slot K (s\<lparr>spec_ps := spec_ps s, sw := ?w\<rparr>) = (spec_slot K s)(p := v)"
    using False K by (auto simp: spec_slot_def fun_eq_iff split: option.split)
  have run: "runs_co p (c\<lparr>aSpec := (aSpec c)[K := v]\<rparr>) (s\<lparr>spec_ps := spec_ps s, sw := ?w\<rparr>)"
    using assms(2) GetCurrThreadCo_cong [of ?w "sw s"] by (simp add: runs_co_def)
  have main: "mains ?w q = mains (sw s) q" for q using assms(2) by (auto simp: mains_def runs_co_def)
  have len: "cos ?w q = Some d \<Longrightarrow> length (aSpec d) = 1024" for q d
    using assms by (auto simp: spec_ok_def runs_co_def split: if_splits)
  show ?thesis
    by (intro exI [of _ "spec_ps s"] exI [of _ ?w]) (use set slot run main len in \<open>auto simp: Let_def\<close>)
qed

text \<open>\<open>operator->\<close>: the object of the coroutine that runs, a new one of zeros the first time.\<close>

lemma spec_ptr_ok:
  assumes ok: "spec_ok K P s" and run: "runs_co p c s" and a: "a \<noteq> 0" "objs s a = None" and P: "P zero"
  obtains q s' c' where "spec_ptr K zero a s = Some (q, s')" "q \<noteq> 0" "q = spec_slot K s' p" "spec_ok K P s'"
    "runs_co p c' s'" "cEnableSysHook c' = cEnableSysHook c"
    "spec_view K s' = (spec_view K s)(p \<mapsto> (case spec_view K s p of None \<Rightarrow> zero | Some d \<Rightarrow> d))"
proof -
  define t where "t = snd (routine_key K s)"
  have key: "routine_key K s = (K, t)" and t: "sw t = sw s" "spec_ps t = spec_ps s" "objs t = objs s"
    using ok by (auto simp: t_def routine_key_def spec_ok_def Let_def split: option.split)
  have slot: "spec_slot K t = spec_slot K s" using t(1,2) by (rule spec_slot_cong)
  have view: "spec_view K t = spec_view K s" by (simp add: fun_eq_iff spec_view_def slot t)
  have okt: "spec_ok K P t" using ok slot t by (auto simp: spec_ok_def t_def routine_key_def Let_def)
  have runt: "runs_co p c t" using run t by (simp add: runs_co_def)
  have get: "co_getspecific K (spec_ps t) (sw t) = Some (spec_slot K t p)"
    using getspecific_slot [OF okt runt] .
  show thesis
  proof (cases "spec_slot K t p = 0")
    case False
    then have "spec_view K t p \<noteq> None" using okt by (auto simp: spec_view_def spec_ok_def)
    then have same: "spec_view K t = (spec_view K s)(p \<mapsto> (case spec_view K s p of None \<Rightarrow> zero | Some d \<Rightarrow> d))"
      by (auto simp: view)
    have eq: "spec_ptr K zero a s = Some (spec_slot K t p, t)"
      using False get key by (simp add: spec_ptr_def)
    show thesis using that [OF eq False refl okt runt refl same] .
  next
    case True
    define u where "u = t\<lparr>objs := (objs t)(a \<mapsto> zero)\<rparr>"
    have u: "sw u = sw t" "spec_ps u = spec_ps t" by (simp_all add: u_def)
    have slotu: "spec_slot K u = spec_slot K t" using u by (rule spec_slot_cong)
    have ne: "spec_slot K t q \<noteq> a" for q using okt a t by (auto simp: spec_ok_def)
    have oku: "spec_ok K P u" using okt ne P slotu u by (auto simp: spec_ok_def u_def)
    have runu: "runs_co p c u" using runt u by (simp add: runs_co_def)
    obtain ps w where set: "co_setspecific K a (spec_ps u) (sw u) = Some (0, ps, w)"
      and s': "let s' = u\<lparr>spec_ps := ps, sw := w\<rparr> in spec_slot K s' = (spec_slot K u)(p := a) \<and>
       (\<exists>c'. runs_co p c' s' \<and> cEnableSysHook c' = cEnableSysHook c) \<and> (\<forall>q. mains w q = mains (sw u) q) \<and>
       (\<forall>q c. cos w q = Some c \<longrightarrow> length (aSpec c) = 1024)"
      using setspecific_slot [OF oku runu, of a] by blast
    define s' where "s' = u\<lparr>spec_ps := ps, sw := w\<rparr>"
    obtain c' where c': "runs_co p c' s'" "cEnableSysHook c' = cEnableSysHook c"
      using s' unfolding s'_def Let_def by blast
    have sl: "spec_slot K s' = (spec_slot K u)(p := a)" using s' by (simp add: s'_def Let_def)
    have eq: "spec_ptr K zero a s = Some (a, s')"
      using True get key set a(1) by (simp add: spec_ptr_def u_def s'_def Let_def)
    have ob: "objs s' = (objs s)(a \<mapsto> zero)" by (simp add: s'_def u_def t)
    have "objs s' = objs u" "spec_init s' = spec_init u" "spec_key s' = spec_key u" "sw s' = w" by (simp_all add: s'_def)
    then have oks: "spec_ok K P s'"
      using oku s' sl ne slotu by (auto simp: spec_ok_def Let_def s'_def u_def split: if_splits)
    have "spec_view K s p = None" using True slot by (simp add: spec_view_def)
    moreover have "spec_view K s' q = (if q = p then Some zero else spec_view K s q)" for q
      using a(1) ne [of q] by (simp add: spec_view_def sl slotu slot ob)
    ultimately have vw: "spec_view K s' = (spec_view K s)(p \<mapsto> (case spec_view K s p of None \<Rightarrow> zero | Some d \<Rightarrow> d))"
      by (auto simp: fun_eq_iff)
    show thesis using that [OF eq a(1) _ oks c' vw] sl by simp
  qed
qed

text \<open>
  C33: With an answer for some power of two, both libraries' \<open>co_gethostbyname\<close> return: the answer for the
  first size that is enough. The hypothesis on \<open>result\<close> is the documentation of \<open>gethostbyname_r\<close>.
\<close>

theorem gethostbyname_returns:
  assumes "hb_ok hb" "fits r name (1024 * 2 ^ k)" "k \<le> 53"
    and "\<forall>n e h he. r name n = (e, True, he, h) \<longrightarrow> e = 0"
  shows "\<exists>m hb' hb''. m \<le> k \<and> first_fit r name m \<and>
    co_gethostbyname r (Some name) hb = Some (answer r name m, hb') \<and> hb_ok hb' \<and>
    l_co_gethostbyname r (Some name) hb = Some (answer r name m, hb'') \<and> hb_ok hb''"
proof -
  obtain m where m: "m \<le> k" "first_fit r name m" using first_fit_exists [OF assms(2)] by blast
  show ?thesis using gethostbyname_cases [OF assms(1) m(2) _ assms(4)] m assms(3) by (meson order_trans)
qed

text \<open>
  C26: The hooked \<open>gethostbyname\<close> gives the coroutine that runs its answer, in an object of its own: what
  the other coroutines were given stays as it is.
\<close>

theorem hook_gethostbyname_private:
  assumes "spec_ok K hb_ok s" "runs_co p c s" "cEnableSysHook c" "a \<noteq> 0" "objs s a = None" "buffer zero = None"
    and "fits r name (1024 * 2 ^ k)" "k \<le> 53" "\<forall>n e h he. r name n = (e, True, he, h) \<longrightarrow> e = 0"
  shows "\<exists>m s' hb. m \<le> k \<and> first_fit r name m \<and>
    hook_gethostbyname sys r K zero a (Some name) s = Some (answer r name m, s') \<and> spec_ok K hb_ok s' \<and>
    spec_view K s' = (spec_view K s)(p \<mapsto> hb) \<and> (case answer r name m of None \<Rightarrow> True | Some h \<Rightarrow> host hb = h)"
proof -
  have zero: "hb_ok zero" using assms(6) by (simp add: hb_ok_def)
  obtain m where m: "m \<le> k" "first_fit r name m" using first_fit_exists [OF assms(7)] by blast
  obtain q t c' where t: "spec_ptr K zero a s = Some (q, t)" "q \<noteq> 0" "q = spec_slot K t p" "spec_ok K hb_ok t"
    and view: "spec_view K t = (spec_view K s)(p \<mapsto> (case spec_view K s p of None \<Rightarrow> zero | Some d \<Rightarrow> d))"
    using spec_ptr_ok [where zero = zero, OF assms(1,2,4,5) zero] by metis
  obtain d where d: "objs t q = Some d" "hb_ok d" using t by (auto simp: spec_ok_def)
  obtain hb where hb: "co_gethostbyname r (Some name) d = Some (answer r name m, hb)" "hb_ok hb"
    "\<forall>h. answer r name m = Some h \<longrightarrow> host hb = h"
    using gethostbyname_cases [OF d(2) m(2) _ assms(9)] m(1) assms(8) by auto
  define s' where "s' = t\<lparr>objs := (objs t)(q \<mapsto> hb)\<rparr>"
  have slot: "spec_slot K s' = spec_slot K t" by (rule spec_slot_cong) (simp_all add: s'_def)
  have ob: "objs s' = (objs t)(q \<mapsto> hb)" by (simp add: s'_def)
  have on: "co_is_enable_sys_hook (sw s) = Some True"
    using assms(2,3) by (simp add: co_is_enable_sys_hook_def runs_co_def)
  have run: "hook_gethostbyname sys r K zero a (Some name) s = Some (answer r name m, s')"
    using on t(1) d(1) hb(1) by (simp add: hook_gethostbyname_def s'_def)
  have ok: "spec_ok K hb_ok s'"
    using t(4) hb(2) slot by (auto simp: spec_ok_def s'_def)
  have other: "spec_slot K t x = q \<Longrightarrow> x = p" for x using t(2-4) by (auto simp: spec_ok_def)
  have "spec_view K s' x = (if x = p then Some hb else spec_view K t x)" for x
    using t(2,3) other [of x] by (auto simp: spec_view_def slot ob)
  then have "spec_view K s' = (spec_view K s)(p \<mapsto> hb)" by (auto simp: fun_eq_iff view)
  then show ?thesis using m run ok hb(3) by (auto split: option.split)
qed

section \<open>Witnesses\<close>

text \<open>A resolver that needs 2048 bytes, as \<open>gethostbyname_r\<close> reports it.\<close>

definition demo_resolver :: "nat resolver" where
  "demo_resolver name n = (if n < 2048 then (ERANGE, False, NETDB_INTERNAL, 0) else (0, True, 0, length name))"

definition demo_hb :: "nat hostbuf_wrap" where
  "demo_hb = \<lparr>host = 0, buffer = None, iBufferSize = 0, host_errno = 0\<rparr>"

lemma demo_resolver_ok: "\<forall>n e h he. demo_resolver name n = (e, True, he, h) \<longrightarrow> e = 0"
  "fits demo_resolver name (1024 * 2 ^ 1)"
  by (simp_all add: demo_resolver_def fits_def)

lemma demo_answer: "first_fit demo_resolver name m \<Longrightarrow> m \<le> 1 \<Longrightarrow> answer demo_resolver name m = Some (length name)"
  by (cases m) (simp_all add: first_fit_def fits_def answer_def demo_resolver_def)

theorem gethostbyname_returns_witness:
  "\<exists>hb' hb''. co_gethostbyname demo_resolver (Some ''host'') demo_hb = Some (Some 4, hb') \<and>
    l_co_gethostbyname demo_resolver (Some ''host'') demo_hb = Some (Some 4, hb'')"
proof -
  have "hb_ok demo_hb" by (simp add: hb_ok_def demo_hb_def)
  from gethostbyname_returns [OF this demo_resolver_ok(2) _ demo_resolver_ok(1), of "''host''"] show ?thesis
    using demo_answer [of "''host''"] by fastforce
qed

text \<open>Coroutine 10 runs and has no object yet; coroutine 11 has one.\<close>

definition zero_spec :: "u64 list" where "zero_spec = replicate 1024 0"

definition spec_co :: "bool \<Rightarrow> u64 list \<Rightarrow> addr \<Rightarrow> stCoRoutine_t" where
  "spec_co hook sp q = (demo_co True False q)\<lparr>cEnableSysHook := hook, aSpec := sp\<rparr>"

definition demo_spec :: "nat hostbuf_wrap specst" where
  "demo_spec = \<lparr>sw = demo_world\<lparr>cos :=
       [2 \<mapsto> (demo_co False True 3)\<lparr>aSpec := zero_spec\<rparr>, 10 \<mapsto> spec_co True zero_spec 12,
        11 \<mapsto> spec_co False (zero_spec[5 := 700]) 12]\<rparr>,
     spec_init = True, spec_key = Some 5, spec_ps = \<lambda>_. 0, objs = [700 \<mapsto> demo_hb\<lparr>host := 8\<rparr>]\<rparr>"

lemma zero_spec: "length zero_spec = 1024" "zero_spec ! 5 = 0" "zero_spec[5 := v] ! 5 = v"
  by (simp_all add: zero_spec_def)

lemma demo_spec_slot: "spec_slot 5 demo_spec = (\<lambda>_. 0)(11 := 700)"
  by (auto simp: fun_eq_iff spec_slot_def demo_spec_def spec_co_def demo_co_def zero_spec)

lemma demo_spec_ok: "spec_ok 5 hb_ok demo_spec"
  unfolding spec_ok_def demo_spec_slot
  by (auto simp: demo_spec_def spec_co_def demo_co_def zero_spec mains_def demo_hb_def hb_ok_def split: if_splits)

lemma demo_spec_runs: "runs_co 10 (spec_co True zero_spec 12) demo_spec"
proof -
  have "GetCurrThreadCo (sw demo_spec) = GetCurrThreadCo demo_world"
    by (rule GetCurrThreadCo_cong) (simp_all add: demo_spec_def)
  also have "\<dots> = Some (Some 10)"
    by (simp add: demo_world_def GetCurrThreadCo_def GetCurrCo_def co_get_curr_thread_env_def call_at_def)
  finally show ?thesis by (simp add: runs_co_def) (simp add: demo_spec_def)
qed

theorem hook_gethostbyname_private_witness:
  "\<exists>s' hb. hook_gethostbyname Map.empty demo_resolver 5 demo_hb 800 (Some ''host'') demo_spec = Some (Some 4, s') \<and>
     spec_view 5 s' 10 = Some hb \<and> host hb = 4 \<and> spec_view 5 s' 11 = Some (demo_hb\<lparr>host := 8\<rparr>)"
proof -
  have on: "cEnableSysHook (spec_co True zero_spec 12)" by (simp add: spec_co_def)
  have fresh: "objs demo_spec 800 = None" by (simp add: demo_spec_def)
  have empty: "buffer demo_hb = None" by (simp add: demo_hb_def)
  obtain m s' hb where m: "m \<le> 1" "first_fit demo_resolver ''host'' m"
    and run: "hook_gethostbyname Map.empty demo_resolver 5 demo_hb 800 (Some ''host'') demo_spec =
      Some (answer demo_resolver ''host'' m, s')"
    and view: "spec_view 5 s' = (spec_view 5 demo_spec)(10 \<mapsto> hb)"
    and h: "case answer demo_resolver ''host'' m of None \<Rightarrow> True | Some h \<Rightarrow> host hb = h"
    using hook_gethostbyname_private [where sys = Map.empty and name = "''host''" and k = 1,
      OF demo_spec_ok demo_spec_runs on _ fresh empty demo_resolver_ok(2) _ demo_resolver_ok(1)] by auto
  have "spec_view 5 demo_spec 11 = Some (demo_hb\<lparr>host := 8\<rparr>)"
    by (simp add: spec_view_def demo_spec_slot) (simp add: demo_spec_def)
  then show ?thesis using run view h demo_answer [OF m(2,1)] by auto
qed

end
