(* ===== verification/Sockets.thy ===== *)
theory Sockets
  imports HookIO
begin

text \<open>
  What the example programs of libco share: \<open>SetNonBlock\<close>, \<open>SetAddr\<close> and \<open>CreateTcpSocket\<close>, which
  \<open>example_poll.cpp\<close> and \<open>example_echosvr.cpp\<close> hold in identical copies, and what the kernel documents of
  descriptors. The system calls no hook replaces (\<open>bind\<close>, \<open>listen\<close>, \<open>getsockopt\<close>) and \<open>inet_addr\<close> are the
  fields of the record \<open>net\<close>; the hooked ones are those of \<open>HookIO\<close>.
\<close>

section \<open>Sockets and addresses\<close>

record 'k net =
  net_os :: "'k os"
  sys_bind :: "int \<Rightarrow> byte list \<Rightarrow> ('k, int) syscall"
  sys_listen :: "int \<Rightarrow> int \<Rightarrow> ('k, int) syscall"
  sys_getsockopt :: "int \<Rightarrow> ('k, int \<times> int) syscall"
  inet_addr :: "string \<Rightarrow> u32"

definition AF_INET :: int where "AF_INET = 2"
definition SOCK_STREAM :: int where "SOCK_STREAM = 1"
definition IPPROTO_TCP :: int where "IPPROTO_TCP = 6"
definition SO_REUSEADDR :: int where "SO_REUSEADDR = 2"
definition O_NDELAY :: u32 where "O_NDELAY = 0x800"

definition SetNonBlock :: "'k os \<Rightarrow> int \<Rightarrow> 'k sys \<Rightarrow> (int \<times> 'k sys) option" where
  "SetNonBlock os iSock s = do {
     (iFlags, s) \<leftarrow> hook_fcntl os iSock F_GETFL 0 s;
     let iFlags = (word_of_int iFlags :: u32) OR O_NONBLOCK;
     let iFlags = iFlags OR O_NDELAY;
     hook_fcntl os iSock F_SETFL (ucast iFlags) s }"

text \<open>
  The bytes of a \<open>struct sockaddr_in\<close>: the family as a little-endian 16-bit number, the port in network
  byte order, the address as \<open>inet_addr\<close> gives it, eight zeros.
\<close>

definition SetAddr :: "(string \<Rightarrow> u32) \<Rightarrow> string option \<Rightarrow> 16 word \<Rightarrow> byte list" where
  "SetAddr inet pszIP shPort = (
     let nIP = (case pszIP of None \<Rightarrow> 0
       | Some ip \<Rightarrow> if ip = [] \<or> ip = ''0'' \<or> ip = ''0.0.0.0'' \<or> ip = ''*'' then 0 else inet ip)
     in le_bytes 2 AF_INET @ [ucast (drop_bit 8 shPort), ucast shPort] @ le_bytes 4 (uint nIP) @ replicate 8 0)"

definition CreateTcpSocket ::
  "'k net \<Rightarrow> 16 word \<Rightarrow> string option \<Rightarrow> bool \<Rightarrow> 'k sys \<Rightarrow> (int \<times> 'k sys) option" where
  "CreateTcpSocket net shPort pszIP bReuse s = do {
     (fd, s) \<leftarrow> hook_socket (net_os net) AF_INET SOCK_STREAM IPPROTO_TCP s;
     if fd \<ge> 0 \<and> shPort \<noteq> 0 then do {
       s \<leftarrow> (if bReuse
            then map_option snd (hook_setsockopt (net_os net) fd SOL_SOCKET SO_REUSEADDR (le_bytes 4 1) s)
            else Some s);
       let addr = SetAddr (inet_addr net) pszIP shPort;
       let (ret, s) = call (sys_bind net fd addr) s;
       if ret \<noteq> 0 then do { (_, s) \<leftarrow> hook_close (net_os net) fd s; Some (- 1, s) }
       else Some (fd, s) }
     else Some (fd, s) }"

section \<open>Descriptors\<close>

text \<open>
  \<open>opn\<close> are the descriptors a program has opened and not closed. What the kernel documents: a new descriptor
  is not one that is open, and fits the table of the hooks; \<open>close\<close> closes, and no other call opens or closes any.
\<close>

definition leaves :: "('k \<Rightarrow> int \<Rightarrow> bool) \<Rightarrow> ('k, 'r) syscall \<Rightarrow> bool" where
  "leaves opn f \<longleftrightarrow> (\<forall>k. case f k of (r, e, k') \<Rightarrow> opn k' = opn k)"

definition opens :: "('k \<Rightarrow> int \<Rightarrow> bool) \<Rightarrow> ('k, int) syscall \<Rightarrow> bool" where
  "opens opn f \<longleftrightarrow> (\<forall>k. case f k of (r, e, k') \<Rightarrow>
     if 0 \<le> r then r < fd_slots \<and> \<not> opn k r \<and> opn k' = (opn k)(r := True) else opn k' = opn k)"

definition closes :: "('k \<Rightarrow> int \<Rightarrow> bool) \<Rightarrow> int \<Rightarrow> ('k, int) syscall \<Rightarrow> bool" where
  "closes opn fd f \<longleftrightarrow> (\<forall>k. case f k of (r, e, k') \<Rightarrow> opn k' = (opn k)(fd := False))"

definition net_ok :: "'k net \<Rightarrow> ('k \<Rightarrow> int \<Rightarrow> bool) \<Rightarrow> bool" where
  "net_ok net opn \<longleftrightarrow> (\<forall>k fd. opn k fd \<longrightarrow> 0 \<le> fd) \<and>
     (\<forall>a t p. opens opn (sys_socket (net_os net) a t p)) \<and> (\<forall>fd. opens opn (sys_accept (net_os net) fd)) \<and>
     (\<forall>fd. closes opn fd (sys_close (net_os net) fd)) \<and>
     (\<forall>fd arg. leaves opn (sys_fcntl (net_os net) fd F_GETFL arg)) \<and>
     (\<forall>fd arg. leaves opn (sys_fcntl (net_os net) fd F_SETFL arg)) \<and>
     (\<forall>fd a. leaves opn (sys_connect (net_os net) fd a)) \<and>
     (\<forall>fd. leaves opn (sys_getsockopt_error (net_os net) fd)) \<and>
     (\<forall>fd n. leaves opn (sys_read (net_os net) fd n)) \<and> (\<forall>fd b. leaves opn (sys_write (net_os net) fd b)) \<and>
     (\<forall>fd l nm v. leaves opn (sys_setsockopt (net_os net) fd l nm v)) \<and>
     (\<forall>fd a. leaves opn (sys_bind net fd a)) \<and> (\<forall>fd n. leaves opn (sys_listen net fd n)) \<and>
     (\<forall>fd. leaves opn (sys_getsockopt net fd))"

lemma net_okD:
  assumes "net_ok net opn"
  shows "opn k fd \<Longrightarrow> 0 \<le> fd" "opens opn (sys_socket (net_os net) a t p)" "opens opn (sys_accept (net_os net) fd)"
    "closes opn fd (sys_close (net_os net) fd)"
    "leaves opn (sys_fcntl (net_os net) fd F_GETFL arg)" "leaves opn (sys_fcntl (net_os net) fd F_SETFL arg)"
    "leaves opn (sys_connect (net_os net) fd ad)" "leaves opn (sys_getsockopt_error (net_os net) fd)"
    "leaves opn (sys_read (net_os net) fd n)" "leaves opn (sys_write (net_os net) fd b)"
    "leaves opn (sys_setsockopt (net_os net) fd l nm v)" "leaves opn (sys_bind net fd ad)"
    "leaves opn (sys_listen net fd q)" "leaves opn (sys_getsockopt net fd)"
  using assms by (simp_all add: net_ok_def)

text \<open>What a call of the program does to the descriptors, in a state whose coroutine has the hooks on or off.\<close>

definition keeps :: "('k \<Rightarrow> int \<Rightarrow> bool) \<Rightarrow> 'k sys \<Rightarrow> 'k sys \<Rightarrow> bool" where
  "keeps opn s s' \<longleftrightarrow> opn (kern s') = opn (kern s) \<and> hook_enabled s' = hook_enabled s"

lemma keeps_refl [simp]: "keeps opn s s"
  by (simp add: keeps_def)

lemma keeps_trans [trans]: "keeps opn s t \<Longrightarrow> keeps opn t u \<Longrightarrow> keeps opn s u"
  by (simp add: keeps_def)

lemma keepsD: "keeps opn s t \<Longrightarrow> opn (kern t) = opn (kern s)" "keeps opn s t \<Longrightarrow> hook_enabled t = hook_enabled s"
  by (simp_all add: keeps_def)

lemma keeps_set_hook [simp]: "keeps opn s (set_hook f fd t) \<longleftrightarrow> keeps opn s t"
  by (simp add: keeps_def hook_enabled_def)

lemma keeps_set_errno [simp]: "keeps opn s (set_errno e t) \<longleftrightarrow> keeps opn s t"
  by (simp add: keeps_def hook_enabled_def set_errno_def)

lemma hook_enabled_set_hook [simp]: "hook_enabled (set_hook f fd t) = hook_enabled t"
  by (simp add: hook_enabled_def)

lemma call_hook_enabled: "call f s = (r, s') \<Longrightarrow> hook_enabled s' = hook_enabled s"
  by (auto simp: call_def hook_enabled_def split: prod.splits option.splits)

lemma call_hooks: "call f s = (r, s') \<Longrightarrow> hooks s' = hooks s"
  by (auto simp: call_def split: prod.splits)

lemma call_leaves: "leaves opn f \<Longrightarrow> call f s = (r, s') \<Longrightarrow> keeps opn s s'"
  unfolding keeps_def
  by (intro conjI, force simp: leaves_def call_def split: prod.splits) (rule call_hook_enabled)

lemma call_opens: "opens opn f \<Longrightarrow> call f s = (r, s') \<Longrightarrow>
    (if 0 \<le> r then r < fd_slots \<and> \<not> opn (kern s) r \<and> opn (kern s') = (opn (kern s))(r := True)
     else opn (kern s') = opn (kern s))"
  by (drule spec [where x = "kern s", OF opens_def [THEN iffD1]]) (auto simp: call_def split: prod.splits)

lemma call_closes: "closes opn fd f \<Longrightarrow> call f s = (r, s') \<Longrightarrow> opn (kern s') = (opn (kern s))(fd := False)"
  by (drule spec [where x = "kern s", OF closes_def [THEN iffD1]]) (auto simp: call_def split: prod.splits)

lemma hook_fcntl_keeps:
  assumes K: "net_ok net opn" and cmd: "cmd = F_GETFL \<or> cmd = F_SETFL" and on: "hook_enabled s = Some b"
  obtains r s' where "hook_fcntl (net_os net) fd cmd a s = Some (r, s')" "keeps opn s s'"
proof (cases "hook_fcntl (net_os net) fd cmd a s")
  case None
  with cmd on show thesis by (auto simp: hook_fcntl_def hook_consts Let_def split: prod.splits if_splits)
next
  case (Some y)
  moreover obtain r s' where "y = (r, s')" by (cases y)
  moreover from this Some cmd on have "keeps opn s s'"
    by (auto simp: hook_fcntl_def hook_consts Let_def split: prod.splits if_splits
        dest: call_leaves [OF net_okD(5) [OF K, unfolded hook_consts]] call_leaves [OF net_okD(6) [OF K, unfolded hook_consts]])
  ultimately show thesis using that by blast
qed

lemma SetNonBlock_keeps:
  assumes K: "net_ok net opn" and on: "hook_enabled s = Some b"
  obtains r s' where "SetNonBlock (net_os net) fd s = Some (r, s')" "keeps opn s s'"
proof -
  obtain r s1 where 1: "hook_fcntl (net_os net) fd F_GETFL 0 s = Some (r, s1)" "keeps opn s s1"
    using hook_fcntl_keeps [OF K _ on] by blast
  let ?a = "ucast (((word_of_int r :: u32) OR O_NONBLOCK) OR O_NDELAY) :: u64"
  have on1: "hook_enabled s1 = Some b" using keepsD(2) [OF 1(2)] on by simp
  obtain q s2 where 2: "hook_fcntl (net_os net) fd F_SETFL ?a s1 = Some (q, s2)" "keeps opn s1 s2"
    using hook_fcntl_keeps [OF K _ on1] by blast
  from 1 2 show thesis by (intro that [of q s2]) (simp_all add: SetNonBlock_def keeps_trans)
qed

lemma hook_close_closes:
  assumes K: "net_ok net opn" and on: "hook_enabled s = Some b"
  obtains r s' where "hook_close (net_os net) fd s = Some (r, s')" "opn (kern s') = (opn (kern s))(fd := False)"
    "hook_enabled s' = Some b"
proof -
  define t where "t = (if b then free_by_fd fd s else s)"
  have t: "kern t = kern s" "hook_enabled t = Some b"
    using on by (auto simp: t_def free_by_fd_def hook_enabled_def split: option.splits)
  obtain r s' where c: "call (sys_close (net_os net) fd) t = (r, s')" by fastforce
  have "hook_close (net_os net) fd s = Some (r, s')"
    using on c by (auto simp: hook_close_def t_def)
  with that show thesis
    using call_closes [OF net_okD(4) [OF K] c] call_hook_enabled [OF c] t by simp
qed

lemma hook_socket_opens:
  assumes K: "net_ok net opn" and on: "hook_enabled s = Some b"
  obtains r s' where "hook_socket (net_os net) a t p s = Some (r, s')" "hook_enabled s' = Some b"
    "if 0 \<le> r then r < fd_slots \<and> \<not> opn (kern s) r \<and> opn (kern s') = (opn (kern s))(r := True)
     else opn (kern s') = opn (kern s)"
    "fst (sys_socket (net_os net) a t p (kern s)) = r"
proof -
  obtain r s1 where c: "call (sys_socket (net_os net) a t p) s = (r, s1)" by fastforce
  note o = call_opens [OF net_okD(2) [OF K] c] and h = call_hook_enabled [OF c]
  have res: "fst (sys_socket (net_os net) a t p (kern s)) = r" using c by (auto simp: call_def split: prod.splits)
  show thesis
  proof (cases "b \<and> 0 \<le> r")
    case False
    with c on have "hook_socket (net_os net) a t p s = Some (r, s1)" by (auto simp: hook_socket_def)
    with that o h on res show thesis by simp
  next
    case True
    with o have r: "r < fd_slots" by simp
    let ?s2 = "set_hook (domain_update (\<lambda>_. a)) r (s1\<lparr>hooks := (hooks s1)(r \<mapsto> new_rpchook)\<rparr>)"
    obtain fl s3 where f: "call (sys_fcntl (net_os net) r F_GETFL (Some 0)) ?s2 = (fl, s3)" by fastforce
    note k3 = call_leaves [OF net_okD(5) [OF K] f]
    have on3: "hook_enabled s3 = Some b"
      using call_hook_enabled [OF f] h on by (simp add: hook_enabled_def)
    obtain q s4 where s4: "hook_fcntl (net_os net) r F_SETFL (word_of_int fl) s3 = Some (q, s4)" "keeps opn s3 s4"
      using hook_fcntl_keeps [OF K _ on3] by blast
    have "hook_socket (net_os net) a t p s = Some (r, s4)"
      using True r c f s4(1) on by (simp add: hook_socket_def alloc_by_fd_def)
    moreover have "opn (kern s4) = opn (kern s1)" "hook_enabled s4 = Some b"
      using keepsD [OF s4(2)] keepsD(1) [OF k3] on3 by simp_all
    ultimately show thesis using that [of r s4] o res by simp
  qed
qed

lemma hook_setsockopt_keeps:
  assumes K: "net_ok net opn" and on: "hook_enabled s = Some b" and nm: "nm = SO_REUSEADDR"
  obtains r s' where "hook_setsockopt (net_os net) fd l nm v s = Some (r, s')" "keeps opn s s'"
proof -
  obtain r s' where c: "call (sys_setsockopt (net_os net) fd l nm v) s = (r, s')" by fastforce
  have "hook_setsockopt (net_os net) fd l nm v s = Some (r, s')"
    using on c nm by (auto simp: hook_setsockopt_def hook_consts SO_REUSEADDR_def)
  with that call_leaves [OF net_okD(11) [OF K] c] show thesis by blast
qed

text \<open>A socket that cannot be bound is closed again.\<close>

lemma CreateTcpSocket_opens:
  assumes K: "net_ok net opn" and on: "hook_enabled s = Some b"
  obtains r s' where "CreateTcpSocket net port ip reuse s = Some (r, s')" "hook_enabled s' = Some b"
    "if 0 \<le> r then r < fd_slots \<and> \<not> opn (kern s) r \<and> opn (kern s') = (opn (kern s))(r := True)
     else opn (kern s') = opn (kern s)"
    "(\<forall>fd ad k. fst (sys_bind net fd ad k) = 0) \<Longrightarrow> fst (sys_socket (net_os net) AF_INET SOCK_STREAM IPPROTO_TCP (kern s)) = r"
proof -
  obtain fd s1 where 1: "hook_socket (net_os net) AF_INET SOCK_STREAM IPPROTO_TCP s = Some (fd, s1)"
    "hook_enabled s1 = Some b"
    "if 0 \<le> fd then fd < fd_slots \<and> \<not> opn (kern s) fd \<and> opn (kern s1) = (opn (kern s))(fd := True)
     else opn (kern s1) = opn (kern s)"
    "fst (sys_socket (net_os net) AF_INET SOCK_STREAM IPPROTO_TCP (kern s)) = fd"
    using hook_socket_opens [OF K on] .
  show thesis
  proof (cases "0 \<le> fd \<and> port \<noteq> 0")
    case False
    with 1 that [of fd s1] show thesis by (auto simp: CreateTcpSocket_def)
  next
    case True
    define so where "so = (if reuse then map_option snd
      (hook_setsockopt (net_os net) fd SOL_SOCKET SO_REUSEADDR (le_bytes 4 1) s1) else Some s1)"
    obtain s2 where s2: "so = Some s2" "keeps opn s1 s2"
    proof (cases reuse)
      case True
      then show thesis
        using hook_setsockopt_keeps [OF K 1(2) refl, of fd SOL_SOCKET "le_bytes 4 1"] that by (auto simp: so_def)
    next
      case False
      then show thesis using that by (simp add: so_def)
    qed
    obtain ret s3 where c: "call (sys_bind net fd (SetAddr (inet_addr net) ip port)) s2 = (ret, s3)" by fastforce
    have ret: "\<forall>fd ad k. fst (sys_bind net fd ad k) = 0 \<Longrightarrow> ret = 0"
      using c by (auto simp: call_def split: prod.splits) (metis fst_conv)
    have k3: "keeps opn s1 s3" using s2(2) call_leaves [OF net_okD(12) [OF K] c] by (rule keeps_trans)
    have run: "CreateTcpSocket net port ip reuse s =
        (if ret \<noteq> 0 then do { (_, s) \<leftarrow> hook_close (net_os net) fd s3; Some (- 1, s) } else Some (fd, s3))"
      using 1(1) True s2(1) c by (simp add: CreateTcpSocket_def so_def [symmetric])
    show thesis
    proof (cases "ret = 0")
      case True
      with run have "CreateTcpSocket net port ip reuse s = Some (fd, s3)" by simp
      from that [OF this] 1 keepsD [OF k3] show thesis by simp
    next
      case False
      have on3: "hook_enabled s3 = Some b" using keepsD(2) [OF k3] 1(2) by simp
      obtain q s4 where s4: "hook_close (net_os net) fd s3 = Some (q, s4)"
        "opn (kern s4) = (opn (kern s3))(fd := False)" "hook_enabled s4 = Some b"
        using hook_close_closes [OF K on3] .
      have "opn (kern s4) = opn (kern s)"
        using s4(2) keepsD(1) [OF k3] 1(3) True by (simp add: fun_eq_iff)
      moreover have "CreateTcpSocket net port ip reuse s = Some (- 1, s4)" using run False s4(1) by simp
      moreover have "\<not> (\<forall>fd ad k. fst (sys_bind net fd ad k) = 0)" using ret False by blast
      ultimately show thesis by (intro that [of "- 1" s4]) (use s4(3) in auto)
    qed
  qed
qed

section \<open>Waiting\<close>

text \<open>
  What the programs rely on while they wait in \<open>poll\<close>: it answers every descriptor asked for, reports no more
  than those, and what the other coroutines do meanwhile is not done to the descriptors of this one.
\<close>

definition poll_ok :: "'k poll_fun \<Rightarrow> ('k \<Rightarrow> int \<Rightarrow> bool) \<Rightarrow> bool" where
  "poll_ok pollf opn \<longleftrightarrow> (\<forall>pfds t s. hook_enabled s \<noteq> None \<longrightarrow> (case pollf pfds t s of None \<Rightarrow> False
     | Some (r, pfds', s') \<Rightarrow> map pfd pfds' = map pfd pfds \<and> r \<le> int (length pfds) \<and> keeps opn s s'))"

lemma poll_okE:
  assumes "poll_ok pollf opn" "hook_enabled s = Some b"
  obtains r pfds' s' where "pollf pfds t s = Some (r, pfds', s')" "map pfd pfds' = map pfd pfds"
    "r \<le> int (length pfds)" "keeps opn s s'"
  using assms unfolding poll_ok_def by (fastforce split: option.splits)

lemma poll_one_keeps:
  assumes "poll_ok pollf opn" "hook_enabled s = Some b"
  obtains r ev s' where "poll_one pollf fd e t s = Some (r, ev, s')" "keeps opn s s'"
proof -
  obtain r pfds' s' where p: "pollf [\<lparr>pfd = fd, pevents = e, prevents = 0\<rparr>] t s = Some (r, pfds', s')"
    "map pfd pfds' = map pfd [\<lparr>pfd = fd, pevents = e, prevents = 0\<rparr>]" "keeps opn s s'"
    using poll_okE [OF assms] by metis
  from p(2) have "pfds' \<noteq> []" by auto
  with p show thesis by (intro that [of r "prevents (hd pfds')" s']) (simp_all add: poll_one_def)
qed

lemma connect_wait_keeps:
  assumes P: "poll_ok pollf opn"
  shows "hook_enabled s = Some b \<Longrightarrow> \<exists>ev s'. connect_wait pollf n fd rv s = Some (ev, s') \<and> keeps opn s s'"
proof (induction n arbitrary: rv s)
  case 0
  then show ?case by simp
next
  case (Suc n)
  obtain r ev s1 where p: "poll_one pollf fd POLL_WRITE 25000 s = Some (r, ev, s1)" "keeps opn s s1"
    using poll_one_keeps [OF P Suc.prems] .
  have "hook_enabled s1 = Some b" using keepsD(2) [OF p(2)] Suc.prems by simp
  from Suc.IH [OF this, of ev] p show ?case by (auto intro: keeps_trans)
qed

lemma hook_connect_keeps:
  assumes K: "net_ok net opn" and P: "poll_ok pollf opn" and on: "hook_enabled s = Some b"
  obtains r s' where "hook_connect (net_os net) pollf fd ad s = Some (r, s')" "keeps opn s s'"
proof -
  obtain ret s1 where c: "call (sys_connect (net_os net) fd ad) s = (ret, s1)" by fastforce
  note k1 = call_leaves [OF net_okD(7) [OF K] c]
  show thesis
  proof (cases "b \<and> get_by_fd fd s1 \<noteq> None")
    case False
    with c on have "hook_connect (net_os net) pollf fd ad s = Some (ret, s1)" by (auto simp: hook_connect_def)
    then show thesis using k1 by (rule that)
  next
    case True
    then obtain lp where lp: "get_by_fd fd s1 = Some lp" by auto
    define s2 where "s2 = (if length ad \<le> 16
       then set_hook (dest_update (\<lambda>d. ad @ drop (length ad) d)) fd s1 else s1)"
    have k2: "keeps opn s s2" using k1 by (simp add: s2_def)
    then have on2: "hook_enabled s2 = Some b" using keepsD(2) on by fastforce
    obtain ev s3 where w: "connect_wait pollf 3 fd 0 s2 = Some (ev, s3)" "keeps opn s2 s3"
      using connect_wait_keeps [OF P on2] by blast
    obtain er s4 where g: "call (sys_getsockopt_error (net_os net) fd) s3 = (er, s4)" by fastforce
    have k3: "keeps opn s s3" using k2 w(2) by (rule keeps_trans)
    have k4: "keeps opn s s4" using k3 call_leaves [OF net_okD(8) [OF K] g] by (rule keeps_trans)
    have "hook_connect (net_os net) pollf fd ad s = (
        if O_NONBLOCK AND user_flag lp \<noteq> 0 then Some (ret, s2)
        else if \<not> (ret < 0 \<and> errno (hp s2) = EINPROGRESS) then Some (ret, s2)
        else if ev AND POLLOUT \<noteq> 0 then Some (0, set_errno 0 s3)
        else Some (ret, set_errno (if er \<noteq> 0 then er else ETIMEDOUT) s4))"
      using True c lp on w(1) g by (simp add: hook_connect_def s2_def [symmetric])
    then show thesis
      using k2 k3 k4 by (cases "O_NONBLOCK AND user_flag lp \<noteq> 0";
        cases "ret < 0 \<and> errno (hp s2) = EINPROGRESS"; cases "ev AND POLLOUT \<noteq> 0")
        (auto intro: that)
  qed
qed

section \<open>A kernel for the witnesses\<close>

text \<open>
  The kernel is the list of the open descriptors, three sockets at most. A connection can be accepted when there is
  none on descriptor 4. Every \<open>read\<close> gives \<open>rd\<close>, \<open>write\<close> takes \<open>wr\<close> bytes at most.
\<close>

definition demo_free :: "int list \<Rightarrow> int \<times> int option \<times> int list" where
  "demo_free k = (if 3 \<notin> set k then (3, None, 3 # k) else if 4 \<notin> set k then (4, None, 4 # k)
     else if 5 \<notin> set k then (5, None, 5 # k) else (- 1, Some 24, k))"

definition demo_open :: "int list \<Rightarrow> int \<Rightarrow> bool" where
  "demo_open k fd \<longleftrightarrow> 0 \<le> fd \<and> fd \<in> set k"

definition demo_net :: "(int \<times> byte list) \<times> int option \<Rightarrow> nat \<Rightarrow> int list net" where
  "demo_net rd wr = \<lparr>net_os = \<lparr>
     sys_socket = (\<lambda>a b c. demo_free),
     sys_accept = (\<lambda>fd k. if 4 \<in> set k then (- 1, Some EAGAIN, k) else (4, None, 4 # k)),
     sys_connect = (\<lambda>fd addr k. (- 1, Some EINPROGRESS, k)),
     sys_getsockopt_error = (\<lambda>fd k. (0, None, k)),
     sys_close = (\<lambda>fd k. (0, None, filter (\<lambda>f. f \<noteq> fd) k)),
     sys_read = (\<lambda>fd n k. (fst rd, snd rd, k)),
     sys_write = (\<lambda>fd bs k. (int (min wr (length bs)), None, k)),
     sys_sendto = (\<lambda>fd bs fl to k. (0, None, k)),
     sys_recvfrom = (\<lambda>fd n fl k. ((0, [], []), None, k)),
     sys_send = (\<lambda>fd bs fl k. (0, None, k)),
     sys_recv = (\<lambda>fd n fl k. ((0, []), None, k)),
     sys_poll = (\<lambda>fds t k. ((0, fds), None, k)),
     sys_setsockopt = (\<lambda>fd lv nm v k. (0, None, k)),
     sys_fcntl = (\<lambda>fd cmd arg k. (0, None, k))\<rparr>,
   sys_bind = (\<lambda>fd ad k. (0, None, k)), sys_listen = (\<lambda>fd n k. (0, None, k)),
   sys_getsockopt = (\<lambda>fd k. ((0, 0), None, k)), inet_addr = (\<lambda>_. 0x0100007F)\<rparr>"

lemma demo_net_ok: "net_ok (demo_net rd wr) demo_open"
  by (auto simp: net_ok_def demo_net_def opens_def closes_def leaves_def demo_free_def demo_open_def
      fd_slots_def fun_eq_iff)

text \<open>The coroutine of \<open>HookIO\<close>, no descriptor open.\<close>

definition demo_fds :: "int list sys" where
  "demo_fds = \<lparr>hp = hp (demo_sys Map.empty), hooks = Map.empty, kern = []\<rparr>"

lemma demo_fds_enabled_now: "hook_enabled demo_fds = Some True"
  using demo_enabled [of Map.empty] by (simp add: hook_enabled_def demo_fds_def)

lemma demo_fds_enable: "co_enable_hook_sys (wd (hp demo_fds)) = Some (wd (hp demo_fds))"
  by (simp add: demo_fds_def demo_sys_def co_enable_hook_sys_def GetCurrThreadCo_def demo_loop_def
      co_get_curr_thread_env_def GetCurrCo_def call_at_def set_co_def)

lemma demo_fds_enabled: "co_is_enable_sys_hook (wd (hp demo_fds)) = Some True"
  using demo_fds_enabled_now by (simp add: hook_enabled_def)

text \<open>A \<open>poll\<close> that reports all.\<close>

definition demo_ready :: "'k poll_fun" where
  "demo_ready pfds t s = Some (int (length pfds), map (prevents_update (\<lambda>_. POLLOUT)) pfds, s)"

lemma demo_ready_ok: "poll_ok demo_ready opn"
  by (auto simp: poll_ok_def demo_ready_def comp_def)

end
