(* ===== verification/PollClient.thy ===== *)
theory PollClient
  imports Sockets
begin

text \<open>
  \<open>src/libco/example_poll.cpp\<close>: a coroutine that connects to a list of addresses without blocking and
  waits with \<open>poll\<close> until all connections are up or nothing has happened for a second.
\<close>

section \<open>The program\<close>

text \<open>The member \<open>co\<close> is never used.\<close>

record task_t =
  task_fd :: int
  task_addr :: "byte list"

text \<open>
  The first loop: a descriptor for every task, made non-blocking, and a \<open>connect\<close> whose result is only
  printed.
\<close>

fun open_tasks :: "'k net \<Rightarrow> 'k poll_fun \<Rightarrow> task_t list \<Rightarrow> 'k sys \<Rightarrow> (task_t list \<times> 'k sys) option" where
  "open_tasks net pollf [] s = Some ([], s)"
| "open_tasks net pollf (t # ts) s = do {
     (fd, s) \<leftarrow> CreateTcpSocket net 0 (Some ''*'') False s;
     (_, s) \<leftarrow> SetNonBlock (net_os net) fd s;
     let t = t\<lparr>task_fd := fd\<rparr>;
     (_, s) \<leftarrow> hook_connect (net_os net) pollf fd (task_addr t) s;
     (ts, s) \<leftarrow> open_tasks net pollf ts s;
     Some (t # ts, s) }"

text \<open>The array \<open>pf\<close> as \<open>calloc\<close> and the second loop leave it.\<close>

definition fill_pf :: "task_t list \<Rightarrow> pollfd list" where
  "fill_pf v = map (\<lambda>t. \<lparr>pfd = task_fd t, pevents = POLL_WRITE, prevents = 0\<rparr>) v"

text \<open>The loop behind \<open>poll\<close> that collects \<open>setRaiseFds\<close>; an index outside the array is \<open>None\<close>.\<close>

definition raise_fds :: "int \<Rightarrow> pollfd list \<Rightarrow> int set \<Rightarrow> int set option" where
  "raise_fds ret pf raised = do {
     require (nat ret \<le> length pf);
     Some (fold (\<lambda>i. insert (pfd (pf ! i))) [0..<nat ret] raised) }"

text \<open>The loop that moves the descriptors still waited for to the front of \<open>pf\<close>; the new \<open>iWaitCnt\<close>.\<close>

fun repack :: "int set \<Rightarrow> task_t list \<Rightarrow> pollfd list \<Rightarrow> nat \<Rightarrow> pollfd list \<times> nat" where
  "repack raised [] pf n = (pf, n)"
| "repack raised (t # ts) pf n =
    (if task_fd t \<in> raised then repack raised ts pf n
     else repack raised ts (pf[n := (pf ! n)\<lparr>pfd := task_fd t, pevents := POLL_WRITE\<rparr>]) (Suc n))"

partial_function (option) wait_loop ::
  "'k poll_fun \<Rightarrow> task_t list \<Rightarrow> pollfd list \<Rightarrow> nat \<Rightarrow> int set \<Rightarrow> 'k sys \<Rightarrow> (int set \<times> 'k sys) option" where
  "wait_loop pollf v pf iWaitCnt raised s = do {
     (ret, fs, s) \<leftarrow> pollf (take iWaitCnt pf) 1000 s;
     let pf = fs @ drop iWaitCnt pf;
     raised \<leftarrow> raise_fds ret pf raised;
     if card raised = length v then Some (raised, s)
     else if ret \<le> 0 then Some (raised, s)
     else (let (pf, n) = repack raised v pf 0 in wait_loop pollf v pf n raised s) }"

fun close_tasks :: "'k os \<Rightarrow> task_t list \<Rightarrow> 'k sys \<Rightarrow> (task_t list \<times> 'k sys) option" where
  "close_tasks os [] s = Some ([], s)"
| "close_tasks os (t # ts) s = do {
     (_, s) \<leftarrow> hook_close os (task_fd t) s;
     (ts, s) \<leftarrow> close_tasks os ts s;
     Some (t\<lparr>task_fd := - 1\<rparr> # ts, s) }"

text \<open>
  The routine: the tasks afterwards and \<open>setRaiseFds\<close>, the size of which it prints as the number of
  descriptors that fired.
\<close>

definition poll_routine ::
  "'k net \<Rightarrow> 'k poll_fun \<Rightarrow> task_t list \<Rightarrow> 'k sys \<Rightarrow> (task_t list \<times> int set \<times> 'k sys) option" where
  "poll_routine net pollf v s = do {
     w \<leftarrow> co_enable_hook_sys (wd (hp s));
     (v, s) \<leftarrow> open_tasks net pollf v (s\<lparr>hp := (hp s)\<lparr>wd := w\<rparr>\<rparr>);
     (raised, s) \<leftarrow> wait_loop pollf v (fill_pf v) (length v) {} s;
     (v, s) \<leftarrow> close_tasks (net_os net) v s;
     Some (v, raised, s) }"

section \<open>The descriptors\<close>

definition task_fds :: "task_t list \<Rightarrow> int set" where
  "task_fds v = task_fd ` set v"

lemma task_fds_simps [simp]: "task_fds [] = {}" "task_fds (t # ts) = insert (task_fd t) (task_fds ts)"
  "finite (task_fds v)"
  by (simp_all add: task_fds_def)

lemma open_tasks_opens:
  assumes K: "net_ok net opn" and P: "poll_ok pollf opn"
  shows "hook_enabled s = Some b \<Longrightarrow> \<exists>v' s'. open_tasks net pollf v s = Some (v', s') \<and> length v' = length v \<and>
    hook_enabled s' = Some b \<and> (\<forall>f \<in> task_fds v'. \<not> opn (kern s) f) \<and>
    (\<forall>f. opn (kern s') f \<longleftrightarrow> opn (kern s) f \<or> 0 \<le> f \<and> f \<in> task_fds v')"
proof (induction v arbitrary: s)
  case Nil
  then show ?case by simp
next
  case (Cons t ts)
  obtain fd s1 where 1: "CreateTcpSocket net 0 (Some ''*'') False s = Some (fd, s1)" "hook_enabled s1 = Some b"
    "if 0 \<le> fd then fd < fd_slots \<and> \<not> opn (kern s) fd \<and> opn (kern s1) = (opn (kern s))(fd := True)
     else opn (kern s1) = opn (kern s)"
    using CreateTcpSocket_opens [OF K Cons.prems] .
  obtain r s2 where 2: "SetNonBlock (net_os net) fd s1 = Some (r, s2)" "keeps opn s1 s2"
    using SetNonBlock_keeps [OF K 1(2)] .
  have on2: "hook_enabled s2 = Some b" using keepsD(2) [OF 2(2)] 1(2) by simp
  obtain q s3 where 3: "hook_connect (net_os net) pollf fd (task_addr (t\<lparr>task_fd := fd\<rparr>)) s2 = Some (q, s3)"
    "keeps opn s2 s3"
    using hook_connect_keeps [OF K P on2] .
  have k3: "keeps opn s1 s3" using 2(2) 3(2) by (rule keeps_trans)
  have on3: "hook_enabled s3 = Some b" using keepsD(2) [OF k3] 1(2) by simp
  obtain v' s4 where 4: "open_tasks net pollf ts s3 = Some (v', s4)" "length v' = length ts"
    "hook_enabled s4 = Some b" "\<forall>f \<in> task_fds v'. \<not> opn (kern s3) f"
    "\<And>f. opn (kern s4) f \<longleftrightarrow> opn (kern s3) f \<or> 0 \<le> f \<and> f \<in> task_fds v'"
    using Cons.IH [OF on3] by blast
  have o: "opn (kern s3) f \<longleftrightarrow> opn (kern s) f \<or> 0 \<le> f \<and> f = fd" for f
    using 1(3) keepsD(1) [OF k3] by (auto split: if_splits)
  have "\<not> opn (kern s) fd" using 1(3) net_okD(1) [OF K] by (meson not_le)
  with 1 2 3 4 o show ?case by (auto simp: Let_def)
qed

lemma close_tasks_closes:
  assumes K: "net_ok net opn"
  shows "hook_enabled s = Some b \<Longrightarrow> \<exists>v' s'. close_tasks (net_os net) v s = Some (v', s') \<and>
    v' = map (task_fd_update (\<lambda>_. - 1)) v \<and> (\<forall>f. opn (kern s') f \<longleftrightarrow> opn (kern s) f \<and> f \<notin> task_fds v)"
proof (induction v arbitrary: s)
  case Nil
  then show ?case by simp
next
  case (Cons t ts)
  obtain r s1 where 1: "hook_close (net_os net) (task_fd t) s = Some (r, s1)"
    "opn (kern s1) = (opn (kern s))(task_fd t := False)" "hook_enabled s1 = Some b"
    using hook_close_closes [OF K Cons.prems] .
  from Cons.IH [OF 1(3)] 1(1,2) show ?case by auto
qed

section \<open>The loop\<close>

lemma fold_insert_image: "fold (\<lambda>x. insert (g x)) xs A = g ` set xs \<union> A"
  by (induction xs arbitrary: A) auto

lemma raise_fds_eq:
  assumes "nat ret \<le> n" "n \<le> length pf"
  shows "raise_fds ret pf raised = Some (set (map pfd (take (nat ret) pf)) \<union> raised)"
  using assms nth_image [of "nat ret" "map pfd pf"]
  by (simp add: raise_fds_def fold_insert_image take_map [symmetric] atLeast0LessThan image_image lessThan_def
      cong: image_cong_simp)

text \<open>Repacking keeps the array and puts exactly the descriptors that were not raised to its front.\<close>

lemma repack_eq:
  assumes "repack raised v pf n = (pf', m)" "n + length v \<le> length pf"
  shows "length pf' = length pf \<and>
    m = n + length (filter (\<lambda>t. task_fd t \<notin> raised) v) \<and>
    map pfd (take m pf') = map pfd (take n pf) @ map task_fd (filter (\<lambda>t. task_fd t \<notin> raised) v)"
  using assms
proof (induction v arbitrary: pf n)
  case Nil
  then show ?case by simp
next
  case (Cons t ts)
  show ?case
  proof (cases "task_fd t \<in> raised")
    case True
    with Cons.IH [of pf n] Cons.prems show ?thesis by auto
  next
    case False
    let ?pf = "pf[n := (pf ! n)\<lparr>pfd := task_fd t, pevents := POLL_WRITE\<rparr>]"
    have "map pfd (take (Suc n) ?pf) = map pfd (take n pf) @ [task_fd t]"
      using Cons.prems(2) by (simp add: take_Suc_conv_app_nth)
    with Cons.IH [of ?pf "Suc n"] Cons.prems False show ?thesis by auto
  qed
qed

lemma diff_shrinks: "N \<noteq> {} \<Longrightarrow> N \<subseteq> A - B \<Longrightarrow> A - (N \<union> B) \<subset> A - B"
  by blast

text \<open>
  Every turn that goes on raises a descriptor that was not raised: those offered to \<open>poll\<close> are the ones that
  are not in \<open>setRaiseFds\<close>.
\<close>

lemma wait_loop_returns:
  assumes P: "poll_ok pollf opn"
  shows "hook_enabled s = Some b \<Longrightarrow> map pfd (take n pf) = map task_fd (filter (\<lambda>t. task_fd t \<notin> raised) v) \<Longrightarrow>
    n \<le> length pf \<Longrightarrow> length pf = length v \<Longrightarrow> raised \<subseteq> task_fds v \<Longrightarrow>
    \<exists>raised' s'. wait_loop pollf v pf n raised s = Some (raised', s') \<and> raised' \<subseteq> task_fds v \<and> keeps opn s s'"
proof (induction "card (task_fds v - raised)" arbitrary: s n pf raised rule: less_induct)
  case less
  obtain ret fs s1 where p: "pollf (take n pf) 1000 s = Some (ret, fs, s1)"
    "map pfd fs = map pfd (take n pf)" "ret \<le> int (length (take n pf))" "keeps opn s s1"
    using poll_okE [OF P less.prems(1)] .
  let ?pf = "fs @ drop n pf"
  have fs: "length fs = n" using p(2) less.prems(3) map_eq_imp_length_eq [OF p(2)] by simp
  then have pf: "length ?pf = length v" "nat ret \<le> n" "n \<le> length ?pf"
    using less.prems(3,4) p(3) by auto
  let ?new = "set (map pfd (take (nat ret) ?pf))"
  let ?raised = "?new \<union> raised"
  have rf: "raise_fds ret ?pf raised = Some ?raised" by (rule raise_fds_eq [OF pf(2,3)])
  have "?new \<subseteq> set (map pfd (take n ?pf))"
    using pf(2) by (metis set_take_subset_set_take take_map)
  also have "\<dots> = task_fds v - raised"
    using p(2) fs less.prems(2) by (auto simp: task_fds_def)
  finally have new: "?new \<subseteq> task_fds v - raised" .
  then have sub: "?raised \<subseteq> task_fds v" using less.prems(5) by blast
  show ?case
  proof (cases "card ?raised = length v \<or> ret \<le> 0")
    case True
    then have "wait_loop pollf v pf n raised s = Some (?raised, s1)"
      using p(1) rf by (subst wait_loop.simps) auto
    with sub p(4) show ?thesis by blast
  next
    case False
    obtain pf' m where r: "repack ?raised v ?pf 0 = (pf', m)" by fastforce
    have step: "wait_loop pollf v pf n raised s = wait_loop pollf v pf' m ?raised s1"
      using p(1) rf False r by (subst wait_loop.simps) simp
    have "?new \<noteq> {}" using False pf by auto
    then have dec: "card (task_fds v - ?raised) < card (task_fds v - raised)"
      by (intro psubset_card_mono diff_shrinks new) simp_all
    have on1: "hook_enabled s1 = Some b" using keepsD(2) [OF p(4)] less.prems(1) by simp
    have "0 + length v \<le> length ?pf" using pf(1) by simp
    note rr = repack_eq [OF r this, unfolded take_0 list.map append_Nil add_0]
    have rp: "length pf' = length v" "m = length (filter (\<lambda>t. task_fd t \<notin> ?raised) v)"
      "map pfd (take m pf') = map task_fd (filter (\<lambda>t. task_fd t \<notin> ?raised) v)"
      using rr pf(1) by (elim conjE, simp only:)+
    have "m \<le> length pf'" using rp(1,2) by simp
    from less.hyps [OF dec on1 rp(3) this rp(1) sub] obtain raised' s' where
      "wait_loop pollf v pf' m ?raised s1 = Some (raised', s')" "raised' \<subseteq> task_fds v" "keeps opn s1 s'"
      by blast
    with step keeps_trans [OF p(4)] show ?thesis by auto
  qed
qed

text \<open>
  C31: termination. \<open>poll_routine\<close> returns, whatever \<open>poll\<close> reports, as long as \<open>poll\<close> itself returns and reports no
  more descriptors than it was asked for: each turn of its loop that goes on raises a descriptor that
  had not been raised. It then has closed every descriptor it opened, and no other, and what it reports as
  fired are descriptors of its tasks.
\<close>

theorem poll_routine_returns:
  assumes "net_ok net opn" "poll_ok pollf opn" "co_enable_hook_sys (wd (hp s)) = Some w"
    and "co_is_enable_sys_hook w = Some b"
  shows "\<exists>v' raised s'. poll_routine net pollf v s = Some (v', raised, s') \<and> opn (kern s') = opn (kern s) \<and>
    length v' = length v \<and> (\<forall>t \<in> set v'. task_fd t = - 1) \<and> card raised \<le> length v"
proof -
  let ?s = "s\<lparr>hp := (hp s)\<lparr>wd := w\<rparr>\<rparr>"
  have on: "hook_enabled ?s = Some b" using assms(4) by (simp add: hook_enabled_def)
  obtain v1 s1 where 1: "open_tasks net pollf v ?s = Some (v1, s1)" "length v1 = length v"
    "hook_enabled s1 = Some b" "\<forall>f \<in> task_fds v1. \<not> opn (kern s) f"
    "\<And>f. opn (kern s1) f \<longleftrightarrow> opn (kern s) f \<or> 0 \<le> f \<and> f \<in> task_fds v1"
    using open_tasks_opens [OF assms(1,2) on, of v] by auto
  have fill: "map pfd (take (length v1) (fill_pf v1)) = map task_fd (filter (\<lambda>t. task_fd t \<notin> {}) v1)"
    "length (fill_pf v1) = length v1"
    by (simp_all add: fill_pf_def comp_def)
  obtain raised s2 where 2: "wait_loop pollf v1 (fill_pf v1) (length v1) {} s1 = Some (raised, s2)"
    "raised \<subseteq> task_fds v1" "keeps opn s1 s2"
    using wait_loop_returns [OF assms(2) 1(3) fill(1)] fill(2) by auto
  have on2: "hook_enabled s2 = Some b" using keepsD(2) [OF 2(3)] 1(3) by simp
  obtain v3 s3 where 3: "close_tasks (net_os net) v1 s2 = Some (v3, s3)"
    "v3 = map (task_fd_update (\<lambda>_. - 1)) v1" "\<And>f. opn (kern s3) f \<longleftrightarrow> opn (kern s2) f \<and> f \<notin> task_fds v1"
    using close_tasks_closes [OF assms(1) on2, of v1] by blast
  have "opn (kern s3) f \<longleftrightarrow> opn (kern s) f" for f
    using 1(4,5) 3(3) keepsD(1) [OF 2(3)] by auto
  moreover have "card raised \<le> length v"
    using card_mono [OF _ 2(2)] card_image_le [of "set v1" task_fd] card_length [of v1] 1(2)
    by (simp add: task_fds_def)
  ultimately show ?thesis
    using assms(3) 1(1,2) 2(1) 3(1,2) by (auto simp: poll_routine_def fun_eq_iff)
qed

section \<open>A run\<close>

definition demo_tasks :: "task_t list" where
  "demo_tasks = replicate 3 \<lparr>task_fd = 0, task_addr = SetAddr (\<lambda>_. 0x0100007F) (Some ''127.0.0.1'') 12365\<rparr>"

theorem poll_routine_returns_witness:
  "\<exists>v' raised s'. poll_routine (demo_net ((0, []), None) 0) demo_ready demo_tasks demo_fds = Some (v', raised, s') \<and>
     demo_open (kern s') = demo_open (kern demo_fds) \<and> length v' = length demo_tasks \<and>
     (\<forall>t \<in> set v'. task_fd t = - 1) \<and> card raised \<le> length demo_tasks"
  by (rule poll_routine_returns [OF demo_net_ok demo_ready_ok demo_fds_enable demo_fds_enabled])

text \<open>
  The routine takes the first entries of the array for those that fired. \<open>poll\<close> returns how many entries
  have events, wherever they stand in the array; the loop inserts the descriptors of that many entries from the
  front without reading \<open>revents\<close>. Of two connections the second of which is up, while the first never has an
  event, it reports both as fired, and does not time out.
\<close>

theorem poll_routine_counts_silent:
  assumes first: "\<And>s. pollf [\<lparr>pfd = a, pevents = POLL_WRITE, prevents = 0\<rparr>, \<lparr>pfd = b, pevents = POLL_WRITE, prevents = 0\<rparr>] 1000 s =
      Some (1, [\<lparr>pfd = a, pevents = POLL_WRITE, prevents = 0\<rparr>, \<lparr>pfd = b, pevents = POLL_WRITE, prevents = POLLOUT\<rparr>], up s)"
    and second: "\<And>s. pollf [\<lparr>pfd = b, pevents = POLL_WRITE, prevents = 0\<rparr>] 1000 s =
      Some (1, [\<lparr>pfd = b, pevents = POLL_WRITE, prevents = POLLOUT\<rparr>], up s)"
    and "a \<noteq> b"
  shows "wait_loop pollf [\<lparr>task_fd = a, task_addr = x\<rparr>, \<lparr>task_fd = b, task_addr = y\<rparr>]
      (fill_pf [\<lparr>task_fd = a, task_addr = x\<rparr>, \<lparr>task_fd = b, task_addr = y\<rparr>]) 2 {} s = Some ({a, b}, up (up s))"
  using assms(3)
  by (subst wait_loop.simps, simp add: fill_pf_def first raise_fds_def)
    (subst wait_loop.simps, simp add: second raise_fds_def insert_commute)

definition demo_second :: "'k poll_fun" where
  "demo_second pfds t s = Some (1, map (\<lambda>p. if pfd p = 4 then p\<lparr>prevents := POLLOUT\<rparr> else p) pfds, s)"

theorem poll_routine_counts_silent_witness:
  "wait_loop demo_second [\<lparr>task_fd = 3, task_addr = []\<rparr>, \<lparr>task_fd = 4, task_addr = []\<rparr>]
      (fill_pf [\<lparr>task_fd = 3, task_addr = []\<rparr>, \<lparr>task_fd = 4, task_addr = []\<rparr>]) 2 {} demo_fds = Some ({3, 4}, demo_fds)"
  by (rule poll_routine_counts_silent [where up = "\<lambda>s. s"]) (simp_all add: demo_second_def)

end
