(* ===== verification/EchoServer.thy ===== *)
theory EchoServer
  imports Sockets
begin

text \<open>
  \<open>src/libco/example_echosvr.cpp\<close>: a coroutine that accepts connections, and a pool of coroutines each of which
  echoes one connection at a time.

  A coroutine gives up control in \<open>co_yield_ct\<close>, \<open>co_poll\<close> and \<open>poll\<close> only (its \<open>read\<close> and \<open>write\<close> go
  straight to the kernel, which is proved below). Each routine is the functions that run from one of these points to
  the next; the points where the coroutines stand are part of the state. What the library does at a switch
  is the subject of \<open>Threads\<close> and \<open>System\<close>.
\<close>

section \<open>State\<close>

text \<open>A coroutine is named by its task, so that the member \<open>co\<close> is not needed.\<close>

record task_t =
  task_fd :: int

text \<open>Where a coroutine of the pool stands: \<open>co_yield_ct\<close>, or \<open>co_poll\<close> with its local \<open>fd\<close>.\<close>

datatype point = AtYield | AtPoll int

text \<open>\<open>accept_routine\<close>: at the head of its loop, in the \<open>poll\<close> that sleeps, in \<open>co_poll\<close>.\<close>

datatype accept_point = AtLoop | AtSleep | AtAccept

record 'k server =
  sy :: "'k sys"
  tasks :: "addr \<rightharpoonup> task_t"
  g_readwrite :: "addr list"
  g_listen_fd :: int
  points :: "addr \<rightharpoonup> point"
  accepting :: accept_point

section \<open>The routines\<close>

text \<open>\<open>readwrite_routine\<close> from the head of its outer loop.\<close>

definition take_task :: "addr \<Rightarrow> 'k server \<Rightarrow> 'k server option" where
  "take_task t sv = do {
     co \<leftarrow> tasks sv t;
     if task_fd co = - 1
     then Some (sv\<lparr>g_readwrite := t # g_readwrite sv, points := (points sv)(t \<mapsto> AtYield)\<rparr>)
     else Some (sv\<lparr>tasks := (tasks sv)(t \<mapsto> co\<lparr>task_fd := - 1\<rparr>), points := (points sv)(t \<mapsto> AtPoll (task_fd co))\<rparr>) }"

text \<open>The rest of the inner loop, when \<open>co_poll\<close> has returned.\<close>

definition echo :: "'k net \<Rightarrow> 'k poll_fun \<Rightarrow> addr \<Rightarrow> int \<Rightarrow> 'k server \<Rightarrow> 'k server option" where
  "echo net pollf t fd sv = do {
     ((ret, buf), s) \<leftarrow> hook_read (net_os net) pollf fd (1024 * 16) (sy sv);
     (ret, s) \<leftarrow> (if ret > 0 then hook_write (net_os net) pollf fd (take (nat ret) buf) s else Some (ret, s));
     if ret \<le> 0 then
       if errno (hp s) = EAGAIN then Some (sv\<lparr>sy := s, points := (points sv)(t \<mapsto> AtPoll fd)\<rparr>)
       else do {
         (_, s) \<leftarrow> hook_close (net_os net) fd s;
         take_task t (sv\<lparr>sy := s\<rparr>) }
     else Some (sv\<lparr>sy := s, points := (points sv)(t \<mapsto> AtPoll fd)\<rparr>) }"

text \<open>A resumption of the coroutine of a task, the first one included.\<close>

definition run_task :: "'k net \<Rightarrow> 'k poll_fun \<Rightarrow> addr \<Rightarrow> 'k server \<Rightarrow> 'k server option" where
  "run_task net pollf t sv = (case points sv t of
       Some (AtPoll fd) \<Rightarrow> echo net pollf t fd sv
     | _ \<Rightarrow> take_task t sv)"

text \<open>One turn of the loop of \<open>accept_routine\<close>, \<open>co_resume\<close> of the coroutine it hands a connection to included.\<close>

definition accept_turn :: "'k net \<Rightarrow> 'k poll_fun \<Rightarrow> 'k server \<Rightarrow> 'k server option" where
  "accept_turn net pollf sv = (
     if g_readwrite sv = [] then Some (sv\<lparr>accepting := AtSleep\<rparr>)
     else let (fd, s) = co_accept (net_os net) (g_listen_fd sv) (sy sv); sv = sv\<lparr>sy := s\<rparr> in
       if fd < 0 then Some (sv\<lparr>accepting := AtAccept\<rparr>)
       else (case g_readwrite sv of
         [] \<Rightarrow> do { (_, s) \<leftarrow> hook_close (net_os net) fd s; Some (sv\<lparr>sy := s, accepting := AtLoop\<rparr>) }
       | t # ts \<Rightarrow> do {
           (_, s) \<leftarrow> SetNonBlock (net_os net) fd s;
           co \<leftarrow> tasks sv t;
           sv \<leftarrow> run_task net pollf t
             (sv\<lparr>sy := s, tasks := (tasks sv)(t \<mapsto> co\<lparr>task_fd := fd\<rparr>), g_readwrite := ts\<rparr>);
           Some (sv\<lparr>accepting := AtLoop\<rparr>) }))"

section \<open>\<open>main\<close>\<close>

text \<open>The loop that creates the pool: \<open>n\<close> tasks, the first at address \<open>a\<close>, and starts its coroutines.\<close>

primrec spawn_tasks :: "'k net \<Rightarrow> 'k poll_fun \<Rightarrow> nat \<Rightarrow> addr \<Rightarrow> 'k server \<Rightarrow> 'k server option" where
  "spawn_tasks net pollf 0 a sv = Some sv"
| "spawn_tasks net pollf (Suc n) a sv = do {
     sv \<leftarrow> run_task net pollf a (sv\<lparr>tasks := (tasks sv)(a \<mapsto> \<lparr>task_fd = - 1\<rparr>)\<rparr>);
     spawn_tasks net pollf n (Suc a) sv }"

text \<open>The results of \<open>fork\<close> in this process: is it a child?\<close>

fun fork_loop :: "int list \<Rightarrow> bool" where
  "fork_loop [] = False"
| "fork_loop (pid # pids) = (if pid > 0 then fork_loop pids else if pid < 0 then False else True)"

text \<open>
  \<open>main\<close> after the arguments have been converted: \<open>Inl\<close> its result, or \<open>Inr\<close> the state in which
  \<open>accept_routine\<close> starts. \<open>pids\<close> are the results of \<open>fork\<close>, one for each of the \<open>proccnt\<close> turns this process
  runs; \<open>wait\<close>, which only delays the parent, is left out.
\<close>

definition echosvr_main ::
  "'k net \<Rightarrow> 'k poll_fun \<Rightarrow> string \<Rightarrow> int \<Rightarrow> int \<Rightarrow> int list \<Rightarrow> 'k sys \<Rightarrow> (int + 'k server) option" where
  "echosvr_main net pollf ip port cnt pids s = do {
     (fd, s) \<leftarrow> CreateTcpSocket net (word_of_int port) (Some ip) True s;
     let (_, s) = call (sys_listen net fd 1024) s;
     if fd = - 1 then Some (Inl (- 1))
     else do {
       (_, s) \<leftarrow> SetNonBlock (net_os net) fd s;
       if fork_loop pids then map_option Inr (spawn_tasks net pollf (nat cnt) 0
         \<lparr>sy = s, tasks = Map.empty, g_readwrite = [], g_listen_fd = fd, points = Map.empty, accepting = AtLoop\<rparr>)
       else Some (Inl 0) } }"

section \<open>Runs\<close>

text \<open>
  The event loop resumes the coroutines that poll; between two turns it, the network and the rest of the process
  change the kernel, \<open>errno\<close> and the library's state, but open and close no descriptor of the server. Each
  coroutine has called \<open>co_enable_hook_sys\<close> when it started.
\<close>

inductive server_step :: "'k net \<Rightarrow> 'k poll_fun \<Rightarrow> ('k \<Rightarrow> int \<Rightarrow> bool) \<Rightarrow> 'k server \<Rightarrow> 'k server \<Rightarrow> bool"
  for net :: "'k net" and pollf opn where
  accept: "accepting sv = AtLoop \<Longrightarrow> hook_enabled (sy sv) = Some True \<Longrightarrow> accept_turn net pollf sv = Some sv' \<Longrightarrow>
     server_step net pollf opn sv sv'"
| wake_accept: "accepting sv \<noteq> AtLoop \<Longrightarrow> server_step net pollf opn sv (sv\<lparr>accepting := AtLoop\<rparr>)"
| wake_task: "points sv t = Some (AtPoll fd) \<Longrightarrow> hook_enabled (sy sv) = Some True \<Longrightarrow>
     run_task net pollf t sv = Some sv' \<Longrightarrow> server_step net pollf opn sv sv'"
| others: "hooks s' = hooks (sy sv) \<Longrightarrow> opn (kern s') = opn (kern (sy sv)) \<Longrightarrow>
     server_step net pollf opn sv (sv\<lparr>sy := s'\<rparr>)"

section \<open>The invariant\<close>

text \<open>
  \<open>base\<close> are the descriptors that were open at the start. Every coroutine of the pool either waits in the stack
  \<open>g_readwrite\<close>, once, or serves a connection; the descriptors that are served are exactly those opened
  since, each by one coroutine, and not hooked.
\<close>

definition server_ok :: "('k \<Rightarrow> int \<Rightarrow> bool) \<Rightarrow> (int \<Rightarrow> bool) \<Rightarrow> 'k server \<Rightarrow> bool" where
  "server_ok opn base sv \<longleftrightarrow>
     distinct (g_readwrite sv) \<and> (\<forall>t. t \<in> set (g_readwrite sv) \<longleftrightarrow> points sv t = Some AtYield) \<and>
     (\<forall>t. points sv t \<noteq> None \<longleftrightarrow> tasks sv t = Some \<lparr>task_fd = - 1\<rparr>) \<and>
     (\<forall>t u f. points sv t = Some (AtPoll f) \<longrightarrow> points sv u = Some (AtPoll f) \<longrightarrow> t = u) \<and>
     (\<forall>f. opn (kern (sy sv)) f \<longleftrightarrow> base f \<or> (\<exists>t. points sv t = Some (AtPoll f))) \<and>
     (\<forall>t f. points sv t = Some (AtPoll f) \<longrightarrow> 0 \<le> f \<and> \<not> base f \<and>
        get_by_fd f (sy sv) \<noteq> None \<and> unhooked (get_by_fd f (sy sv)))"

lemma server_okD:
  assumes "server_ok opn base sv"
  shows "distinct (g_readwrite sv)" "t \<in> set (g_readwrite sv) \<longleftrightarrow> points sv t = Some AtYield"
    "points sv t \<noteq> None \<longleftrightarrow> tasks sv t = Some \<lparr>task_fd = - 1\<rparr>"
    "points sv t = Some (AtPoll f) \<Longrightarrow> points sv u = Some (AtPoll f) \<Longrightarrow> t = u"
    "opn (kern (sy sv)) f \<longleftrightarrow> base f \<or> (\<exists>t. points sv t = Some (AtPoll f))"
    "points sv t = Some (AtPoll f) \<Longrightarrow> 0 \<le> f" "points sv t = Some (AtPoll f) \<Longrightarrow> \<not> base f"
    "points sv t = Some (AtPoll f) \<Longrightarrow> get_by_fd f (sy sv) \<noteq> None"
    "points sv t = Some (AtPoll f) \<Longrightarrow> unhooked (get_by_fd f (sy sv))"
  using assms unfolding server_ok_def by blast+

lemma server_okI:
  assumes "distinct (g_readwrite sv)" "\<And>t. t \<in> set (g_readwrite sv) \<longleftrightarrow> points sv t = Some AtYield"
    "\<And>t. points sv t \<noteq> None \<longleftrightarrow> tasks sv t = Some \<lparr>task_fd = - 1\<rparr>"
    "\<And>t u f. points sv t = Some (AtPoll f) \<Longrightarrow> points sv u = Some (AtPoll f) \<Longrightarrow> t = u"
    "\<And>f. opn (kern (sy sv)) f \<longleftrightarrow> base f \<or> (\<exists>t. points sv t = Some (AtPoll f))"
    "\<And>t f. points sv t = Some (AtPoll f) \<Longrightarrow> 0 \<le> f \<and> \<not> base f \<and>
        get_by_fd f (sy sv) \<noteq> None \<and> unhooked (get_by_fd f (sy sv))"
  shows "server_ok opn base sv"
  using assms unfolding server_ok_def by blast

lemma get_by_fd_cong: "hooks s = hooks s' \<Longrightarrow> get_by_fd f s = get_by_fd f s'"
  by (simp add: get_by_fd_def)

lemma server_ok_quiet:
  assumes "server_ok opn base sv" "hooks s' = hooks (sy sv)" "opn (kern s') = opn (kern (sy sv))"
  shows "server_ok opn base (sv\<lparr>sy := s'\<rparr>)"
proof -
  have "get_by_fd f s' = get_by_fd f (sy sv)" for f using assms(2) by (simp add: get_by_fd_def)
  with assms show ?thesis unfolding server_ok_def by simp
qed

lemma server_ok_accepting [simp]: "server_ok opn base (sv\<lparr>accepting := x\<rparr>) \<longleftrightarrow> server_ok opn base sv"
  by (simp add: server_ok_def)

text \<open>\<open>SetNonBlock\<close> on an open descriptor of the table takes it away from the hooks.\<close>

definition setfl_ok :: "'k net \<Rightarrow> ('k \<Rightarrow> int \<Rightarrow> bool) \<Rightarrow> bool" where
  "setfl_ok net opn \<longleftrightarrow> (\<forall>k fd arg. opn k fd \<longrightarrow> fst (sys_fcntl (net_os net) fd F_SETFL arg k) = 0)"

lemma SetNonBlock_unhooks:
  assumes K: "net_ok net opn" "setfl_ok net opn" and on: "hook_enabled s = Some True"
    and fd: "get_by_fd fd s = Some h" "opn (kern s) fd"
  obtains r s' h' where "SetNonBlock (net_os net) fd s = Some (r, s')" "opn (kern s') = opn (kern s)"
    "hooks s' = (hooks s)(fd \<mapsto> h')" "unhooked (Some h')" "hook_enabled s' = Some True"
proof -
  have range: "0 \<le> fd" "fd < fd_slots" "hooks s fd = Some h"
    using fd(1) by (auto simp: get_by_fd_def split: if_splits)
  obtain fl s1 where g: "call (sys_fcntl (net_os net) fd F_GETFL None) s = (fl, s1)" by fastforce
  note k1 = call_leaves [OF net_okD(5) [OF K(1)] g] and h1 = call_hooks [OF g]
  have on1: "hook_enabled s1 = Some True" using keepsD(2) [OF k1] on by simp
  define p where "p = ((word_of_int fl :: u32) OR O_NONBLOCK) OR O_NDELAY"
  have p: "ucast (ucast p :: u64) = p" by (rule bit_word_eqI) (simp add: bit_simps)
  let ?v = "ucast (p OR O_NONBLOCK) :: u64"
  obtain r s2 where c: "call (sys_fcntl (net_os net) fd F_SETFL (Some ?v)) s1 = (r, s2)" by fastforce
  note k2 = call_leaves [OF net_okD(6) [OF K(1)] c] and h2 = call_hooks [OF c]
  have "r = fst (sys_fcntl (net_os net) fd F_SETFL (Some ?v) (kern s1))"
    using c by (auto simp: call_def split: prod.splits)
  with K(2) fd(2) keepsD(1) [OF k1] have r: "r = 0" unfolding setfl_ok_def by simp
  have G: "hook_fcntl (net_os net) fd F_GETFL 0 s = Some (fl, s1)"
    using g range(1) by (simp add: hook_fcntl_def hook_consts Let_def)
  have lp: "get_by_fd fd s1 = Some h" using h1 range by (simp add: get_by_fd_def)
  have "hook_fcntl (net_os net) fd F_SETFL (ucast p) s1 = Some (0, set_hook (user_flag_update (\<lambda>_. p)) fd s2)"
    using c r on1 lp range(1) p by (simp add: hook_fcntl_def hook_consts Let_def)
  with G have run: "SetNonBlock (net_os net) fd s = Some (0, set_hook (user_flag_update (\<lambda>_. p)) fd s2)"
    by (simp add: SetNonBlock_def p_def Let_def)
  have "bit (O_NONBLOCK AND p) 11" by (simp add: p_def O_NONBLOCK_def O_NDELAY_def bit_simps)
  then have "O_NONBLOCK AND p \<noteq> 0" by auto
  then have "unhooked (Some (h\<lparr>user_flag := p\<rparr>))" by (simp add: unhooked_def)
  moreover have "hooks (set_hook (user_flag_update (\<lambda>_. p)) fd s2) = (hooks s)(fd \<mapsto> h\<lparr>user_flag := p\<rparr>)"
    using h1 h2 range(3) by simp
  moreover have "opn (kern s2) = opn (kern s)" "hook_enabled s2 = Some True"
    using keepsD [OF k1] keepsD [OF k2] on by simp_all
  ultimately show thesis by (intro that [OF run]) simp_all
qed

text \<open>\<open>co_accept\<close> enters a new descriptor into the table.\<close>

lemma co_accept_cases:
  assumes K: "net_ok net opn"
  obtains fd s' where "co_accept (net_os net) l s = (fd, s')" "fd < 0" "opn (kern s') = opn (kern s)"
      "hooks s' = hooks s" "hook_enabled s' = hook_enabled s"
  | fd s' where "co_accept (net_os net) l s = (fd, s')" "0 \<le> fd" "fd < fd_slots" "\<not> opn (kern s) fd"
      "opn (kern s') = (opn (kern s))(fd := True)" "hooks s' = (hooks s)(fd \<mapsto> new_rpchook)"
      "hook_enabled s' = hook_enabled s"
proof -
  obtain fd s1 where c: "call (sys_accept (net_os net) l) s = (fd, s1)" by fastforce
  note o = call_opens [OF net_okD(3) [OF K] c] and h = call_hooks [OF c] call_hook_enabled [OF c]
  show thesis
  proof (cases "fd < 0")
    case True
    with c have "co_accept (net_os net) l s = (fd, s1)" by (simp add: co_accept_def)
    from that(1) [OF this True] o h True show thesis by simp
  next
    case False
    with o have f: "0 \<le> fd" "fd < fd_slots" "\<not> opn (kern s) fd" "opn (kern s1) = (opn (kern s))(fd := True)"
      by simp_all
    let ?s = "s1\<lparr>hooks := (hooks s1)(fd \<mapsto> new_rpchook)\<rparr>"
    have "co_accept (net_os net) l s = (fd, ?s)" using c f by (simp add: co_accept_def alloc_by_fd_def)
    from that(2) [OF this f(1-3)] f(4) h show thesis by (simp add: hook_enabled_def)
  qed
qed

section \<open>The steps keep it\<close>

text \<open>A waiting coroutine gets a new connection; a serving one closes its own and waits.\<close>

lemma serve_ok:
  assumes I: "server_ok opn base sv" and t: "g_readwrite sv = t # ts" and fd: "0 \<le> fd" "fd < fd_slots"
    and new: "\<not> opn (kern (sy sv)) fd" "opn (kern s') = (opn (kern (sy sv)))(fd := True)"
    and tab: "hooks s' = (hooks (sy sv))(fd \<mapsto> h)" "unhooked (Some h)"
  shows "server_ok opn base (sv\<lparr>sy := s', g_readwrite := ts, points := (points sv)(t \<mapsto> AtPoll fd)\<rparr>)"
proof -
  note D = server_okD [OF I]
  have at: "points sv t = Some AtYield" "t \<notin> set ts" "distinct ts"
    using D(1,2) t by auto
  have free: "points sv u \<noteq> Some (AtPoll fd)" for u using D(5) new(1) by blast
  have ts: "u \<in> set ts \<longleftrightarrow> u \<noteq> t \<and> points sv u = Some AtYield" for u
    using D(2) [of u] t at(2) by auto
  have g: "get_by_fd f s' = (if f = fd then Some h else get_by_fd f (sy sv))" for f
    using tab(1) fd by (simp add: get_by_fd_def)
  have old: "get_by_fd f (sy sv) \<noteq> None" "unhooked (get_by_fd f (sy sv))" "0 \<le> f" "\<not> base f" "f \<noteq> fd"
    if "points sv u = Some (AtPoll f)" for u f
    using D(6-9) [OF that] that free by auto
  have pt: "((points sv)(t \<mapsto> AtPoll fd)) u = Some (AtPoll f) \<longleftrightarrow> points sv u = Some (AtPoll f) \<or> u = t \<and> f = fd" for u f
    using at(1) by auto
  have "opn (kern s') f \<longleftrightarrow> f = fd \<or> base f \<or> (\<exists>u. points sv u = Some (AtPoll f))" for f
    using D(5) [of f] new(2) by auto
  then have op: "opn (kern s') f \<longleftrightarrow> base f \<or> (\<exists>u. ((points sv)(t \<mapsto> AtPoll fd)) u = Some (AtPoll f))" for f
    unfolding pt by blast
  have nb: "\<not> base fd" using D(5) new(1) by blast
  have tk: "((points sv)(t \<mapsto> AtPoll fd)) u \<noteq> None \<longleftrightarrow> tasks sv u = Some \<lparr>task_fd = - 1\<rparr>" for u
    using D(3) [of u] at(1) by (cases "u = t") auto
  have pool: "u \<in> set ts \<longleftrightarrow> ((points sv)(t \<mapsto> AtPoll fd)) u = Some AtYield" for u
    using ts [of u] by simp
  have one: "u = v" if "((points sv)(t \<mapsto> AtPoll fd)) u = Some (AtPoll f)" "((points sv)(t \<mapsto> AtPoll fd)) v = Some (AtPoll f)" for u v f
    using that free D(4) unfolding pt by blast
  have new_old: "0 \<le> f \<and> \<not> base f \<and> get_by_fd f s' \<noteq> None \<and> unhooked (get_by_fd f s')"
    if "((points sv)(t \<mapsto> AtPoll fd)) u = Some (AtPoll f)" for u f
    using that old nb tab(2) fd(1) unfolding pt g by (cases "f = fd") auto
  show ?thesis
    by (rule server_okI; simp del: fun_upd_apply not_None_eq add: at(3) pool tk op)
      (blast intro: one, use new_old in blast)
qed

lemma retire_ok:
  assumes I: "server_ok opn base sv" and t: "points sv t = Some (AtPoll fd)"
    and cl: "opn (kern s') = (opn (kern (sy sv)))(fd := False)" "hooks s' = (hooks (sy sv))(fd := None)"
  shows "server_ok opn base (sv\<lparr>sy := s', g_readwrite := t # g_readwrite sv, points := (points sv)(t \<mapsto> AtYield)\<rparr>)"
proof -
  note D = server_okD [OF I]
  have nin: "t \<notin> set (g_readwrite sv)" using D(2) [of t] t by simp
  have other: "f \<noteq> fd" if "points sv u = Some (AtPoll f)" "u \<noteq> t" for u f
    using D(4) [OF t, of u] that by auto
  have g: "get_by_fd f s' = get_by_fd f (sy sv)" if "f \<noteq> fd" for f
    using cl(2) that by (simp add: get_by_fd_def)
  have op: "opn (kern s') f \<longleftrightarrow> base f \<or> (\<exists>u. ((points sv)(t \<mapsto> AtYield)) u = Some (AtPoll f))" for f
  proof (cases "f = fd")
    case True
    have "\<not> (\<exists>u. ((points sv)(t \<mapsto> AtYield)) u = Some (AtPoll fd))" using other by auto
    with True cl(1) D(7) [OF t] show ?thesis by simp
  next
    case False
    with t have "((points sv)(t \<mapsto> AtYield)) u = Some (AtPoll f) \<longleftrightarrow> points sv u = Some (AtPoll f)" for u by simp
    with cl(1) D(5) [of f] False show ?thesis by simp
  qed
  show ?thesis
    unfolding server_ok_def
    using D(1-4) nin op t other g D(6-9) by (auto split: if_splits)
qed

text \<open>
  A connection that is served is left to the kernel by the hooks: a turn of its coroutine contains no other
  switch.
\<close>

lemma echo_returns:
  assumes K: "net_ok net opn" and I: "server_ok opn base sv" and t: "points sv t = Some (AtPoll fd)"
    and on: "hook_enabled (sy sv) = Some True"
  obtains sv' where "echo net pollf t fd sv = Some sv'" "server_ok opn base sv'" "accepting sv' = accepting sv"
proof -
  note D = server_okD [OF I]
  have un: "unhooked (get_by_fd fd (sy sv))" by (rule D(9) [OF t])
  obtain ret buf s1 where r: "call (sys_read (net_os net) fd (1024 * 16)) (sy sv) = ((ret, buf), s1)"
    by (metis surj_pair)
  note k1 = call_leaves [OF net_okD(9) [OF K] r] and h1 = call_hooks [OF r]
  have read: "hook_read (net_os net) pollf fd (1024 * 16) (sy sv) = Some ((ret, buf), s1)"
    using on un r by (simp add: hook_read_def)
  have on1: "hook_enabled s1 = Some True" using keepsD(2) [OF k1] on by simp
  have un1: "unhooked (get_by_fd fd s1)" using un get_by_fd_cong [OF h1] by simp
  obtain w s2 where w: "(if ret > 0 then hook_write (net_os net) pollf fd (take (nat ret) buf) s1 else Some (ret, s1)) =
      Some (w, s2)" "keeps opn s1 s2" "hooks s2 = hooks s1"
  proof (cases "ret > 0")
    case True
    obtain w s2 where c: "call (sys_write (net_os net) fd (take (nat ret) buf)) s1 = (w, s2)" by fastforce
    have "hook_write (net_os net) pollf fd (take (nat ret) buf) s1 = Some (w, s2)"
      using on1 un1 c by (simp add: hook_write_def)
    with True show thesis using that call_leaves [OF net_okD(10) [OF K] c] call_hooks [OF c] by simp
  next
    case False
    then show thesis using that by simp
  qed
  have k2: "keeps opn (sy sv) s2" and h2: "hooks s2 = hooks (sy sv)"
    using keeps_trans [OF k1 w(2)] w(3) h1 by simp_all
  have same: "server_ok opn base (sv\<lparr>sy := s2, points := (points sv)(t \<mapsto> AtPoll fd)\<rparr>)"
    using server_ok_quiet [OF I h2 keepsD(1) [OF k2]] t by (simp add: fun_upd_idem)
  show thesis
  proof (cases "w \<le> 0 \<and> errno (hp s2) \<noteq> EAGAIN")
    case False
    then have "echo net pollf t fd sv = Some (sv\<lparr>sy := s2, points := (points sv)(t \<mapsto> AtPoll fd)\<rparr>)"
      using read w(1) by (auto simp: echo_def)
    from that [OF this same] show thesis by simp
  next
    case True
    have on2: "hook_enabled s2 = Some True" using keepsD(2) [OF k2] on by simp
    obtain q s3 where c: "call (sys_close (net_os net) fd) (free_by_fd fd s2) = (q, s3)" by fastforce
    have fr: "hooks (free_by_fd fd s2) = (hooks (sy sv))(fd := None)" "kern (free_by_fd fd s2) = kern s2"
      using D(8) [OF t] h2 by (auto simp: free_by_fd_def get_by_fd_def fun_eq_iff split: option.splits if_splits)
    have "hook_close (net_os net) fd s2 = Some (q, s3)" using on2 c by (simp add: hook_close_def)
    moreover have "tasks sv t = Some \<lparr>task_fd = - 1\<rparr>" using D(3) [of t] t by simp
    ultimately have run: "echo net pollf t fd sv =
        Some (sv\<lparr>sy := s3, g_readwrite := t # g_readwrite sv, points := (points sv)(t \<mapsto> AtYield)\<rparr>)"
      using read w(1) True by (auto simp: echo_def take_task_def)
    have "opn (kern s3) = (opn (kern (sy sv)))(fd := False)"
      using call_closes [OF net_okD(4) [OF K] c] fr(2) keepsD(1) [OF k2] by simp
    from retire_ok [OF I t this] call_hooks [OF c] fr(1) that [OF run] show thesis by simp
  qed
qed

lemma accept_returns:
  assumes K: "net_ok net opn" "setfl_ok net opn" and I: "server_ok opn base sv"
    and on: "hook_enabled (sy sv) = Some True"
  obtains sv' where "accept_turn net pollf sv = Some sv'" "server_ok opn base sv'"
proof (cases "g_readwrite sv")
  case Nil
  then have "accept_turn net pollf sv = Some (sv\<lparr>accepting := AtSleep\<rparr>)" by (simp add: accept_turn_def)
  from that [OF this] I show thesis by simp
next
  case (Cons t ts)
  note D = server_okD [OF I]
  show thesis
  proof (cases rule: co_accept_cases [OF K(1), of "g_listen_fd sv" "sy sv"])
    case (1 fd s1)
    then have "accept_turn net pollf sv = Some (sv\<lparr>sy := s1, accepting := AtAccept\<rparr>)"
      using Cons by (simp add: accept_turn_def)
    from that [OF this] server_ok_quiet [OF I 1(4,3)] show thesis by simp
  next
    case (2 fd s1)
    have g: "get_by_fd fd s1 = Some new_rpchook" "opn (kern s1) fd" "hook_enabled s1 = Some True"
      using 2 on by (simp_all add: get_by_fd_def)
    obtain r s2 h where sn: "SetNonBlock (net_os net) fd s1 = Some (r, s2)" "opn (kern s2) = opn (kern s1)"
      "hooks s2 = (hooks s1)(fd \<mapsto> h)" "unhooked (Some h)"
      using SetNonBlock_unhooks [OF K g(3,1,2)] by metis
    have t: "points sv t = Some AtYield" "tasks sv t = Some \<lparr>task_fd = - 1\<rparr>"
      using D(2,3) [of t] Cons by auto
    have idem: "(tasks sv)(t \<mapsto> \<lparr>task_fd = - 1\<rparr>) = tasks sv" using t(2) by (simp add: fun_upd_idem)
    have run: "accept_turn net pollf sv = Some (sv\<lparr>sy := s2, g_readwrite := ts,
        points := (points sv)(t \<mapsto> AtPoll fd), accepting := AtLoop\<rparr>)"
      using Cons 2 sn(1) t by (simp add: accept_turn_def run_task_def take_task_def idem)
    have "server_ok opn base (sv\<lparr>sy := s2, g_readwrite := ts, points := (points sv)(t \<mapsto> AtPoll fd)\<rparr>)"
      by (rule serve_ok [OF I Cons 2(2,3,4) trans [OF sn(2) 2(5)] _ sn(4)]) (use sn(3) 2(6) in simp)
    with that [OF run] show thesis by simp
  qed
qed

lemma server_step_ok:
  assumes K: "net_ok net opn" "setfl_ok net opn"
  shows "server_step net pollf opn sv sv' \<Longrightarrow> server_ok opn base sv \<Longrightarrow> server_ok opn base sv'"
proof (induction rule: server_step.induct)
  case (accept sv sv')
  obtain x where "accept_turn net pollf sv = Some x" "server_ok opn base x"
    using accept_returns [OF K accept.prems accept.hyps(2)] .
  with accept.hyps(3) show ?case by simp
next
  case (wake_task sv t fd sv')
  obtain x where "echo net pollf t fd sv = Some x" "server_ok opn base x" "accepting x = accepting sv"
    using echo_returns [OF K(1) wake_task.prems wake_task.hyps(1,2)] .
  with wake_task.hyps(1,3) show ?case by (simp add: run_task_def)
qed (simp_all add: server_ok_quiet)

interpretation srv: preserved "server_step net pollf opn"
  "\<lambda>sv. net_ok net opn \<longrightarrow> setfl_ok net opn \<longrightarrow> server_ok opn base sv" for net pollf opn base
  by unfold_locales (blast intro: server_step_ok)

text \<open>\<open>main\<close> starts with all coroutines in the pool.\<close>

lemma spawn_one:
  assumes I: "server_ok opn base sv" and new: "points sv a = None"
  obtains sv' where "run_task net pollf a (sv\<lparr>tasks := (tasks sv)(a \<mapsto> \<lparr>task_fd = - 1\<rparr>)\<rparr>) = Some sv'"
    "server_ok opn base sv'" "sy sv' = sy sv" "points sv' = (points sv)(a \<mapsto> AtYield)"
proof -
  note D = server_okD [OF I]
  let ?sv = "sv\<lparr>tasks := (tasks sv)(a \<mapsto> \<lparr>task_fd = - 1\<rparr>), g_readwrite := a # g_readwrite sv,
    points := (points sv)(a \<mapsto> AtYield)\<rparr>"
  have run: "run_task net pollf a (sv\<lparr>tasks := (tasks sv)(a \<mapsto> \<lparr>task_fd = - 1\<rparr>)\<rparr>) = Some ?sv"
    using new by (simp add: run_task_def take_task_def)
  have pt: "((points sv)(a \<mapsto> AtYield)) u = Some (AtPoll f) \<longleftrightarrow> points sv u = Some (AtPoll f)" for u f
    using new by simp
  have pool: "u \<in> set (a # g_readwrite sv) \<longleftrightarrow> ((points sv)(a \<mapsto> AtYield)) u = Some AtYield" for u
    using D(2) [of u] by simp
  have tk: "((points sv)(a \<mapsto> AtYield)) u \<noteq> None \<longleftrightarrow> ((tasks sv)(a \<mapsto> \<lparr>task_fd = - 1\<rparr>)) u = Some \<lparr>task_fd = - 1\<rparr>" for u
    using D(3) [of u] by simp
  have "a \<notin> set (g_readwrite sv)" using D(2) [of a] new by simp
  then have di: "distinct (a # g_readwrite sv)" using D(1) by simp
  have "server_ok opn base ?sv"
    by (rule server_okI; simp del: fun_upd_apply not_None_eq distinct.simps set_simps add: di pool tk D(5) pt)
      (blast intro: D(4), use D(6-9) in blast)
  from that [OF run this] show thesis by simp
qed

lemma spawn_ok:
  "server_ok opn base sv \<Longrightarrow> \<forall>i \<ge> a. points sv i = None \<Longrightarrow>
    \<exists>sv'. spawn_tasks net pollf n a sv = Some sv' \<and> server_ok opn base sv' \<and> sy sv' = sy sv"
proof (induction n arbitrary: a sv)
  case 0
  then show ?case by simp
next
  case (Suc n)
  have new: "points sv a = None" using Suc.prems(2) by simp
  obtain sv1 where 1: "run_task net pollf a (sv\<lparr>tasks := (tasks sv)(a \<mapsto> \<lparr>task_fd = - 1\<rparr>)\<rparr>) = Some sv1"
    "server_ok opn base sv1" "sy sv1 = sy sv" "points sv1 = (points sv)(a \<mapsto> AtYield)"
    using spawn_one [OF Suc.prems(1) new] .
  have "\<forall>i \<ge> Suc a. points sv1 i = None" using Suc.prems(2) 1(4) by simp
  from Suc.IH [OF 1(2) this] 1(1,3) show ?case by auto
qed

lemma echosvr_main_ok:
  assumes "echosvr_main net pollf ip port cnt pids s = Some (Inr sv)"
  shows "server_ok opn (opn (kern (sy sv))) sv"
proof -
  obtain fd s1 where "CreateTcpSocket net (word_of_int port) (Some ip) True s = Some (fd, s1)"
    using assms by (cases "CreateTcpSocket net (word_of_int port) (Some ip) True s") (auto simp: echosvr_main_def)
  moreover obtain q s2 where "call (sys_listen net fd 1024) s1 = (q, s2)" by fastforce
  ultimately obtain s1 where sp: "spawn_tasks net pollf (nat cnt) 0
      \<lparr>sy = s1, tasks = Map.empty, g_readwrite = [], g_listen_fd = fd, points = Map.empty, accepting = AtLoop\<rparr> = Some sv"
    using assms by (auto simp: echosvr_main_def bind_eq_Some_conv split: if_splits)
  have "server_ok opn (opn (kern s1))
      \<lparr>sy = s1, tasks = Map.empty, g_readwrite = [], g_listen_fd = fd, points = Map.empty, accepting = AtLoop\<rparr>"
    by (simp add: server_ok_def)
  from spawn_ok [OF this, of 0 net pollf "nat cnt"] sp show ?thesis by auto
qed

text \<open>
  C29: invariant. In every state the server reaches from \<open>main\<close>, the descriptors opened since the start and not yet
  closed are exactly those that a coroutine of the pool serves, each by one coroutine, so that no
  connection is lost or served twice; all other coroutines of the pool wait in \<open>g_readwrite\<close>, each once. Every turn of
  \<open>accept_routine\<close> and of a serving coroutine runs to its next switch.
\<close>

theorem connections_served_once:
  assumes "net_ok net opn" "setfl_ok net opn" "echosvr_main net pollf ip port cnt pids s = Some (Inr sv0)"
    and "(server_step net pollf opn)\<^sup>*\<^sup>* sv0 sv"
  shows "(\<forall>f. opn (kern (sy sv)) f = (opn (kern (sy sv0)) f \<or> (\<exists>t. points sv t = Some (AtPoll f)))) \<and>
    (\<forall>t f. points sv t = Some (AtPoll f) \<longrightarrow> \<not> opn (kern (sy sv0)) f \<and>
      (\<forall>u. points sv u = Some (AtPoll f) \<longrightarrow> u = t)) \<and>
    distinct (g_readwrite sv) \<and> set (g_readwrite sv) = {t. points sv t = Some AtYield} \<and>
    (hook_enabled (sy sv) = Some True \<longrightarrow> accept_turn net pollf sv \<noteq> None \<and>
      (\<forall>t f. points sv t = Some (AtPoll f) \<longrightarrow> run_task net pollf t sv \<noteq> None))"
proof -
  have I: "server_ok opn (opn (kern (sy sv0))) sv"
    using srv.reached [OF assms(4)] echosvr_main_ok [OF assms(3)] assms(1,2) by blast
  note D = server_okD [OF I]
  have "accept_turn net pollf sv \<noteq> None" if "hook_enabled (sy sv) = Some True"
    using accept_returns [OF assms(1,2) I that] by (metis option.distinct(1))
  moreover have "run_task net pollf t sv \<noteq> None" if "hook_enabled (sy sv) = Some True" "points sv t = Some (AtPoll f)" for t f
    using echo_returns [OF assms(1) I that(2,1), of pollf] that(2) by (auto simp: run_task_def)
  moreover have "\<forall>f. opn (kern (sy sv)) f = (opn (kern (sy sv0)) f \<or> (\<exists>t. points sv t = Some (AtPoll f)))"
    using D(5) by blast
  moreover have "\<forall>t f. points sv t = Some (AtPoll f) \<longrightarrow> \<not> opn (kern (sy sv0)) f \<and>
      (\<forall>u. points sv u = Some (AtPoll f) \<longrightarrow> u = t)"
    using D(4,7) by blast
  ultimately show ?thesis using D(1,2) by blast
qed

text \<open>
  C30: a closed connection can be served for ever. \<open>read\<close> returns 0 at the end of the stream and leaves \<open>errno\<close>
  alone; the routine tests \<open>errno == EAGAIN\<close> for 0 as for -1. Once \<open>accept_routine\<close> has found nothing to
  accept, \<open>errno\<close> is \<open>EAGAIN\<close>, and a coroutine whose client has closed polls again, each time at once, without
  closing the descriptor or leaving its loop: its turns change nothing.
\<close>

theorem closed_connection_kept:
  assumes "points sv t = Some (AtPoll fd)" "unhooked (get_by_fd fd (sy sv))" "hook_enabled (sy sv) = Some True"
    and "g_readwrite sv \<noteq> []" "sys_accept (net_os net) (g_listen_fd sv) (kern (sy sv)) = (- 1, Some EAGAIN, k)"
    and "sys_read (net_os net) fd (1024 * 16) k = ((0, []), None, k)"
  shows "\<exists>sv'. accept_turn net pollf sv = Some sv' \<and> points sv' t = Some (AtPoll fd) \<and>
    run_task net pollf t sv' = Some sv'"
proof -
  let ?s = "(sy sv)\<lparr>kern := k, hp := (hp (sy sv))\<lparr>errno := EAGAIN\<rparr>\<rparr>"
  let ?sv = "sv\<lparr>sy := ?s, accepting := AtAccept\<rparr>"
  have "accept_turn net pollf sv = Some ?sv"
    using assms(4,5) by (simp add: accept_turn_def co_accept_def call_def)
  moreover have "unhooked (get_by_fd fd ?s)" "hook_enabled ?s = Some True"
    using assms(2,3) get_by_fd_cong [of ?s "sy sv" fd] by (simp_all add: hook_enabled_def)
  then have "echo net pollf t fd ?sv = Some ?sv"
    using assms(1,6) by (simp add: echo_def hook_read_def call_def fun_upd_idem)
  ultimately show ?thesis using assms(1) by (simp add: run_task_def)
qed

text \<open>
  A \<open>write\<close> that takes only a part of what was read: the rest of the buffer is never written, the routine
  reads on.
\<close>

theorem short_write_drops:
  assumes "points sv t = Some (AtPoll fd)" "unhooked (get_by_fd fd (sy sv))" "hook_enabled (sy sv) = Some True"
    and "sys_read (net_os net) fd (1024 * 16) (kern (sy sv)) = ((int (length buf), buf), None, k)" "buf \<noteq> []"
    and "sys_write (net_os net) fd buf k = (m, None, k')" "0 < m"
  shows "run_task net pollf t sv = Some (sv\<lparr>sy := (sy sv)\<lparr>kern := k'\<rparr>\<rparr>)"
proof -
  let ?s = "(sy sv)\<lparr>kern := k\<rparr>"
  have "hook_read (net_os net) pollf fd (1024 * 16) (sy sv) = Some ((int (length buf), buf), ?s)"
    using assms(2,3,4) by (simp add: hook_read_def call_def)
  moreover have "unhooked (get_by_fd fd ?s)" "hook_enabled ?s = Some True"
    using assms(2,3) get_by_fd_cong [of ?s "sy sv" fd] by (simp_all add: hook_enabled_def)
  then have "hook_write (net_os net) pollf fd buf ?s = Some (m, (sy sv)\<lparr>kern := k'\<rparr>)"
    using assms(6) by (simp add: hook_write_def call_def)
  ultimately show ?thesis
    using assms(1,5,7) by (simp add: run_task_def echo_def fun_upd_idem)
qed

section \<open>A run\<close>

definition demo_srv :: "int list net" where
  "demo_srv = demo_net ((0, []), None) 100"

lemma demo_setfl: "setfl_ok demo_srv demo_open"
  by (simp add: setfl_ok_def demo_srv_def demo_net_def)

lemma demo_main:
  obtains sv0 where "echosvr_main demo_srv demo_ready ''*'' 12345 2 [0] demo_fds = Some (Inr sv0)"
    "g_readwrite sv0 = [1, 0]" "demo_open (kern (sy sv0)) 3"
    "accepting sv0 = AtLoop" "hook_enabled (sy sv0) = Some True"
proof -
  have K: "net_ok demo_srv demo_open" by (simp add: demo_srv_def demo_net_ok)
  obtain fd s1 where 1: "CreateTcpSocket demo_srv 12345 (Some ''*'') True demo_fds = Some (fd, s1)"
    "hook_enabled s1 = Some True"
    "if 0 \<le> fd then fd < fd_slots \<and> \<not> demo_open (kern demo_fds) fd \<and>
       demo_open (kern s1) = (demo_open (kern demo_fds))(fd := True)
     else demo_open (kern s1) = demo_open (kern demo_fds)"
    "(\<forall>fd ad k. fst (sys_bind demo_srv fd ad k) = 0) \<Longrightarrow>
       fst (sys_socket (net_os demo_srv) AF_INET SOCK_STREAM IPPROTO_TCP (kern demo_fds)) = fd"
    using CreateTcpSocket_opens [OF K demo_fds_enabled_now] by metis
  have fd: "fd = 3" using 1(4) by (simp add: demo_srv_def demo_net_def demo_fds_def demo_free_def)
  obtain q s2 where c: "call (sys_listen demo_srv fd 1024) s1 = (q, s2)" by fastforce
  note k2 = call_leaves [OF net_okD(13) [OF K] c]
  have on2: "hook_enabled s2 = Some True" using keepsD(2) [OF k2] 1(2) by simp
  obtain r s3 where s3: "SetNonBlock (net_os demo_srv) fd s2 = Some (r, s3)" "keeps demo_open s2 s3"
    using SetNonBlock_keeps [OF K on2] .
  show thesis
    by (rule that [of "\<lparr>sy = s3, tasks = [0 \<mapsto> \<lparr>task_fd = - 1\<rparr>, 1 \<mapsto> \<lparr>task_fd = - 1\<rparr>], g_readwrite = [1, 0],
       g_listen_fd = 3, points = [0 \<mapsto> AtYield, 1 \<mapsto> AtYield], accepting = AtLoop\<rparr>"])
      (use 1 fd c s3 k2 in \<open>simp_all add: echosvr_main_def numeral_2_eq_2 run_task_def take_task_def keeps_def\<close>)
qed

text \<open>The first connection is handed to the coroutine created last.\<close>

theorem connections_served_once_witness:
  "\<exists>sv0 sv. echosvr_main demo_srv demo_ready ''*'' 12345 2 [0] demo_fds = Some (Inr sv0) \<and>
     accept_turn demo_srv demo_ready sv0 = Some sv \<and>
     (\<forall>f. demo_open (kern (sy sv)) f = (demo_open (kern (sy sv0)) f \<or> (\<exists>t. points sv t = Some (AtPoll f)))) \<and>
     distinct (g_readwrite sv) \<and> set (g_readwrite sv) = {t. points sv t = Some AtYield}"
proof -
  have K: "net_ok demo_srv demo_open" by (simp add: demo_srv_def demo_net_ok)
  obtain sv0 where 0: "echosvr_main demo_srv demo_ready ''*'' 12345 2 [0] demo_fds = Some (Inr sv0)"
    "g_readwrite sv0 = [1, 0]" "demo_open (kern (sy sv0)) 3" "accepting sv0 = AtLoop"
    "hook_enabled (sy sv0) = Some True" by (rule demo_main)
  obtain sv where sv: "accept_turn demo_srv demo_ready sv0 = Some sv" "server_ok demo_open (demo_open (kern (sy sv0))) sv"
    using accept_returns [OF K demo_setfl echosvr_main_ok [OF 0(1)] 0(5)] .
  have "(server_step demo_srv demo_ready demo_open)\<^sup>*\<^sup>* sv0 sv"
    using server_step.accept [OF 0(4,5) sv(1)] by (rule r_into_rtranclp)
  from connections_served_once [OF K demo_setfl 0(1) this] 0(1) sv(1) show ?thesis by blast
qed

text \<open>A coroutine serves descriptor 4, its client has closed, and there is nothing to accept.\<close>

definition demo_closed :: "int list server" where
  "demo_closed = \<lparr>sy = demo_fds\<lparr>kern := [4, 3], hooks := [4 \<mapsto> new_rpchook\<lparr>user_flag := O_NONBLOCK\<rparr>]\<rparr>,
     tasks = [0 \<mapsto> \<lparr>task_fd = - 1\<rparr>, 1 \<mapsto> \<lparr>task_fd = - 1\<rparr>], g_readwrite = [0], g_listen_fd = 3,
     points = [0 \<mapsto> AtYield, 1 \<mapsto> AtPoll 4], accepting = AtLoop\<rparr>"

lemma demo_closed_enabled: "hook_enabled (sy demo_closed) = Some True"
  using demo_fds_enabled_now by (simp add: demo_closed_def hook_enabled_def)

theorem closed_connection_kept_witness:
  "\<exists>sv'. accept_turn demo_srv demo_ready demo_closed = Some sv' \<and> points sv' 1 = Some (AtPoll 4) \<and>
    run_task demo_srv demo_ready 1 sv' = Some sv'"
  by (rule closed_connection_kept [OF _ _ demo_closed_enabled, where k = "[4, 3]"])
    (simp_all add: demo_closed_def demo_srv_def demo_net_def get_by_fd_def fd_slots_def unhooked_def O_NONBLOCK_def)

end
