(* ===== verification/EchoClient.thy ===== *)
theory EchoClient
  imports Sockets
begin

text \<open>
  \<open>src/libco/example_echocli.cpp\<close>: coroutines that each keep one connection to the echo server, send eight
  bytes, read the answer and count successes and failures, which are printed every second.
\<close>

section \<open>The counters\<close>

text \<open>The globals \<open>iSuccCnt\<close>, \<open>iFailCnt\<close>, \<open>iTime\<close>, and the lines \<open>printf\<close> has written, the latest first.\<close>

record stats =
  iSuccCnt :: int
  iFailCnt :: int
  iTime :: int
  printed :: "(int \<times> int \<times> int) list"

text \<open>\<open>now\<close> is the result of \<open>time(NULL)\<close>, cut to an \<open>int\<close>.\<close>

definition AddSuccCnt :: "int \<Rightarrow> stats \<Rightarrow> stats option" where
  "AddSuccCnt now st = (if to_s32 now > iTime st
     then Some (st\<lparr>printed := (iTime st, iSuccCnt st, iFailCnt st) # printed st, iTime := to_s32 now,
       iSuccCnt := 0, iFailCnt := 0\<rparr>)
     else do { require (in_s32 (iSuccCnt st + 1)); Some (st\<lparr>iSuccCnt := iSuccCnt st + 1\<rparr>) })"

definition AddFailCnt :: "int \<Rightarrow> stats \<Rightarrow> stats option" where
  "AddFailCnt now st = (if to_s32 now > iTime st
     then Some (st\<lparr>printed := (iTime st, iSuccCnt st, iFailCnt st) # printed st, iTime := to_s32 now,
       iSuccCnt := 0, iFailCnt := 0\<rparr>)
     else do { require (in_s32 (iFailCnt st + 1)); Some (st\<lparr>iFailCnt := iFailCnt st + 1\<rparr>) })"

text \<open>A sequence of calls: whether each one is a success, and its time.\<close>

definition add_event :: "bool \<times> int \<Rightarrow> stats \<Rightarrow> stats option" where
  "add_event e st = (if fst e then AddSuccCnt (snd e) st else AddFailCnt (snd e) st)"

text \<open>All events counted: those printed and those since.\<close>

definition counted :: "stats \<Rightarrow> int" where
  "counted st = iSuccCnt st + iFailCnt st + (\<Sum>(_, s, f) \<leftarrow> printed st. s + f)"

lemma add_event_counted:
  assumes "add_event e st = Some st'"
  shows "counted st' + int (length (printed st')) = counted st + int (length (printed st)) + 1"
  using assms by (auto simp: add_event_def AddSuccCnt_def AddFailCnt_def counted_def split: if_splits)

text \<open>
  The counters miss one event a second. When the clock has moved on, \<open>AddSuccCnt\<close> and \<open>AddFailCnt\<close> print
  and clear the counters and do not count the event they were called for: over any sequence of calls, the
  counts printed and those in the counters add up to the number of calls less one for each line printed.
\<close>

theorem counters_miss_events:
  assumes "foldM add_event evs st = Some st'"
  shows "counted st' = counted st + int (length evs) - (int (length (printed st')) - int (length (printed st)))"
  using assms
proof (induction evs arbitrary: st)
  case Nil
  then show ?case by simp
next
  case (Cons e evs)
  then obtain u where u: "add_event e st = Some u" "foldM add_event evs u = Some st'"
    by (auto simp: bind_eq_Some_conv)
  from Cons.IH [OF u(2)] add_event_counted [OF u(1)] show ?case by simp
qed

definition stats0 :: stats where
  "stats0 = \<lparr>iSuccCnt = 0, iFailCnt = 0, iTime = 0, printed = []\<rparr>"

theorem counters_miss_events_witness:
  "\<exists>st. foldM add_event [(True, 10), (True, 10), (False, 11), (True, 11)] stats0 = Some st \<and>
     printed st = [(10, 1, 0), (0, 0, 0)] \<and>
     counted st = counted stats0 + 4 - (int (length (printed st)) - int (length (printed stats0)))"
proof -
  let ?st = "\<lparr>iSuccCnt = 1, iFailCnt = 0, iTime = 11, printed = [(10, 1, 0), (0, 0, 0)]\<rparr>"
  have run: "foldM add_event [(True, 10), (True, 10), (False, 11), (True, 11)] stats0 = Some ?st"
    by (simp add: add_event_def AddSuccCnt_def AddFailCnt_def stats0_def to_s32_id in_s32_def)
  with counters_miss_events [OF run] show ?thesis by (intro exI [of _ ?st]) simp
qed

section \<open>The routine\<close>

definition EALREADY :: int where "EALREADY = 114"

text \<open>The local \<open>fd\<close> of the routine, the counters and the rest of the process.\<close>

record 'k client =
  cli_fd :: int
  st :: stats
  csy :: "'k sys"

definition hello :: "byte list" where
  "hello = map of_char ''sarlmol'' @ [0]"

text \<open>\<open>close(fd); fd = -1; AddFailCnt();\<close> with \<open>clock\<close> the time a kernel shows.\<close>

definition drop_connection :: "'k net \<Rightarrow> ('k \<Rightarrow> int) \<Rightarrow> int \<Rightarrow> 'k sys \<Rightarrow> stats \<Rightarrow> 'k client option" where
  "drop_connection net clock fd s c = do {
     (_, s) \<leftarrow> hook_close (net_os net) fd s;
     c \<leftarrow> AddFailCnt (clock (kern s)) c;
     Some \<lparr>cli_fd = - 1, st = c, csy = s\<rparr> }"

text \<open>
  The block under \<open>if (fd < 0)\<close>: the new descriptor and whether it is usable; \<open>False\<close> stands for its two
  \<open>continue\<close>s, before which the caller drops the connection.
\<close>

definition open_connection ::
  "'k net \<Rightarrow> 'k poll_fun \<Rightarrow> string \<Rightarrow> 16 word \<Rightarrow> 'k sys \<Rightarrow> ((int \<times> bool) \<times> 'k sys) option" where
  "open_connection net pollf ip port s = do {
     (fd, s) \<leftarrow> hook_socket (net_os net) AF_INET SOCK_STREAM 0 s;
     (ret, s) \<leftarrow> hook_connect (net_os net) pollf fd (SetAddr (inet_addr net) (Some ip) port) s;
     if errno (hp s) = EALREADY \<or> errno (hp s) = EINPROGRESS then do {
       (_, _, s) \<leftarrow> poll_one pollf fd POLL_WRITE 200 s;
       let s = set_errno 0 s;
       let ((ret, error), s) = call (sys_getsockopt net fd) s;
       if ret = - 1 then Some ((fd, False), s)
       else if error \<noteq> 0 then Some ((fd, False), set_errno error s)
       else Some ((fd, True), s) }
     else Some ((fd, True), s) }"

text \<open>One turn of the loop.\<close>

definition client_round ::
  "'k net \<Rightarrow> 'k poll_fun \<Rightarrow> ('k \<Rightarrow> int) \<Rightarrow> string \<Rightarrow> 16 word \<Rightarrow> 'k client \<Rightarrow> 'k client option" where
  "client_round net pollf clock ip port cl = do {
     ((fd, ok), s) \<leftarrow> (if cli_fd cl < 0 then open_connection net pollf ip port (csy cl)
       else Some ((cli_fd cl, True), csy cl));
     if \<not> ok then drop_connection net clock fd s (st cl)
     else do {
       (ret, s) \<leftarrow> hook_write (net_os net) pollf fd hello s;
       if ret > 0 then do {
         ((ret, buf), s) \<leftarrow> hook_read (net_os net) pollf fd (1024 * 16) s;
         if ret \<le> 0 then drop_connection net clock fd s (st cl)
         else do {
           c \<leftarrow> AddSuccCnt (clock (kern s)) (st cl);
           Some \<lparr>cli_fd = fd, st = c, csy = s\<rparr> } }
       else drop_connection net clock fd s (st cl) } }"

section \<open>A client keeps one descriptor\<close>

lemma hook_read_keeps:
  assumes K: "net_ok net opn" and P: "poll_ok pollf opn" and on: "hook_enabled s = Some b"
  obtains r s' where "hook_read (net_os net) pollf fd n s = Some (r, s')" "keeps opn s s'"
proof (cases "b \<and> \<not> unhooked (get_by_fd fd s)")
  case False
  obtain r s' where c: "call (sys_read (net_os net) fd n) s = (r, s')" by fastforce
  with False on have "hook_read (net_os net) pollf fd n s = Some (r, s')" by (auto simp: hook_read_def)
  with that call_leaves [OF net_okD(9) [OF K] c] show thesis by blast
next
  case True
  then obtain h where h: "get_by_fd fd s = Some h" by (auto simp: unhooked_def split: option.splits)
  obtain q ev s1 where p: "poll_one pollf fd POLL_READ (timeout_ms (read_timeout h)) s = Some (q, ev, s1)" "keeps opn s s1"
    using poll_one_keeps [OF P on] .
  obtain r s' where c: "call (sys_read (net_os net) fd n) s1 = (r, s')" by fastforce
  have "hook_read (net_os net) pollf fd n s = Some (r, s')"
    using True h on p(1) c by (simp add: hook_read_def)
  with that keeps_trans [OF p(2) call_leaves [OF net_okD(9) [OF K] c]] show thesis by blast
qed

lemma write_loop_keeps:
  assumes K: "net_ok net opn" and P: "poll_ok pollf opn"
  shows "hook_enabled s = Some b \<Longrightarrow>
    \<exists>q n s'. write_loop (net_os net) pollf fd buf t r w s = Some (q, n, s') \<and> keeps opn s s'"
proof (induction "length buf - w" arbitrary: w r s rule: less_induct)
  case less
  show ?case
  proof (cases "w < length buf")
    case False
    then show ?thesis by (subst write_loop.simps) simp
  next
    case True
    obtain q ev s1 where p: "poll_one pollf fd POLL_WRITE t s = Some (q, ev, s1)" "keeps opn s s1"
      using poll_one_keeps [OF P less.prems] .
    obtain m s2 where c: "call (sys_write (net_os net) fd (drop w buf)) s1 = (m, s2)" by fastforce
    have k2: "keeps opn s s2" using p(2) call_leaves [OF net_okD(10) [OF K] c] by (rule keeps_trans)
    show ?thesis
    proof (cases "m \<le> 0")
      case True
      with \<open>w < length buf\<close> p(1) c k2 show ?thesis by (subst write_loop.simps) simp
    next
      case False
      have "hook_enabled s2 = Some b" using keepsD(2) [OF k2] less.prems by simp
      moreover have "length buf - (w + nat m) < length buf - w" using False \<open>w < length buf\<close> by simp
      ultimately obtain q n s' where
        "write_loop (net_os net) pollf fd buf t m (w + nat m) s2 = Some (q, n, s')" "keeps opn s2 s'"
        using less.hyps by blast
      with False \<open>w < length buf\<close> p(1) c keeps_trans [OF k2] show ?thesis by (subst write_loop.simps) simp
    qed
  qed
qed

lemma hook_write_keeps:
  assumes K: "net_ok net opn" and P: "poll_ok pollf opn" and on: "hook_enabled s = Some b"
  obtains r s' where "hook_write (net_os net) pollf fd buf s = Some (r, s')" "keeps opn s s'"
proof -
  obtain r s1 where c: "call (sys_write (net_os net) fd buf) s = (r, s1)" by fastforce
  note k1 = call_leaves [OF net_okD(10) [OF K] c]
  show thesis
  proof (cases "b \<and> \<not> unhooked (get_by_fd fd s) \<and> r \<noteq> 0")
    case False
    with on c have "hook_write (net_os net) pollf fd buf s = Some (r, s1)"
      by (auto simp: hook_write_def unhooked_def split: option.splits)
    with that k1 show thesis by blast
  next
    case True
    then obtain h where h: "get_by_fd fd s = Some h" by (auto simp: unhooked_def split: option.splits)
    have "hook_enabled s1 = Some b" using keepsD(2) [OF k1] on by simp
    then obtain q n s2 where w: "write_loop (net_os net) pollf fd buf (timeout_ms (write_timeout h)) r (nat r) s1 = Some (q, n, s2)"
      "keeps opn s1 s2"
      using write_loop_keeps [OF K P] by blast
    have "hook_write (net_os net) pollf fd buf s = Some (if q \<le> 0 \<and> n = 0 then q else int n, s2)"
      using True h on c w(1) by (simp add: hook_write_def)
    with that keeps_trans [OF k1 w(2)] show thesis by blast
  qed
qed

text \<open>\<open>base\<close> are the descriptors the routine did not open.\<close>

definition client_ok :: "('k \<Rightarrow> int \<Rightarrow> bool) \<Rightarrow> (int \<Rightarrow> bool) \<Rightarrow> int \<Rightarrow> 'k sys \<Rightarrow> bool" where
  "client_ok opn base fd s \<longleftrightarrow> hook_enabled s \<noteq> None \<and> \<not> base fd \<and>
     (\<forall>f. opn (kern s) f \<longleftrightarrow> base f \<or> 0 \<le> f \<and> f = fd)"

lemma client_ok_keeps: "client_ok opn base fd s \<Longrightarrow> keeps opn s s' \<Longrightarrow> client_ok opn base fd s'"
  by (simp add: client_ok_def keeps_def)

lemma client_ok_enabled: "client_ok opn base fd s \<Longrightarrow> \<exists>b. hook_enabled s = Some b"
  by (auto simp: client_ok_def)

text \<open>The counters have room for one more.\<close>

definition room :: "stats \<Rightarrow> bool" where
  "room c \<longleftrightarrow> in_s32 (iSuccCnt c + 1) \<and> in_s32 (iFailCnt c + 1)"

lemma drop_connection_returns:
  assumes K: "net_ok net opn" and I: "client_ok opn base fd s" and c: "room c"
  shows "\<exists>cl. drop_connection net clock fd s c = Some cl \<and> cli_fd cl = - 1 \<and>
     client_ok opn base (- 1) (csy cl) \<and> (\<exists>now. AddFailCnt now c = Some (st cl))"
proof -
  obtain b where on: "hook_enabled s = Some b" using client_ok_enabled [OF I] by blast
  obtain r s1 where 1: "hook_close (net_os net) fd s = Some (r, s1)" "opn (kern s1) = (opn (kern s))(fd := False)"
    "hook_enabled s1 = Some b"
    using hook_close_closes [OF K on] .
  have "base f \<Longrightarrow> 0 \<le> f" for f using I net_okD(1) [OF K] unfolding client_ok_def by blast
  then have "\<not> base (- 1)" by fastforce
  moreover have "opn (kern s1) f \<longleftrightarrow> base f \<or> 0 \<le> f \<and> f = - 1" for f
  proof -
    have "opn (kern s) f \<longleftrightarrow> base f \<or> 0 \<le> f \<and> f = fd" "\<not> base fd" "fd = - 1 \<longrightarrow> f = fd \<longrightarrow> f < 0"
      using I unfolding client_ok_def by auto
    then show ?thesis using 1(2) by (cases "f = fd") auto
  qed
  ultimately have ok: "client_ok opn base (- 1) s1" using 1(3) unfolding client_ok_def by simp
  have "AddFailCnt (clock (kern s1)) c \<noteq> None" using c by (simp add: AddFailCnt_def room_def)
  then obtain c' where "AddFailCnt (clock (kern s1)) c = Some c'" by blast
  with 1(1) ok show ?thesis by (auto simp: drop_connection_def)
qed

lemma open_connection_returns:
  assumes K: "net_ok net opn" and P: "poll_ok pollf opn" and I: "client_ok opn base fd s" and fd: "fd < 0"
  shows "\<exists>fd' ok s'. open_connection net pollf ip port s = Some ((fd', ok), s') \<and> client_ok opn base fd' s'"
proof -
  obtain b where on: "hook_enabled s = Some b" using client_ok_enabled [OF I] by blast
  obtain f s1 where 1: "hook_socket (net_os net) AF_INET SOCK_STREAM 0 s = Some (f, s1)" "hook_enabled s1 = Some b"
    "if 0 \<le> f then f < fd_slots \<and> \<not> opn (kern s) f \<and> opn (kern s1) = (opn (kern s))(f := True)
     else opn (kern s1) = opn (kern s)"
    using hook_socket_opens [OF K on] by metis
  have base: "opn (kern s) g \<longleftrightarrow> base g" for g using I fd by (auto simp: client_ok_def)
  have "\<not> base f" using 1(3) base net_okD(1) [OF K] by (metis not_le)
  then have ok1: "client_ok opn base f s1" using 1(2,3) base by (auto simp: client_ok_def split: if_splits)
  let ?ad = "SetAddr (inet_addr net) (Some ip) port"
  obtain r s2 where 2: "hook_connect (net_os net) pollf f ?ad s1 = Some (r, s2)" "keeps opn s1 s2"
    using hook_connect_keeps [OF K P 1(2)] .
  have ok2: "client_ok opn base f s2" using client_ok_keeps [OF ok1 2(2)] .
  have on2: "hook_enabled s2 = Some b" using keepsD(2) [OF 2(2)] 1(2) by simp
  obtain q ev s3 where 3: "poll_one pollf f POLL_WRITE 200 s2 = Some (q, ev, s3)" "keeps opn s2 s3"
    using poll_one_keeps [OF P on2] .
  obtain gr ge s4 where c: "call (sys_getsockopt net f) (set_errno 0 s3) = ((gr, ge), s4)" by (metis surj_pair)
  have "keeps opn s2 s4"
    using 3(2) call_leaves [OF net_okD(14) [OF K] c] by (simp add: keeps_def hook_enabled_def set_errno_def)
  then have ok4: "client_ok opn base f s4" "client_ok opn base f (set_errno ge s4)"
    using ok2 by (auto intro: client_ok_keeps)
  show ?thesis
    using 1(1) 2(1) 3(1) c ok2 ok4 by (simp add: open_connection_def) auto
qed

text \<open>
  The client keeps at most one connection. A turn of the loop of \<open>readwrite_routine\<close> returns, whether the socket
  can be had, connects, takes the message and answers or not; afterwards the descriptor in \<open>fd\<close> is the
  only one the routine has open, so that none is lost, and exactly one success or failure has been reported
  to the counters.
\<close>

theorem client_keeps_one_connection:
  assumes "net_ok net opn" "poll_ok pollf opn" "client_ok opn base (cli_fd cl) (csy cl)" "room (st cl)"
  shows "\<exists>cl'. client_round net pollf clock ip port cl = Some cl' \<and> client_ok opn base (cli_fd cl') (csy cl') \<and>
    (\<exists>now. AddFailCnt now (st cl) = Some (st cl') \<and> cli_fd cl' = - 1 \<or> AddSuccCnt now (st cl) = Some (st cl'))"
proof -
  define op where "op = (if cli_fd cl < 0 then open_connection net pollf ip port (csy cl)
       else Some ((cli_fd cl, True), csy cl))"
  obtain fd ok s where op: "op = Some ((fd, ok), s)" "client_ok opn base fd s"
  proof (cases "cli_fd cl < 0")
    case True
    then show thesis using open_connection_returns [OF assms(1-3) True] by (metis op_def that)
  next
    case False
    then show thesis using assms(3) by (intro that [of "cli_fd cl" True "csy cl"]) (simp_all add: op_def)
  qed
  have fails: "\<exists>cl'. drop_connection net clock fd u (st cl) = Some cl' \<and> client_ok opn base (cli_fd cl') (csy cl') \<and>
    (\<exists>now. AddFailCnt now (st cl) = Some (st cl') \<and> cli_fd cl' = - 1 \<or> AddSuccCnt now (st cl) = Some (st cl'))"
    if "client_ok opn base fd u" for u
    using drop_connection_returns [OF assms(1) that assms(4)] by metis
  obtain b where on: "hook_enabled s = Some b" using client_ok_enabled [OF op(2)] by blast
  obtain r s1 where w: "hook_write (net_os net) pollf fd hello s = Some (r, s1)" "keeps opn s s1"
    using hook_write_keeps [OF assms(1,2) on] .
  have on1: "hook_enabled s1 = Some b" using keepsD(2) [OF w(2)] on by simp
  obtain q buf s2 where r: "hook_read (net_os net) pollf fd (1024 * 16) s1 = Some ((q, buf), s2)" "keeps opn s1 s2"
    using hook_read_keeps [OF assms(1,2) on1] by (metis surj_pair)
  note ok1 = client_ok_keeps [OF op(2) w(2)]
  note ok2 = client_ok_keeps [OF ok1 r(2)]
  have run: "client_round net pollf clock ip port cl = (
      if \<not> ok then drop_connection net clock fd s (st cl)
      else if r > 0 then if q \<le> 0 then drop_connection net clock fd s2 (st cl)
        else AddSuccCnt (clock (kern s2)) (st cl) \<bind> (\<lambda>c. Some \<lparr>cli_fd = fd, st = c, csy = s2\<rparr>)
      else drop_connection net clock fd s1 (st cl))"
    using op(1) w(1) r(1) by (simp add: client_round_def op_def [symmetric])
  have "AddSuccCnt (clock (kern s2)) (st cl) \<noteq> None" using assms(4) by (simp add: AddSuccCnt_def room_def)
  then show ?thesis
    unfolding run using fails [OF op(2)] fails [OF ok1] fails [OF ok2] ok2 by auto
qed

definition demo_client :: "int list client" where
  "demo_client = \<lparr>cli_fd = - 1, st = stats0, csy = demo_fds\<rparr>"

theorem client_keeps_one_connection_witness:
  "\<exists>cl'. client_round (demo_net ((8, hello), None) 100) demo_ready (\<lambda>_. 10) ''127.0.0.1'' 10000 demo_client = Some cl' \<and>
    client_ok demo_open (\<lambda>_. False) (cli_fd cl') (csy cl') \<and>
    (\<exists>now. AddFailCnt now (st demo_client) = Some (st cl') \<and> cli_fd cl' = - 1 \<or>
       AddSuccCnt now (st demo_client) = Some (st cl'))"
  by (rule client_keeps_one_connection [OF demo_net_ok demo_ready_ok])
    (use demo_fds_enabled_now in \<open>simp_all add: demo_client_def client_ok_def demo_open_def demo_fds_def room_def stats0_def in_s32_def\<close>)

end
